(* ===== verification/Bitfield.thy ===== *)
theory Bitfield
  imports Prelude
begin

text \<open>
  Field extraction from a frame of bits, one bit per byte (protodec.c: \<^verbatim>\<open>protodec_henten\<close>,
  \<^verbatim>\<open>protodec_decode_sixbit_ascii\<close>, \<^verbatim>\<open>remove_trailing_spaces\<close>, and the loop that
  every message decoder uses to read a six-bit text field).
\<close>

section \<open>The source\<close>

text \<open>
  \<^verbatim>\<open>frame[..] << n\<close> shifts a promoted \<^verbatim>\<open>int\<close>; a result that does not fit is
  undefined, a result that fits is converted to \<^verbatim>\<open>unsigned long\<close>.
\<close>

definition shl_int :: "u8 \<Rightarrow> nat \<Rightarrow> u64 option" where
  "shl_int b n = (if n < 32 \<and> unat b * 2 ^ n < 2 ^ 31 then Some (push_bit n (ucast b)) else None)"

function henten_loop :: "nat \<Rightarrow> nat \<Rightarrow> u8 list \<Rightarrow> nat \<Rightarrow> u64 \<Rightarrow> u64 option" where
  "henten_loop from sz frame i tmp =
     (if i < sz
      then do {
        b \<leftarrow> arr_get frame (from + i);
        x \<leftarrow> shl_int b (sz - 1 - i);
        henten_loop from sz frame (Suc i) (tmp OR x)
      }
      else Some tmp)"
  by pat_completeness auto
termination
  by (relation "measure (\<lambda>(from, sz, frame, i, tmp). sz - i)") auto

declare henten_loop.simps [simp del]

definition protodec_henten :: "nat \<Rightarrow> nat \<Rightarrow> u8 list \<Rightarrow> u64 option" where
  "protodec_henten from sz frame = henten_loop from sz frame 0 0"

definition protodec_decode_sixbit_ascii :: "u8 \<Rightarrow> u8 list \<Rightarrow> nat \<Rightarrow> u8 list option" where
  "protodec_decode_sixbit_ascii sixbit name pos =
     (if sint sixbit \<ge> 1 \<and> sint sixbit \<le> 31 then arr_set name pos (sixbit + 64)
      else if sint sixbit \<ge> 32 \<and> sint sixbit \<le> 63 then arr_set name pos sixbit
      else arr_set name pos 32)"

text \<open>The loop index runs downwards; \<^verbatim>\<open>i = -1\<close> in the source leaves the loop.\<close>

fun trailing_loop :: "nat \<Rightarrow> u8 list \<Rightarrow> u8 list option" where
  "trailing_loop 0 s = Some s"
| "trailing_loop (Suc i) s = do {
     c \<leftarrow> arr_get s i;
     if c = 32 \<or> c = 0
     then do { s \<leftarrow> arr_set s i 0; trailing_loop i s }
     else Some s
   }"

definition remove_trailing_spaces :: "u8 list \<Rightarrow> nat \<Rightarrow> u8 list option" where
  "remove_trailing_spaces s len = do { s \<leftarrow> arr_set s len 0; trailing_loop len s }"

function sixbit_loop :: "u8 list \<Rightarrow> nat \<Rightarrow> nat \<Rightarrow> nat \<Rightarrow> u8 list \<Rightarrow> u8 list option" where
  "sixbit_loop frame n k pos name =
     (if k < n
      then do {
        letter \<leftarrow> protodec_henten pos 6 frame;
        name \<leftarrow> protodec_decode_sixbit_ascii (ucast letter) name k;
        sixbit_loop frame n (Suc k) (pos + 6) name
      }
      else Some name)"
  by pat_completeness auto
termination
  by (relation "measure (\<lambda>(frame, n, k, pos, name). n - k)") auto

declare sixbit_loop.simps [simp del]

text \<open>
  One text field: the loop over \<open>n\<close> letters from bit \<open>pos\<close>, the terminating zero, and the
  removal of trailing spaces, into the local array \<open>name\<close> of \<open>n + 1\<close> bytes.
\<close>

definition sixbit_field :: "u8 list \<Rightarrow> nat \<Rightarrow> nat \<Rightarrow> u8 list \<Rightarrow> u8 list option" where
  "sixbit_field frame pos n name = do {
     name \<leftarrow> sixbit_loop frame n 0 pos name;
     name \<leftarrow> arr_set name n 0;
     remove_trailing_spaces name n
   }"

section \<open>Frames of bits\<close>

definition bits01 :: "u8 list \<Rightarrow> bool" where
  "bits01 frame \<longleftrightarrow> (\<forall>b \<in> set frame. b = 0 \<or> b = 1)"

lemma bits01_simps [simp]:
  "bits01 []"
  "bits01 (b # bs) \<longleftrightarrow> (b = 0 \<or> b = 1) \<and> bits01 bs"
  "bits01 (as @ bs) \<longleftrightarrow> bits01 as \<and> bits01 bs"
  "bits01 (replicate n 0)"
  by (auto simp: bits01_def)

lemma bits01_nth: "bits01 frame \<Longrightarrow> i < length frame \<Longrightarrow> frame ! i = 0 \<or> frame ! i = 1"
  by (auto simp: bits01_def)

lemma bits01_update: "bits01 frame \<Longrightarrow> b = 0 \<or> b = 1 \<Longrightarrow> bits01 (frame[i := b])"
  using set_update_subset_insert [of frame i b] by (auto simp: bits01_def)

section \<open>What protodec_henten returns\<close>

lemma shl_int_bit: "b = 0 \<or> b = 1 \<Longrightarrow> n \<le> 30 \<Longrightarrow> shl_int b n = Some (push_bit n (ucast b))"
  using power_strict_increasing [of n 31 "2::nat"] by (auto simp: shl_int_def)

lemma henten_loop_bits:
  assumes "bits01 frame" and "from + sz \<le> length frame" and "sz \<le> 31" and "i \<le> sz"
  shows "\<exists>v. henten_loop from sz frame i tmp = Some v \<and>
    (\<forall>j. bit v j \<longleftrightarrow> bit tmp j \<or> (j + i < sz \<and> frame ! (from + (sz - 1 - j)) = 1))"
  using assms
proof (induction "sz - i" arbitrary: i tmp)
  case 0
  then show ?case by (simp add: henten_loop.simps)
next
  case (Suc m)
  let ?b = "frame ! (from + i)"
  have i: "i < sz" and m: "m = sz - Suc i" using Suc.hyps by simp_all
  have b: "?b = 0 \<or> ?b = 1" using Suc.prems i by (intro bits01_nth) simp_all
  have step: "henten_loop from sz frame i tmp
      = henten_loop from sz frame (Suc i) (tmp OR push_bit (sz - 1 - i) (ucast ?b))"
    using i Suc.prems b by (subst henten_loop.simps) (simp add: shl_int_bit)
  obtain v where v: "henten_loop from sz frame i tmp = Some v"
    and bv: "\<And>j. bit v j \<longleftrightarrow> bit (tmp OR push_bit (sz - 1 - i) (ucast ?b)) j
           \<or> (j + Suc i < sz \<and> frame ! (from + (sz - 1 - j)) = 1)"
    using Suc.hyps(1) [of "Suc i" "tmp OR push_bit (sz - 1 - i) (ucast ?b)"]
      Suc.prems i m step by auto
  have one: "bit (push_bit (sz - 1 - i) (ucast ?b) :: u64) j \<longleftrightarrow> j = sz - 1 - i \<and> ?b = 1" for j
    using b i Suc.prems(3) by (auto simp: bit_push_bit_iff bit_1_iff)
  have "bit v j \<longleftrightarrow> bit tmp j \<or> (j + i < sz \<and> frame ! (from + (sz - 1 - j)) = 1)" for j
  proof (cases "j = sz - 1 - i")
    case True
    then have "sz - 1 - j = i" and "j + i < sz" and "\<not> j + Suc i < sz" using i by simp_all
    then show ?thesis using True by (simp add: bv bit_or_iff one [simplified])
  next
    case False
    then have "j + Suc i < sz \<longleftrightarrow> j + i < sz" using i by auto
    then show ?thesis using False by (simp add: bv bit_or_iff one [simplified])
  qed
  with v show ?case by blast
qed

lemma henten_bits:
  assumes "bits01 frame" and "from + sz \<le> length frame" and "sz \<le> 31"
  shows "\<exists>v. protodec_henten from sz frame = Some v \<and>
    (\<forall>j. bit v j \<longleftrightarrow> j < sz \<and> frame ! (from + (sz - 1 - j)) = 1)"
  using henten_loop_bits [OF assms, of 0 0] by (simp add: protodec_henten_def)


text \<open>The reference value of a field: its bits read as an unsigned number, first bit highest.\<close>

definition field :: "nat \<Rightarrow> nat \<Rightarrow> u8 list \<Rightarrow> u64" where
  "field from sz frame = horner_sum of_bool 2 (rev (map (\<lambda>b. b = 1) (take sz (drop from frame))))"

lemma bit_field:
  assumes "from + sz \<le> length frame" and "sz \<le> 64"
  shows "bit (field from sz frame) j \<longleftrightarrow> j < sz \<and> frame ! (from + (sz - 1 - j)) = 1"
  using assms by (auto simp: field_def bit_horner_sum_bit_word_iff rev_nth)

lemma henten_field [safe_intros]:
  assumes "bits01 frame" and "from + sz \<le> length frame" and "sz \<le> 31"
  shows "protodec_henten from sz frame = Some (field from sz frame)"
proof -
  obtain v where v: "protodec_henten from sz frame = Some v"
    and b: "\<And>j. bit v j \<longleftrightarrow> j < sz \<and> frame ! (from + (sz - 1 - j)) = 1"
    using henten_bits [OF assms] by blast
  have "v = field from sz frame"
    using assms by (intro bit_eqI) (simp add: b bit_field)
  with v show ?thesis by simp
qed

lemma field_bound:
  assumes "from + sz \<le> length frame" and "sz \<le> 63"
  shows "unat (field from sz frame) < 2 ^ sz"
proof -
  have "take_bit sz (field from sz frame) = field from sz frame"
    using assms by (intro bit_eqI) (auto simp: bit_take_bit_iff bit_field)
  then have "unat (field from sz frame) = take_bit sz (unat (field from sz frame))"
    by (metis unsigned_take_bit_eq)
  also have "\<dots> < 2 ^ sz" by (rule take_bit_nat_less_exp)
  finally show ?thesis .
qed

definition enc_bits :: "nat \<Rightarrow> nat \<Rightarrow> u8 list" where
  "enc_bits sz x = map (\<lambda>i. of_bool (bit x (sz - 1 - i))) [0..<sz]"

lemma enc_bits_length [simp]: "length (enc_bits sz x) = sz"
  by (simp add: enc_bits_def)

lemma bits01_enc_bits [simp]: "bits01 (enc_bits sz x)"
  by (auto simp: bits01_def enc_bits_def)

lemma enc_bits_field:
  assumes "bits01 frame" and "from + sz \<le> length frame" and "sz \<le> 63"
  shows "enc_bits sz (unat (field from sz frame)) = take sz (drop from frame)"
proof (rule nth_equalityI)
  fix i assume "i < length (enc_bits sz (unat (field from sz frame)))"
  then have i: "i < sz" by simp
  have "bit (field from sz frame) (sz - 1 - i) \<longleftrightarrow> frame ! (from + i) = 1"
    using bit_field [of "from" sz frame "sz - 1 - i"] assms i by auto
  moreover have "frame ! (from + i) = 0 \<or> frame ! (from + i) = 1"
    using bits01_nth [OF assms(1), of "from + i"] assms(2) i by simp
  ultimately show "enc_bits sz (unat (field from sz frame)) ! i = take sz (drop from frame) ! i"
    using i assms(2) by (auto simp: enc_bits_def bit_unsigned_iff)
qed (use assms in simp)

lemma field_enc_bits:
  assumes "x < 2 ^ sz" and "sz \<le> 31"
  shows "field (length pre) sz (pre @ enc_bits sz x @ post) = of_nat x"
proof (rule bit_eqI)
  fix j
  assume "possible_bit TYPE(64 word) j"
  then have "bit (of_nat x :: u64) j = bit x j"
    by (simp add: bit_of_nat_iff)
  moreover have "bit x j \<Longrightarrow> j < sz"
    using assms(1) by (metis bit_take_bit_iff take_bit_nat_eq_self)
  moreover have "enc_bits sz x ! (sz - 1 - j) = 1 \<longleftrightarrow> bit x j" if "j < sz"
    using that by (simp add: enc_bits_def)
  ultimately show "bit (field (length pre) sz (pre @ enc_bits sz x @ post)) j = bit (of_nat x :: u64) j"
    using assms(2) by (auto simp: bit_field nth_append)
qed

text \<open>
  Reading back a field. A number \<open>x\<close> that fits \<open>sz\<close> bits, written most significant
  bit first anywhere inside a frame of bits, is returned unchanged by
  \<^const>\<open>protodec_henten\<close>, for every field width up to 31.
\<close>

theorem henten_roundtrip:
  assumes "x < 2 ^ sz" and "sz \<le> 31" and "bits01 pre" and "bits01 post"
  shows "protodec_henten (length pre) sz (pre @ enc_bits sz x @ post) = Some (of_nat x)"
  using assms by (simp add: henten_field field_enc_bits)

theorem henten_roundtrip_witness:
  "protodec_henten 3 6 ([1, 0, 1] @ enc_bits 6 41 @ [1, 1]) = Some 41"
proof -
  have "protodec_henten (length [1, 0, 1 :: u8]) 6 ([1, 0, 1] @ enc_bits 6 41 @ [1, 1]) = Some (of_nat 41)"
    by (rule henten_roundtrip) simp_all
  then show ?thesis by (simp add: numeral_eq_Suc)
qed

text \<open>
  Where the reader is not defined. A field that reaches past the end of the frame makes
  \<^const>\<open>protodec_henten\<close> undefined: the source does no bounds check of its own, every
  caller must.
\<close>

theorem henten_out_of_bounds:
  assumes "length frame < from + sz" and "0 < sz"
  shows "protodec_henten from sz frame = None"
proof -
  have "henten_loop from sz frame i tmp = None" if "i < sz" for i tmp
    using that
  proof (induction "sz - i" arbitrary: i tmp)
    case (Suc m)
    show ?case
    proof (cases "from + i < length frame")
      case True
      then have "Suc i < sz" using assms(1) by simp
      moreover have "m = sz - Suc i" using Suc.hyps(2) by simp
      ultimately have "henten_loop from sz frame (Suc i) t = None" for t
        using Suc.hyps(1) by blast
      then show ?thesis using Suc.prems by (subst henten_loop.simps) (simp split: Option.bind_splits)
    next
      case False
      then show ?thesis using Suc.prems by (subst henten_loop.simps) simp
    qed
  qed simp
  then show ?thesis using assms(2) by (simp add: protodec_henten_def)
qed


theorem henten_out_of_bounds_witness: "protodec_henten 2 6 [1, 0, 1, 1] = None"
  by (rule henten_out_of_bounds) simp_all

section \<open>Text fields\<close>

definition sixbit_char :: "u64 \<Rightarrow> u8" where
  "sixbit_char v = (if 1 \<le> v \<and> v \<le> 31 then ucast v + 64 else if 32 \<le> v then ucast v else 32)"

definition text_field :: "u8 list \<Rightarrow> nat \<Rightarrow> nat \<Rightarrow> u8 list" where
  "text_field frame pos n = map (\<lambda>k. sixbit_char (field (pos + 6 * k) 6 frame)) [0..<n]"

lemma text_field_length [simp]: "length (text_field frame pos n) = n"
  by (simp add: text_field_def)

lemma text_field_Suc:
  "text_field frame pos (Suc n) = sixbit_char (field pos 6 frame) # text_field frame (pos + 6) n"
  by (rule nth_equalityI) (auto simp: text_field_def nth_Cons' algebra_simps simp del: upt_Suc)

definition blank :: "u8 \<Rightarrow> bool" where
  "blank c \<longleftrightarrow> c = 32 \<or> c = 0"

definition rstrip :: "u8 list \<Rightarrow> u8 list" where
  "rstrip s = rev (dropWhile blank (rev s))"

text \<open>A C string: the bytes before the first zero.\<close>

definition c_str :: "u8 list \<Rightarrow> u8 list" where
  "c_str s = takeWhile (\<lambda>c. c \<noteq> 0) s"

lemma rstrip_simps [simp]:
  "rstrip [] = []"
  "rstrip (s @ [c]) = (if blank c then rstrip s else s @ [c])"
  by (simp_all add: rstrip_def)

lemma rstrip_length: "length (rstrip s) \<le> length s"
  by (metis length_dropWhile_le length_rev rstrip_def)

lemma trailing_loop_rstrip:
  "n \<le> length s \<Longrightarrow>
     trailing_loop n s
       = Some (rstrip (take n s) @ replicate (n - length (rstrip (take n s))) 0 @ drop n s)"
proof (induction n arbitrary: s)
  case (Suc n)
  let ?c = "s ! n"
  have n: "n < length s" using Suc.prems by simp
  have tk: "take (Suc n) s = take n s @ [?c]" using n by (rule take_Suc_conv_app_nth)
  have dr: "drop n s = ?c # drop (Suc n) s" using n by (rule Cons_nth_drop_Suc [symmetric])
  show ?case
  proof (cases "blank ?c")
    case True
    have "trailing_loop (Suc n) s = trailing_loop n (s[n := 0])"
      using True n by (simp add: blank_def)
    also have "\<dots> = Some (rstrip (take n s) @ replicate (n - length (rstrip (take n s))) 0 @ 0 # drop (Suc n) s)"
      using Suc.IH [of "s[n := 0]"] n by (simp add: drop_update_swap dr)
    also have "replicate (n - length (rstrip (take n s))) 0 @ 0 # drop (Suc n) s
        = replicate (Suc n - length (rstrip (take n s))) 0 @ drop (Suc n) s"
      using rstrip_length [of "take n s"] n
      by (simp add: Suc_diff_le replicate_app_Cons_same)
    finally show ?thesis using True tk by simp
  next
    case False
    then have "rstrip (take (Suc n) s) = take (Suc n) s" using tk by simp
    with False n show ?thesis by (simp add: blank_def)
  qed
qed simp

lemma remove_trailing_spaces_eq:
  assumes "n < length s"
  shows "remove_trailing_spaces s n
    = Some (rstrip (take n s) @ replicate (n - length (rstrip (take n s))) 0 @ 0 # drop (Suc n) s)"
proof -
  have "drop n (s[n := 0]) = 0 # drop (Suc n) s"
    using assms Cons_nth_drop_Suc [of n "s[n := 0]"] by simp
  then show ?thesis using assms by (simp add: remove_trailing_spaces_def trailing_loop_rstrip)
qed

lemma sixbit_small:
  assumes "unat (v :: u64) < 64"
  shows "sint (ucast v :: u8) = uint v" and "uint v < 64"
proof -
  have "uint v = int (unat v)" by simp
  with assms show lt: "uint v < 64" by linarith
  then have "uint (ucast v :: u8) = uint v"
    by (simp add: unsigned_ucast_eq take_bit_int_eq_self)
  moreover have "sint (ucast v :: u8) = signed_take_bit 7 (uint (ucast v :: u8))"
    by (simp add: sint_uint)
  moreover have "- (2 ^ 7) \<le> uint v" using uint_ge_0 [of v] by (rule order_trans [rotated]) simp
  ultimately show "sint (ucast v :: u8) = uint v"
    using lt by (simp add: signed_take_bit_int_eq_self)
qed

lemma decode_sixbit_char:
  assumes "unat v < 64" and "k < length name"
  shows "protodec_decode_sixbit_ascii (ucast v) name k = Some (name[k := sixbit_char v])"
  using assms sixbit_small [OF assms(1)]
  by (auto simp: protodec_decode_sixbit_ascii_def sixbit_char_def word_le_def)

lemma sixbit_loop_eq:
  assumes "bits01 frame" and "pos + 6 * (n - k) \<le> length frame" and "k \<le> n" and "n \<le> length name"
  shows "sixbit_loop frame n k pos name
    = Some (take k name @ text_field frame pos (n - k) @ drop n name)"
  using assms
proof (induction "n - k" arbitrary: k pos name)
  case 0
  then show ?case by (simp add: sixbit_loop.simps text_field_def)
next
  case (Suc m)
  have k: "k < n" and m: "m = n - Suc k" using Suc.hyps(2) by simp_all
  let ?v = "field pos 6 frame" and ?c = "sixbit_char (field pos 6 frame)"
  have p6: "pos + 6 \<le> length frame" and p6n: "pos + 6 + 6 * (n - Suc k) \<le> length frame"
    using Suc.prems(2) k by simp_all
  have "unat ?v < 2 ^ 6" using p6 by (intro field_bound) simp_all
  then have "sixbit_loop frame n k pos name = sixbit_loop frame n (Suc k) (pos + 6) (name[k := ?c])"
    using k Suc.prems p6
    by (subst sixbit_loop.simps) (simp add: henten_field decode_sixbit_char)
  also have "\<dots> = Some (take (Suc k) (name[k := ?c]) @ text_field frame (pos + 6) (n - Suc k)
      @ drop n (name[k := ?c]))"
    using Suc.prems k p6n m by (intro Suc.hyps(1)) simp_all
  also have "take (Suc k) (name[k := ?c]) = take k name @ [?c]"
    using k Suc.prems(4) by (simp add: take_Suc_conv_app_nth)
  finally show ?case using k by (simp add: text_field_Suc Suc_diff_Suc [symmetric])
qed


lemma sixbit_char_nonzero:
  assumes "unat v < 64"
  shows "sixbit_char v \<noteq> 0"
proof -
  have u: "uint (ucast v :: u8) = uint v"
    using sixbit_small(2) [OF assms] by (simp add: unsigned_ucast_eq take_bit_int_eq_self)
  have "ucast v + (64 :: u8) \<noteq> 0" if "v \<le> 31"
  proof -
    have "uint (ucast v + (64 :: u8)) = uint v + 64"
      using that u by (simp add: word_le_def uint_word_ariths)
    moreover have "uint v + 64 \<noteq> 0" using uint_ge_0 [of v] by linarith
    ultimately show ?thesis by force
  qed
  moreover have "(ucast v :: u8) \<noteq> 0" if "32 \<le> v"
    using that u by (auto simp: word_le_def word_uint_eq_iff)
  ultimately show ?thesis by (auto simp: sixbit_char_def)
qed

lemma text_field_nonzero:
  "pos + 6 * n \<le> length frame \<Longrightarrow> c \<in> set (text_field frame pos n) \<Longrightarrow> c \<noteq> 0"
  by (auto simp: text_field_def intro!: sixbit_char_nonzero
      order_less_le_trans [OF field_bound [where sz = 6]])

lemma rstrip_prefix: "\<exists>bs. s = rstrip s @ bs"
  by (metis dropWhile_eq_drop rev_append rev_rev_ident rstrip_def append_take_drop_id)

text \<open>
  The value of a text field in memory, whatever the local array held before: the stripped text,
  padded with zeros to the end of the array.
\<close>

lemma sixbit_field_eq [safe_intros]:
  assumes "bits01 frame" and "pos + 6 * n \<le> length frame" and "length name = Suc n"
  shows "sixbit_field frame pos n name
    = Some (rstrip (text_field frame pos n)
        @ replicate (Suc n - length (rstrip (text_field frame pos n))) 0)"
proof -
  let ?t = "text_field frame pos n"
  have "length (rstrip ?t) \<le> n" using rstrip_length [of ?t] by simp
  then have "replicate (n - length (rstrip ?t)) (0::u8) @ [0] = replicate (Suc n - length (rstrip ?t)) 0"
    by (simp add: Suc_diff_le replicate_append_same)
  then show ?thesis using assms
    by (simp add: sixbit_field_def sixbit_loop_eq remove_trailing_spaces_eq list_update_append)
qed

lemma sixbit_field_cstr:
  assumes "bits01 frame" and "pos + 6 * n \<le> length frame" and "length name = Suc n"
  shows "\<exists>s. sixbit_field frame pos n name = Some s \<and> length s = Suc n \<and> last s = 0
    \<and> c_str s = rstrip (text_field frame pos n)"
proof -
  let ?t = "rstrip (text_field frame pos n)"
  have len: "length ?t \<le> n" using rstrip_length [of "text_field frame pos n"] by simp
  have nz: "\<forall>c \<in> set ?t. c \<noteq> 0"
    using text_field_nonzero [OF assms(2)] rstrip_prefix [of "text_field frame pos n"]
    by (metis UnCI set_append)
  have "c_str (?t @ replicate (Suc n - length ?t) 0) = ?t"
    using nz len by (simp add: c_str_def takeWhile_append2 Suc_diff_le)
  moreover have "last (?t @ replicate (Suc n - length ?t) 0) = 0"
    using len by (simp add: last_append Suc_diff_le)
  ultimately show ?thesis using len by (simp add: sixbit_field_eq [OF assms])
qed

text \<open>
  C21. Text fields. For every frame of bits that holds the whole field, the decoded array is
  a terminated C string, and the string is the sequence of decoded six-bit letters without its
  trailing blanks.
\<close>

theorem sixbit_field_string:
  assumes "bits01 frame" and "pos + 6 * n \<le> length frame" and "length name = Suc n"
  shows "\<exists>s. sixbit_field frame pos n name = Some s \<and> length s = Suc n \<and> last s = 0
    \<and> c_str s = rstrip (text_field frame pos n)"
  using assms by (rule sixbit_field_cstr)

theorem sixbit_field_string_witness:
  "\<exists>s. sixbit_field (enc_bits 6 1 @ enc_bits 6 50 @ enc_bits 6 32 @ enc_bits 6 0) 0 4 [9, 9, 9, 9, 9] = Some s
    \<and> length s = 5 \<and> last s = 0
    \<and> c_str s = rstrip (text_field (enc_bits 6 1 @ enc_bits 6 50 @ enc_bits 6 32 @ enc_bits 6 0) 0 4)"
proof -
  let ?f = "enc_bits 6 1 @ enc_bits 6 50 @ enc_bits 6 32 @ enc_bits 6 0"
  have "bits01 ?f" by simp
  moreover have "0 + 6 * 4 \<le> length ?f" by simp
  moreover have "length [9, 9, 9, 9, 9 :: u8] = Suc 4" by simp
  ultimately show ?thesis using sixbit_field_string [of ?f 0 4 "[9, 9, 9, 9, 9]"]
    by (simp add: numeral_eq_Suc)
qed

section \<open>Encoding text\<close>

definition sixbit_printable :: "u8 \<Rightarrow> bool" where
  "sixbit_printable c \<longleftrightarrow> (32 \<le> c \<and> c \<le> 63) \<or> (65 \<le> c \<and> c \<le> 95)"

definition sixbit_code :: "u8 \<Rightarrow> nat" where
  "sixbit_code c = (if c \<ge> 64 then unat c - 64 else unat c)"

definition enc_text :: "u8 list \<Rightarrow> u8 list" where
  "enc_text ltrs = concat (map (\<lambda>c. enc_bits 6 (sixbit_code c)) ltrs)"

lemma enc_text_simps [simp]:
  "enc_text [] = []"
  "enc_text (c # ltrs) = enc_bits 6 (sixbit_code c) @ enc_text ltrs"
  by (simp_all add: enc_text_def)

lemma enc_text_length [simp]: "length (enc_text ltrs) = 6 * length ltrs"
  by (induction ltrs) simp_all

lemma bits01_enc_text [simp]: "bits01 (enc_text ltrs)"
  by (induction ltrs) simp_all

lemma sixbit_char_of_nat:
  assumes "n < 64"
  shows "sixbit_char (of_nat n)
    = (if 1 \<le> n \<and> n \<le> 31 then of_nat n + 64 else if 32 \<le> n then of_nat n else 32)"
proof -
  have "uint (of_nat n :: u64) = int n"
    using assms by (simp add: unsigned_of_nat take_bit_nat_eq_self)
  moreover have "ucast (of_nat n :: u64) = (of_nat n :: u8)"
    by (rule bit_word_eqI) (simp add: bit_ucast_iff bit_of_nat_iff)
  ultimately show ?thesis by (auto simp: sixbit_char_def word_le_def)
qed

lemma sixbit_char_zero [simp]: "sixbit_char 0 = 32"
  using sixbit_char_of_nat [of 0] by simp

lemma sixbit_char_code:
  assumes "sixbit_printable c"
  shows "sixbit_char (of_nat (sixbit_code c)) = c" and "sixbit_code c < 64"
proof -
  show lt: "sixbit_code c < 64"
    using assms by (auto simp: sixbit_printable_def sixbit_code_def word_le_nat_alt)
  show "sixbit_char (of_nat (sixbit_code c)) = c"
  proof (cases "64 \<le> c")
    case True
    then have "64 \<le> unat c" and k: "sixbit_code c = unat c - 64"
      by (simp_all add: word_le_nat_alt sixbit_code_def)
    then have "(of_nat (sixbit_code c) :: u8) + 64 = c" by (simp add: of_nat_diff)
    moreover have "1 \<le> sixbit_code c" and "sixbit_code c \<le> 31"
      using assms True by (auto simp: k sixbit_printable_def word_le_nat_alt)
    ultimately show ?thesis using lt by (simp only: sixbit_char_of_nat) simp
  next
    case False
    then have k: "sixbit_code c = unat c" by (simp add: sixbit_code_def)
    then have "(of_nat (sixbit_code c) :: u8) = c" by simp
    moreover have "32 \<le> sixbit_code c"
      using assms False by (auto simp: k sixbit_printable_def word_le_nat_alt)
    ultimately show ?thesis using lt by (simp only: sixbit_char_of_nat) simp
  qed
qed

lemma text_field_enc_text:
  assumes "\<forall>c \<in> set ltrs. sixbit_printable c"
  shows "text_field (pre @ enc_text ltrs @ post) (length pre) (length ltrs) = ltrs"
  using assms
proof (induction ltrs arbitrary: pre)
  case (Cons c ltrs)
  have "field (length pre) 6 (pre @ enc_bits 6 (sixbit_code c) @ enc_text ltrs @ post)
      = of_nat (sixbit_code c)"
    using Cons.prems sixbit_char_code(2) [of c] by (intro field_enc_bits) auto
  moreover have "text_field ((pre @ enc_bits 6 (sixbit_code c)) @ enc_text ltrs @ post)
      (length (pre @ enc_bits 6 (sixbit_code c))) (length ltrs) = ltrs"
    using Cons by (intro Cons.IH) auto
  ultimately show ?case
    using Cons.prems sixbit_char_code(1) [of c] by (simp add: text_field_Suc add.commute)
qed (simp add: text_field_def)

lemma text_field_add:
  "text_field frame pos (m + n) = text_field frame pos m @ text_field frame (pos + 6 * m) n"
  by (induction m arbitrary: pos) (simp_all add: text_field_Suc algebra_simps, simp add: text_field_def)

lemma text_field_zeros:
  "text_field (pre @ replicate (6 * n) 0 @ post) (length pre) n = replicate n 32"
proof (induction n arbitrary: pre)
  case (Suc n)
  have "field (length pre) 6 (pre @ replicate 6 0 @ replicate (6 * n) 0 @ post) = 0"
    by (rule bit_eqI) (auto simp: bit_field nth_append)
  moreover have "replicate (6 * Suc n) (0::u8) = replicate 6 0 @ replicate (6 * n) 0"
    by (simp flip: replicate_add)
  ultimately show ?case
    using Suc.IH [of "pre @ replicate 6 0"]
    by (simp add: text_field_Suc)
qed (simp add: text_field_def)

lemma rstrip_spaces: "ltrs = [] \<or> \<not> blank (last ltrs) \<Longrightarrow> rstrip (ltrs @ replicate k 32) = ltrs"
proof (induction k)
  case 0
  then show ?case by (cases ltrs rule: rev_cases) auto
next
  case (Suc k)
  have "ltrs @ replicate (Suc k) 32 = (ltrs @ replicate k 32) @ [32]"
    by (simp add: replicate_append_same)
  then show ?case using Suc by (simp only: rstrip_simps) (simp add: blank_def)
qed

lemma text_field_padded:
  assumes "\<forall>c \<in> set ltrs. sixbit_printable c" and "ltrs = [] \<or> last ltrs \<noteq> 32" and "length ltrs \<le> n"
  shows "rstrip (text_field (pre @ enc_text ltrs @ replicate (6 * (n - length ltrs)) 0 @ post) (length pre) n) = ltrs"
proof -
  let ?z = "replicate (6 * (n - length ltrs)) 0" and ?k = "n - length ltrs"
  let ?f = "pre @ enc_text ltrs @ ?z @ post"
  have n: "n = length ltrs + ?k" using assms(3) by simp
  have "text_field ?f (length pre) (length ltrs) = ltrs"
    using text_field_enc_text [OF assms(1), of pre "?z @ post"] by simp
  moreover have "text_field ?f (length pre + 6 * length ltrs) ?k = replicate ?k 32"
    using text_field_zeros [of "pre @ enc_text ltrs" ?k post] by simp
  ultimately have "text_field ?f (length pre) n = ltrs @ replicate ?k 32"
    by (metis n text_field_add)
  moreover have "sixbit_printable (last ltrs)" if "ltrs \<noteq> []"
    using that assms(1) last_in_set by blast
  then have "ltrs = [] \<or> \<not> blank (last ltrs)"
    using assms(2) by (auto simp: blank_def sixbit_printable_def)
  ultimately show ?thesis by (simp add: rstrip_spaces)
qed

text \<open>
  Names survive transmission. A text over the six-bit alphabet that does not end in a blank,
  sent as six-bit codes and padded with zero codes (\<^verbatim>\<open>@\<close>) to the width of the field, is the
  C string that the decoder's text loop leaves in its array.
\<close>

theorem text_roundtrip:
  assumes "\<forall>c \<in> set ltrs. sixbit_printable c" and "ltrs = [] \<or> last ltrs \<noteq> 32"
    and "length ltrs \<le> n" and "bits01 pre" and "bits01 post" and "length name = Suc n"
  shows "\<exists>s. sixbit_field (pre @ enc_text ltrs @ replicate (6 * (n - length ltrs)) 0 @ post)
      (length pre) n name = Some s \<and> c_str s = ltrs"
proof -
  let ?f = "pre @ enc_text ltrs @ replicate (6 * (n - length ltrs)) 0 @ post"
  have "bits01 ?f" and "length pre + 6 * n \<le> length ?f"
    using assms by (simp_all add: algebra_simps)
  then show ?thesis
    using sixbit_field_cstr [of ?f "length pre" n name] text_field_padded [OF assms(1-3), of pre post] assms(6) by auto
qed

theorem text_roundtrip_witness:
  "\<exists>s. sixbit_field ([1, 0] @ enc_text [78, 79, 32, 49] @ replicate (6 * (6 - length [78, 79, 32, 49 :: u8])) 0 @ [1])
      (length [1, 0 :: u8]) 6 (replicate 7 0) = Some s \<and> c_str s = [78, 79, 32, 49]"
  by (rule text_roundtrip) (simp_all add: sixbit_printable_def)

end
