(* ===== verification/Splay.thy ===== *)
theory Splay
  imports Prelude
begin

text \<open>
  splay.c: bottom-up splay trees over a heap of linked nodes. The heap is explicit, because the
  source works by re-linking shared nodes: a node is a record of three links, a key and the data
  it owns, an address is a \<^typ>\<open>nat\<close> and 0 is \<^verbatim>\<open>NULL\<close>. Reading or writing through
  a null or unallocated address is undefined (\<^const>\<open>None\<close>), and so is a loop that never ends
  (the loops are partial functions). The free list, the allocator and the three global counters are
  part of the state \<open>spmem\<close>; a tree header is the record \<open>sptree\<close>.
\<close>

section \<open>Memory\<close>

record 'd spblk =
  leftlink :: nat
  rightlink :: nat
  uplink :: nat
  key :: u32
  data :: "'d option"

type_synonym 'd cells = "nat \<rightharpoonup> 'd spblk"

record 'd spmem =
  cells :: "'d cells"
  brk :: nat
  sp_free_list :: nat
  sp_allocated :: int
  sp_entries :: int

record sptree =
  sp_root :: nat
  symbols :: nat
  eltscnt :: int
  lookups :: int
  lkpcmps :: int
  enqs :: int
  enqcmps :: int
  splays :: int
  splayloops :: int

definition ld :: "('d spblk \<Rightarrow> 'v) \<Rightarrow> 'd cells \<Rightarrow> nat \<Rightarrow> 'v option" where
  "ld f h p = (if p = 0 then None else map_option f (h p))"

definition st :: "('d spblk \<Rightarrow> 'd spblk) \<Rightarrow> 'd cells \<Rightarrow> nat \<Rightarrow> 'd cells option" where
  "st g h p = (if p = 0 then None else map_option (\<lambda>b. h(p \<mapsto> g b)) (h p))"

abbreviation set_left :: "'d cells \<Rightarrow> nat \<Rightarrow> nat \<Rightarrow> 'd cells option" where
  "set_left h p v \<equiv> st (leftlink_update (\<lambda>_. v)) h p"

abbreviation set_right :: "'d cells \<Rightarrow> nat \<Rightarrow> nat \<Rightarrow> 'd cells option" where
  "set_right h p v \<equiv> st (rightlink_update (\<lambda>_. v)) h p"

abbreviation set_up :: "'d cells \<Rightarrow> nat \<Rightarrow> nat \<Rightarrow> 'd cells option" where
  "set_up h p v \<equiv> st (uplink_update (\<lambda>_. v)) h p"

text \<open>\<^verbatim>\<open>if (p != NULL) p->uplink = v\<close>, which the source writes after every re-linking.\<close>

definition set_up_nn :: "'d cells \<Rightarrow> nat \<Rightarrow> nat \<Rightarrow> 'd cells option" where
  "set_up_nn h p v = (if p \<noteq> 0 then set_up h p v else Some h)"

section \<open>Free list\<close>

definition sp_free_blk :: "nat \<Rightarrow> 'd spmem \<Rightarrow> 'd spmem option" where
  "sp_free_blk n m = do {
     h \<leftarrow> set_up (cells m) n (sp_free_list m);
     Some (m\<lparr>cells := h, sp_free_list := n, sp_entries := sp_entries m - 1\<rparr>)
   }"

text \<open>
  \<^verbatim>\<open>hmalloc\<close> of one node: a fresh address; the contents are whatever the parameter
  \<open>junk\<close> says, since the source does not clear them.
\<close>

fun sp_alloc_loop :: "'d spblk \<Rightarrow> nat \<Rightarrow> 'd spmem \<Rightarrow> 'd spmem" where
  "sp_alloc_loop junk 0 m = m"
| "sp_alloc_loop junk (Suc i) m =
     sp_alloc_loop junk i
       (m\<lparr>cells := (cells m)(brk m \<mapsto> junk\<lparr>uplink := sp_free_list m\<rparr>), brk := Suc (brk m),
          sp_free_list := brk m, sp_allocated := sp_allocated m + 1\<rparr>)"

definition SP_ALLOC_N :: nat where
  "SP_ALLOC_N = 200"

definition sp_alloc_blk :: "'d spblk \<Rightarrow> 'd spmem \<Rightarrow> (nat \<times> 'd spmem) option" where
  "sp_alloc_blk junk m = do {
     let m = (if sp_free_list m = 0 then sp_alloc_loop junk SP_ALLOC_N m else m);
     let p = sp_free_list m;
     nxt \<leftarrow> ld uplink (cells m) p;
     Some (p, m\<lparr>sp_free_list := nxt, sp_entries := sp_entries m + 1\<rparr>)
   }"

text \<open>\<^verbatim>\<open>hfree\<close> makes the address unusable; the global list head itself is not reset.\<close>

partial_function (option) free_freelist_loop :: "nat \<Rightarrow> 'd spmem \<Rightarrow> 'd spmem option" where
  "free_freelist_loop nxt m =
     (if nxt \<noteq> 0
      then do {
        n \<leftarrow> ld uplink (cells m) nxt;
        free_freelist_loop n
          (m\<lparr>cells := (cells m)(nxt := None), sp_entries := sp_entries m - 1\<rparr>)
      }
      else Some m)"

definition sp_free_freelist :: "'d spmem \<Rightarrow> 'd spmem option" where
  "sp_free_freelist m = free_freelist_loop (sp_free_list m) m"

section \<open>Splaying\<close>

text \<open>
  The rotation of \<^verbatim>\<open>_splay\<close>, both mirror images: \<open>up\<close> is moved above its parent
  \<open>upup\<close>; the result is the new \<open>upup\<close>.
\<close>

definition rotate_left_child ::
    "nat \<Rightarrow> nat \<Rightarrow> sptree \<Rightarrow> 'd cells \<Rightarrow> ('d cells \<times> sptree \<times> nat) option" where
  "rotate_left_child up upup q h = do {
     upupup \<leftarrow> ld uplink h upup;
     ur \<leftarrow> ld rightlink h up;
     h \<leftarrow> set_left h upup ur;
     h \<leftarrow> set_up_nn h ur upup;
     h \<leftarrow> set_right h up upup;
     h \<leftarrow> set_up h upup up;
     (h, q) \<leftarrow> (if upupup = 0 then Some (h, q\<lparr>sp_root := up\<rparr>)
       else do {
         l \<leftarrow> ld leftlink h upupup;
         h \<leftarrow> (if l = upup then set_left h upupup up else set_right h upupup up);
         Some (h, q)
       });
     h \<leftarrow> set_up h up upupup;
     Some (h, q, upupup)
   }"

definition rotate_right_child ::
    "nat \<Rightarrow> nat \<Rightarrow> sptree \<Rightarrow> 'd cells \<Rightarrow> ('d cells \<times> sptree \<times> nat) option" where
  "rotate_right_child up upup q h = do {
     upupup \<leftarrow> ld uplink h upup;
     ul \<leftarrow> ld leftlink h up;
     h \<leftarrow> set_right h upup ul;
     h \<leftarrow> set_up_nn h ul upup;
     h \<leftarrow> set_left h up upup;
     h \<leftarrow> set_up h upup up;
     (h, q) \<leftarrow> (if upupup = 0 then Some (h, q\<lparr>sp_root := up\<rparr>)
       else do {
         r \<leftarrow> ld rightlink h upupup;
         h \<leftarrow> (if r = upup then set_right h upupup up else set_left h upupup up);
         Some (h, q)
       });
     h \<leftarrow> set_up h up upupup;
     Some (h, q, upupup)
   }"

text \<open>
  One round of the loop: \<open>up\<close>, with the rotation if it is on the same side as its parent, goes to
  the front of the right tree (its left link was followed) or of the left tree.
\<close>

definition splay_left ::
    "nat \<Rightarrow> nat \<Rightarrow> nat \<Rightarrow> sptree \<Rightarrow> 'd cells \<Rightarrow> ('d cells \<times> sptree \<times> nat) option" where
  "splay_left right up upup q h = do {
     uul \<leftarrow> (if upup \<noteq> 0 then ld leftlink h upup else Some 0);
     (h, q, upup) \<leftarrow> (if upup \<noteq> 0 \<and> uul = up then rotate_left_child up upup q h
                     else Some (h, q, upup));
     h \<leftarrow> set_left h up right;
     h \<leftarrow> set_up_nn h right up;
     Some (h, q, upup)
   }"

definition splay_right ::
    "nat \<Rightarrow> nat \<Rightarrow> nat \<Rightarrow> sptree \<Rightarrow> 'd cells \<Rightarrow> ('d cells \<times> sptree \<times> nat) option" where
  "splay_right left up upup q h = do {
     uur \<leftarrow> (if upup \<noteq> 0 then ld rightlink h upup else Some 0);
     (h, q, upup) \<leftarrow> (if upup \<noteq> 0 \<and> uur = up then rotate_right_child up upup q h
                     else Some (h, q, upup));
     h \<leftarrow> set_right h up left;
     h \<leftarrow> set_up_nn h left up;
     Some (h, q, upup)
   }"

partial_function (option) splay_loop ::
    "'d cells \<Rightarrow> sptree \<Rightarrow> nat \<Rightarrow> nat \<Rightarrow> nat \<Rightarrow> nat \<Rightarrow> ('d cells \<times> sptree \<times> nat \<times> nat) option" where
  "splay_loop h q left right prev up =
     (if up = 0 then Some (h, q, left, right)
      else do {
        let q = q\<lparr>splayloops := splayloops q + 1\<rparr>;
        upup \<leftarrow> ld uplink h up;
        ul \<leftarrow> ld leftlink h up;
        if ul = prev then do {
          (h, q, upup) \<leftarrow> splay_left right up upup q h;
          splay_loop h q left up up upup
        } else do {
          (h, q, upup) \<leftarrow> splay_right left up upup q h;
          splay_loop h q up right up upup
        }
      })"

definition splay :: "nat \<Rightarrow> sptree \<Rightarrow> 'd cells \<Rightarrow> ('d cells \<times> sptree) option" where
  "splay n q h = do {
     left \<leftarrow> ld leftlink h n;
     right \<leftarrow> ld rightlink h n;
     up \<leftarrow> ld uplink h n;
     let q = q\<lparr>splays := splays q + 1\<rparr>;
     (h, q, left, right) \<leftarrow> splay_loop h q left right n up;
     h \<leftarrow> set_left h n left;
     h \<leftarrow> set_right h n right;
     h \<leftarrow> set_up_nn h left n;
     h \<leftarrow> set_up_nn h right n;
     h \<leftarrow> set_up h n 0;
     Some (h, q\<lparr>sp_root := n\<rparr>)
   }"

section \<open>Search\<close>

partial_function (option) lookup_loop ::
    "u32 \<Rightarrow> 'd cells \<Rightarrow> nat \<Rightarrow> int \<Rightarrow> (nat \<times> int) option" where
  "lookup_loop k h n c =
     (if n = 0 then Some (n, c)
      else do {
        nk \<leftarrow> ld key h n;
        if k = nk then Some (n, c)
        else do {
          n' \<leftarrow> (if k < nk then ld leftlink h n else ld rightlink h n);
          lookup_loop k h n' (wrap32 (c + 1))
        }
      })"

definition sp_lookup :: "u32 \<Rightarrow> sptree \<Rightarrow> 'd cells \<Rightarrow> (nat \<times> sptree \<times> 'd cells) option" where
  "sp_lookup k q h = do {
     let q = q\<lparr>lkpcmps := lkpcmps q + 1\<rparr>;
     let c = wrap32 (lkpcmps q);
     let q = q\<lparr>lookups := lookups q + 1\<rparr>;
     (n, c) \<leftarrow> lookup_loop k h (sp_root q) c;
     let q = q\<lparr>lkpcmps := c\<rparr>;
     if n \<noteq> 0 then do {
       (h, q) \<leftarrow> splay n q h;
       Some (n, q, h)
     } else Some (n, q, h)
   }"

partial_function (option) leftmost :: "'d cells \<Rightarrow> nat \<Rightarrow> nat option" where
  "leftmost h x = do {
     l \<leftarrow> ld leftlink h x;
     if l \<noteq> 0 then leftmost h l else Some x
   }"

definition sp_fhead :: "sptree \<Rightarrow> 'd cells \<Rightarrow> nat option" where
  "sp_fhead q h = (if sp_root q \<noteq> 0 then leftmost h (sp_root q) else Some 0)"

partial_function (option) fnext_up :: "'d cells \<Rightarrow> nat \<Rightarrow> nat \<Rightarrow> nat option" where
  "fnext_up h n x =
     (if x = 0 then Some 0
      else do {
        l \<leftarrow> ld leftlink h x;
        if l = n then Some x
        else do {
          u \<leftarrow> ld uplink h x;
          fnext_up h x u
        }
      })"

definition sp_fnext :: "nat \<Rightarrow> 'd cells \<Rightarrow> nat option" where
  "sp_fnext n h =
     (if n = 0 then Some 0
      else do {
        x \<leftarrow> ld rightlink h n;
        if x \<noteq> 0 then leftmost h x
        else do {
          u \<leftarrow> ld uplink h n;
          fnext_up h n u
        }
      })"

section \<open>Insertion\<close>

text \<open>
  One round of the loop at label \<^verbatim>\<open>one\<close> (a walk to the right in the left tree) or
  \<^verbatim>\<open>two\<close> (a walk to the left in the right tree) of \<^verbatim>\<open>_sp_enq\<close>. A round jumps
  to \<^verbatim>\<open>done\<close>, or it goes on at one of the labels with new \<open>left\<close>, \<open>right\<close> and
  \<open>next\<close>.
\<close>

datatype 'd enq_jump = Done "'d cells" sptree | Goto_one "'d cells" sptree nat nat nat | Goto_two "'d cells" sptree nat nat nat

definition enq_one :: "u32 \<Rightarrow> 'd cells \<Rightarrow> sptree \<Rightarrow> nat \<Rightarrow> nat \<Rightarrow> nat \<Rightarrow> 'd enq_jump option" where
  "enq_one k h q left right next = do {
     temp \<leftarrow> ld rightlink h next;
     if temp = 0 then do {
       h \<leftarrow> set_right h left next;
       h \<leftarrow> set_up h next left;
       h \<leftarrow> set_left h right 0;
       Some (Done h q)
     } else do {
       let q = q\<lparr>enqcmps := enqcmps q + 1\<rparr>;
       tk \<leftarrow> ld key h temp;
       if \<not> tk < k then do {
         h \<leftarrow> set_right h left next;
         h \<leftarrow> set_up h next left;
         Some (Goto_two h q next right temp)
       } else do {
         tl \<leftarrow> ld leftlink h temp;
         h \<leftarrow> set_right h next tl;
         h \<leftarrow> set_up_nn h tl next;
         h \<leftarrow> set_right h left temp;
         h \<leftarrow> set_up h temp left;
         h \<leftarrow> set_left h temp next;
         h \<leftarrow> set_up h next temp;
         next' \<leftarrow> ld rightlink h temp;
         if next' = 0 then do {
           h \<leftarrow> set_left h right 0;
           Some (Done h q)
         } else do {
           let q = q\<lparr>enqcmps := enqcmps q + 1\<rparr>;
           nk \<leftarrow> ld key h next';
           Some (if nk < k then Goto_one h q temp right next' else Goto_two h q temp right next')
         }
       }
     }
   }"

definition enq_two :: "u32 \<Rightarrow> 'd cells \<Rightarrow> sptree \<Rightarrow> nat \<Rightarrow> nat \<Rightarrow> nat \<Rightarrow> 'd enq_jump option" where
  "enq_two k h q left right next = do {
     temp \<leftarrow> ld leftlink h next;
     if temp = 0 then do {
       h \<leftarrow> set_left h right next;
       h \<leftarrow> set_up h next right;
       h \<leftarrow> set_right h left 0;
       Some (Done h q)
     } else do {
       let q = q\<lparr>enqcmps := enqcmps q + 1\<rparr>;
       tk \<leftarrow> ld key h temp;
       if tk < k then do {
         h \<leftarrow> set_left h right next;
         h \<leftarrow> set_up h next right;
         Some (Goto_one h q left next temp)
       } else do {
         tr \<leftarrow> ld rightlink h temp;
         h \<leftarrow> set_left h next tr;
         h \<leftarrow> set_up_nn h tr next;
         h \<leftarrow> set_left h right temp;
         h \<leftarrow> set_up h temp right;
         h \<leftarrow> set_right h temp next;
         h \<leftarrow> set_up h next temp;
         next' \<leftarrow> ld leftlink h temp;
         if next' = 0 then do {
           h \<leftarrow> set_right h left 0;
           Some (Done h q)
         } else do {
           let q = q\<lparr>enqcmps := enqcmps q + 1\<rparr>;
           nk \<leftarrow> ld key h next';
           Some (if nk < k then Goto_one h q left temp next' else Goto_two h q left temp next')
         }
       }
     }
   }"

partial_function (option) enq_loop ::
    "bool \<Rightarrow> u32 \<Rightarrow> 'd cells \<Rightarrow> sptree \<Rightarrow> nat \<Rightarrow> nat \<Rightarrow> nat \<Rightarrow> ('d cells \<times> sptree) option" where
  "enq_loop one k h q left right next = do {
     r \<leftarrow> (if one then enq_one k h q left right next else enq_two k h q left right next);
     case r of
       Done h q \<Rightarrow> Some (h, q)
     | Goto_one h q left right next \<Rightarrow> enq_loop True k h q left right next
     | Goto_two h q left right next \<Rightarrow> enq_loop False k h q left right next
   }"

definition sp_enq :: "nat \<Rightarrow> sptree \<Rightarrow> 'd cells \<Rightarrow> (sptree \<times> 'd cells) option" where
  "sp_enq n q h = do {
     let q = q\<lparr>enqs := enqs q + 1\<rparr>;
     h \<leftarrow> set_up h n 0;
     let next = sp_root q;
     let q = q\<lparr>sp_root := n\<rparr>;
     if next = 0 then do {
       h \<leftarrow> set_left h n 0;
       h \<leftarrow> set_right h n 0;
       Some (q, h)
     } else do {
       k \<leftarrow> ld key h n;
       let q = q\<lparr>enqcmps := enqcmps q + 1\<rparr>;
       nk \<leftarrow> ld key h next;
       (h, q) \<leftarrow> enq_loop (nk < k) k h q n n next;
       temp \<leftarrow> ld leftlink h n;
       r \<leftarrow> ld rightlink h n;
       h \<leftarrow> set_left h n r;
       h \<leftarrow> set_right h n temp;
       Some (q, h)
     }
   }"

definition sp_install ::
    "'d spblk \<Rightarrow> u32 \<Rightarrow> sptree \<Rightarrow> 'd spmem \<Rightarrow> (nat \<times> sptree \<times> 'd spmem) option" where
  "sp_install junk k q m = do {
     (n, q, h) \<leftarrow> sp_lookup k q (cells m);
     let m = m\<lparr>cells := h\<rparr>;
     if n = 0 then do {
       (n, m) \<leftarrow> sp_alloc_blk junk m;
       h \<leftarrow> st (key_update (\<lambda>_. k)) (cells m) n;
       h \<leftarrow> set_left h n 0;
       h \<leftarrow> set_right h n 0;
       h \<leftarrow> set_up h n 0;
       let q = q\<lparr>eltscnt := eltscnt q + 1\<rparr>;
       (q, h) \<leftarrow> sp_enq n q h;
       Some (n, q, m\<lparr>cells := h\<rparr>)
     } else Some (n, q, m)
   }"

section \<open>Removal\<close>

partial_function (option) deq_loop :: "'d cells \<Rightarrow> nat \<Rightarrow> nat \<Rightarrow> (nat \<times> 'd cells) option" where
  "deq_loop h next left = do {
     farleft \<leftarrow> ld leftlink h left;
     if farleft = 0 then do {
       lr \<leftarrow> ld rightlink h left;
       h \<leftarrow> set_left h next lr;
       h \<leftarrow> set_up_nn h lr next;
       Some (left, h)
     } else do {
       farfarleft \<leftarrow> ld leftlink h farleft;
       if farfarleft = 0 then do {
         fr \<leftarrow> ld rightlink h farleft;
         h \<leftarrow> set_left h left fr;
         h \<leftarrow> set_up_nn h fr left;
         Some (farleft, h)
       } else do {
         h \<leftarrow> set_left h next farleft;
         h \<leftarrow> set_up h farleft next;
         fr \<leftarrow> ld rightlink h farleft;
         h \<leftarrow> set_left h left fr;
         h \<leftarrow> set_up_nn h fr left;
         h \<leftarrow> set_right h farleft left;
         h \<leftarrow> set_up h left farleft;
         deq_loop h farleft farfarleft
       }
     }
   }"

text \<open>
  \<^verbatim>\<open>_sp_deq\<close> takes the address of a link. Its only caller passes the right link of the root,
  so the model takes the node \<open>p\<close> whose right link that is.
\<close>

definition sp_deq :: "nat \<Rightarrow> 'd cells \<Rightarrow> (nat \<times> 'd cells) option" where
  "sp_deq p h = do {
     next \<leftarrow> ld rightlink h p;
     if next = 0 then Some (0, h)
     else do {
       left \<leftarrow> ld leftlink h next;
       if left = 0 then do {
         nr \<leftarrow> ld rightlink h next;
         h \<leftarrow> set_right h p nr;
         h \<leftarrow> set_up_nn h nr 0;
         Some (next, h)
       } else deq_loop h next left
     }
   }"

text \<open>The middle of \<^verbatim>\<open>sp_delete\<close>: the node \<open>x\<close> that was dequeued replaces the root.\<close>

definition sp_unlink :: "nat \<Rightarrow> sptree \<Rightarrow> 'd cells \<Rightarrow> ('d cells \<times> sptree) option" where
  "sp_unlink x q h = (if x = 0 then do {
         l \<leftarrow> ld leftlink h (sp_root q);
         let q = q\<lparr>sp_root := l\<rparr>;
         h \<leftarrow> set_up_nn h (sp_root q) 0;
         Some (h, q)
       } else do {
         h \<leftarrow> set_up h x 0;
         rl \<leftarrow> ld leftlink h (sp_root q);
         h \<leftarrow> set_left h x rl;
         rr \<leftarrow> ld rightlink h (sp_root q);
         h \<leftarrow> set_right h x rr;
         h \<leftarrow> set_up_nn h rl x;
         h \<leftarrow> set_up_nn h rr x;
         Some (h, q\<lparr>sp_root := x\<rparr>)
       })"

definition sp_delete :: "nat \<Rightarrow> sptree \<Rightarrow> 'd spmem \<Rightarrow> (sptree \<times> 'd spmem) option" where
  "sp_delete n q m = do {
     (h, q) \<leftarrow> splay n q (cells m);
     (x, h) \<leftarrow> sp_deq (sp_root q) h;
     (h, q) \<leftarrow> sp_unlink x q h;
     m \<leftarrow> sp_free_blk n (m\<lparr>cells := h\<rparr>);
     Some (q\<lparr>eltscnt := eltscnt q - 1\<rparr>, m)
   }"

partial_function (option) sp_chop :: "nat \<Rightarrow> 'd spmem \<Rightarrow> 'd spmem option" where
  "sp_chop n m = do {
     r \<leftarrow> ld rightlink (cells m) n;
     m \<leftarrow> (if r \<noteq> 0 then sp_chop r m else Some m);
     l \<leftarrow> ld leftlink (cells m) n;
     m \<leftarrow> (if l \<noteq> 0 then sp_chop l m else Some m);
     sp_free_blk n m
   }"

definition sp_init :: sptree where
  "sp_init = \<lparr>sp_root = 0, symbols = 0, eltscnt = 0, lookups = 0, lkpcmps = 0, enqs = 0,
     enqcmps = 0, splays = 0, splayloops = 0\<rparr>"

definition sp_null :: "sptree \<Rightarrow> 'd spmem \<Rightarrow> (sptree \<times> 'd spmem) option" where
  "sp_null q m =
     (if sp_root q = 0 then Some (q, m)
      else do {
        m \<leftarrow> sp_chop (sp_root q) m;
        Some (q\<lparr>eltscnt := 0, lookups := 0, lkpcmps := 0, enqs := 0, enqcmps := 0, splays := 0,
                splayloops := 0, sp_root := 0\<rparr>, m)
      })"

end
