(* ===== verification/Splay_Correct.thy ===== *)
theory Splay_Correct
  imports Splay "HOL-Library.Tree" "HOL-Library.Multiset"
begin

text \<open>
  Correctness of the linked splay trees: a heap represents an abstract tree of node addresses
  (\<open>istree\<close>, with the parent of the root as a parameter), the path from a node to the root is a
  list of frames (\<open>isctx\<close>), and the in-order list of addresses is what every operation is
  specified by. The link fields are the only thing the re-linking operations change: the map of
  keys and data (\<open>kd\<close>) and everything outside the footprint stay as they are.
\<close>

section \<open>Representation\<close>

definition kd :: "'d cells \<Rightarrow> nat \<Rightarrow> (u32 \<times> 'd option) option" where
  "kd h x = map_option (\<lambda>b. (key b, data b)) (h x)"

fun istree :: "'d cells \<Rightarrow> nat \<Rightarrow> nat \<Rightarrow> nat tree \<Rightarrow> bool" where
  "istree h u p Leaf \<longleftrightarrow> p = 0"
| "istree h u p (Node l a r) \<longleftrightarrow> p = a \<and> a \<noteq> 0 \<and>
     (\<exists>b. h a = Some b \<and> uplink b = u \<and> istree h a (leftlink b) l \<and> istree h a (rightlink b) r)"

text \<open>A tree whose root has an unspecified parent link.\<close>

fun ischild :: "'d cells \<Rightarrow> nat \<Rightarrow> nat tree \<Rightarrow> bool" where
  "ischild h p Leaf \<longleftrightarrow> p = 0"
| "ischild h p (Node l a r) \<longleftrightarrow> p = a \<and> a \<noteq> 0 \<and>
     (\<exists>b. h a = Some b \<and> istree h a (leftlink b) l \<and> istree h a (rightlink b) r)"

datatype frame = Lft nat "nat tree" | Rgt nat "nat tree"

fun isctx :: "'d cells \<Rightarrow> nat \<Rightarrow> nat \<Rightarrow> frame list \<Rightarrow> bool" where
  "isctx h c u [] \<longleftrightarrow> u = 0"
| "isctx h c u (Lft a s # fs) \<longleftrightarrow> u = a \<and> a \<noteq> 0 \<and>
     (\<exists>b. h a = Some b \<and> leftlink b = c \<and> istree h a (rightlink b) s \<and> isctx h a (uplink b) fs)"
| "isctx h c u (Rgt a s # fs) \<longleftrightarrow> u = a \<and> a \<noteq> 0 \<and>
     (\<exists>b. h a = Some b \<and> rightlink b = c \<and> istree h a (leftlink b) s \<and> isctx h a (uplink b) fs)"

fun frame_addrs :: "frame \<Rightarrow> nat list" where
  "frame_addrs (Lft a s) = a # inorder s"
| "frame_addrs (Rgt a s) = a # inorder s"

definition addrs :: "frame list \<Rightarrow> nat list" where
  "addrs fs = concat (map frame_addrs fs)"

lemma addrs_simps [simp]:
  "addrs [] = []"
  "addrs (f # fs) = frame_addrs f @ addrs fs"
  by (simp_all add: addrs_def)

fun plug :: "frame list \<Rightarrow> nat tree \<Rightarrow> nat tree" where
  "plug [] t = t"
| "plug (Lft a s # fs) t = plug fs (Node t a s)"
| "plug (Rgt a s # fs) t = plug fs (Node s a t)"

lemma ld_simp: "h p = Some b \<Longrightarrow> p \<noteq> 0 \<Longrightarrow> ld f h p = Some (f b)"
  by (simp add: ld_def)

lemma st_simp: "h p = Some b \<Longrightarrow> p \<noteq> 0 \<Longrightarrow> st g h p = Some (h(p \<mapsto> g b))"
  by (simp add: st_def)

lemma kd_upd: "h p = Some b \<Longrightarrow> key b' = key b \<Longrightarrow> data b' = data b \<Longrightarrow> kd (h(p \<mapsto> b')) = kd h"
  by (auto simp: kd_def fun_eq_iff)

text \<open>\<open>h'\<close> differs from \<open>h\<close> inside the footprint \<open>A\<close> only, and in links only.\<close>

definition relinks :: "nat set \<Rightarrow> 'd cells \<Rightarrow> 'd cells \<Rightarrow> bool" where
  "relinks A h h' \<longleftrightarrow> (\<forall>x. x \<notin> A \<longrightarrow> h' x = h x) \<and> kd h' = kd h"

lemma relinks_refl [simp]: "relinks A h h"
  by (simp add: relinks_def)

lemma relinks_mono: "relinks A h h' \<Longrightarrow> A \<subseteq> B \<Longrightarrow> relinks B h h'"
  by (auto simp: relinks_def)

lemma relinks_trans: "relinks A h h' \<Longrightarrow> relinks B h' h'' \<Longrightarrow> A \<union> B \<subseteq> C \<Longrightarrow> relinks C h h''"
  unfolding relinks_def by (metis UnCI subsetD)

lemma relinks_upd: "h p = Some b \<Longrightarrow> key b' = key b \<Longrightarrow> data b' = data b \<Longrightarrow> p \<in> A \<Longrightarrow>
    relinks A h (h(p \<mapsto> b'))"
  by (auto simp: relinks_def kd_upd)

lemma relinks_at: "relinks A h h' \<Longrightarrow> x \<notin> A \<Longrightarrow> h' x = h x"
  by (simp add: relinks_def)

text \<open>Frame rules: a structure survives changes outside its addresses.\<close>

lemma istree_frame:
  "istree h u p t \<Longrightarrow> (\<And>x. x \<in> set_tree t \<Longrightarrow> h' x = h x) \<Longrightarrow> istree h' u p t"
  by (induction t arbitrary: u p) auto

lemma ischild_frame:
  "ischild h p t \<Longrightarrow> (\<And>x. x \<in> set_tree t \<Longrightarrow> h' x = h x) \<Longrightarrow> ischild h' p t"
  by (cases t) (auto intro: istree_frame)

lemma isctx_frame:
  "isctx h c u fs \<Longrightarrow> (\<And>x. x \<in> set (addrs fs) \<Longrightarrow> h' x = h x) \<Longrightarrow> isctx h' c u fs"
proof (induction fs arbitrary: c u)
  case (Cons f fs)
  then show ?case by (cases f) (auto intro!: istree_frame [where h = h and h' = h'])
qed simp

lemma istree_off:
  "istree h u p t \<Longrightarrow> relinks A h h' \<Longrightarrow> set_tree t \<inter> A = {} \<Longrightarrow> istree h' u p t"
  using istree_frame [of h u p t h'] by (fastforce simp: relinks_def)

lemma ischild_off:
  "ischild h p t \<Longrightarrow> relinks A h h' \<Longrightarrow> set_tree t \<inter> A = {} \<Longrightarrow> ischild h' p t"
  using ischild_frame [of h p t h'] by (fastforce simp: relinks_def)

lemma isctx_off:
  "isctx h c u fs \<Longrightarrow> relinks A h h' \<Longrightarrow> set (addrs fs) \<inter> A = {} \<Longrightarrow> isctx h' c u fs"
  using isctx_frame [of h c u fs h'] by (fastforce simp: relinks_def)

lemma istree_child: "istree h u p t \<Longrightarrow> ischild h p t"
  by (cases t) auto

lemma istree_zero: "istree h u 0 t \<longleftrightarrow> t = Leaf"
  by (cases t) auto

lemma ischild_zero: "ischild h 0 t \<longleftrightarrow> t = Leaf"
  by (cases t) auto

lemma istree_root: "istree h u p t \<Longrightarrow> p = 0 \<or> p \<in> set_tree t"
  by (cases t) auto

lemma ischild_root: "ischild h p t \<Longrightarrow> p = 0 \<or> p \<in> set_tree t"
  by (cases t) auto

lemma istree_root_neq: "istree h u p t \<Longrightarrow> x \<notin> set_tree t \<Longrightarrow> x \<noteq> 0 \<Longrightarrow> x \<noteq> p"
  using istree_root by metis

lemma ischild_root_neq: "ischild h p t \<Longrightarrow> x \<notin> set_tree t \<Longrightarrow> x \<noteq> 0 \<Longrightarrow> x \<noteq> p"
  using ischild_root by metis

lemma istree_nonzero: "istree h u p t \<Longrightarrow> 0 \<notin> set_tree t"
  by (induction t arbitrary: u p) auto

lemma ischild_nonzero: "ischild h p t \<Longrightarrow> 0 \<notin> set_tree t"
  by (cases t) (auto dest: istree_nonzero)

lemma isctx_nonzero: "isctx h c u fs \<Longrightarrow> 0 \<notin> set (addrs fs)"
proof (induction fs arbitrary: c u)
  case (Cons f fs)
  then show ?case by (cases f) (auto dest: istree_nonzero)
qed simp

lemma isctx_up: "isctx h c u fs \<Longrightarrow> u = 0 \<or> u \<in> set (addrs fs)"
  by (cases "(h, c, u, fs)" rule: isctx.cases) auto

text \<open>Re-parenting a subtree touches its root only.\<close>

lemma set_up_nn_tree:
  assumes "ischild h p t" and "distinct (inorder t)"
  shows "\<exists>h'. set_up_nn h p v = Some h' \<and> istree h' v p t
    \<and> relinks (set_tree t) h h'"
proof (cases t)
  case Leaf
  then show ?thesis using assms by (simp add: set_up_nn_def)
next
  case (Node l a r)
  then obtain b where b: "h a = Some b" "p = a" "a \<noteq> 0"
    "istree h a (leftlink b) l" "istree h a (rightlink b) r" using assms by auto
  let ?h = "h(a \<mapsto> b\<lparr>uplink := v\<rparr>)"
  have "istree ?h v p t"
    using b assms(2) by (auto simp: Node intro: istree_frame)
  then show ?thesis using b by (simp add: set_up_nn_def st_simp relinks_upd Node)
qed

lemma isctx_ex:
  "istree h u p t \<Longrightarrow> isctx h p u fs \<Longrightarrow> n \<in> set_tree t \<Longrightarrow>
     \<exists>l r gs b. plug gs (Node l n r) = plug fs t \<and> h n = Some b \<and> n \<noteq> 0
       \<and> istree h n (leftlink b) l \<and> istree h n (rightlink b) r \<and> isctx h n (uplink b) gs"
proof (induction t arbitrary: u p fs)
  case (Node l a r)
  then obtain b where b: "h a = Some b" "p = a" "a \<noteq> 0" "uplink b = u"
    "istree h a (leftlink b) l" "istree h a (rightlink b) r" by auto
  consider "n = a" | "n \<in> set_tree l" | "n \<in> set_tree r" using Node.prems(3) by auto
  then show ?case
  proof cases
    case 1
    then show ?thesis using b Node.prems(2) by blast
  next
    case 2
    then show ?thesis using Node.IH(1) [of a "leftlink b" "Lft a r # fs"] b Node.prems(2) by auto
  next
    case 3
    then show ?thesis using Node.IH(2) [of a "rightlink b" "Rgt a l # fs"] b Node.prems(2) by auto
  qed
qed simp

fun ctx_left :: "frame list \<Rightarrow> nat list" where
  "ctx_left [] = []"
| "ctx_left (Lft a s # fs) = ctx_left fs"
| "ctx_left (Rgt a s # fs) = ctx_left fs @ inorder s @ [a]"

fun ctx_right :: "frame list \<Rightarrow> nat list" where
  "ctx_right [] = []"
| "ctx_right (Lft a s # fs) = a # inorder s @ ctx_right fs"
| "ctx_right (Rgt a s # fs) = ctx_right fs"

lemma inorder_plug [simp]: "inorder (plug fs t) = ctx_left fs @ inorder t @ ctx_right fs"
proof (induction fs arbitrary: t)
  case (Cons f fs)
  then show ?case by (cases f) simp_all
qed simp

lemma mset_plug: "mset (inorder (plug fs t)) = mset (inorder t @ addrs fs)"
proof (induction fs arbitrary: t)
  case (Cons f fs)
  then show ?case by (cases f) (simp_all add: ac_simps del: inorder_plug)
qed simp

lemma distinct_plug: "distinct (inorder (plug fs t)) \<longleftrightarrow> distinct (inorder t @ addrs fs)"
  using mset_plug mset_eq_imp_distinct_iff by blast

section \<open>The functional splay\<close>

fun splay_ctx :: "frame list \<Rightarrow> nat tree \<Rightarrow> nat tree \<Rightarrow> nat tree \<times> nat tree" where
  "splay_ctx [] L R = (L, R)"
| "splay_ctx (Lft a s # Lft c s' # fs) L R = splay_ctx fs L (Node R a (Node s c s'))"
| "splay_ctx (Rgt a s # Rgt c s' # fs) L R = splay_ctx fs (Node (Node s' c s) a L) R"
| "splay_ctx (Lft a s # fs) L R = splay_ctx fs L (Node R a s)"
| "splay_ctx (Rgt a s # fs) L R = splay_ctx fs (Node s a L) R"

lemma splay_ctx_inorder:
  "splay_ctx fs L R = (L', R') \<Longrightarrow>
     inorder L' @ n # inorder R' = inorder (plug fs (Node L n R))"
  by (induction fs L R rule: splay_ctx.induct) auto



section \<open>The mirror image\<close>

text \<open>
  Half of the source is the mirror image of the other half. Exchanging the two links of every node
  turns one into the other, so each fact is proved for one side only.
\<close>

definition flip :: "'d spblk \<Rightarrow> 'd spblk" where
  "flip b = b\<lparr>leftlink := rightlink b, rightlink := leftlink b\<rparr>"

definition mir :: "'d cells \<Rightarrow> 'd cells" where
  "mir h p = map_option flip (h p)"

lemma flip_simps [simp]:
  "leftlink (flip b) = rightlink b" "rightlink (flip b) = leftlink b" "uplink (flip b) = uplink b"
  "key (flip b) = key b" "data (flip b) = data b" "flip (flip b) = b"
  by (simp_all add: flip_def)

lemma flip_eq_iff [simp]: "flip b = flip b' \<longleftrightarrow> b = b'"
  by (metis flip_simps(6))

lemma mir_mir [simp]: "mir (mir h) = h"
  by (auto simp: mir_def fun_eq_iff option.map_comp comp_def map_option.identity [unfolded id_def])

lemma mir_eq_iff: "mir h x = mir h' x \<longleftrightarrow> h x = h' x"
  by (auto simp: mir_def map_option_case split: option.splits)

lemma mir_Some: "mir h x = Some b \<longleftrightarrow> h x = Some (flip b)"
  by (auto simp: mir_def)

lemma mir_upd: "mir (h(p \<mapsto> b)) = (mir h)(p \<mapsto> flip b)"
  by (auto simp: mir_def)

lemma kd_mir [simp]: "kd (mir h) = kd h"
  by (auto simp: mir_def kd_def fun_eq_iff option.map_comp comp_def)

lemma ld_mir [simp]:
  "ld leftlink (mir h) p = ld rightlink h p" "ld rightlink (mir h) p = ld leftlink h p"
  "ld uplink (mir h) p = ld uplink h p" "ld key (mir h) p = ld key h p"
  by (auto simp: ld_def mir_def option.map_comp comp_def)

lemma st_mir [simp]:
  "set_left (mir h) p v = map_option mir (set_right h p v)"
  "set_right (mir h) p v = map_option mir (set_left h p v)"
  "set_up (mir h) p v = map_option mir (set_up h p v)"
  by (cases "h p"; auto simp: st_def mir_upd mir_def flip_def)+

lemma set_up_nn_mir [simp]: "set_up_nn (mir h) p v = map_option mir (set_up_nn h p v)"
  by (simp add: set_up_nn_def)

lemma istree_mir [simp]: "istree (mir h) u p (mirror t) \<longleftrightarrow> istree h u p t"
  by (induction t arbitrary: u p) (auto simp: mir_Some, (metis flip_simps)+)

lemma ischild_mir [simp]: "ischild (mir h) p (mirror t) \<longleftrightarrow> ischild h p t"
  by (cases t) (auto simp: mir_Some, (metis flip_simps)+)

fun flipf :: "frame \<Rightarrow> frame" where
  "flipf (Lft a s) = Rgt a (mirror s)"
| "flipf (Rgt a s) = Lft a (mirror s)"

lemma isctx_mir [simp]: "isctx (mir h) c u (map flipf fs) \<longleftrightarrow> isctx h c u fs"
proof (induction fs arbitrary: c u)
  case (Cons f fs)
  then show ?case by (cases f) (auto simp: mir_Some, (metis flip_simps)+)
qed simp

lemma set_inorder_mirror [simp]: "set_tree (mirror t) = set_tree t"
  by (induction t) auto

lemma mset_inorder_mirror [simp]: "mset (inorder (mirror t)) = mset (inorder t)"
  by (simp add: inorder_mirror)

lemma mset_addrs_flip [simp]: "mset (addrs (map flipf fs)) = mset (addrs fs)"
proof (induction fs)
  case (Cons f fs)
  then show ?case by (cases f) simp_all
qed simp

lemma set_addrs_flip [simp]: "set (addrs (map flipf fs)) = set (addrs fs)"
  by (metis mset_addrs_flip mset_eq_setD)

lemma distinct_addrs_flip [simp]: "distinct (addrs (map flipf fs)) = distinct (addrs fs)"
  using mset_addrs_flip mset_eq_imp_distinct_iff by blast

section \<open>Rotations\<close>

text \<open>The header fields that the searches leave alone.\<close>

definition same_elts :: "sptree \<Rightarrow> sptree \<Rightarrow> bool" where
  "same_elts q q' \<longleftrightarrow> symbols q' = symbols q \<and> eltscnt q' = eltscnt q"

lemma same_elts_trans: "same_elts q q' \<Longrightarrow> same_elts q' q'' \<Longrightarrow> same_elts q q''"
  by (simp add: same_elts_def)

lemma redirect_left:
  assumes "isctx h c u fs" and "c \<noteq> 0" and "c \<notin> set (addrs fs)" and "distinct (addrs fs)"
  shows "\<exists>h' q'. (if u = 0 then Some (h, q\<lparr>sp_root := a\<rparr>)
       else do {
         l \<leftarrow> ld leftlink h u;
         h \<leftarrow> (if l = c then set_left h u a else set_right h u a);
         Some (h, q)
       }) = Some (h', q') \<and> isctx h' a u fs
       \<and> relinks (set (addrs fs)) h h' \<and> same_elts q q'"
proof (cases fs)
  case Nil
  then show ?thesis using assms by (auto simp: same_elts_def)
next
  case (Cons f gs)
  show ?thesis
  proof (cases f)
    case (Lft d s)
    then obtain b where b: "h d = Some b" "u = d" "d \<noteq> 0" "leftlink b = c"
      "istree h d (rightlink b) s" "isctx h d (uplink b) gs" using assms Cons by auto
    let ?h = "h(d \<mapsto> b\<lparr>leftlink := a\<rparr>)"
    have "istree ?h d (rightlink b) s" "isctx ?h d (uplink b) gs"
      using b assms(4) Cons Lft by (auto intro!: istree_frame [where h = h] isctx_frame [where h = h])
    then show ?thesis using b Cons Lft
      by (auto simp: ld_simp st_simp relinks_upd same_elts_def)
  next
    case (Rgt d s)
    then obtain b where b: "h d = Some b" "u = d" "d \<noteq> 0" "rightlink b = c"
      "istree h d (leftlink b) s" "isctx h d (uplink b) gs" using assms Cons by auto
    let ?h = "h(d \<mapsto> b\<lparr>rightlink := a\<rparr>)"
    have "leftlink b \<noteq> c" using istree_root [OF b(5)] assms(2,3) Cons Rgt by auto
    moreover have "istree ?h d (leftlink b) s" "isctx ?h d (uplink b) gs"
      using b assms(4) Cons Rgt by (auto intro!: istree_frame [where h = h] isctx_frame [where h = h])
    ultimately show ?thesis using b Cons Rgt
      by (auto simp: ld_simp st_simp relinks_upd same_elts_def)
  qed
qed


lemma rotate_left_child_ok:
  assumes ctx: "isctx h prev a (Lft a s # Lft c s' # fs)"
    and dist: "distinct (addrs (Lft a s # Lft c s' # fs))"
  shows "\<exists>h' q' u b. rotate_left_child a c q h = Some (h', q', u) \<and> isctx h' a u fs
    \<and> h' a = Some b \<and> istree h' a (rightlink b) (Node s c s')
    \<and> relinks ({a, c} \<union> set_tree s \<union> set (addrs fs)) h h' \<and> same_elts q q'"
proof -
  obtain b d where b: "h a = Some b" "a \<noteq> 0" "istree h a (rightlink b) s"
    and d: "uplink b = c" "c \<noteq> 0" "h c = Some d" "leftlink d = a" "istree h c (rightlink d) s'"
      "isctx h c (uplink d) fs"
    using ctx by auto
  have ac: "a \<noteq> c" using dist by auto
  let ?ur = "rightlink b"
  define h1 where "h1 = h(c \<mapsto> d\<lparr>leftlink := ?ur\<rparr>)"
  have r1: "relinks {c} h h1" using d(3) by (simp add: h1_def relinks_upd)
  have "ischild h1 ?ur s" 
    using dist by (intro ischild_off [OF istree_child [OF b(3)] r1]) auto
  then obtain h2 where h2: "set_up_nn h1 ?ur c = Some h2" "istree h2 c ?ur s"
      "relinks (set_tree s) h1 h2"
    using set_up_nn_tree [of h1 ?ur s c] dist by auto
  have h2a: "h2 a = Some b" and h2c: "h2 c = Some (d\<lparr>leftlink := ?ur\<rparr>)"
    using relinks_at [OF h2(3)] dist ac b(1) by (simp_all add: h1_def)
  define h3 where "h3 = h2(a \<mapsto> b\<lparr>rightlink := c\<rparr>, c \<mapsto> d\<lparr>leftlink := ?ur, uplink := a\<rparr>)"
  have r23: "relinks {a, c} h2 h3" 
    using h2a h2c ac by (simp add: h3_def relinks_def kd_upd)
  have r3: "relinks ({a, c} \<union> set_tree s) h h3"
    by (rule relinks_trans [OF relinks_trans [OF r1 h2(3) order.refl] r23]) auto
  have ctx3: "isctx h3 c (uplink d) fs" using dist by (intro isctx_off [OF d(6) r3]) auto
  have "c \<notin> set (addrs fs)" "distinct (addrs fs)" using dist by auto
  from redirect_left [OF ctx3 d(2) this, where q = q and a = a]
  obtain h4 q' where h4: "(if uplink d = 0 then Some (h3, q\<lparr>sp_root := a\<rparr>)
       else do {
         l \<leftarrow> ld leftlink h3 (uplink d);
         h \<leftarrow> (if l = c then set_left h3 (uplink d) a else set_right h3 (uplink d) a);
         Some (h, q)
       }) = Some (h4, q')" "isctx h4 a (uplink d) fs"
       "relinks (set (addrs fs)) h3 h4" "same_elts q q'"
    by blast
  have h4a: "h4 a = Some (b\<lparr>rightlink := c\<rparr>)"
    using relinks_at [OF h4(3)] dist ac by (simp add: h3_def)
  define h5 where "h5 = h4(a \<mapsto> b\<lparr>rightlink := c, uplink := uplink d\<rparr>)"
  have r45: "relinks {a} h4 h5" using h4a by (simp add: h5_def relinks_upd)
  have r35: "relinks ({a} \<union> set (addrs fs)) h3 h5" by (rule relinks_trans [OF h4(3) r45]) auto
  have r25: "relinks ({a, c} \<union> set (addrs fs)) h2 h5" by (rule relinks_trans [OF r23 r35]) auto
  have r5: "relinks ({a, c} \<union> set_tree s \<union> set (addrs fs)) h h5"
    by (rule relinks_trans [OF r3 r35]) auto
  have "rotate_left_child a c q h = Some (h5, q', uplink d)"
    unfolding rotate_left_child_def
    using b(1,2) d(2,3) h1_def [symmetric] h2(1) h2a h2c ac h4(1) h4a
    by (simp add: ld_simp st_simp h3_def [symmetric] h5_def [symmetric])
  moreover have "isctx h5 a (uplink d) fs" using dist by (intro isctx_off [OF h4(2) r45]) auto
  moreover have "h5 a = Some (b\<lparr>rightlink := c, uplink := uplink d\<rparr>)" by (simp add: h5_def)
  moreover have "istree h5 c ?ur s" using dist by (intro istree_off [OF h2(2) r25]) auto
  moreover have "istree h5 c (rightlink d) s'" using dist by (intro istree_off [OF d(5) r5]) auto
  moreover have "h5 c = Some (d\<lparr>leftlink := ?ur, uplink := a\<rparr>)"
    using relinks_at [OF r35, of c] ac dist by (simp add: h3_def)
  ultimately show ?thesis using d(2) r5 h4(4) by simp
qed

lemma if_bind:
  "Option.bind (if c then x else y) f = (if c then Option.bind x f else Option.bind y f)"
  by simp

lemmas mirror_simps = option.map_comp map_option_bind comp_def Option.bind_map_option if_bind
  if_distrib [of "map_option f" for f]

lemma rotate_mirror:
  "rotate_right_child a c q (mir h) = map_option (map_prod mir id) (rotate_left_child a c q h)"
  unfolding rotate_right_child_def rotate_left_child_def
  by (simp add: mirror_simps cong: if_cong)


lemma attach_left:
  assumes "h a = Some b" "a \<noteq> 0" "istree h a (rightlink b) s" "ischild h p r"
    and "distinct (a # inorder s @ inorder r)"
  shows "\<exists>h' h''. set_left h a p = Some h' \<and> set_up_nn h' p a = Some h''
    \<and> ischild h'' a (Node r a s) \<and> relinks (insert a (set_tree r)) h h''"
proof -
  define h1 where "h1 = h(a \<mapsto> b\<lparr>leftlink := p\<rparr>)"
  have r1: "relinks {a} h h1" using assms(1) by (simp add: h1_def relinks_upd)
  have "ischild h1 p r" using assms by (intro ischild_off [OF assms(4) r1]) auto
  then obtain h2 where h2: "set_up_nn h1 p a = Some h2" "istree h2 a p r" "relinks (set_tree r) h1 h2"
    using set_up_nn_tree [of h1 p r a] assms by auto
  have r2: "relinks (insert a (set_tree r)) h h2" by (rule relinks_trans [OF r1 h2(3)]) simp
  have "istree h2 a (rightlink b) s"
    using assms(5) by (intro istree_off [OF assms(3) r2]) auto
  moreover have "h2 a = Some (b\<lparr>leftlink := p\<rparr>)"
    using assms relinks_at [OF h2(3)] by (simp add: h1_def)
  ultimately show ?thesis
    using assms h2 r2 by (simp add: st_simp h1_def [symmetric])
qed

definition absorb :: "nat tree \<Rightarrow> frame list \<Rightarrow> nat tree \<times> frame list" where
  "absorb s fs = (case fs of Lft c s' # fs' \<Rightarrow> (Node s c s', fs') | _ \<Rightarrow> (s, fs))"

lemma absorb_addrs: "absorb s fs = (s1, fs1) \<Longrightarrow> mset (inorder s1 @ addrs fs1) = mset (inorder s @ addrs fs)"
  by (auto simp: absorb_def ac_simps split: list.splits frame.splits)

lemma absorb_distinct:
  assumes "absorb s fs = (s1, fs1)"
  shows "distinct (inorder s1 @ addrs fs1) = distinct (inorder s @ addrs fs)"
    and "set_tree s1 \<union> set (addrs fs1) = set_tree s \<union> set (addrs fs)"
proof -
  show "distinct (inorder s1 @ addrs fs1) = distinct (inorder s @ addrs fs)"
    using absorb_addrs [OF assms] by (rule mset_eq_imp_distinct_iff)
  have "set (inorder s1 @ addrs fs1) = set (inorder s @ addrs fs)"
    using absorb_addrs [OF assms] by (rule mset_eq_setD)
  then show "set_tree s1 \<union> set (addrs fs1) = set_tree s \<union> set (addrs fs)" by simp
qed

lemma rotate_step:
  assumes "isctx h prev a (Lft a s # fs)" "h a = Some b"
    and "distinct (addrs (Lft a s # fs))"
    and "absorb s fs = (s1, fs1)"
  shows "\<exists>h' q' u b'. (do {
       uul \<leftarrow> (if uplink b \<noteq> 0 then ld leftlink h (uplink b) else Some 0);
       if uplink b \<noteq> 0 \<and> uul = a then rotate_left_child a (uplink b) q h
       else Some (h, q, uplink b) }) = Some (h', q', u) \<and> isctx h' a u fs1
    \<and> h' a = Some b' \<and> istree h' a (rightlink b') s1
    \<and> relinks (set (addrs (Lft a s # fs))) h h' \<and> same_elts q q'"
proof (cases fs)
  case Nil
  then show ?thesis using assms by (auto simp: absorb_def same_elts_def)
next
  case (Cons f gs)
  have a0: "a \<noteq> 0" using assms(1) by simp
  show ?thesis
  proof (cases f)
    case (Rgt c s')
    then obtain d where d: "uplink b = c" "c \<noteq> 0" "h c = Some d" "istree h c (leftlink d) s'"
      using assms(1,2) Cons by auto
    have "a \<noteq> leftlink d" using istree_root_neq [OF d(4)] a0 assms(3) Cons Rgt by auto
    then show ?thesis using assms Cons Rgt d by (auto simp: absorb_def same_elts_def ld_simp)
  next
    case (Lft c s')
    then obtain d where d: "uplink b = c" "c \<noteq> 0" "h c = Some d" "leftlink d = a"
      using assms(1,2) Cons by auto
    have "absorb s fs = (Node s c s', gs)" using Cons Lft by (simp add: absorb_def)
    then have eq: "s1 = Node s c s'" "fs1 = gs" using assms(4) by simp_all
    obtain h' q' u b' where r: "rotate_left_child a c q h = Some (h', q', u)" "isctx h' a u gs"
      "h' a = Some b'" "istree h' a (rightlink b') (Node s c s')"
      "relinks ({a, c} \<union> set_tree s \<union> set (addrs gs)) h h'" "same_elts q q'"
      using rotate_left_child_ok [of h prev a s c s' gs q] assms(1,3) Cons Lft by auto
    show ?thesis unfolding eq
      by (intro exI [of _ h'] exI [of _ q'] exI [of _ u] exI [of _ b'])
        (use r d a0 Cons Lft in \<open>auto simp: ld_simp elim: relinks_mono\<close>)
  qed
qed

lemma splay_left_ok:
  assumes "isctx h prev a (Lft a s # fs)" "ischild h p r" "h a = Some b"
    and "distinct (addrs (Lft a s # fs) @ inorder r)"
    and "absorb s fs = (s1, fs1)"
  shows "\<exists>h' q' u. splay_left p a (uplink b) q h = Some (h', q', u) \<and> isctx h' a u fs1
    \<and> ischild h' a (Node r a s1) \<and> relinks (set (addrs (Lft a s # fs) @ inorder r)) h h'
    \<and> same_elts q q'"
proof -
  have "distinct (addrs (Lft a s # fs))" using assms(4) by auto
  from rotate_step [OF assms(1,3) this assms(5), of q]
  obtain h1 q' u b1 where r: "do {
       uul \<leftarrow> (if uplink b \<noteq> 0 then ld leftlink h (uplink b) else Some 0);
       if uplink b \<noteq> 0 \<and> uul = a then rotate_left_child a (uplink b) q h
       else Some (h, q, uplink b) } = Some (h1, q', u)" "isctx h1 a u fs1"
      "h1 a = Some b1" "istree h1 a (rightlink b1) s1"
      "relinks (set (addrs (Lft a s # fs))) h h1" "same_elts q q'"
    by blast
  have d: "distinct (inorder s1 @ addrs fs1)"
      "set_tree s1 \<union> set (addrs fs1) = set_tree s \<union> set (addrs fs)"
    using absorb_distinct [OF assms(5)] assms(4) by auto
  have "ischild h1 p r" using assms(4) by (intro ischild_off [OF assms(2) r(5)]) auto
  moreover have "distinct (a # inorder s1 @ inorder r)" using assms(4) d by auto
  ultimately obtain h2 h3 where h3: "set_left h1 a p = Some h2" "set_up_nn h2 p a = Some h3"
      "ischild h3 a (Node r a s1)" "relinks (insert a (set_tree r)) h1 h3"
    using attach_left [OF r(3) _ r(4)] assms(1) by fastforce
  have "splay_left p a (uplink b) q h = Some (h3, q', u)"
    unfolding splay_left_def using h3(1,2) by (simp only: r(1) bind_assoc [symmetric]) simp
  moreover have "isctx h3 a u fs1"
    using assms(4) d by (intro isctx_off [OF r(2) h3(4)]) auto
  moreover have "relinks (set (addrs (Lft a s # fs) @ inorder r)) h h3"
    by (rule relinks_trans [OF r(5) h3(4)]) auto
  ultimately show ?thesis using h3 r(6) by auto
qed

definition absorb_right :: "nat tree \<Rightarrow> frame list \<Rightarrow> nat tree \<times> frame list" where
  "absorb_right s fs = (case fs of Rgt c s' # fs' \<Rightarrow> (Node s' c s, fs') | _ \<Rightarrow> (s, fs))"

lemma absorb_flip:
  "absorb_right s fs = (s1, fs1) \<Longrightarrow> absorb (mirror s) (map flipf fs) = (mirror s1, map flipf fs1)"
  by (auto simp: absorb_def absorb_right_def split: list.splits frame.splits)

lemma relinks_mir [simp]: "relinks A (mir h) (mir h') \<longleftrightarrow> relinks A h h'"
  by (simp add: relinks_def mir_eq_iff)

lemma splay_mirror:
  "splay_left p a u q (mir h) = map_option (map_prod mir id) (splay_right p a u q h)"
proof -
  have "rotate_left_child a u q (mir h) = map_option (map_prod mir id) (rotate_right_child a u q h)"
    using rotate_mirror [of a u q "mir h"]
    by (simp add: option.map_comp prod.map_comp comp_def map_option.identity [unfolded id_def])
  then show ?thesis unfolding splay_left_def splay_right_def
    by (auto simp: mirror_simps map_prod_def split_def cong: if_cong intro!: Option.bind_cong)
qed

lemma splay_right_ok:
  assumes "isctx h prev a (Rgt a s # fs)" "ischild h p r" "h a = Some b"
    and "distinct (addrs (Rgt a s # fs) @ inorder r)"
    and "absorb_right s fs = (s1, fs1)"
  shows "\<exists>h' q' u. splay_right p a (uplink b) q h = Some (h', q', u) \<and> isctx h' a u fs1
    \<and> ischild h' a (Node s1 a r) \<and> relinks (set (addrs (Rgt a s # fs) @ inorder r)) h h'
    \<and> same_elts q q'"
proof -
  have "isctx (mir h) prev a (Lft a (mirror s) # map flipf fs)"
    using assms(1) isctx_mir [of h prev a "Rgt a s # fs"] by simp
  moreover have "mset (addrs (Lft a (mirror s) # map flipf fs) @ inorder (mirror r))
      = mset (addrs (Rgt a s # fs) @ inorder r)" by simp
  then have "distinct (addrs (Lft a (mirror s) # map flipf fs) @ inorder (mirror r))"
    using assms(4) mset_eq_imp_distinct_iff by blast
  ultimately obtain h' q' u where r: "splay_left p a (uplink b) q (mir h) = Some (h', q', u)"
      "isctx h' a u (map flipf fs1)" "ischild h' a (Node (mirror r) a (mirror s1))"
      "relinks (set (addrs (Lft a (mirror s) # map flipf fs) @ inorder (mirror r))) (mir h) h'"
      "same_elts q q'"
    using splay_left_ok [of "mir h" prev a "mirror s" "map flipf fs" p "mirror r" "flip b"
        "mirror s1" "map flipf fs1" q] assms(2,3) absorb_flip [OF assms(5)] by (auto simp: mir_Some)
  have "splay_right p a (uplink b) q h = Some (mir h', q', u)"
    using r(1) by (auto simp: splay_mirror map_prod_def split_def)
  moreover have "isctx (mir h') a u fs1" using r(2) isctx_mir [of "mir h'" a u fs1] by simp
  moreover have "ischild (mir h') a (Node s1 a r)"
    using r(3) ischild_mir [of "mir h'" a "Node s1 a r"] by simp
  moreover have "relinks (set (addrs (Rgt a s # fs) @ inorder r)) h (mir h')"
    using r(4) relinks_mir [of _ h "mir h'"] by simp
  ultimately show ?thesis using r(5) by blast
qed

lemma splay_ctx_absorb:
  "absorb s fs = (s1, fs1) \<Longrightarrow> splay_ctx (Lft a s # fs) L R = splay_ctx fs1 L (Node R a s1)"
  "absorb_right s fs = (s1, fs1) \<Longrightarrow> splay_ctx (Rgt a s # fs) L R = splay_ctx fs1 (Node s1 a L) R"
  by (auto simp: absorb_def absorb_right_def split: list.splits frame.splits)

section \<open>Splaying\<close>

lemma absorb_right_addrs:
  "absorb_right s fs = (s1, fs1) \<Longrightarrow> mset (inorder s1 @ addrs fs1) = mset (inorder s @ addrs fs)"
  by (auto simp: absorb_right_def ac_simps split: list.splits frame.splits)

lemma absorb_length:
  "absorb s fs = (s1, fs1) \<Longrightarrow> length fs1 \<le> length fs"
  "absorb_right s fs = (s1, fs1) \<Longrightarrow> length fs1 \<le> length fs"
  by (auto simp: absorb_def absorb_right_def split: list.splits frame.splits)

lemma splay_round:
  assumes "isctx h prev up (f # gs)" "ischild h lf L" "ischild h rt R" "prev \<noteq> 0"
    and "prev \<notin> set (addrs (f # gs))" "distinct (inorder L @ inorder R @ addrs (f # gs))"
  shows "\<exists>h1 q1 lf1 rt1 u fs1 L1 R1. splay_loop h q lf rt prev up = splay_loop h1 q1 lf1 rt1 up u
    \<and> splay_ctx (f # gs) L R = splay_ctx fs1 L1 R1 \<and> isctx h1 up u fs1 \<and> length fs1 \<le> length gs
    \<and> ischild h1 lf1 L1 \<and> ischild h1 rt1 R1 \<and> up \<in> set_tree L1 \<union> set_tree R1
    \<and> mset (inorder L1 @ inorder R1 @ addrs fs1) = mset (inorder L @ inorder R @ addrs (f # gs))
    \<and> relinks (set (inorder L @ inorder R @ addrs (f # gs))) h h1 \<and> same_elts q q1"
proof (cases f)
  let ?q = "q\<lparr>splayloops := splayloops q + 1\<rparr>"
  case (Lft a s)
  then obtain b where b: "h a = Some b" "up = a" "a \<noteq> 0" "leftlink b = prev"
    using assms(1) by auto
  obtain s1 fs1 where ab: "absorb s gs = (s1, fs1)" by fastforce
  have "distinct (addrs (Lft a s # gs) @ inorder R)" using assms(6) Lft by auto
  then obtain h1 q1 u where s: "splay_left rt a (uplink b) ?q h = Some (h1, q1, u)"
      "isctx h1 a u fs1" "ischild h1 a (Node R a s1)"
      "relinks (set (addrs (Lft a s # gs) @ inorder R)) h h1" "same_elts ?q q1"
    using splay_left_ok [of h prev a s gs rt R b s1 fs1 ?q] assms(1,3) b ab Lft by auto
  have "ischild h1 lf L" using assms(6) Lft by (intro ischild_off [OF assms(2) s(4)]) auto
  moreover have "splay_loop h q lf rt prev up = splay_loop h1 q1 lf a up u"
    using b s(1) by (subst splay_loop.simps) (simp add: ld_simp)
  moreover have "relinks (set (inorder L @ inorder R @ addrs (f # gs))) h h1"
    by (rule relinks_mono [OF s(4)]) (auto simp: Lft)
  ultimately show ?thesis
    using s(2,3,5) absorb_addrs [OF ab] absorb_length(1) [OF ab] b(2) splay_ctx_absorb(1) [OF ab] Lft
    by (intro exI [of _ h1] exI [of _ q1] exI [of _ lf] exI [of _ a] exI [of _ u] exI [of _ fs1]
        exI [of _ L] exI [of _ "Node R a s1"]) (simp add: same_elts_def)
next
  let ?q = "q\<lparr>splayloops := splayloops q + 1\<rparr>"
  case (Rgt a s)
  then obtain b where b: "h a = Some b" "up = a" "a \<noteq> 0" "istree h a (leftlink b) s"
    using assms(1) by auto
  have "leftlink b \<noteq> prev" using istree_root [OF b(4)] assms(4,5) Rgt by auto
  obtain s1 fs1 where ab: "absorb_right s gs = (s1, fs1)" by fastforce
  have "distinct (addrs (Rgt a s # gs) @ inorder L)" using assms(6) Rgt by auto
  then obtain h1 q1 u where s: "splay_right lf a (uplink b) ?q h = Some (h1, q1, u)"
      "isctx h1 a u fs1" "ischild h1 a (Node s1 a L)"
      "relinks (set (addrs (Rgt a s # gs) @ inorder L)) h h1" "same_elts ?q q1"
    using splay_right_ok [of h prev a s gs lf L b s1 fs1 ?q] assms(1,2) b ab Rgt by auto
  have "ischild h1 rt R" using assms(6) Rgt by (intro ischild_off [OF assms(3) s(4)]) auto
  moreover have "splay_loop h q lf rt prev up = splay_loop h1 q1 a rt up u"
    using b s(1) \<open>leftlink b \<noteq> prev\<close> by (subst splay_loop.simps) (simp add: ld_simp)
  moreover have "relinks (set (inorder L @ inorder R @ addrs (f # gs))) h h1"
    by (rule relinks_mono [OF s(4)]) (auto simp: Rgt)
  ultimately show ?thesis
    using s(2,3,5) absorb_right_addrs [OF ab] absorb_length(2) [OF ab] b(2) splay_ctx_absorb(2) [OF ab] Rgt
    by (intro exI [of _ h1] exI [of _ q1] exI [of _ a] exI [of _ rt] exI [of _ u] exI [of _ fs1]
        exI [of _ "Node s1 a L"] exI [of _ R]) (simp add: same_elts_def)
qed

lemma splay_loop_ok:
  assumes "isctx h prev up fs" "ischild h lf L" "ischild h rt R" "prev \<noteq> 0"
    and "prev \<notin> set (addrs fs)" "distinct (inorder L @ inorder R @ addrs fs)"
  shows "\<exists>h' q' lf' rt' L' R'. splay_loop h q lf rt prev up = Some (h', q', lf', rt')
    \<and> splay_ctx fs L R = (L', R') \<and> ischild h' lf' L' \<and> ischild h' rt' R'
    \<and> relinks (set (inorder L @ inorder R @ addrs fs)) h h' \<and> same_elts q q'"
  using assms
proof (induction fs arbitrary: h q lf rt prev up L R rule: measure_induct_rule [of length])
  case (less fs)
  note prems = less.prems
  show ?case
  proof (cases fs)
    case Nil
    then show ?thesis using prems by (subst splay_loop.simps) (simp add: same_elts_def)
  next
    case (Cons f gs)
    obtain h1 q1 lf1 rt1 u fs1 L1 R1 where s:
        "splay_loop h q lf rt prev up = splay_loop h1 q1 lf1 rt1 up u"
        "splay_ctx fs L R = splay_ctx fs1 L1 R1" "isctx h1 up u fs1" "length fs1 < length fs"
        "ischild h1 lf1 L1" "ischild h1 rt1 R1" "up \<in> set_tree L1 \<union> set_tree R1"
        and m: "mset (inorder L1 @ inorder R1 @ addrs fs1) = mset (inorder L @ inorder R @ addrs fs)"
        and r: "relinks (set (inorder L @ inorder R @ addrs fs)) h h1" "same_elts q q1"
      using splay_round [of h prev up f gs lf L rt R q] prems Cons by (auto simp del: addrs_simps)
    have d: "distinct (inorder L1 @ inorder R1 @ addrs fs1)"
        "set (inorder L1 @ inorder R1 @ addrs fs1) = set (inorder L @ inorder R @ addrs fs)"
      using m prems(6) mset_eq_imp_distinct_iff mset_eq_setD by blast+
    have up: "up \<noteq> 0" "up \<notin> set (addrs fs1)"
      using s(5-7) ischild_nonzero d(1) by fastforce+
    from less.IH [OF s(4,3,5,6) up d(1), of q1] obtain h' q' lf' rt' L' R' where t:
        "splay_loop h1 q1 lf1 rt1 up u = Some (h', q', lf', rt')"
        "splay_ctx fs1 L1 R1 = (L', R')" "ischild h' lf' L'" "ischild h' rt' R'"
        "relinks (set (inorder L1 @ inorder R1 @ addrs fs1)) h1 h'" "same_elts q1 q'"
      by blast
    have "relinks (set (inorder L @ inorder R @ addrs fs)) h h'"
      by (rule relinks_trans [OF r(1) t(5) [unfolded d(2)]]) simp
    moreover have "same_elts q q'" using r(2) t(6) same_elts_trans by blast
    ultimately show ?thesis using s(1,2) t(1-4) by simp
  qed
qed

lemma link_both:
  assumes "h n = Some b" "n \<noteq> 0" "ischild h lf L" "ischild h rt R" "distinct (n # inorder L @ inorder R)"
  shows "\<exists>h'. (do { h \<leftarrow> set_left h n lf; h \<leftarrow> set_right h n rt; h \<leftarrow> set_up_nn h lf n;
      h \<leftarrow> set_up_nn h rt n; set_up h n 0 }) = Some h' \<and> istree h' 0 n (Node L n R)
    \<and> relinks ({n} \<union> set_tree L \<union> set_tree R) h h'"
proof -
  define h1 where "h1 = h(n \<mapsto> b\<lparr>leftlink := lf, rightlink := rt\<rparr>)"
  have r1: "relinks {n} h h1" using assms(1) by (simp add: h1_def relinks_upd)
  have "ischild h1 lf L" using assms(5) by (intro ischild_off [OF assms(3) r1]) auto
  then obtain h2 where h2: "set_up_nn h1 lf n = Some h2" "istree h2 n lf L" "relinks (set_tree L) h1 h2"
    using set_up_nn_tree [of h1 lf L n] assms(5) by auto
  have r2: "relinks ({n} \<union> set_tree L) h h2" by (rule relinks_trans [OF r1 h2(3)]) simp
  have "ischild h2 rt R" using assms(5) by (intro ischild_off [OF assms(4) r2]) auto
  then obtain h3 where h3: "set_up_nn h2 rt n = Some h3" "istree h3 n rt R" "relinks (set_tree R) h2 h3"
    using set_up_nn_tree [of h2 rt R n] assms(5) by auto
  have h3n: "h3 n = Some (b\<lparr>leftlink := lf, rightlink := rt\<rparr>)"
    using assms(5) relinks_at [OF h2(3)] relinks_at [OF h3(3)] by (simp add: h1_def)
  define h4 where "h4 = h3(n \<mapsto> b\<lparr>leftlink := lf, rightlink := rt, uplink := 0\<rparr>)"
  have r34: "relinks {n} h3 h4" using h3n by (simp add: h4_def relinks_upd)
  have r24: "relinks ({n} \<union> set_tree R) h2 h4" by (rule relinks_trans [OF h3(3) r34]) simp
  have "istree h4 n lf L" using assms(5) by (intro istree_off [OF h2(2) r24]) auto
  moreover have "istree h4 n rt R" using assms(5) by (intro istree_off [OF h3(2) r34]) auto
  ultimately have "istree h4 0 n (Node L n R)" using assms(2) by (simp add: h4_def)
  moreover have "relinks ({n} \<union> set_tree L \<union> set_tree R) h h4"
    by (rule relinks_trans [OF r2 r24]) auto
  ultimately show ?thesis
    using assms(1,2) h2(1) h3(1) h3n
    by (simp add: st_simp h1_def [symmetric] h4_def [symmetric])
qed

lemma splay_ok:
  assumes t: "istree h 0 p t" and d: "distinct (inorder t)" and n: "n \<in> set_tree t"
  shows "\<exists>h' q' l r. splay n q h = Some (h', q') \<and> sp_root q' = n \<and> same_elts q q'
    \<and> istree h' 0 n (Node l n r) \<and> inorder (Node l n r) = inorder t \<and> relinks (set_tree t) h h'"
proof -
  obtain L R fs b where c: "plug fs (Node L n R) = t" "h n = Some b" "n \<noteq> 0"
      "istree h n (leftlink b) L" "istree h n (rightlink b) R" "isctx h n (uplink b) fs"
    using isctx_ex [OF t, of "[]" n] n by auto
  have dist: "distinct ((inorder L @ n # inorder R) @ addrs fs)"
    using d distinct_plug [of fs "Node L n R"] c(1) by (simp del: inorder_plug)
  have m: "set_tree t = insert n (set (inorder L @ inorder R @ addrs fs))"
    using arg_cong [OF mset_plug [of fs "Node L n R"], of set_mset] c(1)
    by (simp del: inorder_plug)
  let ?q = "q\<lparr>splays := splays q + 1\<rparr>"
  have "n \<notin> set (addrs fs)" "distinct (inorder L @ inorder R @ addrs fs)" using dist by auto
  from splay_loop_ok [OF c(6) istree_child [OF c(4)] istree_child [OF c(5)] c(3) this, of ?q]
  obtain h1 q1 lf rt L' R' where s:
      "splay_loop h ?q (leftlink b) (rightlink b) n (uplink b) = Some (h1, q1, lf, rt)"
      "splay_ctx fs L R = (L', R')" "ischild h1 lf L'" "ischild h1 rt R'"
      "relinks (set (inorder L @ inorder R @ addrs fs)) h h1" "same_elts ?q q1"
    by blast
  have io: "inorder (Node L' n R') = inorder t"
    using splay_ctx_inorder [OF s(2), of n] c(1) by simp
  then have "distinct (inorder (Node L' n R'))" using d by simp
  then have d': "distinct (n # inorder L' @ inorder R')" by auto
  have "h1 n = Some b" using relinks_at [OF s(5)] dist c(2) by auto
  from link_both [OF this c(3) s(3,4) d'] obtain h2 where h2:
      "do { h \<leftarrow> set_left h1 n lf; h \<leftarrow> set_right h n rt; h \<leftarrow> set_up_nn h lf n;
        h \<leftarrow> set_up_nn h rt n; set_up h n 0 } = Some h2" "istree h2 0 n (Node L' n R')"
      "relinks ({n} \<union> set_tree L' \<union> set_tree R') h1 h2" by blast
  have "splay n q h = Some (h2, q1\<lparr>sp_root := n\<rparr>)"
    using c(2,3) s(1) h2(1)
    by (auto simp: splay_def ld_simp bind_eq_Some_conv)
  moreover have "relinks (set_tree t) h h2"
    using arg_cong [OF io, of set] by (intro relinks_trans [OF s(5) h2(3)]) (auto simp: m)
  ultimately show ?thesis using h2(2) io s(6) by (auto simp: same_elts_def)
qed

end
