(* ===== verification/Splay_Insert.thy ===== *)
theory Splay_Insert
  imports Splay_Correct
begin

text \<open>
  Insertion and search in the linked splay trees. \<open>sp_enq_ok\<close> is the specification of
  \<^const>\<open>sp_enq\<close>: the new node becomes the root, the nodes with smaller keys its left
  subtree and the others its right subtree, in their old order. \<open>lookup_loop_ok\<close> is the
  specification of the search.
\<close>

section \<open>Insertion\<close>

text \<open>
  The insertion splits the old tree into two spines that hang below the new root: the nodes smaller
  than the key on a chain of right links, the others on a chain of left links. \<open>segR\<close> is such a
  chain from its open end \<open>u\<close> (whose right link is \<open>c\<close>) up to \<open>n\<close>; the chain of left
  links is the same thing in the mirror.
\<close>

type_synonym spine = "(nat \<times> nat tree) list"

fun segR :: "'d cells \<Rightarrow> nat \<Rightarrow> nat \<Rightarrow> nat \<Rightarrow> spine \<Rightarrow> bool" where
  "segR h n c u [] \<longleftrightarrow> u = n \<and> map_option rightlink (h n) = Some c"
| "segR h n c u ((a, s) # fs) \<longleftrightarrow> u = a \<and> a \<noteq> 0 \<and>
     (\<exists>b. h a = Some b \<and> rightlink b = c \<and> istree h a (leftlink b) s \<and> segR h n a (uplink b) fs)"

fun seg_seq :: "spine \<Rightarrow> nat list" where
  "seg_seq [] = []"
| "seg_seq ((a, s) # fs) = seg_seq fs @ inorder s @ [a]"

fun seg_tree :: "spine \<Rightarrow> nat tree \<Rightarrow> nat tree" where
  "seg_tree [] t = t"
| "seg_tree ((a, s) # fs) t = seg_tree fs (Node s a t)"

lemma inorder_seg_tree: "inorder (seg_tree fs t) = seg_seq fs @ inorder t"
  by (induction fs t rule: seg_tree.induct) auto

lemma segR_frame:
  "segR h n c u fs \<Longrightarrow> (\<And>x. x \<in> set (seg_seq fs) \<Longrightarrow> h' x = h x) \<Longrightarrow>
     map_option rightlink (h' n) = map_option rightlink (h n) \<Longrightarrow> segR h' n c u fs"
  by (induction fs arbitrary: c u) (auto intro!: istree_frame [where h = h and h' = h'])

lemma segR_close:
  "segR h n c u fs \<Longrightarrow> istree h u c t \<Longrightarrow>
     \<exists>b. h n = Some b \<and> istree h n (rightlink b) (seg_tree fs t)"
  by (induction fs arbitrary: c u t) auto

lemma segR_end: "segR h n c u fs \<Longrightarrow> u = n \<or> u \<in> set (seg_seq fs)"
  by (cases fs) auto

lemma segR_fill:
  assumes "segR h n c u fs" "n \<noteq> 0" "distinct (n # seg_seq fs)"
  shows "\<exists>b. h u = Some b \<and> u \<noteq> 0 \<and> rightlink b = c \<and> segR (h(u \<mapsto> b\<lparr>rightlink := v\<rparr>)) n v u fs"
proof (cases fs)
  case Nil
  then show ?thesis using assms by auto
next
  case (Cons f gs)
  obtain a s where f: "f = (a, s)" by fastforce
  obtain b where b: "h a = Some b" "u = a" "a \<noteq> 0" "rightlink b = c" "istree h a (leftlink b) s"
      "segR h n a (uplink b) gs" using assms(1) Cons f by auto
  have "istree (h(a \<mapsto> b\<lparr>rightlink := v\<rparr>)) a (leftlink b) s"
    using assms(3) Cons f by (intro istree_frame [OF b(5)]) auto
  moreover have "segR (h(a \<mapsto> b\<lparr>rightlink := v\<rparr>)) n a (uplink b) gs"
    using assms(3) Cons f by (intro segR_frame [OF b(6)]) auto
  ultimately show ?thesis using b Cons f by simp
qed

definition both :: "'d cells \<Rightarrow> nat \<Rightarrow> nat \<Rightarrow> nat \<Rightarrow> spine \<Rightarrow> nat \<Rightarrow> nat \<Rightarrow> spine \<Rightarrow> bool" where
  "both h n c lf fs d rt gs \<longleftrightarrow> n \<noteq> 0 \<and> segR h n c lf fs \<and> segR (mir h) n d rt gs
     \<and> distinct (n # seg_seq fs @ seg_seq gs) \<and> map_option uplink (h n) = Some 0"

definition both_addrs :: "nat \<Rightarrow> spine \<Rightarrow> spine \<Rightarrow> nat set" where
  "both_addrs n fs gs = insert n (set (seg_seq fs) \<union> set (seg_seq gs))"

lemma both_sym: "both (mir h) n d rt gs c lf fs \<longleftrightarrow> both h n c lf fs d rt gs"
  by (auto simp: both_def mir_def option.map_comp comp_def)

lemma both_off:
  assumes "both h n c lf fs d rt gs" "relinks A h h'" "A \<inter> both_addrs n fs gs = {}"
  shows "both h' n c lf fs d rt gs"
proof -
  have eq: "h' x = h x" if "x \<in> both_addrs n fs gs" for x
    using relinks_at [OF assms(2), of x] assms(3) that by auto
  have "segR h' n c lf fs"
    using assms(1) eq by (intro segR_frame [where h = h and h' = h']) (auto simp: both_def both_addrs_def)
  moreover have "segR (mir h') n d rt gs"
    using assms(1) eq by (intro segR_frame [where h = "mir h" and h' = "mir h'"])
      (auto simp: both_def both_addrs_def mir_def)
  ultimately show ?thesis using assms(1) eq [of n] by (simp add: both_def both_addrs_def)
qed

lemma both_fill:
  assumes "both h n c lf fs d rt gs"
  shows "\<exists>h'. set_right h lf v = Some h' \<and> both h' n v lf fs d rt gs \<and> relinks {lf} h h'
    \<and> lf \<in> both_addrs n fs gs"
proof -
  obtain b where b: "h lf = Some b" "lf \<noteq> 0" "segR (h(lf \<mapsto> b\<lparr>rightlink := v\<rparr>)) n v lf fs"
    using segR_fill [of h n c lf fs v] assms by (auto simp: both_def)
  have e: "lf = n \<or> lf \<in> set (seg_seq fs)" using segR_end [of h n c lf fs] assms by (simp add: both_def)
  let ?h = "h(lf \<mapsto> b\<lparr>rightlink := v\<rparr>)"
  have "segR (mir ?h) n d rt gs"
  proof (rule segR_frame)
    show "segR (mir h) n d rt gs" using assms by (simp add: both_def)
    show "mir ?h x = mir h x" if "x \<in> set (seg_seq gs)" for x
    proof -
      have "x \<noteq> lf" using that e assms by (auto simp: both_def)
      then show ?thesis by (simp add: mir_def)
    qed
    show "map_option rightlink (mir ?h n) = map_option rightlink (mir h n)"
      using b(1) by (simp add: mir_def)
  qed
  moreover have "map_option uplink (?h n) = Some 0" using assms b(1) by (auto simp: both_def)
  ultimately have "both ?h n v lf fs d rt gs" using assms b(3) by (simp add: both_def)
  moreover have "set_right h lf v = Some ?h" using b(1,2) by (simp add: st_simp)
  moreover have "relinks {lf} h ?h" using b(1) by (simp add: relinks_upd)
  moreover have "lf \<in> both_addrs n fs gs" using e by (auto simp: both_addrs_def)
  ultimately show ?thesis by blast
qed

lemma both_push:
  "both h n a lf fs d rt gs \<Longrightarrow> h a = Some b \<Longrightarrow> a \<noteq> 0 \<Longrightarrow> istree h a (leftlink b) s \<Longrightarrow>
   uplink b = lf \<Longrightarrow> distinct (a # inorder s) \<Longrightarrow> insert a (set_tree s) \<inter> both_addrs n fs gs = {} \<Longrightarrow>
   both h n (rightlink b) a ((a, s) # fs) d rt gs"
  by (auto simp: both_def both_addrs_def)


text \<open>One round with the comparison as a parameter: both labels are instances of it.\<close>

definition enq_side :: "(u32 \<Rightarrow> bool) \<Rightarrow> 'd cells \<Rightarrow> sptree \<Rightarrow> nat \<Rightarrow> nat \<Rightarrow> nat \<Rightarrow> 'd enq_jump option" where
  "enq_side P h q lf rt next = do {
     temp \<leftarrow> ld rightlink h next;
     if temp = 0 then do {
       h \<leftarrow> set_right h lf next;
       h \<leftarrow> set_up h next lf;
       h \<leftarrow> set_left h rt 0;
       Some (Done h q)
     } else do {
       let q = q\<lparr>enqcmps := enqcmps q + 1\<rparr>;
       tk \<leftarrow> ld key h temp;
       if \<not> P tk then do {
         h \<leftarrow> set_right h lf next;
         h \<leftarrow> set_up h next lf;
         Some (Goto_two h q next rt temp)
       } else do {
         tl \<leftarrow> ld leftlink h temp;
         h \<leftarrow> set_right h next tl;
         h \<leftarrow> set_up_nn h tl next;
         h \<leftarrow> set_right h lf temp;
         h \<leftarrow> set_up h temp lf;
         h \<leftarrow> set_left h temp next;
         h \<leftarrow> set_up h next temp;
         next' \<leftarrow> ld rightlink h temp;
         if next' = 0 then do {
           h \<leftarrow> set_left h rt 0;
           Some (Done h q)
         } else do {
           let q = q\<lparr>enqcmps := enqcmps q + 1\<rparr>;
           nk \<leftarrow> ld key h next';
           Some (if P nk then Goto_one h q temp rt next' else Goto_two h q temp rt next')
         }
       }
     }
   }"

fun flipj :: "'d enq_jump \<Rightarrow> 'd enq_jump" where
  "flipj (Done h q) = Done (mir h) q"
| "flipj (Goto_one h q lf rt nx) = Goto_two (mir h) q rt lf nx"
| "flipj (Goto_two h q lf rt nx) = Goto_one (mir h) q rt lf nx"

lemma if_neg: "(if \<not> c then x else y) = (if c then y else x)"
  by simp

lemma enq_one_side: "enq_one k = enq_side (\<lambda>x. x < k)"
  by (simp add: enq_one_def enq_side_def fun_eq_iff)

lemma enq_two_side:
  "enq_two k h q lf rt nx = map_option flipj (enq_side (\<lambda>x. \<not> x < k) (mir h) q rt lf nx)"
  unfolding enq_two_def enq_side_def
  by (simp add: mirror_simps Let_def if_distrib [of flipj] if_neg cong: if_cong)

definition nkey :: "'d cells \<Rightarrow> nat \<Rightarrow> u32" where
  "nkey h x = fst (the (kd h x))"

lemma nkey_at: "h x = Some b \<Longrightarrow> nkey h x = key b"
  by (simp add: nkey_def kd_def)

lemma nkey_mir [simp]: "nkey (mir h) = nkey h"
  by (simp add: nkey_def fun_eq_iff)

lemma relinks_nkey: "relinks A h h' \<Longrightarrow> nkey h' = nkey h"
  by (simp add: nkey_def fun_eq_iff relinks_def)

lemma attach_right:
  assumes "h a = Some b" "a \<noteq> 0" "istree h a (leftlink b) s" "ischild h p r"
    and "distinct (a # inorder s @ inorder r)"
  shows "\<exists>h' h''. set_right h a p = Some h' \<and> set_up_nn h' p a = Some h''
    \<and> ischild h'' a (Node s a r) \<and> relinks (insert a (set_tree r)) h h''"
proof -
  have "distinct (a # inorder (mirror s) @ inorder (mirror r))"
    using assms(5) by (simp add: inorder_mirror)
  moreover have "mir h a = Some (flip b)" using assms(1) by (simp add: mir_Some)
  ultimately obtain h1 h2 where "set_left (mir h) a p = Some h1" "set_up_nn h1 p a = Some h2"
      "ischild h2 a (Node (mirror r) a (mirror s))" "relinks (insert a (set_tree (mirror r))) (mir h) h2"
    using attach_left [of "mir h" a "flip b" "mirror s" p "mirror r"] assms(2-4) by auto
  moreover from this obtain g1 where "set_right h a p = Some g1" "h1 = mir g1" by auto
  moreover from calculation obtain g2 where "set_up_nn g1 p a = Some g2" "h2 = mir g2" by auto
  ultimately show ?thesis using ischild_mir [of g2 a "Node s a r"] by auto
qed

text \<open>Linking a node to the open end, the common tail of all three branches.\<close>

lemma both_link:
  assumes "both h n c lf fs d rt gs" "h a = Some b" "a \<noteq> 0" "istree h a (leftlink b) s"
    and "distinct (a # inorder s)" "insert a (set_tree s) \<inter> both_addrs n fs gs = {}"
  shows "\<exists>h' h''. set_right h lf a = Some h' \<and> set_up h' a lf = Some h''
    \<and> both h'' n (rightlink b) a ((a, s) # fs) d rt gs \<and> relinks (insert a (both_addrs n fs gs)) h h''
    \<and> relinks {lf, a} h h'' \<and> h'' a = Some (b\<lparr>uplink := lf\<rparr>)"
proof -
  obtain h1 where h1: "set_right h lf a = Some h1" "both h1 n a lf fs d rt gs" "relinks {lf} h h1"
      "lf \<in> both_addrs n fs gs" using both_fill [OF assms(1)] by blast
  have h1a: "h1 a = Some b" using relinks_at [OF h1(3), of a] assms(2,6) h1(4) by auto
  define h2 where "h2 = h1(a \<mapsto> b\<lparr>uplink := lf\<rparr>)"
  have r2: "relinks {a} h1 h2" using h1a by (simp add: h2_def relinks_upd)
  have r: "relinks {lf, a} h h2" by (rule relinks_trans [OF h1(3) r2]) auto
  have "istree h2 a (leftlink b) s"
    using assms(5,6) h1(4) by (intro istree_off [OF assms(4) r]) auto
  moreover have "both h2 n a lf fs d rt gs" using assms(6) by (intro both_off [OF h1(2) r2]) auto
  ultimately have "both h2 n (rightlink b) a ((a, s) # fs) d rt gs"
    using both_push [of h2 n a lf fs d rt gs "b\<lparr>uplink := lf\<rparr>" s] assms(3,5,6) by (simp add: h2_def)
  moreover have "relinks (insert a (both_addrs n fs gs)) h h2"
    using h1(4) by (intro relinks_mono [OF r]) auto
  ultimately show ?thesis using h1(1) h1a assms(3) r by (simp add: st_simp h2_def [symmetric]) (simp add: h2_def)
qed

definition enq_state ::
    "(u32 \<Rightarrow> bool) \<Rightarrow> 'd cells \<Rightarrow> nat \<Rightarrow> nat \<Rightarrow> spine \<Rightarrow> nat \<Rightarrow> spine \<Rightarrow> nat \<Rightarrow> nat tree \<Rightarrow> bool" where
  "enq_state P h n lf fs rt gs nx T \<longleftrightarrow> (\<exists>c d. both h n c lf fs d rt gs) \<and> ischild h nx T \<and> T \<noteq> Leaf
     \<and> distinct (inorder T) \<and> set_tree T \<inter> both_addrs n fs gs = {}
     \<and> sorted_wrt (\<lambda>x y. P (nkey h y) \<longrightarrow> P (nkey h x)) (inorder T)
     \<and> (\<forall>x \<in> set (seg_seq fs). P (nkey h x)) \<and> (\<forall>x \<in> set (seg_seq gs). \<not> P (nkey h x))"

lemma enq_state_sym:
  "enq_state (\<lambda>x. \<not> P x) (mir h) n rt gs lf fs nx (mirror T) \<longleftrightarrow> enq_state P h n lf fs rt gs nx T"
proof -
  have "(\<exists>c d. both (mir h) n c rt gs d lf fs) \<longleftrightarrow> (\<exists>c d. both h n c lf fs d rt gs)"
    using both_sym by blast
  moreover have "sorted_wrt (\<lambda>x y. \<not> P (nkey h y) \<longrightarrow> \<not> P (nkey h x)) (rev (inorder T))
      \<longleftrightarrow> sorted_wrt (\<lambda>x y. P (nkey h y) \<longrightarrow> P (nkey h x)) (inorder T)"
    unfolding sorted_wrt_rev by (rule arg_cong2 [of _ _ _ _ sorted_wrt]) auto
  moreover have "both_addrs n gs fs = both_addrs n fs gs" by (auto simp: both_addrs_def)
  ultimately show ?thesis by (auto simp: enq_state_def inorder_mirror)
qed

lemma both_fill_left:
  assumes "both h n c lf fs d rt gs"
  shows "\<exists>h'. set_left h rt v = Some h' \<and> both h' n c lf fs v rt gs \<and> relinks (both_addrs n fs gs) h h'"
proof -
  obtain h1 where h1: "set_right (mir h) rt v = Some h1" "both h1 n v rt gs c lf fs"
      "relinks {rt} (mir h) h1" "rt \<in> both_addrs n gs fs"
    using both_fill [of "mir h" n d rt gs c lf fs v] assms both_sym by blast
  then obtain g where g: "set_left h rt v = Some g" "h1 = mir g" by auto
  have "both g n c lf fs v rt gs" using h1(2) g(2) both_sym by blast
  moreover have "relinks (both_addrs n fs gs) h g"
    using h1(3,4) g(2) by (auto simp: both_addrs_def elim: relinks_mono)
  ultimately show ?thesis using g(1) by blast
qed

lemma both_rotate:
  assumes b: "both h n c lf fs d rt gs"
    and nx: "h nx = Some b" "nx \<noteq> 0" "istree h nx (leftlink b) l"
    and tm: "h tm = Some bt" "tm \<noteq> 0" "ischild h (leftlink bt) rl" "istree h tm (rightlink bt) rr"
    and dis: "distinct (inorder l @ nx # inorder rl @ tm # inorder rr)"
    and off: "set (inorder l @ nx # inorder rl @ tm # inorder rr) \<inter> both_addrs n fs gs = {}"
  shows "\<exists>h'. (do { h \<leftarrow> set_right h nx (leftlink bt); h \<leftarrow> set_up_nn h (leftlink bt) nx;
      h \<leftarrow> set_right h lf tm; h \<leftarrow> set_up h tm lf; h \<leftarrow> set_left h tm nx; set_up h nx tm }) = Some h'
    \<and> both h' n (rightlink bt) tm ((tm, Node l nx rl) # fs) d rt gs
    \<and> ischild h' (rightlink bt) rr \<and> ld rightlink h' tm = Some (rightlink bt)
    \<and> relinks (both_addrs n fs gs \<union> set (inorder l @ nx # inorder rl @ [tm])) h h'"
proof -
  have "distinct (nx # inorder l @ inorder rl)" using dis by auto
  from attach_right [OF nx tm(3) this] obtain h1 h2 where h2: "set_right h nx (leftlink bt) = Some h1"
      "set_up_nn h1 (leftlink bt) nx = Some h2" "ischild h2 nx (Node l nx rl)"
      "relinks (insert nx (set_tree rl)) h h2" by blast
  have "both h2 n c lf fs d rt gs" using off by (intro both_off [OF b h2(4)]) auto
  from both_fill [OF this] obtain h3 where h3: "set_right h2 lf tm = Some h3"
      "both h3 n tm lf fs d rt gs" "relinks {lf} h2 h3" "lf \<in> both_addrs n fs gs" by blast
  have r3: "relinks ({lf, nx} \<union> set_tree rl) h h3" by (rule relinks_trans [OF h2(4) h3(3)]) auto
  have h3t: "h3 tm = Some bt"
    using tm(1) off h3(4) dis by (subst relinks_at [OF r3]) auto
  define h4 where "h4 = h3(tm \<mapsto> bt\<lparr>uplink := lf, leftlink := nx\<rparr>)"
  have r34: "relinks {tm} h3 h4" using h3t by (simp add: h4_def relinks_upd)
  have r24: "relinks {lf, tm} h2 h4" by (rule relinks_trans [OF h3(3) r34]) auto
  have "ischild h4 nx (Node l nx rl)"
    using off h3(4) dis by (intro ischild_off [OF h2(3) r24]) auto
  then obtain h5 where h5: "set_up_nn h4 nx tm = Some h5" "istree h5 tm nx (Node l nx rl)"
      "relinks (set_tree (Node l nx rl)) h4 h5"
    using set_up_nn_tree [of h4 nx "Node l nx rl" tm] dis by auto
  have h5t: "h5 tm = Some (bt\<lparr>uplink := lf, leftlink := nx\<rparr>)"
    using relinks_at [OF h5(3), of tm] dis by (auto simp: h4_def)
  have r35: "relinks (insert tm (set_tree (Node l nx rl))) h3 h5"
    by (rule relinks_trans [OF r34 h5(3)]) auto
  have "both h5 n tm lf fs d rt gs" using off by (intro both_off [OF h3(2) r35]) auto
  from both_push [OF this h5t tm(2), of "Node l nx rl"] h5(2)
  have "both h5 n (rightlink bt) tm ((tm, Node l nx rl) # fs) d rt gs"
    using dis off by auto
  moreover have r5: "relinks ({lf} \<union> set (inorder l @ nx # inorder rl @ [tm])) h h5"
    by (rule relinks_trans [OF r3 r35]) auto
  then have "ischild h5 (rightlink bt) rr"
    using off h3(4) dis by (intro ischild_off [OF istree_child [OF tm(4)] r5]) auto
  moreover have "relinks (both_addrs n fs gs \<union> set (inorder l @ nx # inorder rl @ [tm])) h h5"
    using h3(4) by (intro relinks_mono [OF r5]) auto
  moreover have "set_up h4 nx tm = Some h5" using h5(1) nx(2) by (simp add: set_up_nn_def)
  ultimately show ?thesis
    using h2(1,2) h3(1) h3t h5t tm(2) by (simp add: st_simp h4_def [symmetric] ld_simp)
qed

definition same_hdr :: "sptree \<Rightarrow> sptree \<Rightarrow> bool" where
  "same_hdr q q' \<longleftrightarrow> symbols q' = symbols q \<and> eltscnt q' = eltscnt q \<and> sp_root q' = sp_root q"

lemma same_hdr_trans: "same_hdr q q' \<Longrightarrow> same_hdr q' q'' \<Longrightarrow> same_hdr q q''"
  by (simp add: same_hdr_def)

definition enq_cont ::
    "(u32 \<Rightarrow> bool) \<Rightarrow> 'd cells \<Rightarrow> sptree \<Rightarrow> nat \<Rightarrow> spine \<Rightarrow> nat \<Rightarrow> spine \<Rightarrow> nat tree \<Rightarrow>
     bool \<Rightarrow> 'd cells \<Rightarrow> sptree \<Rightarrow> nat \<Rightarrow> nat \<Rightarrow> bool" where
  "enq_cont P h q n fs rt gs T same h' q' lf' nx' \<longleftrightarrow> (\<exists>fs' T'. enq_state P h' n lf' fs' rt gs nx' T'
     \<and> P (nkey h nx') = same \<and> seg_seq fs' @ inorder T' = seg_seq fs @ inorder T \<and> size T' < size T
     \<and> relinks (both_addrs n fs gs \<union> set_tree T) h h' \<and> same_hdr q q')"

definition enq_res ::
    "(u32 \<Rightarrow> bool) \<Rightarrow> 'd cells \<Rightarrow> sptree \<Rightarrow> nat \<Rightarrow> spine \<Rightarrow> nat \<Rightarrow> spine \<Rightarrow> nat tree \<Rightarrow> 'd enq_jump \<Rightarrow> bool" where
  "enq_res P h q n fs rt gs T j = (case j of
     Done h' q' \<Rightarrow> (\<exists>lf' fs'. both h' n 0 lf' fs' 0 rt gs \<and> seg_seq fs' = seg_seq fs @ inorder T
       \<and> (\<forall>x \<in> set (seg_seq fs'). P (nkey h x))
       \<and> relinks (both_addrs n fs gs \<union> set_tree T) h h' \<and> same_hdr q q')
   | Goto_one h' q' lf' rt' nx' \<Rightarrow> rt' = rt \<and> enq_cont P h q n fs rt gs T True h' q' lf' nx'
   | Goto_two h' q' lf' rt' nx' \<Rightarrow> rt' = rt \<and> enq_cont P h q n fs rt gs T False h' q' lf' nx')"

lemma enq_state_next:
  assumes s: "enq_state P h n lf fs rt gs nx T" and r: "relinks A h h'"
    and b: "both h' n c lf' fs' d rt gs" and t: "ischild h' nx' T'" "T' \<noteq> Leaf"
    and e: "seg_seq fs' @ inorder T' = seg_seq fs @ inorder T" "seg_seq fs' = seg_seq fs @ ys @ [y]"
    and y: "P (nkey h y)"
  shows "enq_state P h' n lf' fs' rt gs nx' T'"
proof -
  have T: "inorder T = (ys @ [y]) @ inorder T'" using e by simp
  have "\<forall>x \<in> set (seg_seq fs'). P (nkey h x)"
    using s y by (auto simp: enq_state_def e(2) T sorted_wrt_append)
  moreover have "distinct (inorder T')" "sorted_wrt (\<lambda>x y. P (nkey h y) \<longrightarrow> P (nkey h x)) (inorder T')"
    using s by (auto simp: enq_state_def T sorted_wrt_append)
  moreover have "set_tree T = set (ys @ [y]) \<union> set_tree T'"
    using arg_cong [OF T, of set] by simp
  then have "set_tree T' \<inter> both_addrs n fs' gs = {}"
    using s arg_cong [OF T, of distinct] by (auto simp: enq_state_def both_addrs_def e(2))
  moreover have "\<forall>x \<in> set (seg_seq gs). \<not> P (nkey h x)" using s by (simp add: enq_state_def)
  ultimately show ?thesis using b t unfolding enq_state_def relinks_nkey [OF r] by blast
qed

lemma enq_side_ok:
  assumes s: "enq_state P h n lf fs rt gs nx T" and P: "P (nkey h nx)"
  shows "\<exists>j. enq_side P h q lf rt nx = Some j \<and> enq_res P h q n fs rt gs T j"
proof -
  obtain c d l r where bo: "both h n c lf fs d rt gs" and T: "T = Node l nx r" and ch: "ischild h nx T"
    and d: "distinct (inorder T)" "set_tree T \<inter> both_addrs n fs gs = {}"
    using s by (cases T) (auto simp: enq_state_def)
  obtain b where b: "h nx = Some b" "nx \<noteq> 0" "istree h nx (leftlink b) l" "istree h nx (rightlink b) r"
    using ch T by auto
  have mono: "\<forall>x \<in> set_tree l. P (nkey h x)" "\<forall>x \<in> set (seg_seq fs). P (nkey h x)"
    using s P by (auto simp: enq_state_def T sorted_wrt_append)
  have "distinct (nx # inorder l)" "insert nx (set_tree l) \<inter> both_addrs n fs gs = {}"
    using d T by auto
  from both_link [OF bo b(1-3) this] obtain h1 h2 where lk: "set_right h lf nx = Some h1"
      "set_up h1 nx lf = Some h2" "both h2 n (rightlink b) nx ((nx, l) # fs) d rt gs"
      "relinks (insert nx (both_addrs n fs gs)) h h2" by blast
  show ?thesis
  proof (cases r)
    case Leaf
    obtain h3 where h3: "set_left h2 rt 0 = Some h3" "both h3 n (rightlink b) nx ((nx, l) # fs) 0 rt gs"
        "relinks (both_addrs n ((nx, l) # fs) gs) h2 h3" using both_fill_left [OF lk(3)] by blast
    have "relinks (both_addrs n fs gs \<union> set_tree T) h h3"
      by (rule relinks_trans [OF lk(4) h3(3)]) (auto simp: both_addrs_def T)
    then have "enq_res P h q n fs rt gs T (Done h3 q)"
      using h3(2) b(4) Leaf mono P
      by (auto simp: enq_res_def T same_hdr_def intro!: exI [of _ nx] exI [of _ "(nx, l) # fs"])
    then show ?thesis using b lk h3 Leaf by (simp add: enq_side_def ld_simp)
  next
    case (Node rl tm rr)
    then obtain bt where tm: "h tm = Some bt" "tm \<noteq> 0" "rightlink b = tm"
        "istree h tm (leftlink bt) rl" "istree h tm (rightlink bt) rr" using b(4) by auto
    let ?q = "q\<lparr>enqcmps := enqcmps q + 1\<rparr>"
    show ?thesis
    proof (cases "P (key bt)")
      case False
      have "ischild h2 tm r" using d T b(4) tm(3)
        by (intro ischild_off [OF istree_child [OF b(4), unfolded tm(3)] lk(4)]) auto
      then have "enq_state P h2 n nx ((nx, l) # fs) rt gs tm r"
        using P by (intro enq_state_next [OF s lk(4,3)]) (auto simp: T Node)
      moreover have "relinks (both_addrs n fs gs \<union> set_tree T) h h2"
        by (rule relinks_mono [OF lk(4)]) (auto simp: T)
      ultimately have "enq_res P h q n fs rt gs T (Goto_two h2 ?q nx rt tm)"
        unfolding enq_res_def enq_cont_def using False tm(1)
        by (auto simp: T same_hdr_def nkey_at intro!: exI [of _ "(nx, l) # fs"] exI [of _ r])
      then show ?thesis using b lk tm False by (simp add: enq_side_def ld_simp)
    next
      case True
      have "distinct (inorder l @ nx # inorder rl @ tm # inorder rr)"
          "set (inorder l @ nx # inorder rl @ tm # inorder rr) \<inter> both_addrs n fs gs = {}"
        using d by (auto simp: T Node)
      from both_rotate [OF bo b(1-3) tm(1,2) istree_child [OF tm(4)] tm(5) this]
      obtain h' where h': "do { h \<leftarrow> set_right h nx (leftlink bt); h \<leftarrow> set_up_nn h (leftlink bt) nx;
          h \<leftarrow> set_right h lf tm; h \<leftarrow> set_up h tm lf; h \<leftarrow> set_left h tm nx; set_up h nx tm } = Some h'"
          "both h' n (rightlink bt) tm ((tm, Node l nx rl) # fs) d rt gs"
          "ischild h' (rightlink bt) rr" "ld rightlink h' tm = Some (rightlink bt)"
          "relinks (both_addrs n fs gs \<union> set (inorder l @ nx # inorder rl @ [tm])) h h'" by blast
      let ?fs = "(tm, Node l nx rl) # fs" and ?q2 = "?q\<lparr>enqcmps := enqcmps ?q + 1\<rparr>"
      have side: "enq_side P h q lf rt nx = (if rightlink bt = 0
          then do { h \<leftarrow> set_left h' rt 0; Some (Done h ?q) }
          else do { nk \<leftarrow> ld key h' (rightlink bt);
            Some (if P nk then Goto_one h' ?q2 tm rt (rightlink bt)
                  else Goto_two h' ?q2 tm rt (rightlink bt)) })"
        using arg_cong [OF h'(1), of "\<lambda>x. Option.bind x (\<lambda>h. do { next' \<leftarrow> ld rightlink h tm;
          if next' = 0 then do { h \<leftarrow> set_left h rt 0; Some (Done h ?q) }
          else do { nk \<leftarrow> ld key h next';
            Some (if P nk then Goto_one h ?q2 tm rt next' else Goto_two h ?q2 tm rt next') } })"]
          h'(4) b tm True by (simp add: enq_side_def ld_simp Let_def cong: if_cong split del: if_split)
      have r: "relinks (both_addrs n fs gs \<union> set_tree T) h h'"
        by (rule relinks_mono [OF h'(5)]) (auto simp: T Node)
      have Ptm: "P (nkey h tm)" using True tm(1) by (simp add: nkey_at)
      then have mrl: "\<forall>x \<in> set_tree rl. P (nkey h x)"
        using s by (auto simp: enq_state_def T Node sorted_wrt_append)
      show ?thesis
      proof (cases rr)
        case Leaf
        then have "rightlink bt = 0" using tm(5) by simp
        obtain h3 where h3: "set_left h' rt 0 = Some h3" "both h3 n (rightlink bt) tm ?fs 0 rt gs"
            "relinks (both_addrs n ?fs gs) h' h3" using both_fill_left [OF h'(2)] by blast
        have "relinks (both_addrs n fs gs \<union> set_tree T) h h3"
          by (rule relinks_trans [OF r h3(3)]) (auto simp: both_addrs_def T Node)
        then have "enq_res P h q n fs rt gs T (Done h3 ?q)"
          using h3(2) \<open>rightlink bt = 0\<close> mono mrl P Ptm
          by (auto simp: enq_res_def T Node Leaf same_hdr_def intro!: exI [of _ tm] exI [of _ ?fs])
        then show ?thesis using side h3(1) \<open>rightlink bt = 0\<close> by simp
      next
        case (Node l2 a2 r2)
        then have a2: "rightlink bt = a2" "a2 \<noteq> 0" using tm(5) by auto
        then obtain b2 where b2: "h' a2 = Some b2" using h'(3) Node by auto
        then have nk: "nkey h a2 = key b2" using relinks_nkey [OF r] nkey_at by metis
        have "enq_state P h' n tm ?fs rt gs a2 rr"
          using Ptm h'(2,3) a2(1) Node \<open>r = Node rl tm rr\<close>
          by (intro enq_state_next [OF s r, of _ _ ?fs _ _ _ "inorder l @ nx # inorder rl" tm]) (auto simp: T)
        then have "enq_cont P h q n fs rt gs T (P (key b2)) h' ?q2 tm a2"
          unfolding enq_cont_def using r nk \<open>r = Node rl tm rr\<close>
          by (auto simp: T same_hdr_def intro!: exI [of _ ?fs] exI [of _ rr])
        then show ?thesis using side a2 b2
          by (cases "P (key b2)") (simp_all add: ld_simp enq_res_def)
      qed
    qed
  qed
qed

text \<open>A round of the loop, whatever its label, in terms of the whole sequence of nodes.\<close>

definition enq_seq :: "spine \<Rightarrow> nat tree \<Rightarrow> spine \<Rightarrow> nat list" where
  "enq_seq fs T gs = seg_seq fs @ inorder T @ rev (seg_seq gs)"

definition enq_step ::
    "(u32 \<Rightarrow> bool) \<Rightarrow> nat \<Rightarrow> spine \<Rightarrow> nat tree \<Rightarrow> spine \<Rightarrow> bool \<Rightarrow> 'd cells \<Rightarrow> nat \<Rightarrow> nat \<Rightarrow> nat \<Rightarrow> bool" where
  "enq_step P n fs T gs one h' lf' rt' nx' \<longleftrightarrow> (\<exists>fs' gs' T'. enq_state P h' n lf' fs' rt' gs' nx' T'
     \<and> P (nkey h' nx') = one \<and> enq_seq fs' T' gs' = enq_seq fs T gs \<and> size T' < size T)"

definition enq_done :: "(u32 \<Rightarrow> bool) \<Rightarrow> nat \<Rightarrow> spine \<Rightarrow> nat tree \<Rightarrow> spine \<Rightarrow> 'd cells \<Rightarrow> bool" where
  "enq_done P n fs T gs h' \<longleftrightarrow> (\<exists>lf' fs' rt' gs'. both h' n 0 lf' fs' 0 rt' gs'
     \<and> enq_seq fs' Leaf gs' = enq_seq fs T gs \<and> (\<forall>x \<in> set (seg_seq fs'). P (nkey h' x))
     \<and> (\<forall>x \<in> set (seg_seq gs'). \<not> P (nkey h' x)))"

definition enq_out ::
    "(u32 \<Rightarrow> bool) \<Rightarrow> 'd cells \<Rightarrow> sptree \<Rightarrow> nat \<Rightarrow> spine \<Rightarrow> nat tree \<Rightarrow> spine \<Rightarrow> 'd enq_jump \<Rightarrow> bool" where
  "enq_out P h q n fs T gs j = (case j of
     Done h' q' \<Rightarrow> enq_done P n fs T gs h' \<and> relinks (insert n (set (enq_seq fs T gs))) h h' \<and> same_hdr q q'
   | Goto_one h' q' lf' rt' nx' \<Rightarrow> enq_step P n fs T gs True h' lf' rt' nx'
       \<and> relinks (insert n (set (enq_seq fs T gs))) h h' \<and> same_hdr q q'
   | Goto_two h' q' lf' rt' nx' \<Rightarrow> enq_step P n fs T gs False h' lf' rt' nx'
       \<and> relinks (insert n (set (enq_seq fs T gs))) h h' \<and> same_hdr q q')"

lemma enq_addrs: "insert n (set (enq_seq fs T gs)) = both_addrs n fs gs \<union> set_tree T"
  by (auto simp: enq_seq_def both_addrs_def)

lemma enq_cont_step:
  assumes "enq_cont P h q n fs rt gs T one h' q' lf' nx'"
  shows "enq_step P n fs T gs one h' lf' rt nx' \<and> relinks (insert n (set (enq_seq fs T gs))) h h'
    \<and> same_hdr q q'"
proof -
  obtain fs' T' where r: "enq_state P h' n lf' fs' rt gs nx' T'" "P (nkey h nx') = one"
      "seg_seq fs' @ inorder T' = seg_seq fs @ inorder T" "size T' < size T"
      "relinks (both_addrs n fs gs \<union> set_tree T) h h'" "same_hdr q q'"
    using assms by (auto simp: enq_cont_def)
  have "enq_seq fs' T' gs = enq_seq fs T gs" using r(3) by (metis append_assoc enq_seq_def)
  then show ?thesis unfolding enq_step_def relinks_nkey [OF r(5)] enq_addrs using r by blast
qed

lemma enq_side_out:
  assumes s: "enq_state P h n lf fs rt gs nx T" and P: "P (nkey h nx)"
  shows "\<exists>j. enq_side P h q lf rt nx = Some j \<and> enq_out P h q n fs T gs j"
proof -
  obtain j where j: "enq_side P h q lf rt nx = Some j" "enq_res P h q n fs rt gs T j"
    using enq_side_ok [OF assms] by blast
  have gs: "\<forall>x \<in> set (seg_seq gs). \<not> P (nkey h x)" using s by (simp add: enq_state_def)
  have "enq_out P h q n fs T gs j"
  proof (cases j)
    case (Done h' q')
    then obtain lf' fs' where r: "both h' n 0 lf' fs' 0 rt gs" "seg_seq fs' = seg_seq fs @ inorder T"
        "\<forall>x \<in> set (seg_seq fs'). P (nkey h x)" "same_hdr q q'"
        "relinks (both_addrs n fs gs \<union> set_tree T) h h'" using j(2) by (auto simp: enq_res_def)
    have "enq_done P n fs T gs h'" unfolding enq_done_def relinks_nkey [OF r(5)]
      by (intro exI [of _ lf'] exI [of _ fs'] exI [of _ rt] exI [of _ gs])
        (use r(1-3) gs in \<open>simp add: enq_seq_def\<close>)
    then show ?thesis using Done r by (simp add: enq_out_def enq_addrs)
  next
    case (Goto_one h' q' lf' rt' nx')
    then show ?thesis using j(2) enq_cont_step by (fastforce simp: enq_out_def enq_res_def)
  next
    case (Goto_two h' q' lf' rt' nx')
    then show ?thesis using j(2) enq_cont_step by (fastforce simp: enq_out_def enq_res_def)
  qed
  then show ?thesis using j(1) by blast
qed

lemma enq_seq_mirror: "enq_seq gs (mirror T) fs = rev (enq_seq fs T gs)"
  by (simp add: enq_seq_def inorder_mirror)

lemma enq_out_flip:
  assumes "enq_out (\<lambda>x. \<not> P x) (mir h) q n gs (mirror T) fs j"
  shows "enq_out P h q n fs T gs (flipj j)"
proof -
  have st: "enq_step P n fs T gs (\<not> one) (mir h') rt' lf' nx'"
    if "enq_step (\<lambda>x. \<not> P x) n gs (mirror T) fs one h' lf' rt' nx'" for one h' lf' rt' nx'
  proof -
    obtain fs' gs' T' where e: "enq_state (\<lambda>x. \<not> P x) h' n lf' gs' rt' fs' nx' T'"
        "(\<not> P (nkey h' nx')) = one" "enq_seq gs' T' fs' = rev (enq_seq fs T gs)" "size T' < size T"
      using \<open>enq_step _ _ _ _ _ _ _ _ _ _\<close> unfolding enq_step_def enq_seq_mirror
      by auto
    have "enq_state P (mir h') n rt' fs' lf' gs' nx' (mirror T')"
      using e(1) enq_state_sym [of P "mir h'" n lf' gs' rt' fs' nx' "mirror T'"] by simp
    moreover have "enq_seq fs' (mirror T') gs' = enq_seq fs T gs"
      using e(3) by (simp add: enq_seq_mirror)
    ultimately show ?thesis using e(2,4) unfolding enq_step_def by fastforce
  qed
  have r: "relinks (insert n (set (enq_seq fs T gs))) h (mir h')"
    if "relinks (insert n (set (enq_seq gs (mirror T) fs))) (mir h) h'" for h'
    using that relinks_mir [of _ h "mir h'"] by (simp add: enq_seq_mirror)
  have dn: "enq_done P n fs T gs (mir h')" if d: "enq_done (\<lambda>x. \<not> P x) n gs (mirror T) fs h'" for h'
  proof -
    obtain lf' fs' rt' gs' where "both h' n 0 rt' gs' 0 lf' fs'"
        "enq_seq gs' Leaf fs' = rev (enq_seq fs T gs)"
        "\<forall>x \<in> set (seg_seq gs'). \<not> P (nkey h' x)" "\<forall>x \<in> set (seg_seq fs'). P (nkey h' x)"
      using d unfolding enq_done_def enq_seq_mirror not_not by blast
    moreover have "enq_seq gs' (mirror Leaf) fs' = rev (enq_seq fs' Leaf gs')" by (rule enq_seq_mirror)
    ultimately show ?thesis unfolding enq_done_def
      by (intro exI [of _ lf'] exI [of _ fs'] exI [of _ rt'] exI [of _ gs'])
        (simp add: both_sym)
  qed
  show ?thesis
    using assms st [of True] st [of False] r dn by (cases j) (auto simp: enq_out_def)
qed

lemma enq_round:
  assumes "enq_state (\<lambda>x. x < k) h n lf fs rt gs nx T"
  shows "\<exists>j. (if nkey h nx < k then enq_one k h q lf rt nx else enq_two k h q lf rt nx) = Some j
    \<and> enq_out (\<lambda>x. x < k) h q n fs T gs j"
proof (cases "nkey h nx < k")
  case True
  then show ?thesis using enq_side_out [OF assms] by (simp add: enq_one_side)
next
  case False
  have "enq_state (\<lambda>x. \<not> x < k) (mir h) n rt gs lf fs nx (mirror T)"
    by (rule iffD2 [OF enq_state_sym assms])
  then obtain j where "enq_side (\<lambda>x. \<not> x < k) (mir h) q rt lf nx = Some j"
      "enq_out (\<lambda>x. \<not> x < k) (mir h) q n gs (mirror T) fs j"
    using enq_side_out False by fastforce
  then show ?thesis using False enq_out_flip [of "\<lambda>x. x < k"] by (simp add: enq_two_side)
qed

lemma enq_loop_ok:
  assumes "enq_state (\<lambda>x. x < k) h n lf fs rt gs nx T"
  shows "\<exists>h' q'. enq_loop (nkey h nx < k) k h q lf rt nx = Some (h', q')
    \<and> enq_done (\<lambda>x. x < k) n fs T gs h' \<and> relinks (insert n (set (enq_seq fs T gs))) h h' \<and> same_hdr q q'"
  using assms
proof (induction T arbitrary: h q lf fs rt gs nx rule: measure_induct_rule [of size])
  case (less T)
  obtain j where j: "(if nkey h nx < k then enq_one k h q lf rt nx else enq_two k h q lf rt nx) = Some j"
      "enq_out (\<lambda>x. x < k) h q n fs T gs j"
    using enq_round [OF less.prems] by blast
  have go: ?case if "enq_step (\<lambda>x. x < k) n fs T gs one h' lf' rt' nx'"
      and r: "relinks (insert n (set (enq_seq fs T gs))) h h'" "same_hdr q q'"
      and e: "enq_loop (nkey h nx < k) k h q lf rt nx = enq_loop one k h' q' lf' rt' nx'"
    for one h' q' lf' rt' nx'
  proof -
    obtain fs' gs' T' where s: "enq_state (\<lambda>x. x < k) h' n lf' fs' rt' gs' nx' T'"
        "(nkey h' nx' < k) = one" "enq_seq fs' T' gs' = enq_seq fs T gs" "size T' < size T"
      using \<open>enq_step _ _ _ _ _ _ _ _ _ _\<close> unfolding enq_step_def by blast
    obtain h2 q2 where t: "enq_loop one k h' q' lf' rt' nx' = Some (h2, q2)"
        "enq_done (\<lambda>x. x < k) n fs' T' gs' h2" "relinks (insert n (set (enq_seq fs T gs))) h' h2"
        "same_hdr q' q2"
      using less.IH [OF s(4,1), of q'] s(2,3) by auto
    have "enq_done (\<lambda>x. x < k) n fs T gs h2" using t(2) s(3) by (simp add: enq_done_def)
    moreover have "relinks (insert n (set (enq_seq fs T gs))) h h2"
      by (rule relinks_trans [OF r(1) t(3)]) simp
    ultimately show ?thesis using e t(1) same_hdr_trans [OF r(2) t(4)] by simp
  qed
  show ?case
  proof (cases j)
    case (Done h' q')
    then show ?thesis using j by (subst enq_loop.simps) (auto simp: enq_out_def)
  next
    case (Goto_one h' q' lf' rt' nx')
    then have "enq_loop (nkey h nx < k) k h q lf rt nx = enq_loop True k h' q' lf' rt' nx'"
      using j(1) by (subst enq_loop.simps) simp
    then show ?thesis using go j(2) Goto_one by (simp add: enq_out_def)
  next
    case (Goto_two h' q' lf' rt' nx')
    then have "enq_loop (nkey h nx < k) k h q lf rt nx = enq_loop False k h' q' lf' rt' nx'"
      using j(1) by (subst enq_loop.simps) simp
    then show ?thesis using go j(2) Goto_two by (simp add: enq_out_def)
  qed
qed

text \<open>The two chains become the subtrees of the new root when its links are exchanged.\<close>

lemma both_close:
  assumes "both h n 0 lf fs 0 rt gs"
  shows "\<exists>b h'. h n = Some b \<and> n \<noteq> 0
    \<and> (do { h \<leftarrow> set_left h n (rightlink b); set_right h n (leftlink b) }) = Some h'
    \<and> istree h' 0 n (Node (seg_tree fs Leaf) n (mirror (seg_tree gs Leaf))) \<and> relinks {n} h h'"
proof -
  obtain b where b: "h n = Some b" "istree h n (rightlink b) (seg_tree fs Leaf)"
    using segR_close [of h n 0 lf fs Leaf] assms by (auto simp: both_def)
  have "istree (mir h) n (leftlink b) (seg_tree gs Leaf)"
    using segR_close [of "mir h" n 0 rt gs Leaf] assms b(1) by (auto simp: both_def mir_def)
  then have c: "istree h n (leftlink b) (mirror (seg_tree gs Leaf))"
    using istree_mir [of h n "leftlink b" "mirror (seg_tree gs Leaf)"] by simp
  have n: "n \<noteq> 0" "uplink b = 0" "n \<notin> set (seg_seq fs)" "n \<notin> set (seg_seq gs)"
    using assms b(1) by (auto simp: both_def)
  define h' where "h' = h(n \<mapsto> b\<lparr>leftlink := rightlink b, rightlink := leftlink b\<rparr>)"
  have r: "relinks {n} h h'" using b(1) by (simp add: h'_def relinks_upd)
  have st: "set_tree (seg_tree fs Leaf) = set (seg_seq fs)" for fs
    using arg_cong [OF inorder_seg_tree [of fs Leaf], of set] by simp
  have "istree h' n (rightlink b) (seg_tree fs Leaf)"
    using n by (intro istree_off [OF b(2) r]) (simp add: st)
  moreover have "istree h' n (leftlink b) (mirror (seg_tree gs Leaf))"
    using n by (intro istree_off [OF c r]) (simp add: st)
  ultimately have "istree h' 0 n (Node (seg_tree fs Leaf) n (mirror (seg_tree gs Leaf)))"
    using n by (simp add: h'_def)
  moreover have "(do { h \<leftarrow> set_left h n (rightlink b); set_right h n (leftlink b) }) = Some h'"
    using b(1) n(1) by (simp add: st_simp h'_def)
  ultimately show ?thesis using b(1) n(1) r by blast
qed

lemma sp_enq_ok:
  assumes t: "istree h 0 (sp_root q) t" and d: "distinct (inorder t)"
    and n: "h n = Some b" "n \<noteq> 0" "n \<notin> set_tree t"
    and k: "sorted_wrt (\<lambda>x y. nkey h y < key b \<longrightarrow> nkey h x < key b) (inorder t)"
  shows "\<exists>q' h' l r. sp_enq n q h = Some (q', h') \<and> sp_root q' = n \<and> same_elts q q'
    \<and> istree h' 0 n (Node l n r) \<and> inorder l @ inorder r = inorder t
    \<and> (\<forall>x \<in> set_tree l. nkey h x < key b) \<and> (\<forall>x \<in> set_tree r. \<not> nkey h x < key b)
    \<and> relinks (insert n (set_tree t)) h h'"
proof (cases t)
  case Leaf
  then show ?thesis using t n
    by (auto simp: sp_enq_def st_simp same_elts_def relinks_def kd_upd
        intro!: exI [of _ Leaf])
next
  case (Node tl nx tr)
  let ?k = "key b"
  define h1 where "h1 = h(n \<mapsto> b\<lparr>uplink := 0\<rparr>)"
  have r1: "relinks {n} h h1" using n(1) by (simp add: h1_def relinks_upd)
  have t1: "istree h1 0 (sp_root q) t" using n(3) by (intro istree_off [OF t r1]) simp
  have root: "sp_root q = nx" "nx \<noteq> 0" using t Node by auto
  have "both h1 n (rightlink b) n [] (leftlink b) n []"
    using n(2) by (simp add: both_def h1_def mir_upd)
  then have s: "enq_state (\<lambda>x. x < ?k) h1 n n [] n [] nx t"
    using istree_child [OF t1] root n(3) d k Node
    unfolding enq_state_def both_addrs_def relinks_nkey [OF r1] by auto
  let ?q = "q\<lparr>enqs := enqs q + 1, sp_root := n, enqcmps := enqcmps q + 1\<rparr>"
  obtain h2 q2 where e: "enq_loop (nkey h1 nx < ?k) ?k h1 ?q n n nx = Some (h2, q2)"
      "enq_done (\<lambda>x. x < ?k) n [] t [] h2" "relinks (insert n (set_tree t)) h1 h2" "same_hdr ?q q2"
    using enq_loop_ok [OF s, of ?q] by (auto simp: enq_seq_def)
  then obtain lf fs rt gs where b2: "both h2 n 0 lf fs 0 rt gs"
      "seg_seq fs @ rev (seg_seq gs) = inorder t"
      "\<forall>x \<in> set (seg_seq fs). nkey h x < ?k" "\<forall>x \<in> set (seg_seq gs). \<not> nkey h x < ?k"
    unfolding enq_done_def enq_seq_def relinks_nkey [OF e(3)] relinks_nkey [OF r1] by auto
  let ?l = "seg_tree fs Leaf" and ?r = "mirror (seg_tree gs Leaf)"
  obtain b' h3 where c: "h2 n = Some b'" "n \<noteq> 0"
      "do { h \<leftarrow> set_left h2 n (rightlink b'); set_right h n (leftlink b') } = Some h3"
      "istree h3 0 n (Node ?l n ?r)" "relinks {n} h2 h3"
    using both_close [OF b2(1)] by blast
  have io: "inorder ?l = seg_seq fs" "inorder ?r = rev (seg_seq gs)"
    by (simp_all add: inorder_seg_tree inorder_mirror)
  have sets: "set_tree ?l = set (seg_seq fs)" "set_tree ?r = set (seg_seq gs)"
    using arg_cong [OF io(1), of set] arg_cong [OF io(2), of set] by simp_all
  obtain bx where bx: "h1 nx = Some bx" using t1 root Node by auto
  have "sp_enq n q h = Some (q2, h3)"
    unfolding sp_enq_def using n root e(1) c(1) bx arg_cong [OF c(3), of "map_option (Pair q2)"]
    by (simp add: st_simp ld_simp h1_def [symmetric] nkey_at map_conv_bind_option)
      (simp add: h1_def ld_simp st_simp)
  moreover have "sp_root q2 = n" using e(4) by (simp add: same_hdr_def)
  moreover have "relinks (insert n (set_tree t)) h h3"
    by (rule relinks_trans [OF relinks_trans [OF r1 e(3) order.refl] c(5)]) auto
  ultimately show ?thesis using c(4) b2(2-4) e(4) io sets
    by (intro exI [of _ q2] exI [of _ h3] exI [of _ ?l] exI [of _ ?r]) (simp add: same_elts_def same_hdr_def)
qed

section \<open>Search\<close>

definition keyed :: "'d cells \<Rightarrow> nat tree \<Rightarrow> bool" where
  "keyed h t \<longleftrightarrow> sorted_wrt (\<lambda>x y. nkey h x < nkey h y) (inorder t)"

lemma keyed_Node: "keyed h (Node l a r) \<longleftrightarrow> keyed h l \<and> keyed h r
    \<and> (\<forall>x \<in> set_tree l. nkey h x < nkey h a) \<and> (\<forall>x \<in> set_tree r. nkey h a < nkey h x)"
  by (fastforce simp: keyed_def sorted_wrt_append)

lemma keyed_distinct_map: "keyed h t \<Longrightarrow> distinct (map (nkey h) (inorder t))"
  using sorted_wrt_map [of "(<)" "nkey h" "inorder t"] strict_sorted_iff by (auto simp: keyed_def)

lemma keyed_distinct: "keyed h t \<Longrightarrow> distinct (inorder t)"
  using keyed_distinct_map distinct_map by blast

lemma keyed_inj: "keyed h t \<Longrightarrow> x \<in> set_tree t \<Longrightarrow> y \<in> set_tree t \<Longrightarrow> nkey h x = nkey h y \<Longrightarrow> x = y"
  using keyed_distinct_map [of h t] by (auto simp: distinct_map dest: inj_onD)

lemma lookup_loop_ok:
  assumes "istree h u p t" "keyed h t"
  shows "\<exists>n c'. lookup_loop k h p c = Some (n, c')
    \<and> (if k \<in> nkey h ` set_tree t then n \<in> set_tree t \<and> nkey h n = k else n = 0)"
  using assms
proof (induction t arbitrary: u p c)
  case Leaf
  then show ?case by (subst lookup_loop.simps) simp
next
  case (Node l a r)
  then obtain b where b: "h a = Some b" "p = a" "a \<noteq> 0" "istree h a (leftlink b) l"
    "istree h a (rightlink b) r" by auto
  have ka: "nkey h a = key b" using b(1) by (rule nkey_at)
  have less: "\<And>x. x \<in> set_tree l \<Longrightarrow> nkey h x < key b" "\<And>x. x \<in> set_tree r \<Longrightarrow> key b < nkey h x"
    using Node.prems(2) by (auto simp: keyed_Node ka)
  have kl: "keyed h l" "keyed h r" using Node.prems(2) by (auto simp: keyed_Node)
  consider "k = key b" | "k < key b" | "key b < k" by fastforce
  then show ?case
  proof cases
    case 1
    then show ?thesis using b ka by (subst lookup_loop.simps) (simp add: ld_simp)
  next
    case 2
    have "k \<in> nkey h ` set_tree (Node l a r) \<longleftrightarrow> k \<in> nkey h ` set_tree l"
      using 2 less(2) ka by force
    moreover have "lookup_loop k h p c = lookup_loop k h (leftlink b) (wrap32 (c + 1))"
      using b 2 by (subst lookup_loop.simps) (auto simp: ld_simp)
    ultimately show ?thesis using Node.IH(1) [OF b(4) kl(1), of "wrap32 (c + 1)"] by fastforce
  next
    case 3
    have "k \<in> nkey h ` set_tree (Node l a r) \<longleftrightarrow> k \<in> nkey h ` set_tree r"
      using 3 less(1) ka by force
    moreover have "lookup_loop k h p c = lookup_loop k h (rightlink b) (wrap32 (c + 1))"
      using b 3 by (subst lookup_loop.simps) (auto simp: ld_simp)
    ultimately show ?thesis using Node.IH(2) [OF b(5) kl(2), of "wrap32 (c + 1)"] by fastforce
  qed
qed

end
