(* ===== verification/Splay_Store.thy ===== *)
theory Splay_Store
  imports Splay_Insert
begin

text \<open>
  The remaining operations of the linked splay trees (removal, ordered traversal, allocation) and
  the contract a client of the trees relies on.
\<close>

section \<open>Removal\<close>

lemma istree_dom: "istree h u p t \<Longrightarrow> x \<in> set_tree t \<Longrightarrow> h x \<noteq> None"
  by (induction t arbitrary: u p) auto

lemma relinks_dom: "relinks A h h' \<Longrightarrow> h' x = None \<longleftrightarrow> h x = None"
proof -
  assume "relinks A h h'"
  then have "kd h' x = kd h x" by (simp add: relinks_def)
  then show ?thesis by (cases "h x"; cases "h' x") (simp_all add: kd_def)
qed


fun ctx_root :: "frame list \<Rightarrow> nat \<Rightarrow> nat" where
  "ctx_root [] p = p"
| "ctx_root (Lft a s # fs) p = ctx_root fs a"
| "ctx_root (Rgt a s # fs) p = ctx_root fs a"

lemma isctx_plug: "isctx h p u fs \<Longrightarrow> istree h u p t \<Longrightarrow> istree h 0 (ctx_root fs p) (plug fs t)"
proof (induction fs arbitrary: p u t)
  case (Cons f fs)
  then show ?case by (cases f) auto
qed simp

text \<open>Replacing the left subtree under the hole of a context.\<close>

lemma graft_left:
  assumes "isctx h c a (Lft a s # fs)" "ischild h p t" "distinct (addrs (Lft a s # fs) @ inorder t)"
  shows "\<exists>h' h''. set_left h a p = Some h' \<and> set_up_nn h' p a = Some h''
    \<and> isctx h'' p a (Lft a s # fs) \<and> istree h'' a p t \<and> relinks (insert a (set_tree t)) h h''"
proof -
  obtain b where b: "h a = Some b" "a \<noteq> 0" "leftlink b = c" "istree h a (rightlink b) s"
      "isctx h a (uplink b) fs" using assms(1) by auto
  define h1 where "h1 = h(a \<mapsto> b\<lparr>leftlink := p\<rparr>)"
  have r1: "relinks {a} h h1" using b(1) by (simp add: h1_def relinks_upd)
  have "ischild h1 p t" using assms(3) by (intro ischild_off [OF assms(2) r1]) auto
  then obtain h2 where h2: "set_up_nn h1 p a = Some h2" "istree h2 a p t" "relinks (set_tree t) h1 h2"
    using set_up_nn_tree [of h1 p t a] assms(3) by auto
  have r2: "relinks (insert a (set_tree t)) h h2" by (rule relinks_trans [OF r1 h2(3)]) auto
  have "istree h2 a (rightlink b) s" using assms(3) by (intro istree_off [OF b(4) r2]) auto
  moreover have "isctx h2 a (uplink b) fs" using assms(3) by (intro isctx_off [OF b(5) r2]) auto
  moreover have "h2 a = Some (b\<lparr>leftlink := p\<rparr>)"
    using relinks_at [OF h2(3), of a] assms(3) by (simp add: h1_def)
  ultimately have "isctx h2 p a (Lft a s # fs)" using b(2) by simp
  then show ?thesis using b(1,2) h2 r2 by (simp add: st_simp h1_def [symmetric])
qed

text \<open>The double step of the loop: the left child and its left child exchange their levels.\<close>

lemma deq_rotate:
  assumes ctx: "isctx h lf nx (Lft nx s # gs)" and T: "istree h nx lf (Node (Node ff fl fr) lf r)"
    and d: "distinct (addrs (Lft nx s # gs) @ inorder (Node (Node ff fl fr) lf r))"
    and bf: "h fl = Some bf"
  shows "\<exists>h'. (do { h \<leftarrow> set_left h nx fl; h \<leftarrow> set_up h fl nx; fr \<leftarrow> ld rightlink h fl; h \<leftarrow> set_left h lf fr;
        h \<leftarrow> set_up_nn h fr lf; h \<leftarrow> set_right h fl lf; set_up h lf fl }) = Some h'
    \<and> isctx h' (leftlink bf) fl (Lft fl (Node fr lf r) # Lft nx s # gs) \<and> istree h' fl (leftlink bf) ff
    \<and> relinks ({nx, fl, lf} \<union> set_tree fr \<union> set_tree r) h h'"
proof -
  obtain bn bl where bn: "h nx = Some bn" "nx \<noteq> 0" "istree h nx (rightlink bn) s" "isctx h nx (uplink bn) gs"
    and bl: "h lf = Some bl" "lf \<noteq> 0" "istree h lf (rightlink bl) r" "fl \<noteq> 0"
      "istree h fl (leftlink bf) ff" "istree h fl (rightlink bf) fr"
    using ctx T bf by auto
  have neq: "nx \<noteq> fl" "nx \<noteq> lf" "fl \<noteq> lf" using d by auto
  define h2 where "h2 = h(nx \<mapsto> bn\<lparr>leftlink := fl\<rparr>, fl \<mapsto> bf\<lparr>uplink := nx\<rparr>)"
  have r2: "relinks {nx, fl} h h2" using bn(1) bf neq by (simp add: h2_def relinks_def kd_upd)
  have "h2 lf = Some bl" using neq bl(1) by (simp add: h2_def)
  moreover have "istree h2 lf (rightlink bl) r" using d by (intro istree_off [OF bl(3) r2]) auto
  moreover have "ischild h2 (rightlink bf) fr"
    using d by (intro ischild_off [OF istree_child [OF bl(6)] r2]) auto
  moreover have "distinct (lf # inorder r @ inorder fr)" using d by auto
  ultimately obtain h3 h4 where h4: "set_left h2 lf (rightlink bf) = Some h3"
      "set_up_nn h3 (rightlink bf) lf = Some h4" "ischild h4 lf (Node fr lf r)"
      "relinks (insert lf (set_tree fr)) h2 h4"
    using attach_left [of h2 lf bl r "rightlink bf" fr] bl(2) by auto
  have h4f: "h4 fl = Some (bf\<lparr>uplink := nx\<rparr>)"
    using relinks_at [OF h4(4), of fl] neq d by (auto simp: h2_def)
  define h5 where "h5 = h4(fl \<mapsto> bf\<lparr>uplink := nx, rightlink := lf\<rparr>)"
  have r5: "relinks {fl} h4 h5" using h4f by (simp add: h5_def relinks_upd)
  have "ischild h5 lf (Node fr lf r)" using d by (intro ischild_off [OF h4(3) r5]) auto
  then obtain h6 where h6: "set_up_nn h5 lf fl = Some h6" "istree h6 fl lf (Node fr lf r)"
      "relinks (set_tree (Node fr lf r)) h5 h6"
    using set_up_nn_tree [of h5 lf "Node fr lf r" fl] d by auto
  have r: "relinks ({nx, fl, lf} \<union> set_tree fr \<union> set_tree r) h h6"
    by (rule relinks_trans [OF relinks_trans [OF relinks_trans [OF r2 h4(4) order.refl] r5 order.refl] h6(3)]) auto
  have r26: "relinks ({fl, lf} \<union> set_tree fr \<union> set_tree r) h2 h6"
    by (rule relinks_trans [OF relinks_trans [OF h4(4) r5 order.refl] h6(3)]) auto
  have "h6 nx = Some (bn\<lparr>leftlink := fl\<rparr>)"
    using d neq by (subst relinks_at [OF r26]) (auto simp: h2_def)
  moreover have "h6 fl = Some (bf\<lparr>uplink := nx, rightlink := lf\<rparr>)"
    using d neq by (subst relinks_at [OF h6(3)]) (auto simp: h5_def)
  moreover have "istree h6 nx (rightlink bn) s" using d by (intro istree_off [OF bn(3) r]) auto
  moreover have "isctx h6 nx (uplink bn) gs" using d by (intro isctx_off [OF bn(4) r]) auto
  moreover have "istree h6 fl (leftlink bf) ff" using d by (intro istree_off [OF bl(5) r]) auto
  ultimately have "isctx h6 (leftlink bf) fl (Lft fl (Node fr lf r) # Lft nx s # gs)"
      "istree h6 fl (leftlink bf) ff" using h6(2) bn(2) bl(4) by simp_all
  moreover have "set_left h nx fl = Some (h(nx \<mapsto> bn\<lparr>leftlink := fl\<rparr>))"
      "set_up (h(nx \<mapsto> bn\<lparr>leftlink := fl\<rparr>)) fl nx = Some h2" "ld rightlink h2 fl = Some (rightlink bf)"
      "set_right h4 fl lf = Some h5" "set_up h5 lf fl = Some h6"
    using bn bf bl(2,4) neq h4f h6(1) by (simp_all add: st_simp ld_def h2_def h5_def set_up_nn_def)
  ultimately show ?thesis using h4(1,2) r by simp
qed

definition removed :: "frame list \<Rightarrow> nat tree \<Rightarrow> 'd cells \<Rightarrow> bool" where
  "removed fs T h \<longleftrightarrow> (\<exists>gs c v S. isctx h c v gs \<and> istree h v c S
     \<and> inorder (plug gs S) = ctx_left fs @ tl (inorder T) @ ctx_right fs
     \<and> (\<exists>gs'. gs = gs' @ fs))"

lemma deq_loop_ok:
  assumes "isctx h lf nx fs" "fs = Lft nx s # gs" "istree h nx lf T" "T \<noteq> Leaf"
    and "distinct (addrs fs @ inorder T)"
  shows "\<exists>h'. deq_loop h nx lf = Some (hd (inorder T), h') \<and> removed fs T h'
    \<and> relinks (set (addrs fs @ inorder T)) h h'"
  using assms
proof (induction T arbitrary: h lf nx s fs gs rule: measure_induct_rule [of size])
  case (less T)
  obtain l r where T: "T = Node l lf r" using less.prems(3,4) by (cases T) auto
  obtain b where b: "h lf = Some b" "lf \<noteq> 0" "istree h lf (leftlink b) l" "istree h lf (rightlink b) r"
    using less.prems(3) T by auto
  note d = less.prems(5)
  show ?case
  proof (cases l)
    case Leaf
    have "distinct (addrs fs @ inorder r)" using d T by auto
    from graft_left [OF less.prems(1)[unfolded less.prems(2)] istree_child [OF b(4)] this[unfolded less.prems(2)]]
    obtain h1 h2 where h2: "set_left h nx (rightlink b) = Some h1" "set_up_nn h1 (rightlink b) nx = Some h2"
        "isctx h2 (rightlink b) nx fs" "istree h2 nx (rightlink b) r" "relinks (insert nx (set_tree r)) h h2"
      using less.prems(2) by blast
    have "removed fs T h2" unfolding removed_def using h2(3,4) T Leaf by fastforce
    moreover have "relinks (set (addrs fs @ inorder T)) h h2"
      by (rule relinks_mono [OF h2(5)]) (auto simp: T less.prems(2))
    ultimately show ?thesis using b h2(1,2) Leaf T by (subst deq_loop.simps) (simp add: ld_simp)
  next
    case (Node ff fl fr)
    then obtain bf where bf: "h fl = Some bf" "fl \<noteq> 0" "leftlink b = fl" "uplink bf = lf"
        "istree h fl (leftlink bf) ff" "istree h fl (rightlink bf) fr" using b(3) by auto
    let ?fs1 = "Lft lf r # fs"
    have c1: "isctx h fl lf ?fs1" using b bf less.prems(1,3) T by simp
    have d1: "distinct (addrs ?fs1 @ inorder fr)" using d T Node by auto
    show ?thesis
    proof (cases ff)
      case Leaf
      from graft_left [OF c1 istree_child [OF bf(6)] d1]
      obtain h1 h2 where h2: "set_left h lf (rightlink bf) = Some h1"
          "set_up_nn h1 (rightlink bf) lf = Some h2" "isctx h2 (rightlink bf) lf ?fs1"
          "istree h2 lf (rightlink bf) fr" "relinks (insert lf (set_tree fr)) h h2" by blast
      have "removed fs T h2" unfolding removed_def using h2(3,4) T Node Leaf
        by (intro exI [of _ ?fs1] exI [of _ "rightlink bf"] exI [of _ lf] exI [of _ fr]) simp
      moreover have "relinks (set (addrs fs @ inorder T)) h h2"
        by (rule relinks_mono [OF h2(5)]) (auto simp: T Node)
      ultimately show ?thesis using b bf h2(1,2) Leaf Node T by (subst deq_loop.simps) (simp add: ld_simp)
    next
      case (Node f1 f2 f3)
      have "istree h nx lf (Node (Node ff fl fr) lf r)" "distinct (addrs (Lft nx s # gs) @ inorder (Node (Node ff fl fr) lf r))"
        using less.prems T \<open>l = Node ff fl fr\<close> by simp_all
      from deq_rotate [OF less.prems(1)[unfolded less.prems(2)] this bf(1)] obtain h1 where h1:
          "do { h \<leftarrow> set_left h nx fl; h \<leftarrow> set_up h fl nx; fr \<leftarrow> ld rightlink h fl; h \<leftarrow> set_left h lf fr;
            h \<leftarrow> set_up_nn h fr lf; h \<leftarrow> set_right h fl lf; set_up h lf fl } = Some h1"
          "isctx h1 (leftlink bf) fl (Lft fl (Node fr lf r) # fs)" "istree h1 fl (leftlink bf) ff"
          "relinks ({nx, fl, lf} \<union> set_tree fr \<union> set_tree r) h h1"
        using less.prems(2) by blast
      have ff: "leftlink bf \<noteq> 0" using bf(5) Node by auto
      let ?fs = "Lft fl (Node fr lf r) # fs"
      have "distinct (addrs ?fs @ inorder ff)" using d T \<open>l = Node ff fl fr\<close> by auto
      then obtain h2 where h2: "deq_loop h1 fl (leftlink bf) = Some (hd (inorder ff), h2)" "removed ?fs ff h2"
          "relinks (set (addrs ?fs @ inorder ff)) h1 h2"
        using less.IH [OF _ h1(2) refl h1(3)] T \<open>l = Node ff fl fr\<close> Node by auto
      have "deq_loop h nx lf = deq_loop h1 fl (leftlink bf)"
        using arg_cong [OF h1(1), of "\<lambda>x. Option.bind x (\<lambda>h. deq_loop h fl (leftlink bf))"] b bf ff
        by (subst deq_loop.simps) (simp add: ld_simp)
      moreover have "hd (inorder T) = hd (inorder ff)" "tl (inorder T) = tl (inorder ff) @ fl # inorder fr @ lf # inorder r"
        using T \<open>l = Node ff fl fr\<close> Node by (cases "inorder ff"; simp)+
      moreover have "removed fs T h2"
        using h2(2) unfolding removed_def by (fastforce simp: calculation(3))
      moreover have "relinks (set (addrs fs @ inorder T)) h h2"
        by (rule relinks_trans [OF h1(4) h2(3)]) (auto simp: less.prems(2) T \<open>l = Node ff fl fr\<close>)
      ultimately show ?thesis using h2(1) by simp
    qed
  qed
qed

text \<open>
  \<open>sp_deq\<close> on the right subtree of the root \<open>n\<close>: the smallest node is cut out and the rest
  hangs on the right link again, with an unspecified parent link at its root.
\<close>

lemma sp_deq_ok:
  assumes t: "istree h 0 n (Node l n r)" and d: "distinct (inorder (Node l n r))" and r: "r \<noteq> Leaf"
    and b: "h n = Some b"
  shows "\<exists>h' b' r'. sp_deq n h = Some (hd (inorder r), h') \<and> h' n = Some b'
    \<and> istree h' n (leftlink b') l \<and> ischild h' (rightlink b') r' \<and> inorder r' = tl (inorder r)
    \<and> relinks (insert n (set_tree l \<union> set_tree r)) h h'"
proof -
  obtain rl nx rr where R: "r = Node rl nx rr" using r by (cases r) auto
  have n: "n \<noteq> 0" "uplink b = 0" "istree h n (leftlink b) l" "rightlink b = nx" using t b R by auto
  obtain bx where bx: "h nx = Some bx" "nx \<noteq> 0" "uplink bx = n" "istree h nx (leftlink bx) rl"
      "istree h nx (rightlink bx) rr" using t b R by auto
  show ?thesis
  proof (cases rl)
    case Leaf
    define h1 where "h1 = h(n \<mapsto> b\<lparr>rightlink := rightlink bx\<rparr>)"
    have r1: "relinks {n} h h1" using b by (simp add: h1_def relinks_upd)
    have "ischild h1 (rightlink bx) rr"
      using d R by (intro ischild_off [OF istree_child [OF bx(5)] r1]) auto
    then obtain h2 where h2: "set_up_nn h1 (rightlink bx) 0 = Some h2" "istree h2 0 (rightlink bx) rr"
        "relinks (set_tree rr) h1 h2" using set_up_nn_tree [of h1 "rightlink bx" rr 0] d R by auto
    have h2n: "h2 n = Some (b\<lparr>rightlink := rightlink bx\<rparr>)"
      using d R by (subst relinks_at [OF h2(3)]) (auto simp: h1_def)
    have r2: "relinks (insert n (set_tree rr)) h h2" by (rule relinks_trans [OF r1 h2(3)]) auto
    have "istree h2 n (leftlink b) l" using d R by (intro istree_off [OF n(3) r2]) auto
    moreover have "sp_deq n h = Some (nx, h2)"
      using b n bx Leaf h2(1) by (simp add: sp_deq_def ld_simp st_simp h1_def)
    moreover have "relinks (insert n (set_tree l \<union> set_tree r)) h h2"
      by (rule relinks_mono [OF r2]) (auto simp: R)
    ultimately show ?thesis using h2n istree_child [OF h2(2)] R Leaf by (auto intro!: exI [of _ rr])
  next
    case (Node a1 a2 a3)
    let ?fs = "[Lft nx rr, Rgt n l]"
    have "isctx h (leftlink bx) nx ?fs" using bx b n by simp
    moreover have "distinct (addrs ?fs @ inorder rl)" using d R by auto
    ultimately obtain h' where h': "deq_loop h nx (leftlink bx) = Some (hd (inorder rl), h')"
        "removed ?fs rl h'" "relinks (set (addrs ?fs @ inorder rl)) h h'"
      using deq_loop_ok [OF _ refl bx(4)] Node by blast
    obtain gs c v S where g: "isctx h' c v (gs @ ?fs)" "istree h' v c S"
        "inorder (plug (gs @ ?fs) S) = inorder l @ [n] @ tl (inorder rl) @ nx # inorder rr"
      using h'(2) unfolding removed_def by auto
    have cl: "isctx h' c v (gs @ hs) \<Longrightarrow> istree h' v c S \<Longrightarrow>
        \<exists>c' v' S'. isctx h' c' v' hs \<and> istree h' v' c' S' \<and> plug (gs @ hs) S = plug hs S'" for hs c v S
    proof (induction gs arbitrary: c v S)
      case (Cons f gs)
      then show ?case by (cases f) fastforce+
    qed auto
    obtain c' v' S' where s: "isctx h' c' v' [Rgt n l]" "istree h' v' c' S'"
        "plug (gs @ ?fs) S = plug [Rgt n l] S'"
      using cl [of c v "?fs" S] g(1,2) by fastforce
    have "inorder S' = tl (inorder rl) @ nx # inorder rr" using g(3) s(3) by simp
    moreover have "sp_deq n h = Some (hd (inorder rl), h')"
      using b n bx Node h'(1) by (auto simp: sp_deq_def ld_simp)
    moreover have "inorder rl \<noteq> []" using Node by simp
    moreover have "relinks (insert n (set_tree l \<union> set_tree r)) h h'"
      by (rule relinks_mono [OF h'(3)]) (auto simp: R)
    moreover obtain b' where "h' n = Some b'" "rightlink b' = c'" "istree h' n (leftlink b') l" "v' = n"
      using s(1) by auto
    ultimately show ?thesis using istree_child [OF s(2)] R
      by (intro exI [of _ h'] exI [of _ b'] exI [of _ S']) simp
  qed
qed

lemma link_replacement:
  assumes "h x = Some b" "x \<noteq> 0" "ischild h lf L" "ischild h rt R" "distinct (x # inorder L @ inorder R)"
  shows "\<exists>h'. (do { h \<leftarrow> set_up h x 0; h \<leftarrow> set_left h x lf; h \<leftarrow> set_right h x rt; h \<leftarrow> set_up_nn h lf x;
      set_up_nn h rt x }) = Some h' \<and> istree h' 0 x (Node L x R)
    \<and> relinks ({x} \<union> set_tree L \<union> set_tree R) h h'"
proof -
  define h1 where "h1 = h(x \<mapsto> b\<lparr>uplink := 0, leftlink := lf, rightlink := rt\<rparr>)"
  have r1: "relinks {x} h h1" using assms(1) by (simp add: h1_def relinks_upd)
  have "ischild h1 lf L" using assms(5) by (intro ischild_off [OF assms(3) r1]) auto
  then obtain h2 where h2: "set_up_nn h1 lf x = Some h2" "istree h2 x lf L" "relinks (set_tree L) h1 h2"
    using set_up_nn_tree [of h1 lf L x] assms(5) by auto
  have r2: "relinks ({x} \<union> set_tree L) h h2" by (rule relinks_trans [OF r1 h2(3)]) simp
  have "ischild h2 rt R" using assms(5) by (intro ischild_off [OF assms(4) r2]) auto
  then obtain h3 where h3: "set_up_nn h2 rt x = Some h3" "istree h3 x rt R" "relinks (set_tree R) h2 h3"
    using set_up_nn_tree [of h2 rt R x] assms(5) by auto
  have "h3 x = Some (b\<lparr>uplink := 0, leftlink := lf, rightlink := rt\<rparr>)"
    using assms(5) relinks_at [OF h2(3)] relinks_at [OF h3(3)] by (simp add: h1_def)
  moreover have "istree h3 x lf L" using assms(5) by (intro istree_off [OF h2(2) h3(3)]) auto
  moreover have "relinks ({x} \<union> set_tree L \<union> set_tree R) h h3"
    by (rule relinks_trans [OF r2 h3(3)]) auto
  ultimately show ?thesis using assms(1,2) h2(1) h3(1,2) by (simp add: st_simp h1_def [symmetric])
qed

text \<open>Taking the root out of the tree, whatever replaces it.\<close>

lemma delete_root_ok:
  assumes t: "istree h 0 n (Node l n r)" and d: "distinct (inorder (Node l n r))" and q: "sp_root q = n"
  shows "\<exists>x h1 h' q' t'. sp_deq n h = Some (x, h1) \<and> sp_unlink x q h1 = Some (h', q')
    \<and> istree h' 0 (sp_root q') t' \<and> inorder t' = inorder l @ inorder r \<and> same_elts q q'
    \<and> relinks (insert n (set_tree l \<union> set_tree r)) h h'"
proof -
  obtain b where b: "h n = Some b" "n \<noteq> 0" "istree h n (leftlink b) l" "istree h n (rightlink b) r"
    using t by auto
  show ?thesis
  proof (cases "r = Leaf")
    case True
    obtain h' where h': "set_up_nn h (leftlink b) 0 = Some h'" "istree h' 0 (leftlink b) l"
        "relinks (set_tree l) h h'"
      using set_up_nn_tree [OF istree_child [OF b(3)], of 0] d by auto
    have "sp_deq n h = Some (0, h)" using b True by (simp add: sp_deq_def ld_simp)
    moreover have "sp_unlink 0 q h = Some (h', q\<lparr>sp_root := leftlink b\<rparr>)"
      using b q h'(1) by (simp add: sp_unlink_def ld_simp)
    moreover have "relinks (insert n (set_tree l \<union> set_tree r)) h h'"
      by (rule relinks_mono [OF h'(3)]) auto
    ultimately show ?thesis using h'(2) True
      by (intro exI [of _ 0] exI [of _ h] exI [of _ h'] exI [of _ "q\<lparr>sp_root := leftlink b\<rparr>"] exI [of _ l])
        (simp add: same_elts_def)
  next
    case False
    let ?x = "hd (inorder r)"
    obtain h1 b1 r' where s: "sp_deq n h = Some (?x, h1)" "h1 n = Some b1" "istree h1 n (leftlink b1) l"
        "ischild h1 (rightlink b1) r'" "inorder r' = tl (inorder r)"
        "relinks (insert n (set_tree l \<union> set_tree r)) h h1"
      using sp_deq_ok [OF t d False b(1)] by blast
    have ior: "inorder r = ?x # inorder r'" using s(5) False by (cases "inorder r") auto
    have sr: "set_tree r = insert ?x (set_tree r')" using arg_cong [OF ior, of set] by simp
    have xr: "?x \<noteq> 0" "?x \<noteq> n" using istree_nonzero [OF b(4)] sr d by auto
    have "h ?x \<noteq> None" using istree_dom [OF b(4)] sr by simp
    then obtain bx where bx: "h1 ?x = Some bx" using relinks_dom [OF s(6), of ?x] by auto
    have "distinct (?x # inorder l @ inorder r')" 
      using d arg_cong [OF ior, of distinct] sr by auto
    from link_replacement [OF bx xr(1) istree_child [OF s(3)] s(4) this] obtain h2 where h2:
        "do { h \<leftarrow> set_up h1 ?x 0; h \<leftarrow> set_left h ?x (leftlink b1); h \<leftarrow> set_right h ?x (rightlink b1);
          h \<leftarrow> set_up_nn h (leftlink b1) ?x; set_up_nn h (rightlink b1) ?x } = Some h2"
        "istree h2 0 ?x (Node l ?x r')" "relinks ({?x} \<union> set_tree l \<union> set_tree r') h1 h2" by blast
    have "sp_unlink ?x q h1 = Some (h2, q\<lparr>sp_root := ?x\<rparr>)"
      using arg_cong [OF h2(1), of "\<lambda>x. Option.bind x (\<lambda>h. Some (h, q\<lparr>sp_root := ?x\<rparr>))"] s(2) bx xr b(2)
      by (simp add: sp_unlink_def q st_simp ld_def)
    moreover have "relinks (insert n (set_tree l \<union> set_tree r)) h h2"
      by (rule relinks_trans [OF s(6) h2(3)]) (auto simp: sr)
    ultimately show ?thesis using s(1) h2(2) ior
      by (intro exI [of _ ?x] exI [of _ h1] exI [of _ h2] exI [of _ "q\<lparr>sp_root := ?x\<rparr>"]
          exI [of _ "Node l ?x r'"]) (simp add: same_elts_def)
  qed
qed

lemma sp_delete_ok:
  assumes t: "istree (cells m) 0 (sp_root q) t" and d: "distinct (inorder t)" and n: "n \<in> set_tree t"
  shows "\<exists>q' h' b t' xs ys. sp_delete n q m = Some (q', m\<lparr>cells := h'(n \<mapsto> b\<lparr>uplink := sp_free_list m\<rparr>),
        sp_free_list := n, sp_entries := sp_entries m - 1\<rparr>)
    \<and> h' n = Some b \<and> istree h' 0 (sp_root q') t' \<and> inorder t = xs @ n # ys \<and> inorder t' = xs @ ys
    \<and> symbols q' = symbols q \<and> eltscnt q' = eltscnt q - 1 \<and> relinks (set_tree t) (cells m) h'"
proof -
  obtain h1 q1 l r where s: "splay n q (cells m) = Some (h1, q1)" "sp_root q1 = n" "same_elts q q1"
      "istree h1 0 n (Node l n r)" "inorder (Node l n r) = inorder t" "relinks (set_tree t) (cells m) h1"
    using splay_ok [OF t d n] by blast
  have "distinct (inorder (Node l n r))" using s(5) d by simp
  from delete_root_ok [OF s(4) this s(2)] obtain x h2 h' q' t' where u:
      "sp_deq n h1 = Some (x, h2)" "sp_unlink x q1 h2 = Some (h', q')" "istree h' 0 (sp_root q') t'"
      "inorder t' = inorder l @ inorder r" "same_elts q1 q'" "relinks (insert n (set_tree l \<union> set_tree r)) h1 h'"
    by blast
  have st: "insert n (set_tree l \<union> set_tree r) = set_tree t"
    using arg_cong [OF s(5), of set] by simp
  have r: "relinks (set_tree t) (cells m) h'"
    by (rule relinks_trans [OF s(6) u(6) [unfolded st]]) simp
  have "cells m n \<noteq> None" "n \<noteq> 0" using istree_dom [OF t n] istree_nonzero [OF t] n by metis+
  moreover from this obtain b where "h' n = Some b" using relinks_dom [OF r, of n] by auto
  ultimately show ?thesis
    using s(1,2,3,5) u r unfolding sp_delete_def
    by (intro exI [of _ "q'\<lparr>eltscnt := eltscnt q' - 1\<rparr>"] exI [of _ h'] exI [of _ b] exI [of _ t']
        exI [of _ "inorder l"] exI [of _ "inorder r"])
      (simp add: sp_free_blk_def st_simp same_elts_def)
qed

section \<open>Traversal\<close>

lemma leftmost_ok: "istree h u p t \<Longrightarrow> t \<noteq> Leaf \<Longrightarrow> leftmost h p = Some (hd (inorder t))"
proof (induction t arbitrary: u p)
  case (Node l a r)
  then obtain b where b: "h a = Some b" "p = a" "a \<noteq> 0" "istree h a (leftlink b) l" by auto
  show ?case
  proof (cases l)
    case Leaf
    then show ?thesis using b by (subst leftmost.simps) (simp add: ld_simp)
  next
    case (Node l1 x l2)
    then have "leftlink b \<noteq> 0" "inorder l \<noteq> []" using b(4) by auto
    moreover have "leftmost h (leftlink b) = Some (hd (inorder l))" using Node.IH(1) [OF b(4)] Node by blast
    ultimately show ?thesis using b by (subst leftmost.simps) (simp add: ld_simp)
  qed
qed simp

lemma sp_fhead_ok:
  assumes "istree h 0 (sp_root q) t"
  shows "sp_fhead q h = Some (case inorder t of [] \<Rightarrow> 0 | x # _ \<Rightarrow> x)"
proof (cases t)
  case Leaf
  then show ?thesis using assms by (simp add: sp_fhead_def)
next
  case (Node l a r)
  then have "sp_root q \<noteq> 0" "inorder t \<noteq> []" using assms by auto
  then show ?thesis using leftmost_ok [OF assms] Node by (auto simp: sp_fhead_def list.case_eq_if)
qed

lemma fnext_up_ok:
  assumes "isctx h n u fs" "n \<noteq> 0" "n \<notin> set (addrs fs)" "distinct (addrs fs)"
  shows "fnext_up h n u = Some (case ctx_right fs of [] \<Rightarrow> 0 | x # _ \<Rightarrow> x)"
  using assms
proof (induction fs arbitrary: n u)
  case Nil
  then show ?case by (subst fnext_up.simps) simp
next
  case (Cons f fs)
  show ?case
  proof (cases f)
    case (Lft a s)
    then show ?thesis using Cons.prems by (subst fnext_up.simps) (auto simp: ld_simp)
  next
    case (Rgt a s)
    then obtain b where b: "u = a" "a \<noteq> 0" "h a = Some b" "istree h a (leftlink b) s"
        "isctx h a (uplink b) fs" using Cons.prems(1) by auto
    have "leftlink b \<noteq> n" using istree_root [OF b(4)] Cons.prems(2,3) Rgt by auto
    moreover have "a \<notin> set (addrs fs)" "distinct (addrs fs)" using Cons.prems(4) Rgt by auto
    ultimately show ?thesis using b Cons.IH [OF b(5,2)] Rgt
      by (subst fnext_up.simps) (simp add: ld_simp)
  qed
qed

lemma sp_fnext_ok:
  assumes t: "istree h 0 p t" and d: "distinct (inorder t)" and n: "inorder t = xs @ n # ys"
  shows "sp_fnext n h = Some (case ys of [] \<Rightarrow> 0 | y # _ \<Rightarrow> y)"
proof -
  have "n \<in> set_tree t" using arg_cong [OF n, of set] by simp
  then obtain l r fs b where c: "plug fs (Node l n r) = t" "h n = Some b" "n \<noteq> 0"
      "istree h n (rightlink b) r" "isctx h n (uplink b) fs"
    using isctx_ex [OF t, of "[]" n] by auto
  have "distinct (inorder (Node l n r) @ addrs fs)"
    using d distinct_plug [of fs "Node l n r"] c(1) by (simp del: inorder_plug)
  then have f: "n \<notin> set (addrs fs)" "distinct (addrs fs)" by auto
  have e: "(ctx_left fs @ inorder l) @ n # inorder r @ ctx_right fs = xs @ n # ys"
    using n c(1) inorder_plug [of fs "Node l n r"] by simp
  have "distinct (xs @ n # ys)" using d n by simp
  then have "n \<notin> set xs" "n \<notin> set (ctx_left fs @ inorder l)" "n \<notin> set (inorder r @ ctx_right fs)"
    using arg_cong [OF e, of distinct] by auto
  then have ys: "ys = inorder r @ ctx_right fs"
    using e append_Cons_eq_iff [of n "ctx_left fs @ inorder l" "inorder r @ ctx_right fs" xs ys] by simp
  show ?thesis
  proof (cases r)
    case Leaf
    then show ?thesis using c ys fnext_up_ok [OF c(5,3) f] by (simp add: sp_fnext_def ld_simp)
  next
    case (Node rl a rr)
    then obtain y zs where "rightlink b \<noteq> 0" "inorder r = y # zs"
      using c(4) by (cases "inorder r") auto
    moreover have "leftmost h (rightlink b) = Some (hd (inorder r))" using leftmost_ok [OF c(4)] Node by simp
    ultimately show ?thesis using c(2,3) ys by (simp add: sp_fnext_def ld_simp)
  qed
qed

section \<open>The free list\<close>

fun isfree :: "'d cells \<Rightarrow> nat \<Rightarrow> nat list \<Rightarrow> bool" where
  "isfree h p [] \<longleftrightarrow> p = 0"
| "isfree h p (a # as) \<longleftrightarrow> p = a \<and> a \<noteq> 0 \<and> (\<exists>b. h a = Some b \<and> isfree h (uplink b) as)"

lemma isfree_frame: "isfree h p fl \<Longrightarrow> (\<And>x. x \<in> set fl \<Longrightarrow> h' x = h x) \<Longrightarrow> isfree h' p fl"
  by (induction fl arbitrary: p) auto

lemma isfree_dom: "isfree h p fl \<Longrightarrow> x \<in> set fl \<Longrightarrow> h x \<noteq> None \<and> x \<noteq> 0"
  by (induction fl arbitrary: p) auto

text \<open>The allocator's invariant; \<open>fl\<close> lists the free nodes.\<close>

definition heap_ok :: "'d spmem \<Rightarrow> nat list \<Rightarrow> bool" where
  "heap_ok m fl \<longleftrightarrow> isfree (cells m) (sp_free_list m) fl \<and> distinct fl \<and> 0 < brk m
     \<and> (\<forall>x. brk m \<le> x \<longrightarrow> cells m x = None)"

lemma sp_alloc_loop_ok:
  "heap_ok m fl \<Longrightarrow> heap_ok (sp_alloc_loop junk n m) (rev [brk m..<brk m + n] @ fl)
     \<and> (\<forall>x < brk m. cells (sp_alloc_loop junk n m) x = cells m x)
     \<and> sp_entries (sp_alloc_loop junk n m) = sp_entries m
     \<and> sp_allocated (sp_alloc_loop junk n m) = sp_allocated m + int n"
proof (induction n arbitrary: m fl)
  case (Suc n)
  let ?m = "m\<lparr>cells := (cells m)(brk m \<mapsto> junk\<lparr>uplink := sp_free_list m\<rparr>), brk := Suc (brk m),
      sp_free_list := brk m, sp_allocated := sp_allocated m + 1\<rparr>"
  have fr: "brk m \<notin> set fl" using Suc.prems isfree_dom by (fastforce simp: heap_ok_def)
  have "heap_ok ?m (brk m # fl)"
    using Suc.prems fr by (auto simp: heap_ok_def intro: isfree_frame)
  from Suc.IH [OF this] show ?case
    by (auto simp: upt_conv_Cons simp del: upt_Suc)
qed simp

lemma sp_alloc_blk_ok:
  assumes "heap_ok m fl"
  shows "\<exists>p m' fl'. sp_alloc_blk junk m = Some (p, m') \<and> heap_ok m' fl' \<and> cells m' p \<noteq> None \<and> p \<noteq> 0
    \<and> p \<notin> set fl' \<and> (\<forall>x. cells m x \<noteq> None \<longrightarrow> cells m' x = cells m x)
    \<and> (\<forall>x. cells m x \<noteq> None \<longrightarrow> x \<notin> set fl \<longrightarrow> x \<noteq> p \<and> x \<notin> set fl')
    \<and> sp_entries m' = sp_entries m + 1"
proof -
  have lt: "cells m x = None" if "brk m \<le> x" for x
    using that assms by (simp add: heap_ok_def)
  obtain m1 p fl1 where m1: "heap_ok m1 (p # fl1)" "\<forall>x. cells m x \<noteq> None \<longrightarrow> cells m1 x = cells m x"
      "\<forall>x. cells m x \<noteq> None \<longrightarrow> x \<notin> set fl \<longrightarrow> x \<notin> set (p # fl1)" "sp_entries m1 = sp_entries m"
      "m1 = (if sp_free_list m = 0 then sp_alloc_loop junk SP_ALLOC_N m else m)"
  proof (cases fl)
    case Nil
    let ?m = "sp_alloc_loop junk SP_ALLOC_N m"
    have a: "heap_ok ?m (rev [brk m..<brk m + SP_ALLOC_N])" "\<forall>x < brk m. cells ?m x = cells m x"
        "sp_entries ?m = sp_entries m"
      using sp_alloc_loop_ok [OF assms, of junk SP_ALLOC_N] Nil by auto
    have "rev [brk m..<brk m + SP_ALLOC_N] = (brk m + 199) # rev [brk m..<brk m + 199]"
      using upt_Suc_append [of "brk m" "brk m + 199"] by (simp add: SP_ALLOC_N_def add.commute [of 200] del: upt_Suc)
    moreover have "sp_free_list m = 0" using assms Nil by (simp add: heap_ok_def)
    moreover have "cells m x \<noteq> None \<Longrightarrow> x < brk m" for x using lt [of x] by (cases "x < brk m") auto
    ultimately show ?thesis using a lt by (intro that [of ?m "brk m + 199" "rev [brk m..<brk m + 199]"]) auto
  next
    case (Cons p fl1)
    then have "sp_free_list m \<noteq> 0" using assms by (auto simp: heap_ok_def)
    then show ?thesis using that [of m p fl1] assms Cons by auto
  qed
  obtain b where b: "cells m1 p = Some b" "p \<noteq> 0" "sp_free_list m1 = p" "isfree (cells m1) (uplink b) fl1"
    using m1(1) by (auto simp: heap_ok_def)
  let ?m = "m1\<lparr>sp_free_list := uplink b, sp_entries := sp_entries m1 + 1\<rparr>"
  have "sp_alloc_blk junk m = Some (p, ?m)"
    using b m1(5) [symmetric] by (simp add: sp_alloc_blk_def Let_def ld_simp)
  moreover have "heap_ok ?m fl1" "p \<notin> set fl1" using m1(1) b by (auto simp: heap_ok_def)
  ultimately show ?thesis using b(1,2) m1(2-4)
    by (intro exI [of _ p] exI [of _ ?m] exI [of _ fl1]) auto
qed

section \<open>Trees in memory\<close>

definition sp_ok :: "'d spmem \<Rightarrow> nat list \<Rightarrow> sptree \<Rightarrow> nat tree \<Rightarrow> bool" where
  "sp_ok m fl q t \<longleftrightarrow> heap_ok m fl \<and> istree (cells m) 0 (sp_root q) t \<and> keyed (cells m) t
     \<and> set_tree t \<inter> set fl = {}"

lemma relinks_heap_ok:
  assumes "heap_ok m fl" "relinks A (cells m) h'" "A \<inter> set fl = {}"
  shows "heap_ok (m\<lparr>cells := h'\<rparr>) fl"
proof -
  have "isfree h' (sp_free_list m) fl"
  proof (rule isfree_frame)
    show "isfree (cells m) (sp_free_list m) fl" using assms(1) by (simp add: heap_ok_def)
    show "h' x = cells m x" if "x \<in> set fl" for x
      using that assms(3) by (intro relinks_at [OF assms(2)]) auto
  qed
  then show ?thesis using assms(1) relinks_dom [OF assms(2)] by (simp add: heap_ok_def)
qed

lemma set_tree_inorder: "inorder t' = inorder t \<Longrightarrow> set_tree t' = set_tree t"
  using set_inorder by metis

lemma keyed_relinks: "keyed h t \<Longrightarrow> relinks A h h' \<Longrightarrow> inorder t' = inorder t \<Longrightarrow> keyed h' t'"
  by (simp add: keyed_def relinks_nkey)

lemma sp_ok_relinks:
  assumes "sp_ok m fl q t" "relinks (set_tree t) (cells m) h'" "istree h' 0 (sp_root q') t'"
    and "inorder t' = inorder t"
  shows "sp_ok (m\<lparr>cells := h'\<rparr>) fl q' t'"
  using assms relinks_heap_ok [of m fl "set_tree t" h'] keyed_relinks [of "cells m" t "set_tree t" h' t']
    set_tree_inorder [OF assms(4)] by (simp add: sp_ok_def)

lemma sp_lookup_ok:
  assumes "sp_ok m fl q t"
  shows "\<exists>n q' h' t'. sp_lookup k q (cells m) = Some (n, q', h') \<and> sp_ok (m\<lparr>cells := h'\<rparr>) fl q' t'
    \<and> inorder t' = inorder t \<and> relinks (set_tree t) (cells m) h' \<and> same_elts q q'
    \<and> (if k \<in> nkey (cells m) ` set_tree t then n \<in> set_tree t \<and> nkey (cells m) n = k else n = 0)"
proof -
  have t: "istree (cells m) 0 (sp_root q) t" "keyed (cells m) t" using assms by (auto simp: sp_ok_def)
  let ?q = "q\<lparr>lkpcmps := lkpcmps q + 1, lookups := lookups q + 1\<rparr>"
  obtain n c where l: "lookup_loop k (cells m) (sp_root q) (wrap32 (lkpcmps q + 1)) = Some (n, c)"
      "if k \<in> nkey (cells m) ` set_tree t then n \<in> set_tree t \<and> nkey (cells m) n = k else n = 0"
    using lookup_loop_ok [OF t] by blast
  let ?q' = "?q\<lparr>lkpcmps := c\<rparr>"
  show ?thesis
  proof (cases "n = 0")
    case True
    have "sp_lookup k q (cells m) = Some (n, ?q', cells m)"
      using l(1) True by (simp add: sp_lookup_def Let_def)
    moreover have "sp_ok (m\<lparr>cells := cells m\<rparr>) fl ?q' t" using assms by (simp add: sp_ok_def)
    ultimately show ?thesis using l(2)
      by (intro exI [of _ n] exI [of _ ?q'] exI [of _ "cells m"] exI [of _ t]) (simp add: same_elts_def)
  next
    case False
    then have n: "n \<in> set_tree t" using l(2) by (auto split: if_splits)
    obtain h' q' l' r' where s: "splay n ?q' (cells m) = Some (h', q')" "sp_root q' = n" "same_elts ?q' q'"
        "istree h' 0 n (Node l' n r')" "inorder (Node l' n r') = inorder t" "relinks (set_tree t) (cells m) h'"
      using splay_ok [OF t(1) keyed_distinct [OF t(2)] n] by blast
    have "sp_lookup k q (cells m) = Some (n, q', h')"
      using l(1) s(1) False by (simp add: sp_lookup_def Let_def)
    moreover have "sp_ok (m\<lparr>cells := h'\<rparr>) fl q' (Node l' n r')"
      using sp_ok_relinks [OF assms s(6) _ s(5)] s(2,4) by simp
    ultimately show ?thesis using s(3,5,6) l(2)
      by (intro exI [of _ n] exI [of _ q'] exI [of _ h'] exI [of _ "Node l' n r'"])
        (simp add: same_elts_def)
  qed
qed

text \<open>What an operation on one tree leaves alone: every other allocated node.\<close>

definition others_kept ::
    "'d spmem \<Rightarrow> nat list \<Rightarrow> nat tree \<Rightarrow> 'd spmem \<Rightarrow> nat list \<Rightarrow> nat tree \<Rightarrow> bool" where
  "others_kept m fl t m' fl' t' \<longleftrightarrow> (\<forall>x. cells m x \<noteq> None \<longrightarrow> x \<notin> set fl \<union> set_tree t \<longrightarrow>
     cells m' x = cells m x \<and> x \<notin> set fl' \<union> set_tree t')"

lemma keyed_mono_split:
  "keyed h t \<Longrightarrow> sorted_wrt (\<lambda>x y. nkey h y < k \<longrightarrow> nkey h x < k) (inorder t)"
  unfolding keyed_def by (rule sorted_wrt_mono_rel) (auto intro: less_trans)

lemma sp_install_new:
  assumes ok: "sp_ok m fl q t" and k: "k \<notin> nkey (cells m) ` set_tree t"
  shows "\<exists>n m1 fl' h' q' t'. sp_alloc_blk junk m = Some (n, m1)
    \<and> (do { h \<leftarrow> st (key_update (\<lambda>_. k)) (cells m1) n; h \<leftarrow> set_left h n 0; h \<leftarrow> set_right h n 0;
           h \<leftarrow> set_up h n 0; sp_enq n (q\<lparr>eltscnt := eltscnt q + 1\<rparr>) h }) = Some (q', h')
    \<and> sp_ok (m1\<lparr>cells := h'\<rparr>) fl' q' t' \<and> n \<notin> set_tree t \<and> set_tree t' = insert n (set_tree t)
    \<and> nkey h' n = k \<and> (\<forall>x \<in> set_tree t. kd h' x = kd (cells m) x)
    \<and> eltscnt q' = eltscnt q + 1 \<and> symbols q' = symbols q \<and> others_kept m fl t (m1\<lparr>cells := h'\<rparr>) fl' t'"
proof -
  have t: "istree (cells m) 0 (sp_root q) t" "keyed (cells m) t" "heap_ok m fl" "set_tree t \<inter> set fl = {}"
    using ok by (auto simp: sp_ok_def)
  obtain n m1 fl1 where a: "sp_alloc_blk junk m = Some (n, m1)" "heap_ok m1 fl1" "cells m1 n \<noteq> None" "n \<noteq> 0"
      "n \<notin> set fl1" "\<And>x. cells m x \<noteq> None \<Longrightarrow> cells m1 x = cells m x"
      "\<And>x. cells m x \<noteq> None \<Longrightarrow> x \<notin> set fl \<Longrightarrow> x \<noteq> n \<and> x \<notin> set fl1"
    using sp_alloc_blk_ok [OF t(3), of junk] by blast
  obtain b where b: "cells m1 n = Some b" using a(3) by auto
  let ?b = "b\<lparr>key := k, leftlink := 0, rightlink := 0, uplink := 0\<rparr>"
  define h2 where "h2 = (cells m1)(n \<mapsto> ?b)"
  have nt: "x \<noteq> n" "x \<notin> set fl1" "h2 x = cells m x" if "x \<in> set_tree t" for x
    using that istree_dom [OF t(1) that] t(4) a(6,7) [of x] by (auto simp: h2_def)
  have n: "n \<notin> set_tree t" using nt(1) by blast
  have t2: "istree h2 0 (sp_root q) t" using nt(3) by (intro istree_frame [OF t(1)])
  have key2: "nkey h2 x = nkey (cells m) x" "kd h2 x = kd (cells m) x" if "x \<in> set_tree t" for x
    using nt(3) [OF that] by (auto simp: nkey_def kd_def)
  have keyed2: "keyed h2 t"
    using t(2) unfolding keyed_def by (rule sorted_wrt_mono_rel [rotated]) (simp add: key2)
  let ?q = "q\<lparr>eltscnt := eltscnt q + 1\<rparr>"
  have "sorted_wrt (\<lambda>x y. nkey h2 y < key ?b \<longrightarrow> nkey h2 x < key ?b) (inorder t)"
    by (rule keyed_mono_split [OF keyed2])
  then obtain q' h' l r where e: "sp_enq n ?q h2 = Some (q', h')" "sp_root q' = n" "same_elts ?q q'"
      "istree h' 0 n (Node l n r)" "inorder l @ inorder r = inorder t"
      "\<And>x. x \<in> set_tree l \<Longrightarrow> nkey h2 x < k" "\<And>x. x \<in> set_tree r \<Longrightarrow> \<not> nkey h2 x < k"
      "relinks (insert n (set_tree t)) h2 h'"
    using sp_enq_ok [of h2 ?q t n ?b] t2 keyed_distinct [OF keyed2] a(4) n by (auto simp: h2_def)
  let ?t = "Node l n r"
  have st: "set_tree l \<union> set_tree r = set_tree t" using arg_cong [OF e(5), of set] by simp
  have kn: "nkey h2 n = k" by (simp add: h2_def nkey_at)
  have "keyed h2 ?t"
  proof -
    have "keyed h2 l" "keyed h2 r" using keyed2 e(5) [symmetric] by (auto simp: keyed_def sorted_wrt_append)
    moreover have "k < nkey h2 x" if "x \<in> set_tree r" for x
      using e(7) [OF that] k key2(1) [of x] st that by (metis Un_iff antisym_conv3 image_eqI)
    ultimately show ?thesis using e(6) kn by (simp add: keyed_Node)
  qed
  then have "keyed h' ?t" using keyed_relinks [OF _ e(8)] by blast
  moreover have h2ok: "heap_ok (m1\<lparr>cells := h2\<rparr>) fl1"
    using a(2,5) b by (auto simp: heap_ok_def h2_def intro: isfree_frame)
  have "heap_ok (m1\<lparr>cells := h'\<rparr>) fl1"
    using relinks_heap_ok [OF h2ok, of "insert n (set_tree t)" h'] e(8) a(5) nt(2) by auto
  ultimately have "sp_ok (m1\<lparr>cells := h'\<rparr>) fl1 q' ?t"
    using e(2,4) a(5) nt(2) st by (auto simp: sp_ok_def)
  moreover have "(do { h \<leftarrow> st (key_update (\<lambda>_. k)) (cells m1) n; h \<leftarrow> set_left h n 0; h \<leftarrow> set_right h n 0;
           h \<leftarrow> set_up h n 0; sp_enq n ?q h }) = Some (q', h')"
    using e(1) b a(4) by (simp add: st_simp h2_def)
  moreover have "others_kept m fl t (m1\<lparr>cells := h'\<rparr>) fl1 ?t"
    using a(6,7) st relinks_at [OF e(8)] by (auto simp: others_kept_def h2_def)
  moreover have "\<forall>x \<in> set_tree t. kd h' x = kd (cells m) x" "nkey h' n = k"
    using e(8) key2(2) kn relinks_nkey [OF e(8)] by (auto simp: relinks_def)
  ultimately show ?thesis using a(1) n st e(3)
    by (intro exI [of _ n] exI [of _ m1] exI [of _ fl1] exI [of _ h'] exI [of _ q'] exI [of _ ?t])
      (auto simp: same_elts_def)
qed

section \<open>The keyed store\<close>

text \<open>The finite map a tree stands for.\<close>

definition content :: "'d cells \<Rightarrow> nat tree \<Rightarrow> u32 \<rightharpoonup> 'd" where
  "content h t k = (case find (\<lambda>x. nkey h x = k) (inorder t) of
     None \<Rightarrow> None | Some x \<Rightarrow> snd (the (kd h x)))"

lemma content_at: "keyed h t \<Longrightarrow> x \<in> set_tree t \<Longrightarrow> content h t (nkey h x) = snd (the (kd h x))"
proof -
  assume k: "keyed h t" and x: "x \<in> set_tree t"
  obtain y where y: "find (\<lambda>y. nkey h y = nkey h x) (inorder t) = Some y"
    using x by (cases "find (\<lambda>y. nkey h y = nkey h x) (inorder t)") (auto simp: find_None_iff)
  then have "y \<in> set_tree t" "nkey h y = nkey h x" using find_SomeD [OF y] by auto
  then have "y = x" using keyed_inj [OF k] x by blast
  then show ?thesis using y by (simp add: content_def)
qed

lemma content_none: "k \<notin> nkey h ` set_tree t \<Longrightarrow> content h t k = None"
  using find_SomeD [of "\<lambda>x. nkey h x = k" "inorder t"] by (auto simp: content_def split: option.splits)

lemma content_same:
  assumes "keyed h t" "keyed h' t'" "set_tree t' = set_tree t" "\<And>x. x \<in> set_tree t \<Longrightarrow> kd h' x = kd h x"
  shows "content h' t' = content h t"
proof
  fix k
  have n: "nkey h' x = nkey h x" if "x \<in> set_tree t" for x using assms(4) [OF that] by (simp add: nkey_def)
  show "content h' t' k = content h t k"
  proof (cases "k \<in> nkey h ` set_tree t")
    case True
    then obtain x where x: "x \<in> set_tree t" "k = nkey h x" by auto
    then show ?thesis
      using content_at [OF assms(1) x(1)] content_at [OF assms(2), of x] assms(3,4) n by simp
  next
    case False
    then show ?thesis using content_none [of k h t] content_none [of k h' t'] n assms(3) by auto
  qed
qed

lemma content_insert:
  assumes "keyed h t" "keyed h' t'" "set_tree t' = insert n (set_tree t)"
    and "\<And>x. x \<in> set_tree t \<Longrightarrow> x \<noteq> n \<Longrightarrow> kd h' x = kd h x" "n \<in> set_tree t \<Longrightarrow> nkey h' n = nkey h n"
  shows "content h' t' = (content h t)(nkey h' n := snd (the (kd h' n)))"
proof
  fix k
  have n: "nkey h' x = nkey h x" if "x \<in> set_tree t" for x
    using assms(4) [OF that] assms(5) that by (cases "x = n") (auto simp: nkey_def)
  consider "k = nkey h' n" | x where "k \<noteq> nkey h' n" "x \<in> set_tree t" "k = nkey h x"
    | "k \<noteq> nkey h' n" "k \<notin> nkey h ` set_tree t" by auto
  then show "content h' t' k = ((content h t)(nkey h' n := snd (the (kd h' n)))) k"
  proof cases
    case 1
    then show ?thesis using content_at [OF assms(2), of n] assms(3) by simp
  next
    case (2 x)
    then have "x \<noteq> n" using n by auto
    then show ?thesis
      using 2 content_at [OF assms(1) 2(2)] content_at [OF assms(2), of x] assms(3,4) n by simp
  next
    case 3
    then show ?thesis using content_none [of k h t] content_none [of k h' t'] n assms(3) by auto
  qed
qed

text \<open>
  The interface a client sees: a lookup that may re-arrange the store, and a store of data under a
  key, both total, specified through the finite map (\<open>keyed_store\<close>); or the read-modify-write of
  the record under a key (\<open>record_store\<close>), which the first interface gives.
\<close>

locale record_store =
  fixes rep :: "'s \<Rightarrow> (u32 \<rightharpoonup> 'd) \<Rightarrow> bool"
    and fresh :: 'd
    and upd :: "u32 \<Rightarrow> ('d \<Rightarrow> 'd) \<Rightarrow> 's \<Rightarrow> 's option"
  assumes upd_law: "rep s M \<Longrightarrow> \<exists>s'. upd k f s = Some s'
    \<and> rep s' (M(k \<mapsto> f (case M k of None \<Rightarrow> fresh | Some e \<Rightarrow> e)))"
begin

fun upd_all :: "(u32 \<times> ('d \<Rightarrow> 'd)) list \<Rightarrow> 's \<Rightarrow> 's option" where
  "upd_all [] s = Some s"
| "upd_all ((k, f) # us) s = do { s \<leftarrow> upd k f s; upd_all us s }"

text \<open>The record under a key after a run of updates: only the updates of that key count, in order.\<close>

lemma upd_all_ok:
  "rep s M \<Longrightarrow> \<exists>s' M'. upd_all us s = Some s' \<and> rep s' M' \<and>
     (\<forall>k. M' k = (let fs = map snd (filter (\<lambda>u. fst u = k) us) in
        if fs = [] then M k else Some (foldl (\<lambda>e f. f e) (case M k of None \<Rightarrow> fresh | Some e \<Rightarrow> e) fs)))"
proof (induction us arbitrary: s M)
  case Nil
  then show ?case by auto
next
  case (Cons u us)
  obtain k f where u: "u = (k, f)" by fastforce
  let ?M = "M(k \<mapsto> f (case M k of None \<Rightarrow> fresh | Some e \<Rightarrow> e))"
  obtain s1 where s1: "upd k f s = Some s1" "rep s1 ?M" using upd_law [OF Cons.prems] by blast
  show ?case using Cons.IH [OF s1(2)] s1(1) by (fastforce simp: u Let_def)
qed

end

locale keyed_store =
  fixes rep :: "'s \<Rightarrow> (u32 \<rightharpoonup> 'd) \<Rightarrow> bool"
    and get :: "u32 \<Rightarrow> 's \<Rightarrow> ('d option \<times> 's) option"
    and put :: "u32 \<Rightarrow> 'd \<Rightarrow> 's \<Rightarrow> 's option"
  assumes get_law: "rep s M \<Longrightarrow> \<exists>s'. get k s = Some (M k, s') \<and> rep s' M"
    and put_law: "rep s M \<Longrightarrow> \<exists>s'. put k d s = Some s' \<and> rep s' (M(k \<mapsto> d))"
begin

definition modify :: "'d \<Rightarrow> u32 \<Rightarrow> ('d \<Rightarrow> 'd) \<Rightarrow> 's \<Rightarrow> 's option" where
  "modify fresh k f s = do {
     (e, s) \<leftarrow> get k s;
     put k (f (case e of None \<Rightarrow> fresh | Some e \<Rightarrow> e)) s
   }"

lemma modify_ok:
  assumes "rep s M"
  shows "\<exists>s'. modify fresh k f s = Some s'
    \<and> rep s' (M(k \<mapsto> f (case M k of None \<Rightarrow> fresh | Some e \<Rightarrow> e)))"
proof -
  obtain s1 where "get k s = Some (M k, s1)" "rep s1 M" using get_law [OF assms] by blast
  then show ?thesis using put_law [of s1 M k] by (simp add: modify_def)
qed

end

sublocale keyed_store \<subseteq> modified: record_store rep fresh "modify fresh" for fresh
  by unfold_locales (rule modify_ok)

definition sp_rep :: "sptree \<times> 'd spmem \<Rightarrow> (u32 \<rightharpoonup> 'd) \<Rightarrow> bool" where
  "sp_rep s M \<longleftrightarrow> (\<exists>fl t. sp_ok (snd s) fl (fst s) t \<and> content (cells (snd s)) t = M
     \<and> (\<forall>x \<in> set_tree t. snd (the (kd (cells (snd s)) x)) \<noteq> None))"

definition sp_get :: "u32 \<Rightarrow> sptree \<times> 'd spmem \<Rightarrow> ('d option \<times> sptree \<times> 'd spmem) option" where
  "sp_get k s = do {
     (n, q, h) \<leftarrow> sp_lookup k (fst s) (cells (snd s));
     d \<leftarrow> (if n = 0 then Some None else ld data h n);
     Some (d, q, (snd s)\<lparr>cells := h\<rparr>)
   }"

definition sp_put :: "'d spblk \<Rightarrow> u32 \<Rightarrow> 'd \<Rightarrow> sptree \<times> 'd spmem \<Rightarrow> (sptree \<times> 'd spmem) option" where
  "sp_put junk k d s = do {
     (n, q, m) \<leftarrow> sp_install junk k (fst s) (snd s);
     h \<leftarrow> st (data_update (\<lambda>_. Some d)) (cells m) n;
     Some (q, m\<lparr>cells := h\<rparr>)
   }"

lemma sp_get_law:
  assumes "sp_rep s M"
  shows "\<exists>s'. sp_get k s = Some (M k, s') \<and> sp_rep s' M"
proof -
  obtain q m fl t where s: "s = (q, m)" "sp_ok m fl q t" "content (cells m) t = M"
      "\<forall>x \<in> set_tree t. snd (the (kd (cells m) x)) \<noteq> None"
    using assms by (cases s) (auto simp: sp_rep_def)
  have keyed: "keyed (cells m) t" using s(2) by (simp add: sp_ok_def)
  obtain n q' h' t' where l: "sp_lookup k q (cells m) = Some (n, q', h')" "sp_ok (m\<lparr>cells := h'\<rparr>) fl q' t'"
      "inorder t' = inorder t" "relinks (set_tree t) (cells m) h'"
      "if k \<in> nkey (cells m) ` set_tree t then n \<in> set_tree t \<and> nkey (cells m) n = k else n = 0"
    using sp_lookup_ok [OF s(2)] by blast
  have kd: "kd h' = kd (cells m)" using l(4) by (simp add: relinks_def)
  have "content h' t' = M"
    using content_same [OF keyed, of h' t'] l(2) kd set_tree_inorder [OF l(3)] s(3) by (simp add: sp_ok_def)
  then have rep: "sp_rep (q', m\<lparr>cells := h'\<rparr>) M"
    using l(2) s(4) set_tree_inorder [OF l(3)] kd unfolding sp_rep_def
    by (intro exI [of _ fl] exI [of _ t']) simp
  have "sp_get k s = Some (M k, q', m\<lparr>cells := h'\<rparr>)"
  proof (cases "k \<in> nkey (cells m) ` set_tree t")
    case True
    then have n: "n \<in> set_tree t" "nkey (cells m) n = k" using l(5) by auto
    have i: "istree h' 0 (sp_root q') t'" "n \<in> set_tree t'"
      using l(2) n(1) set_tree_inorder [OF l(3)] by (auto simp: sp_ok_def)
    have "n \<noteq> 0" using istree_nonzero [OF i(1)] i(2) by metis
    moreover obtain b where b: "h' n = Some b" using istree_dom [OF i] by auto
    moreover have "M k = data b"
      using content_at [OF keyed n(1)] n(2) s(3) fun_cong [OF kd, of n] b by (cases "cells m n") (simp_all add: kd_def)
    ultimately show ?thesis using l(1) s(1) by (simp add: sp_get_def ld_simp)
  next
    case False
    then show ?thesis using l(1,5) s(1,3) content_none [OF False] by (simp add: sp_get_def)
  qed
  then show ?thesis using rep by blast
qed

lemma istree_data: "h n = Some b \<Longrightarrow> istree h u p t \<Longrightarrow> istree (h(n \<mapsto> b\<lparr>data := v\<rparr>)) u p t"
  by (induction t arbitrary: u p) auto

lemma isfree_data: "h n = Some b \<Longrightarrow> isfree h p fl \<Longrightarrow> isfree (h(n \<mapsto> b\<lparr>data := v\<rparr>)) p fl"
  by (induction fl arbitrary: p) auto

lemma nkey_data: "h n = Some b \<Longrightarrow> nkey (h(n \<mapsto> b\<lparr>data := v\<rparr>)) = nkey h"
  by (auto simp: nkey_def kd_def fun_eq_iff)

lemma sp_ok_data:
  assumes "sp_ok m fl q t" "cells m n = Some b"
  shows "sp_ok (m\<lparr>cells := (cells m)(n \<mapsto> b\<lparr>data := v\<rparr>)\<rparr>) fl q t"
proof -
  have "n < brk m" using assms by (simp add: sp_ok_def heap_ok_def) (metis linorder_not_less option.distinct(1))
  then show ?thesis
    using assms by (simp add: sp_ok_def heap_ok_def keyed_def istree_data isfree_data nkey_data)
qed

text \<open>The node \<open>sp_install\<close> returns, found or new, and what the rest of the memory looks like.\<close>

lemma sp_install_ok:
  assumes ok: "sp_ok m fl q t"
  shows "\<exists>n q' m' fl' t'. sp_install junk k q m = Some (n, q', m') \<and> sp_ok m' fl' q' t'
    \<and> n \<in> set_tree t' \<and> nkey (cells m') n = k \<and> set_tree t' = insert n (set_tree t)
    \<and> (\<forall>x \<in> set_tree t. kd (cells m') x = kd (cells m) x)
    \<and> others_kept m fl t m' fl' t'"
proof -
  obtain n q1 h1 t1 where l: "sp_lookup k q (cells m) = Some (n, q1, h1)" "sp_ok (m\<lparr>cells := h1\<rparr>) fl q1 t1"
      "inorder t1 = inorder t" "relinks (set_tree t) (cells m) h1"
      "if k \<in> nkey (cells m) ` set_tree t then n \<in> set_tree t \<and> nkey (cells m) n = k else n = 0"
    using sp_lookup_ok [OF ok] by blast
  let ?m = "m\<lparr>cells := h1\<rparr>"
  have st: "set_tree t1 = set_tree t" by (rule set_tree_inorder [OF l(3)])
  have kd: "kd h1 = kd (cells m)" "nkey h1 = nkey (cells m)"
    using l(4) relinks_nkey by (auto simp: relinks_def)
  have it: "istree h1 0 (sp_root q1) t1" using l(2) by (simp add: sp_ok_def)
  show ?thesis
  proof (cases "k \<in> nkey (cells m) ` set_tree t")
    case True
    then have n: "n \<in> set_tree t" "nkey (cells m) n = k" using l(5) by auto
    have "n \<noteq> 0" using istree_nonzero [OF it] n st by metis
    then have "sp_install junk k q m = Some (n, q1, ?m)" using l(1) by (simp add: sp_install_def)
    moreover have "others_kept m fl t ?m fl t1" using relinks_at [OF l(4)] st by (simp add: others_kept_def)
    ultimately show ?thesis using l(2) n st kd
      by (intro exI [of _ n] exI [of _ q1] exI [of _ ?m] exI [of _ fl] exI [of _ t1]) auto
  next
    case False
    then have "n = 0" using l(5) by simp
    have "k \<notin> nkey (cells ?m) ` set_tree t1" using False st kd by simp
    from sp_install_new [OF l(2) this, of junk] obtain n' m1 fl' h' q' t' where i:
        "sp_alloc_blk junk ?m = Some (n', m1)"
        "(do { h \<leftarrow> st (key_update (\<lambda>_. k)) (cells m1) n'; h \<leftarrow> set_left h n' 0; h \<leftarrow> set_right h n' 0;
           h \<leftarrow> set_up h n' 0; sp_enq n' (q1\<lparr>eltscnt := eltscnt q1 + 1\<rparr>) h }) = Some (q', h')"
        "sp_ok (m1\<lparr>cells := h'\<rparr>) fl' q' t'" "set_tree t' = insert n' (set_tree t1)" "nkey h' n' = k"
        "\<forall>x \<in> set_tree t1. kd h' x = kd h1 x" "others_kept ?m fl t1 (m1\<lparr>cells := h'\<rparr>) fl' t'"
      by auto
    have "sp_install junk k q m = Some (n', q', m1\<lparr>cells := h'\<rparr>)"
      using l(1) \<open>n = 0\<close> i(1) arg_cong [OF i(2), of "map_option (\<lambda>(q, h). (n', q, m1\<lparr>cells := h\<rparr>))"]
      by (simp add: sp_install_def map_option_bind comp_def map_conv_bind_option split_def)
    moreover have "others_kept m fl t (m1\<lparr>cells := h'\<rparr>) fl' t'"
      using i(7) relinks_at [OF l(4)] relinks_dom [OF l(4)] st by (simp add: others_kept_def)
    ultimately show ?thesis using i(3-6) st kd(1)
      by (intro exI [of _ n'] exI [of _ q'] exI [of _ "m1\<lparr>cells := h'\<rparr>"] exI [of _ fl'] exI [of _ t']) simp
  qed
qed

lemma sp_put_law:
  assumes "sp_rep s M"
  shows "\<exists>s'. sp_put junk k d s = Some s' \<and> sp_rep s' (M(k \<mapsto> d))"
proof -
  obtain q m fl t where s: "s = (q, m)" "sp_ok m fl q t" "content (cells m) t = M"
      "\<forall>x \<in> set_tree t. snd (the (kd (cells m) x)) \<noteq> None"
    using assms by (cases s) (auto simp: sp_rep_def)
  have keyed: "keyed (cells m) t" using s(2) by (simp add: sp_ok_def)
  obtain n q' m' fl' t' where i: "sp_install junk k q m = Some (n, q', m')" "sp_ok m' fl' q' t'"
      "n \<in> set_tree t'" "nkey (cells m') n = k" "set_tree t' = insert n (set_tree t)"
      "\<forall>x \<in> set_tree t. kd (cells m') x = kd (cells m) x"
    using sp_install_ok [OF s(2)] by blast
  have it: "istree (cells m') 0 (sp_root q') t'" using i(2) by (simp add: sp_ok_def)
  have n0: "n \<noteq> 0" using istree_nonzero [OF it] i(3) by metis
  obtain b where b: "cells m' n = Some b" using istree_dom [OF it i(3)] by auto
  define h where "h = (cells m')(n \<mapsto> b\<lparr>data := Some d\<rparr>)"
  have ok: "sp_ok (m'\<lparr>cells := h\<rparr>) fl' q' t'" using sp_ok_data [OF i(2) b] by (simp add: h_def)
  have nk: "nkey h = nkey (cells m')" using b by (simp add: h_def nkey_data)
  have kdh: "kd h x = (if x = n then Some (k, Some d) else kd (cells m') x)" for x
    using i(4) b by (simp add: h_def kd_def nkey_def)
  have "content h t' = M(k \<mapsto> d)"
    using content_insert [OF keyed, of h t' n] ok i(4-6) kdh nk s(3) by (auto simp: sp_ok_def nkey_def)
  then have "sp_rep (q', m'\<lparr>cells := h\<rparr>) (M(k \<mapsto> d))"
    using ok s(4) i(5,6) kdh unfolding sp_rep_def by (intro exI [of _ fl'] exI [of _ t']) auto
  moreover have "sp_put junk k d s = Some (q', m'\<lparr>cells := h\<rparr>)"
    using s(1) i(1) b n0 by (simp add: sp_put_def st_simp h_def)
  ultimately show ?thesis by blast
qed

interpretation sps: keyed_store sp_rep sp_get "sp_put junk" for junk :: "'d spblk"
  by unfold_locales (rule sp_get_law sp_put_law; assumption)+

text \<open>Removal, on the level of the memory: the node moves to the front of the free list.\<close>

lemma sp_delete_store:
  assumes ok: "sp_ok m fl q t" and n: "n \<in> set_tree t"
  shows "\<exists>q' m' t' xs ys. sp_delete n q m = Some (q', m') \<and> sp_ok m' (n # fl) q' t'
    \<and> inorder t = xs @ n # ys \<and> inorder t' = xs @ ys
    \<and> (\<forall>x \<in> set_tree t'. kd (cells m') x = kd (cells m) x) \<and> others_kept m fl t m' (n # fl) t'"
proof -
  have t: "istree (cells m) 0 (sp_root q) t" "keyed (cells m) t" "heap_ok m fl" "set_tree t \<inter> set fl = {}"
    using ok by (auto simp: sp_ok_def)
  have dis: "distinct (inorder t)" using keyed_distinct [OF t(2)] .
  obtain q' h' b t' xs ys where d: "sp_delete n q m = Some (q', m\<lparr>cells := h'(n \<mapsto> b\<lparr>uplink := sp_free_list m\<rparr>),
        sp_free_list := n, sp_entries := sp_entries m - 1\<rparr>)" "h' n = Some b"
      "istree h' 0 (sp_root q') t'" "inorder t = xs @ n # ys" "inorder t' = xs @ ys"
      "relinks (set_tree t) (cells m) h'"
    using sp_delete_ok [OF t(1) dis n] by blast
  let ?h = "h'(n \<mapsto> b\<lparr>uplink := sp_free_list m\<rparr>)"
  let ?m = "m\<lparr>cells := ?h, sp_free_list := n, sp_entries := sp_entries m - 1\<rparr>"
  have st: "set_tree t = insert n (set_tree t')" "n \<notin> set_tree t'"
    using arg_cong [OF d(4), of set] arg_cong [OF d(5), of set] arg_cong [OF d(4), of distinct] dis by auto
  have n0: "n \<noteq> 0" "n \<notin> set fl" using istree_nonzero [OF t(1)] n t(4) by auto
  have hk: "heap_ok (m\<lparr>cells := h'\<rparr>) fl" using relinks_heap_ok [OF t(3) d(6) t(4)] .
  have "isfree ?h (sp_free_list m) fl"
    using hk n0 by (auto simp: heap_ok_def intro: isfree_frame [of h'])
  moreover have "n < brk m" using hk d(2) by (simp add: heap_ok_def) (metis linorder_not_less option.distinct(1))
  ultimately have hk': "heap_ok ?m (n # fl)" using hk n0 by (simp add: heap_ok_def)
  have kd: "kd ?h = kd (cells m)" using d(2,6) by (simp add: kd_upd relinks_def)
  have "istree ?h 0 (sp_root q') t'" using st by (intro istree_frame [OF d(3)]) auto
  moreover have "keyed ?h t'"
  proof -
    have "keyed (cells m) t'" using t(2) d(4,5) by (auto simp: keyed_def sorted_wrt_append)
    moreover have "nkey ?h = nkey (cells m)" using kd by (simp add: nkey_def fun_eq_iff)
    ultimately show ?thesis by (simp add: keyed_def)
  qed
  ultimately have "sp_ok ?m (n # fl) q' t'" using hk' st t(4) by (auto simp: sp_ok_def)
  moreover have "others_kept m fl t ?m (n # fl) t'"
    using st relinks_at [OF d(6)] by (simp add: others_kept_def)
  moreover have "\<forall>x \<in> set_tree t'. kd (cells ?m) x = kd (cells m) x" using kd by simp
  ultimately show ?thesis using d(1,4,5) by blast
qed

lemma content_remove:
  assumes "keyed h t" "keyed h' t'" "set_tree t = insert n (set_tree t')" "n \<notin> set_tree t'"
    and "\<And>x. x \<in> set_tree t' \<Longrightarrow> kd h' x = kd h x"
  shows "content h' t' = (content h t)(nkey h n := None)"
proof
  fix k
  have n: "nkey h' x = nkey h x" if "x \<in> set_tree t'" for x using assms(5) [OF that] by (simp add: nkey_def)
  have d: "nkey h x \<noteq> nkey h n" if "x \<in> set_tree t'" for x
    using keyed_inj [OF assms(1), of x n] assms(3,4) that by auto
  consider "k = nkey h n" | x where "k \<noteq> nkey h n" "x \<in> set_tree t'" "k = nkey h x"
    | "k \<noteq> nkey h n" "k \<notin> nkey h ` set_tree t" using assms(3) by auto
  then show "content h' t' k = ((content h t)(nkey h n := None)) k"
  proof cases
    case 1
    have "k \<notin> nkey h' ` set_tree t'"
    proof
      assume "k \<in> nkey h' ` set_tree t'"
      then obtain x where "x \<in> set_tree t'" "k = nkey h' x" by blast
      then show False using n [of x] d [of x] 1 by simp
    qed
    then show ?thesis using content_none 1 by simp
  next
    case (2 x)
    then show ?thesis
      using content_at [OF assms(1), of x] content_at [OF assms(2) 2(2)] assms(3,5) n by simp
  next
    case 3
    then show ?thesis using content_none [of k h t] content_none [of k h' t'] n assms(3) by auto
  qed
qed

text \<open>
  C18. A key that is present is found, with its data, and deleting the node that the search returned
  removes exactly this key from the tree; neither step can go wrong.
\<close>

theorem sp_lookup_delete:
  assumes "sp_rep (q, m) M" and "M k = Some d"
  shows "\<exists>n q1 h1 q2 m2. sp_lookup k q (cells m) = Some (n, q1, h1) \<and> n \<noteq> 0 \<and> ld data h1 n = Some (Some d)
    \<and> sp_delete n q1 (m\<lparr>cells := h1\<rparr>) = Some (q2, m2) \<and> sp_rep (q2, m2) (M(k := None))"
proof -
  obtain fl t where s: "sp_ok m fl q t" "content (cells m) t = M"
      "\<forall>x \<in> set_tree t. snd (the (kd (cells m) x)) \<noteq> None" using assms(1) by (auto simp: sp_rep_def)
  have keyed: "keyed (cells m) t" using s(1) by (simp add: sp_ok_def)
  obtain n q1 h1 t1 where l: "sp_lookup k q (cells m) = Some (n, q1, h1)" "sp_ok (m\<lparr>cells := h1\<rparr>) fl q1 t1"
      "inorder t1 = inorder t" "relinks (set_tree t) (cells m) h1"
      "if k \<in> nkey (cells m) ` set_tree t then n \<in> set_tree t \<and> nkey (cells m) n = k else n = 0"
    using sp_lookup_ok [OF s(1), of k] by (elim exE conjE) (rule that)
  have "k \<in> nkey (cells m) ` set_tree t" using content_none [of k "cells m" t] s(2) assms(2) by auto
  then have n: "n \<in> set_tree t" "nkey (cells m) n = k" using l(5) by auto
  have st: "set_tree t1 = set_tree t" by (rule set_tree_inorder [OF l(3)])
  have kd: "kd h1 = kd (cells m)" "nkey h1 = nkey (cells m)"
    using l(4) relinks_nkey by (auto simp: relinks_def)
  have it: "istree h1 0 (sp_root q1) t1" "keyed h1 t1" using l(2) by (auto simp: sp_ok_def)
  have n0: "n \<noteq> 0" "n \<in> set_tree t1" using istree_nonzero [OF it(1)] n(1) st by metis+
  obtain b where b: "h1 n = Some b" using istree_dom [OF it(1) n0(2)] by auto
  have "M k = snd (the (kd h1 n))" using content_at [OF keyed n(1)] n(2) s(2) kd by simp
  then have db: "data b = Some d" using b assms(2) by (simp add: kd_def)
  obtain q2 m2 t2 xs ys where r: "sp_delete n q1 (m\<lparr>cells := h1\<rparr>) = Some (q2, m2)" "sp_ok m2 (n # fl) q2 t2"
      "inorder t1 = xs @ n # ys" "inorder t2 = xs @ ys"
      "\<forall>x \<in> set_tree t2. kd (cells m2) x = kd (cells (m\<lparr>cells := h1\<rparr>)) x"
    using sp_delete_store [OF l(2) n0(2)] by (elim exE conjE) (rule that)
  have s1: "set_tree t1 = insert n (set_tree t2)" "n \<notin> set_tree t2"
    using set_inorder [of t1] set_inorder [of t2] keyed_distinct [OF it(2)] unfolding r(3,4) by auto
  have "content (cells m2) t2 = (content h1 t1)(nkey h1 n := None)"
    using content_remove [OF it(2) _ s1, of "cells m2"] r(2,5) by (simp add: sp_ok_def)
  moreover have "content h1 t1 = M" using content_same [OF keyed it(2) st] kd s(2) by simp
  ultimately have "sp_rep (q2, m2) (M(k := None))"
    unfolding sp_rep_def using r(2,5) s(3) s1 st kd n(2)
    by (intro exI [of _ "n # fl"] exI [of _ t2]) simp
  then show ?thesis using l(1) r(1) n0(1) b db by (auto simp: ld_simp)
qed

lemma sp_rep_empty:
  assumes "heap_ok m fl" "sp_root q = 0"
  shows "sp_rep (q, m) Map.empty"
proof -
  have "sp_ok m fl q Leaf" using assms by (simp add: sp_ok_def keyed_def)
  moreover have "content (cells m) Leaf = Map.empty" by (simp add: content_def fun_eq_iff)
  ultimately show ?thesis unfolding sp_rep_def by (intro exI [of _ fl] exI [of _ Leaf]) simp
qed

theorem sp_lookup_delete_witness:
  "\<exists>q m. sp_rep (q, m :: nat spmem) [42 \<mapsto> 7]
   \<and> (\<exists>n q1 h1 q2 m2. sp_lookup 42 q (cells m) = Some (n, q1, h1) \<and> n \<noteq> 0
     \<and> ld data h1 n = Some (Some 7) \<and> sp_delete n q1 (m\<lparr>cells := h1\<rparr>) = Some (q2, m2)
     \<and> sp_rep (q2, m2) Map.empty)"
proof -
  let ?m = "\<lparr>cells = Map.empty, brk = 1, sp_free_list = 0, sp_allocated = 0, sp_entries = 0\<rparr> :: nat spmem"
  have "heap_ok ?m []" by (simp add: heap_ok_def)
  then have "sp_rep (sp_init, ?m) Map.empty" by (rule sp_rep_empty) (simp add: sp_init_def)
  from sps.put_law [OF this, of undefined 42 7] obtain s where "sp_rep s [42 \<mapsto> (7 :: nat)]" by blast
  then have r: "sp_rep (fst s, snd s) [42 \<mapsto> 7]" by simp
  show ?thesis using sp_lookup_delete [OF r, of 42 7] r
    by (intro exI [of _ "fst s"] exI [of _ "snd s"]) (simp add: fun_upd_def [symmetric])
qed

end
