(* ===== verification/CFloat.thy ===== *)
theory CFloat
  imports Prelude Complex_Main "HOL-Library.Log_Nat"
begin

text \<open>
  The \<^verbatim>\<open>float\<close> and \<^verbatim>\<open>double\<close> values of the sources, as rational numbers that are
  rounded after every operation the way IEEE 754 does it: to nearest, ties to even, with gradual
  underflow. Each operation is rounded to its own type (no excess precision). Overflow to infinity is not modelled:
  the values the sources form from samples and message fields stay far below it, which is proved where
  it matters.
\<close>

type_synonym cfloat = rat

section \<open>Rounding\<close>

definition exponent :: "rat \<Rightarrow> int" where
  "exponent x = (let (a, b) = quotient_of x; k = bitlen a - bitlen b
     in if 2 powi k \<le> x then k else k - 1)"

definition round_even :: "rat \<Rightarrow> int" where
  "round_even x = (let f = \<lfloor>x\<rfloor>; r = x - of_int f
     in if r < 1 / 2 then f else if 1 / 2 < r then f + 1 else if even f then f else f + 1)"

definition fround :: "int \<Rightarrow> int \<Rightarrow> rat \<Rightarrow> rat" where
  "fround p emin x =
     (if x = 0 then 0
      else let u = 2 powi (max (exponent \<bar>x\<bar> - (p - 1)) emin) in of_int (round_even (x / u)) * u)"

definition f32 :: "rat \<Rightarrow> cfloat" where
  "f32 x = fround 24 (- 149) x"

definition f64 :: "rat \<Rightarrow> cfloat" where
  "f64 x = fround 53 (- 1074) x"

section \<open>Accuracy\<close>

lemma bitlen_rat:
  assumes "0 < a"
  obtains m where "bitlen a = int m + 1" and "2 ^ m \<le> (of_int a :: rat)"
    and "(of_int a :: rat) < 2 ^ Suc m"
proof -
  define m where "m = nat (bitlen a - 1)"
  have bl: "bitlen a = int m + 1" using assms by (simp add: m_def bitlen_alt_def)
  have "2 ^ m \<le> a" and "a < 2 ^ Suc m"
    using bitlen_bounds [OF assms] by (simp_all add: bl nat_add_distrib)
  then have "of_int (2 ^ m) \<le> (of_int a :: rat)" and "(of_int a :: rat) < of_int (2 ^ Suc m)"
    by (simp_all only: of_int_le_iff of_int_less_iff)
  then show thesis using bl that by simp
qed

lemma exponent_bounds:
  assumes "0 < x"
  shows "2 powi exponent x \<le> x" and "x < 2 powi (exponent x + 1)"
proof -
  obtain a b where q: "quotient_of x = (a, b)" by (cases "quotient_of x")
  have b: "0 < b" using q by (rule quotient_of_denom_pos)
  have x: "x = of_int a / of_int b" using q by (rule quotient_of_div)
  have a: "0 < a" using assms b by (simp add: x zero_less_divide_iff)
  obtain m where bm: "bitlen a = int m + 1" and A: "2 ^ m \<le> (of_int a :: rat)" "(of_int a :: rat) < 2 ^ Suc m"
    using a by (rule bitlen_rat)
  obtain n where bn: "bitlen b = int n + 1" and B: "2 ^ n \<le> (of_int b :: rat)" "(of_int b :: rat) < 2 ^ Suc n"
    using b by (rule bitlen_rat)
  have k: "bitlen a - bitlen b = int m - int n" by (simp add: bm bn)
  have pk: "(2 :: rat) powi (int m - int n) = 2 ^ m / 2 ^ n"
    by (simp add: power_int_diff)
  have up: "x < 2 * (2 ^ m / 2 ^ n)"
  proof -
    have "x < 2 ^ Suc m / of_int b" using A(2) b by (simp add: x divide_strict_right_mono)
    also have "\<dots> \<le> 2 ^ Suc m / 2 ^ n" using B(1) b by (intro divide_left_mono) simp_all
    finally show ?thesis by simp
  qed
  have lo: "2 ^ m / 2 ^ n / 2 < x"
  proof -
    have "2 ^ m / 2 ^ n / 2 = (2 :: rat) ^ m / 2 ^ Suc n" by simp
    also have "\<dots> < 2 ^ m / of_int b" using B(2) b by (intro divide_strict_left_mono) simp_all
    also have "\<dots> \<le> x" using A(1) b by (simp add: x divide_right_mono)
    finally show ?thesis .
  qed
  have p1: "(2 :: rat) powi (int m - int n + 1) = 2 * (2 ^ m / 2 ^ n)"
    and m1: "(2 :: rat) powi (int m - int n - 1) = 2 ^ m / 2 ^ n / 2"
    by (simp_all add: power_int_add power_int_diff)
  have ex: "exponent x = (if 2 ^ m / 2 ^ n \<le> x then int m - int n else int m - int n - 1)"
    by (simp add: exponent_def q k pk)
  show "2 powi exponent x \<le> x"
    using lo m1 pk by (simp only: ex) (simp split: if_splits)
  show "x < 2 powi (exponent x + 1)"
    using up p1 pk by (simp only: ex) (simp split: if_splits)
qed

lemma round_even_error: "\<bar>of_int (round_even x) - x\<bar> \<le> 1 / 2"
proof -
  have "of_int \<lfloor>x\<rfloor> \<le> x" "x < of_int \<lfloor>x\<rfloor> + 1" by linarith+
  then show ?thesis by (auto simp: round_even_def Let_def abs_le_iff)
qed

lemma round_even_int [simp]: "round_even (of_int i) = i"
  by (simp add: round_even_def)

lemma fround_error:
  "\<bar>fround p emin x - x\<bar> \<le> 2 powi (max (exponent \<bar>x\<bar> - (p - 1)) emin) / 2"
proof (cases "x = 0")
  case False
  define u :: rat where "u = 2 powi (max (exponent \<bar>x\<bar> - (p - 1)) emin)"
  have u: "0 < u" by (simp add: u_def)
  have "fround p emin x - x = (of_int (round_even (x / u)) - x / u) * u"
    using False u by (simp add: fround_def u_def [symmetric] Let_def left_diff_distrib)
  then have "\<bar>fround p emin x - x\<bar> = \<bar>of_int (round_even (x / u)) - x / u\<bar> * u"
    using u by (simp add: abs_mult)
  also have "\<dots> \<le> 1 / 2 * u"
    using u by (intro mult_right_mono round_even_error) simp
  finally show ?thesis by (simp add: u_def)
qed (simp add: fround_def)

lemma exponent_less:
  assumes "0 < x" and "x < 2 powi k"
  shows "exponent x < k"
proof (rule ccontr)
  assume "\<not> exponent x < k"
  then have "(2 :: rat) powi k \<le> 2 powi exponent x" by (intro power_int_increasing) simp_all
  with exponent_bounds(1) [OF assms(1)] assms(2) show False by linarith
qed

text \<open>Below \<open>2 powi k\<close> the rounding error is at most half the spacing of the values there.\<close>

lemma fround_error_below:
  assumes "\<bar>x\<bar> < 2 powi k" and "emin \<le> k - p"
  shows "\<bar>fround p emin x - x\<bar> \<le> 2 powi (k - p) / 2"
proof (cases "x = 0")
  case False
  then have "exponent \<bar>x\<bar> < k" using assms(1) by (intro exponent_less) simp_all
  then have "(2 :: rat) powi (max (exponent \<bar>x\<bar> - (p - 1)) emin) \<le> 2 powi (k - p)"
    using assms(2) by (intro power_int_increasing) simp_all
  then show ?thesis using fround_error [of p emin x] by linarith
qed (simp add: fround_def)


text \<open>Integers of at most \<open>p\<close> bits are exact.\<close>

lemma fround_of_int:
  assumes "\<bar>i\<bar> < 2 ^ p" and "emin \<le> 0"
  shows "fround (int p) emin (of_int i) = of_int i"
proof (cases "i = 0")
  case False
  define e where "e = max (exponent \<bar>of_int i\<bar> - (int p - 1)) emin"
  have "(of_int \<bar>i\<bar> :: rat) < of_int (2 ^ p)" using assms(1) by (simp only: of_int_less_iff)
  then have "exponent \<bar>of_int i\<bar> < int p" using False by (intro exponent_less) simp_all
  then have e: "e \<le> 0" using assms(2) by (simp add: e_def)
  then obtain n where n: "e = - int n" by (rule nonpos_int_cases)
  define j :: int where "j = i * 2 ^ n"
  have pw: "(2 :: rat) powi e = 1 / 2 ^ n"
    by (simp add: n power_int_minus inverse_eq_divide)
  then have "of_int i / (2 :: rat) powi e = of_int j" by (simp add: j_def)
  then have "fround (int p) emin (of_int i) = of_int j * 2 powi e"
    using False by (simp add: fround_def Let_def e_def [symmetric])
  then show ?thesis by (simp add: pw j_def)
qed (simp add: fround_def)

lemma f32_of_int: "\<bar>i\<bar> < 2 ^ 24 \<Longrightarrow> f32 (of_int i) = of_int i"
  using fround_of_int [of i 24 "- 149"] by (simp add: f32_def)

lemma f32_zero [simp]: "f32 0 = 0" and f64_zero [simp]: "f64 0 = 0"
  by (simp_all add: f32_def f64_def fround_def)

lemma f32_error: "\<bar>x\<bar> < 2 powi k \<Longrightarrow> - 125 \<le> k \<Longrightarrow> \<bar>f32 x - x\<bar> \<le> 2 powi (k - 24) / 2"
  unfolding f32_def by (rule fround_error_below) linarith+

lemma f64_error: "\<bar>x\<bar> < 2 powi k \<Longrightarrow> - 1021 \<le> k \<Longrightarrow> \<bar>f64 x - x\<bar> \<le> 2 powi (k - 53) / 2"
  unfolding f64_def by (rule fround_error_below) linarith+

end
