(* ===== verification/Cache.thy ===== *)
theory Cache
  imports Splay_Store CFloat
begin

text \<open>
  cache.c: the most recent information on each ship, one record per MMSI in a splay tree. The lock
  makes every operation atomic, so an operation is a function of the cache state: the tree in use
  (\<^verbatim>\<open>NULL\<close> until \<^verbatim>\<open>cache_init\<close>) and the memory of tree nodes, whose data are the
  records. A C string is the list of its characters without the terminating zero.
\<close>

section \<open>State\<close>

record cache_ent =
  ce_mmsi :: int
  received_pos :: int
  lat :: cfloat
  lon :: cfloat
  hdg :: int
  course :: cfloat
  sog :: cfloat
  navstat :: int
  received_data :: int
  imo :: int
  callsign :: "u8 list option"
  name :: "u8 list option"
  destination :: "u8 list option"
  shiptype :: int
  dim_A :: int
  dim_B :: int
  dim_C :: int
  dim_D :: int
  draught :: cfloat
  received_persons_on_board :: int
  persons_on_board :: int

record cache =
  cache_positions :: int
  cache_spt :: "sptree option"
  cache_mem :: "cache_ent spmem"

definition cache_init :: "cache \<Rightarrow> cache" where
  "cache_init c = c\<lparr>cache_spt := Some (sp_init\<lparr>symbols := 0\<rparr>), cache_positions := 1\<rparr>"

definition cache_rotate :: "cache \<Rightarrow> sptree option \<times> cache" where
  "cache_rotate c = (cache_spt c, c\<lparr>cache_spt := Some (sp_init\<lparr>symbols := 0\<rparr>)\<rparr>)"

text \<open>A new entry: cleared memory, then the fields that mean ``unknown'' are set to -1.\<close>

definition new_ent :: cache_ent where
  "new_ent = \<lparr>ce_mmsi = 0, received_pos = 0, lat = 0, lon = 0, hdg = -1, course = -1, sog = -1,
     navstat = -1, received_data = 0, imo = -1, callsign = None, name = None, destination = None,
     shiptype = -1, dim_A = -1, dim_B = -1, dim_C = -1, dim_D = -1, draught = 0,
     received_persons_on_board = 0, persons_on_board = -1\<rparr>"

text \<open>
  \<^verbatim>\<open>cache_get\<close> returns the node; the entry the source returns is the data of that node, and
  writing to the entry is writing to it (\<open>ent_upd\<close>).
\<close>

definition cache_get :: "cache_ent spblk \<Rightarrow> int \<Rightarrow> cache \<Rightarrow> (nat \<times> cache) option" where
  "cache_get junk mmsi c = do {
     spt \<leftarrow> cache_spt c;
     (spl, spt, h) \<leftarrow> sp_lookup (word_of_int mmsi) spt (cells (cache_mem c));
     let m = (cache_mem c)\<lparr>cells := h\<rparr>;
     if spl \<noteq> 0 then Some (spl, c\<lparr>cache_spt := Some spt, cache_mem := m\<rparr>)
     else do {
       (spl, spt, m) \<leftarrow> sp_install junk (word_of_int mmsi) spt m;
       h \<leftarrow> st (data_update (\<lambda>_. Some new_ent)) (cells m) spl;
       Some (spl, c\<lparr>cache_spt := Some spt, cache_mem := m\<lparr>cells := h\<rparr>\<rparr>)
     }
   }"

definition ent_upd :: "(cache_ent \<Rightarrow> cache_ent) \<Rightarrow> nat \<Rightarrow> cache \<Rightarrow> cache option" where
  "ent_upd f spl c = do {
     e \<leftarrow> ld data (cells (cache_mem c)) spl;
     e \<leftarrow> e;
     h \<leftarrow> st (data_update (\<lambda>_. Some (f e))) (cells (cache_mem c)) spl;
     Some (c\<lparr>cache_mem := (cache_mem c)\<lparr>cells := h\<rparr>\<rparr>)
   }"

text \<open>\<^verbatim>\<open>if (!p || strcmp(p, s)) { if (p) hfree(p); p = hstrdup(s); }\<close>\<close>

definition set_str :: "u8 list \<Rightarrow> u8 list option \<Rightarrow> u8 list option" where
  "set_str s p = (case p of None \<Rightarrow> Some s | Some old \<Rightarrow> if old \<noteq> s then Some s else p)"

section \<open>Operations\<close>

definition cache_position ::
    "cache_ent spblk \<Rightarrow> int \<Rightarrow> int \<Rightarrow> int \<Rightarrow> cfloat \<Rightarrow> cfloat \<Rightarrow> int \<Rightarrow> cfloat \<Rightarrow> int \<Rightarrow> cfloat \<Rightarrow> cache \<Rightarrow> cache option" where
  "cache_position junk received_t mmsi navst la lo heading crs rot sg c = do {
     (e, c) \<leftarrow> cache_get junk mmsi c;
     ent_upd (\<lambda>e. e\<lparr>ce_mmsi := mmsi, received_pos := received_t, lat := la, lon := lo, hdg := heading,
       course := crs, sog := sg, navstat := navst\<rparr>) e c
   }"

definition cache_vesseldata ::
    "cache_ent spblk \<Rightarrow> int \<Rightarrow> int \<Rightarrow> int \<Rightarrow> u8 list \<Rightarrow> u8 list \<Rightarrow> u8 list \<Rightarrow> int \<Rightarrow> int \<Rightarrow> int \<Rightarrow> int \<Rightarrow> int \<Rightarrow>
     cfloat \<Rightarrow> cache \<Rightarrow> cache option" where
  "cache_vesseldata junk received_t mmsi im cs nm dest ty a b cc d dr c = do {
     (e, c) \<leftarrow> cache_get junk mmsi c;
     ent_upd (\<lambda>e. e\<lparr>ce_mmsi := mmsi, imo := im, received_data := received_t,
       callsign := set_str cs (callsign e), name := set_str nm (name e),
       destination := set_str dest (destination e), shiptype := ty, dim_A := a, dim_B := b, dim_C := cc,
       dim_D := d, draught := dr\<rparr>) e c
   }"

definition cache_vesseldatab ::
    "cache_ent spblk \<Rightarrow> int \<Rightarrow> int \<Rightarrow> u8 list \<Rightarrow> int \<Rightarrow> int \<Rightarrow> int \<Rightarrow> int \<Rightarrow> int \<Rightarrow> cache \<Rightarrow> cache option" where
  "cache_vesseldatab junk received_t mmsi cs ty a b cc d c = do {
     (e, c) \<leftarrow> cache_get junk mmsi c;
     ent_upd (\<lambda>e. e\<lparr>ce_mmsi := mmsi, imo := 0, received_data := received_t,
       callsign := set_str cs (callsign e), shiptype := ty, dim_A := a, dim_B := b, dim_C := cc,
       dim_D := d, draught := 0\<rparr>) e c
   }"

definition cache_vesseldatabb ::
    "cache_ent spblk \<Rightarrow> int \<Rightarrow> int \<Rightarrow> int \<Rightarrow> int \<Rightarrow> int \<Rightarrow> int \<Rightarrow> int \<Rightarrow> cache \<Rightarrow> cache option" where
  "cache_vesseldatabb junk received_t mmsi ty a b cc d c = do {
     (e, c) \<leftarrow> cache_get junk mmsi c;
     ent_upd (\<lambda>e. e\<lparr>ce_mmsi := mmsi, imo := 0, received_data := received_t, shiptype := ty,
       dim_A := a, dim_B := b, dim_C := cc, dim_D := d, draught := 0\<rparr>) e c
   }"

definition cache_vesselname ::
    "cache_ent spblk \<Rightarrow> int \<Rightarrow> int \<Rightarrow> u8 list \<Rightarrow> u8 list \<Rightarrow> cache \<Rightarrow> cache option" where
  "cache_vesselname junk received_t mmsi nm dest c = do {
     (e, c) \<leftarrow> cache_get junk mmsi c;
     ent_upd (\<lambda>e. e\<lparr>ce_mmsi := mmsi, received_data := received_t, name := set_str nm (name e),
       destination := set_str dest (destination e)\<rparr>) e c
   }"

definition cache_vessel_persons :: "cache_ent spblk \<Rightarrow> int \<Rightarrow> int \<Rightarrow> int \<Rightarrow> cache \<Rightarrow> cache option" where
  "cache_vessel_persons junk received_t mmsi pob c = do {
     (e, c) \<leftarrow> cache_get junk mmsi c;
     ent_upd (\<lambda>e. e\<lparr>ce_mmsi := mmsi, received_persons_on_board := received_t,
       persons_on_board := pob\<rparr>) e c
   }"

text \<open>
  Freeing a tree: in ascending order of the keys, each entry is freed and its node deleted. Freeing
  the entry makes its memory unusable, so the data of the node are gone before it is unlinked.
\<close>

definition cache_free_entry :: "nat \<Rightarrow> cache_ent spmem \<Rightarrow> (cache_ent \<times> cache_ent spmem) option" where
  "cache_free_entry x m = do {
     e \<leftarrow> ld data (cells m) x;
     e \<leftarrow> e;
     h \<leftarrow> st (data_update (\<lambda>_. None)) (cells m) x;
     Some (e, m\<lparr>cells := h\<rparr>)
   }"

partial_function (option) cache_free_loop ::
    "nat \<Rightarrow> sptree \<Rightarrow> cache_ent spmem \<Rightarrow> (cache_ent list \<times> sptree \<times> cache_ent spmem) option" where
  "cache_free_loop x q m =
     (if x = 0 then Some ([], q, m)
      else do {
        nextx \<leftarrow> sp_fnext x (cells m);
        (e, m) \<leftarrow> cache_free_entry x m;
        (q, m) \<leftarrow> sp_delete x q m;
        (es, q, m) \<leftarrow> cache_free_loop nextx q m;
        Some (e # es, q, m)
      })"

definition cache_free :: "sptree \<Rightarrow> cache_ent spmem \<Rightarrow> (cache_ent list \<times> sptree \<times> cache_ent spmem) option" where
  "cache_free q m = do {
     x \<leftarrow> sp_fhead q (cells m);
     cache_free_loop x q m
   }"

definition cache_deinit :: "cache \<Rightarrow> cache option" where
  "cache_deinit c = do {
     spt \<leftarrow> cache_spt c;
     (es, q, m) \<leftarrow> cache_free spt (cache_mem c);
     m \<leftarrow> sp_free_freelist m;
     Some (c\<lparr>cache_mem := m\<rparr>)
   }"

section \<open>The cache as a finite map\<close>

definition cache_rep :: "cache \<Rightarrow> (u32 \<rightharpoonup> cache_ent) \<Rightarrow> bool" where
  "cache_rep c M \<longleftrightarrow> (\<exists>q. cache_spt c = Some q \<and> sp_rep (q, cache_mem c) M)"

definition cache_modify ::
    "cache_ent spblk \<Rightarrow> int \<Rightarrow> (cache_ent \<Rightarrow> cache_ent) \<Rightarrow> cache \<Rightarrow> cache option" where
  "cache_modify junk mmsi f c = do { (e, c) \<leftarrow> cache_get junk mmsi c; ent_upd f e c }"

lemma cache_get_hit:
  assumes ok: "sp_ok (cache_mem c) fl q t" and q: "cache_spt c = Some q"
  shows "\<exists>n q' m' fl' t'. cache_get junk mmsi c = Some (n, c\<lparr>cache_spt := Some q', cache_mem := m'\<rparr>)
    \<and> sp_ok m' fl' q' t' \<and> set_tree t' = insert n (set_tree t) \<and> nkey (cells m') n = word_of_int mmsi
    \<and> (\<forall>x \<in> set_tree t. kd (cells m') x = kd (cells (cache_mem c)) x)
    \<and> (n \<notin> set_tree t \<longrightarrow> kd (cells m') n = Some (word_of_int mmsi, Some new_ent))
    \<and> others_kept (cache_mem c) fl t m' fl' t'"
proof -
  let ?m = "cache_mem c" and ?k = "word_of_int mmsi :: u32"
  obtain n q1 h1 t1 where l: "sp_lookup ?k q (cells ?m) = Some (n, q1, h1)" "sp_ok (?m\<lparr>cells := h1\<rparr>) fl q1 t1"
      "inorder t1 = inorder t" "relinks (set_tree t) (cells ?m) h1"
      "if ?k \<in> nkey (cells ?m) ` set_tree t then n \<in> set_tree t \<and> nkey (cells ?m) n = ?k else n = 0"
    using sp_lookup_ok [OF ok] by blast
  let ?m1 = "?m\<lparr>cells := h1\<rparr>"
  have st: "set_tree t1 = set_tree t" by (rule set_tree_inorder [OF l(3)])
  have kd: "kd h1 = kd (cells ?m)" "nkey h1 = nkey (cells ?m)"
    using l(4) relinks_nkey by (auto simp: relinks_def)
  have it: "istree h1 0 (sp_root q1) t1" using l(2) by (simp add: sp_ok_def)
  have ot: "others_kept ?m fl t ?m1 fl t1" using relinks_at [OF l(4)] st by (simp add: others_kept_def)
  show ?thesis
  proof (cases "?k \<in> nkey (cells ?m) ` set_tree t")
    case True
    then have n: "n \<in> set_tree t" "nkey (cells ?m) n = ?k" using l(5) by auto
    have "n \<noteq> 0" using istree_nonzero [OF it] n st by metis
    then have "cache_get junk mmsi c = Some (n, c\<lparr>cache_spt := Some q1, cache_mem := ?m1\<rparr>)"
      using q l(1) by (simp add: cache_get_def)
    then show ?thesis using l(2) st n kd ot
      by (intro exI [of _ n] exI [of _ q1] exI [of _ ?m1] exI [of _ fl] exI [of _ t1]) auto
  next
    case False
    then have n0: "n = 0" using l(5) by simp
    obtain n' q' m' fl' t' where i: "sp_install junk ?k q1 ?m1 = Some (n', q', m')" "sp_ok m' fl' q' t'"
        "n' \<in> set_tree t'" "nkey (cells m') n' = ?k" "set_tree t' = insert n' (set_tree t1)"
        "\<forall>x \<in> set_tree t1. kd (cells m') x = kd (cells ?m1) x" "others_kept ?m1 fl t1 m' fl' t'"
      using sp_install_ok [OF l(2)] by blast
    have it': "istree (cells m') 0 (sp_root q') t'" using i(2) by (simp add: sp_ok_def)
    have n'0: "n' \<noteq> 0" using istree_nonzero [OF it'] i(3) by metis
    obtain b where b: "cells m' n' = Some b" using istree_dom [OF it' i(3)] by auto
    have fresh: "n' \<notin> set_tree t"
    proof
      assume a: "n' \<in> set_tree t"
      then have "kd (cells m') n' = kd (cells ?m) n'" using i(6) st kd by simp
      then show False using i(4) False a by (metis nkey_def image_eqI)
    qed
    define h where "h = (cells m')(n' \<mapsto> b\<lparr>data := Some new_ent\<rparr>)"
    have "sp_ok (m'\<lparr>cells := h\<rparr>) fl' q' t'" using sp_ok_data [OF i(2) b] by (simp add: h_def)
    moreover have "cache_get junk mmsi c = Some (n', c\<lparr>cache_spt := Some q', cache_mem := m'\<lparr>cells := h\<rparr>\<rparr>)"
      using q l(1) n0 i(1) b n'0 by (simp add: cache_get_def st_simp h_def)
    moreover have "kd h x = (if x = n' then Some (?k, Some new_ent) else kd (cells m') x)" for x
      using i(4) b by (simp add: h_def kd_def nkey_def)
    moreover have "others_kept ?m fl t (m'\<lparr>cells := h\<rparr>) fl' t'"
      using i(3,7) ot st unfolding others_kept_def h_def by auto
    ultimately show ?thesis using i(4-6) st kd fresh
      by (intro exI [of _ n'] exI [of _ q'] exI [of _ "m'\<lparr>cells := h\<rparr>"] exI [of _ fl'] exI [of _ t'])
        (auto simp: nkey_def)
  qed
qed

lemma cache_modify_ok:
  assumes ok: "sp_ok (cache_mem c) fl q t" and q: "cache_spt c = Some q"
    and full: "\<forall>x \<in> set_tree t. snd (the (kd (cells (cache_mem c)) x)) \<noteq> None"
    and M: "content (cells (cache_mem c)) t = M"
  shows "\<exists>q' m' fl' t'. cache_modify junk mmsi f c = Some (c\<lparr>cache_spt := Some q', cache_mem := m'\<rparr>)
    \<and> sp_ok m' fl' q' t' \<and> (\<forall>x \<in> set_tree t'. snd (the (kd (cells m') x)) \<noteq> None)
    \<and> content (cells m') t' = M(word_of_int mmsi \<mapsto> f (case M (word_of_int mmsi) of None \<Rightarrow> new_ent | Some e \<Rightarrow> e))
    \<and> others_kept (cache_mem c) fl t m' fl' t'"
proof -
  let ?m = "cache_mem c" and ?k = "word_of_int mmsi :: u32"
  let ?e = "case M ?k of None \<Rightarrow> new_ent | Some e \<Rightarrow> e"
  have keyed: "keyed (cells ?m) t" using ok by (simp add: sp_ok_def)
  obtain n q' m1 fl' t' where g: "cache_get junk mmsi c = Some (n, c\<lparr>cache_spt := Some q', cache_mem := m1\<rparr>)"
      "sp_ok m1 fl' q' t'" "set_tree t' = insert n (set_tree t)" "nkey (cells m1) n = ?k"
      "\<forall>x \<in> set_tree t. kd (cells m1) x = kd (cells ?m) x"
      "n \<notin> set_tree t \<longrightarrow> kd (cells m1) n = Some (?k, Some new_ent)" "others_kept ?m fl t m1 fl' t'"
    using cache_get_hit [OF ok q, of junk mmsi] by (elim exE conjE) (rule that)
  have it: "istree (cells m1) 0 (sp_root q') t'" "n \<in> set_tree t'" using g(2,3) by (auto simp: sp_ok_def)
  have n0: "n \<noteq> 0" using istree_nonzero [OF it(1)] it(2) by metis
  obtain b where b: "cells m1 n = Some b" using istree_dom [OF it] by auto
  have kb: "kd (cells m1) n = Some (?k, data b)" using b g(4) by (simp add: kd_def nkey_def)
  have db: "data b = Some ?e"
  proof (cases "n \<in> set_tree t")
    case True
    then have kn: "kd (cells ?m) n = Some (?k, data b)" using g(5) kb by simp
    have "M ?k = data b" using content_at [OF keyed True] M kn by (simp add: nkey_def)
    moreover have "data b \<noteq> None" using full True kn by (metis option.sel snd_conv)
    ultimately show ?thesis by auto
  next
    case False
    then have "?k \<notin> nkey (cells ?m) ` set_tree t"
    proof -
      have "nkey (cells m1) x \<noteq> ?k" if "x \<in> set_tree t" for x
        using keyed_inj [of "cells m1" t' x n] g(2-4) that False by (auto simp: sp_ok_def)
      then show ?thesis using g(5) unfolding nkey_def image_iff by metis
    qed
    then have "M ?k = None" using M content_none by metis
    then show ?thesis using g(6) False kb by simp
  qed
  define h where "h = (cells m1)(n \<mapsto> b\<lparr>data := Some (f ?e)\<rparr>)"
  let ?m' = "m1\<lparr>cells := h\<rparr>"
  have ok': "sp_ok ?m' fl' q' t'" using sp_ok_data [OF g(2) b] by (simp add: h_def)
  have kdh: "kd h x = (if x = n then Some (?k, Some (f ?e)) else kd (cells m1) x)" for x
    using g(4) b by (simp add: h_def kd_def nkey_def)
  have "nkey h n = ?k" by (simp add: nkey_def kdh)
  moreover have "nkey (cells ?m) n = ?k" if "n \<in> set_tree t" using that g(4,5) by (simp add: nkey_def)
  ultimately have "content h t' = M(?k \<mapsto> f ?e)"
    using content_insert [OF keyed, of h t' n] ok' g(3,5) kdh M by (auto simp: sp_ok_def)
  moreover have "\<forall>x \<in> set_tree t'. snd (the (kd h x)) \<noteq> None" using full g(3,5) kdh by auto
  moreover have "cache_modify junk mmsi f c = Some (c\<lparr>cache_spt := Some q', cache_mem := ?m'\<rparr>)"
    using g(1) b n0 db by (simp add: cache_modify_def ent_upd_def ld_simp st_simp h_def)
  moreover have "others_kept ?m fl t ?m' fl' t'" using g(7) it(2) by (auto simp: others_kept_def h_def)
  ultimately show ?thesis using ok'
    by (intro exI [of _ q'] exI [of _ ?m'] exI [of _ fl'] exI [of _ t']) simp
qed

lemma cache_modify_law:
  assumes "cache_rep c M"
  shows "\<exists>c'. cache_modify junk mmsi f c = Some c' \<and>
    cache_rep c' (M(word_of_int mmsi \<mapsto> f (case M (word_of_int mmsi) of None \<Rightarrow> new_ent | Some e \<Rightarrow> e)))"
proof -
  obtain q fl t where s: "cache_spt c = Some q" "sp_ok (cache_mem c) fl q t"
      "content (cells (cache_mem c)) t = M" "\<forall>x \<in> set_tree t. snd (the (kd (cells (cache_mem c)) x)) \<noteq> None"
    using assms by (auto simp: cache_rep_def sp_rep_def)
  show ?thesis using cache_modify_ok [OF s(2,1,4,3), of junk mmsi f]
    by (fastforce simp: cache_rep_def sp_rep_def)
qed

interpretation cachemap: record_store cache_rep new_ent "\<lambda>k. cache_modify junk (uint k)"
  for junk :: "cache_ent spblk"
  by unfold_locales (use cache_modify_law in \<open>fastforce simp: word_of_int_uint\<close>)

section \<open>Freeing\<close>

text \<open>The entries of a tree in the order of their keys.\<close>

definition tree_ents :: "cache_ent cells \<Rightarrow> nat tree \<Rightarrow> cache_ent list" where
  "tree_ents h t = map (\<lambda>x. the (snd (the (kd h x)))) (inorder t)"

lemma cache_free_loop_ok:
  assumes "sp_ok m fl q t" "\<forall>x \<in> set_tree t. snd (the (kd (cells m) x)) \<noteq> None"
  shows "\<exists>q' m' fl'. cache_free_loop (case inorder t of [] \<Rightarrow> 0 | x # _ \<Rightarrow> x) q m = Some (tree_ents (cells m) t, q', m')
    \<and> sp_ok m' fl' q' Leaf \<and> others_kept m fl t m' fl' Leaf \<and> set fl' = set fl \<union> set_tree t"
  using assms
proof (induction "inorder t" arbitrary: m fl q t)
  case Nil
  then have t: "t = Leaf" by (cases t) auto
  have "cache_free_loop 0 q m = Some ([], q, m)" by (subst cache_free_loop.simps) simp
  then show ?case using Nil by (auto simp: t tree_ents_def others_kept_def intro!: exI [of _ fl])
next
  case (Cons x ys)
  let ?nx = "case ys of [] \<Rightarrow> 0 | y # _ \<Rightarrow> y"
  have it: "istree (cells m) 0 (sp_root q) t" "keyed (cells m) t" using Cons.prems(1) by (auto simp: sp_ok_def)
  have x: "x \<in> set_tree t" using arg_cong [OF Cons.hyps(2), of set] by auto
  have x0: "x \<noteq> 0" using istree_nonzero [OF it(1)] x by metis
  obtain b where b: "cells m x = Some b" using istree_dom [OF it(1) x] by auto
  obtain e where e: "data b = Some e" using Cons.prems(2) x b by (auto simp: kd_def)
  have nx: "sp_fnext x (cells m) = Some ?nx"
    using sp_fnext_ok [OF it(1) keyed_distinct [OF it(2)], of "[]" x ys] Cons.hyps(2) by simp
  define m1 where "m1 = m\<lparr>cells := (cells m)(x \<mapsto> b\<lparr>data := None\<rparr>)\<rparr>"
  have ok1: "sp_ok m1 fl q t" using sp_ok_data [OF Cons.prems(1) b] by (simp add: m1_def)
  have fr: "cache_free_entry x m = Some (e, m1)"
    using b x0 e by (simp add: cache_free_entry_def ld_simp st_simp m1_def)
  obtain q2 m2 t2 xs zs where d: "sp_delete x q m1 = Some (q2, m2)" "sp_ok m2 (x # fl) q2 t2"
      "inorder t = xs @ x # zs" "inorder t2 = xs @ zs"
      "\<forall>y \<in> set_tree t2. kd (cells m2) y = kd (cells m1) y" "others_kept m1 fl t m2 (x # fl) t2"
    using sp_delete_store [OF ok1 x] by blast
  have "distinct (inorder t)" using keyed_distinct [OF it(2)] .
  then have "xs = []" "zs = ys" "x \<notin> set ys"
    using d(3) Cons.hyps(2) by (cases xs; auto)+
  then have io2: "inorder t2 = ys" using d(4) by simp
  then have t2: "ys = inorder t2" "set_tree t = insert x (set_tree t2)" "x \<notin> set_tree t2"
    using arg_cong [OF Cons.hyps(2), of set] set_inorder [of t2] \<open>x \<notin> set ys\<close> unfolding io2 by simp_all
  have kd2: "kd (cells m2) y = kd (cells m) y" if "y \<in> set_tree t2" for y
    using d(5) that t2(3) by (auto simp: m1_def kd_def)
  obtain q' m' fl' where r: "cache_free_loop ?nx q2 m2 = Some (tree_ents (cells m2) t2, q', m')"
      "sp_ok m' fl' q' Leaf" "others_kept m2 (x # fl) t2 m' fl' Leaf" "set fl' = set (x # fl) \<union> set_tree t2"
  proof -
    have "\<forall>y \<in> set_tree t2. snd (the (kd (cells m2) y)) \<noteq> None" using Cons.prems(2) kd2 t2(2) by simp
    from Cons.hyps(1) [OF t2(1) d(2) this] show thesis
      unfolding t2(1) [symmetric] by (elim exE conjE) (rule that)
  qed
  have "tree_ents (cells m) t = e # tree_ents (cells m2) t2"
    using Cons.hyps(2) [symmetric] t2(1) kd2 b e by (simp add: tree_ents_def kd_def)
  moreover have "cache_free_loop x q m = Some (e # tree_ents (cells m2) t2, q', m')"
    using x0 nx fr d(1) r(1) by (subst cache_free_loop.simps) simp
  moreover have "others_kept m fl t m' fl' Leaf"
    unfolding others_kept_def
  proof (intro allI impI)
    fix y assume y: "cells m y \<noteq> None" "y \<notin> set fl \<union> set_tree t"
    then have "y \<noteq> x" using x by auto
    then have "cells m1 y = cells m y" by (simp add: m1_def)
    then have "cells m2 y = cells m y \<and> y \<notin> set (x # fl) \<union> set_tree t2"
      using d(6) y unfolding others_kept_def by metis
    then show "cells m' y = cells m y \<and> y \<notin> set fl' \<union> set_tree Leaf"
      using r(3) y(1) unfolding others_kept_def by metis
  qed
  ultimately show ?case using r(2,4) t2 Cons.hyps(2) [symmetric] by auto
qed

lemma cache_free_ok:
  assumes "sp_ok m fl q t" "\<forall>x \<in> set_tree t. snd (the (kd (cells m) x)) \<noteq> None"
  shows "\<exists>q' m' fl'. cache_free q m = Some (tree_ents (cells m) t, q', m')
    \<and> sp_ok m' fl' q' Leaf \<and> others_kept m fl t m' fl' Leaf \<and> set fl' = set fl \<union> set_tree t"
  using cache_free_loop_ok [OF assms] sp_fhead_ok [of "cells m" q t] assms(1)
  by (simp add: cache_free_def sp_ok_def)

section \<open>Sequences of operations\<close>

datatype cache_op =
    Position int int int cfloat cfloat int cfloat int cfloat
  | Vesseldata int int int "u8 list" "u8 list" "u8 list" int int int int int cfloat
  | Vesseldatab int int "u8 list" int int int int int
  | Vesseldatabb int int int int int int int
  | Vesselname int int "u8 list" "u8 list"
  | Vessel_persons int int int

fun run_op :: "cache_ent spblk \<Rightarrow> cache_op \<Rightarrow> cache \<Rightarrow> cache option" where
  "run_op junk (Position rt mm ns la lo hg cr ro sg) = cache_position junk rt mm ns la lo hg cr ro sg"
| "run_op junk (Vesseldata rt mm im cs nm ds ty a b cc d dr) = cache_vesseldata junk rt mm im cs nm ds ty a b cc d dr"
| "run_op junk (Vesseldatab rt mm cs ty a b cc d) = cache_vesseldatab junk rt mm cs ty a b cc d"
| "run_op junk (Vesseldatabb rt mm ty a b cc d) = cache_vesseldatabb junk rt mm ty a b cc d"
| "run_op junk (Vesselname rt mm nm ds) = cache_vesselname junk rt mm nm ds"
| "run_op junk (Vessel_persons rt mm pob) = cache_vessel_persons junk rt mm pob"

fun run_ops :: "cache_ent spblk \<Rightarrow> cache_op list \<Rightarrow> cache \<Rightarrow> cache option" where
  "run_ops junk [] c = Some c"
| "run_ops junk (p # ps) c = do { c \<leftarrow> run_op junk p c; run_ops junk ps c }"

fun op_mmsi :: "cache_op \<Rightarrow> int" where
  "op_mmsi (Position rt mm ns la lo hg cr ro sg) = mm"
| "op_mmsi (Vesseldata rt mm im cs nm ds ty a b cc d dr) = mm"
| "op_mmsi (Vesseldatab rt mm cs ty a b cc d) = mm"
| "op_mmsi (Vesseldatabb rt mm ty a b cc d) = mm"
| "op_mmsi (Vesselname rt mm nm ds) = mm"
| "op_mmsi (Vessel_persons rt mm pob) = mm"

definition op_key :: "cache_op \<Rightarrow> u32" where
  "op_key p = word_of_int (op_mmsi p)"

text \<open>What an operation promises for the entry of its ship; every other field stays as it is.\<close>

fun op_effect :: "cache_op \<Rightarrow> cache_ent \<Rightarrow> cache_ent" where
  "op_effect (Position rt mm ns la lo hg cr ro sg) = (\<lambda>e.
     e\<lparr>ce_mmsi := mm, received_pos := rt, lat := la, lon := lo, hdg := hg, course := cr, sog := sg, navstat := ns\<rparr>)"
| "op_effect (Vesseldata rt mm im cs nm ds ty a b cc d dr) = (\<lambda>e.
     e\<lparr>ce_mmsi := mm, imo := im, received_data := rt, callsign := Some cs, name := Some nm, destination := Some ds,
       shiptype := ty, dim_A := a, dim_B := b, dim_C := cc, dim_D := d, draught := dr\<rparr>)"
| "op_effect (Vesseldatab rt mm cs ty a b cc d) = (\<lambda>e.
     e\<lparr>ce_mmsi := mm, imo := 0, received_data := rt, callsign := Some cs, shiptype := ty,
       dim_A := a, dim_B := b, dim_C := cc, dim_D := d, draught := 0\<rparr>)"
| "op_effect (Vesseldatabb rt mm ty a b cc d) = (\<lambda>e.
     e\<lparr>ce_mmsi := mm, imo := 0, received_data := rt, shiptype := ty,
       dim_A := a, dim_B := b, dim_C := cc, dim_D := d, draught := 0\<rparr>)"
| "op_effect (Vesselname rt mm nm ds) = (\<lambda>e.
     e\<lparr>ce_mmsi := mm, received_data := rt, name := Some nm, destination := Some ds\<rparr>)"
| "op_effect (Vessel_persons rt mm pob) = (\<lambda>e.
     e\<lparr>ce_mmsi := mm, received_persons_on_board := rt, persons_on_board := pob\<rparr>)"

lemma set_str [simp]: "set_str s p = Some s"
  by (simp add: set_str_def split: option.splits)

lemma cache_modify_key: "cache_modify junk mmsi f = cache_modify junk (uint (word_of_int mmsi :: u32)) f"
  unfolding cache_modify_def cache_get_def word_of_int_uint ..

lemma run_op_modify: "run_op junk p = cache_modify junk (uint (op_key p)) (op_effect p)"
  unfolding op_key_def cache_modify_key [symmetric]
  by (cases p) (simp_all add: fun_eq_iff cache_modify_def cache_position_def cache_vesseldata_def
      cache_vesseldatab_def cache_vesseldatabb_def cache_vesselname_def cache_vessel_persons_def)

lemma run_ops_upd: "run_ops junk ps = cachemap.upd_all junk (map (\<lambda>p. (op_key p, op_effect p)) ps)"
  by (induction ps; rule ext) (simp_all add: run_op_modify)

definition ship_ops :: "u32 \<Rightarrow> cache_op list \<Rightarrow> cache_op list" where
  "ship_ops k ps = filter (\<lambda>p. op_key p = k) ps"

definition ship_ent :: "cache_op list \<Rightarrow> u32 \<Rightarrow> cache_ent option" where
  "ship_ent ps k = (if ship_ops k ps = [] then None
     else Some (foldl (\<lambda>e p. op_effect p e) new_ent (ship_ops k ps)))"

lemma upd_filter: "map snd (filter (\<lambda>u. fst u = k) (map (\<lambda>p. (op_key p, op_effect p)) ps))
    = map op_effect (ship_ops k ps)"
  by (simp add: filter_map comp_def ship_ops_def)

lemma run_ops_rep:
  assumes "record_store R new_ent (\<lambda>k. cache_modify junk (uint k))" and "R c Map.empty"
  shows "\<exists>c'. run_ops junk ps c = Some c' \<and> R c' (ship_ent ps)"
proof -
  have up: "record_store.upd_all (\<lambda>k. cache_modify junk (uint k)) (map (\<lambda>p. (op_key p, op_effect p)) ps) c
      = run_ops junk ps c" by (simp add: run_ops_upd)
  obtain c' M' where r: "run_ops junk ps c = Some c'" "R c' M'"
      "\<forall>k. M' k = (let fs = map op_effect (ship_ops k ps) in
        if fs = [] then None else Some (foldl (\<lambda>e f. f e) new_ent fs))"
    using record_store.upd_all_ok [OF assms, of "map (\<lambda>p. (op_key p, op_effect p)) ps"]
    unfolding up upd_filter by auto
  have "foldl (\<lambda>e f. f e) e (map op_effect xs) = foldl (\<lambda>e p. op_effect p e) e xs" for e xs
    by (induction xs arbitrary: e) simp_all
  then have "M' = ship_ent ps" using r(3) by (auto simp: ship_ent_def Let_def fun_eq_iff)
  then show ?thesis using r by blast
qed

text \<open>The same contract while a second tree, taken out by \<open>cache_rotate\<close>, is still in memory.\<close>

definition tree_kvs :: "cache_ent cells \<Rightarrow> nat tree \<Rightarrow> (u32 \<times> cache_ent) list" where
  "tree_kvs h t = map (\<lambda>x. (nkey h x, the (snd (the (kd h x))))) (inorder t)"

definition cache_rep2 :: "sptree \<Rightarrow> (u32 \<times> cache_ent) list \<Rightarrow> cache \<Rightarrow> (u32 \<rightharpoonup> cache_ent) \<Rightarrow> bool" where
  "cache_rep2 q0 kvs c M \<longleftrightarrow> (\<exists>q fl t t0. cache_spt c = Some q \<and> sp_ok (cache_mem c) fl q t
     \<and> (\<forall>x \<in> set_tree t. snd (the (kd (cells (cache_mem c)) x)) \<noteq> None)
     \<and> content (cells (cache_mem c)) t = M
     \<and> sp_ok (cache_mem c) fl q0 t0 \<and> set_tree t0 \<inter> set_tree t = {}
     \<and> (\<forall>x \<in> set_tree t0. snd (the (kd (cells (cache_mem c)) x)) \<noteq> None)
     \<and> tree_kvs (cells (cache_mem c)) t0 = kvs)"

lemma sp_ok_others:
  assumes "sp_ok m fl q0 t0" "others_kept m fl t m' fl' t'" "set_tree t0 \<inter> set_tree t = {}" "heap_ok m' fl'"
  shows "sp_ok m' fl' q0 t0" and "set_tree t0 \<inter> set_tree t' = {}"
    and "\<And>x. x \<in> set_tree t0 \<Longrightarrow> cells m' x = cells m x"
proof -
  have it: "istree (cells m) 0 (sp_root q0) t0" "keyed (cells m) t0" "set_tree t0 \<inter> set fl = {}"
    using assms(1) by (auto simp: sp_ok_def)
  have k: "cells m' x = cells m x \<and> x \<notin> set fl' \<union> set_tree t'" if "x \<in> set_tree t0" for x
    using that assms(2,3) it(3) istree_dom [OF it(1) that] unfolding others_kept_def by blast
  then show same: "cells m' x = cells m x" if "x \<in> set_tree t0" for x using that by blast
  show "set_tree t0 \<inter> set_tree t' = {}" using k by blast
  have "keyed (cells m') t0"
    using it(2) unfolding keyed_def
    by (rule sorted_wrt_mono_rel [rotated]) (simp add: nkey_def kd_def same)
  moreover have "istree (cells m') 0 (sp_root q0) t0" using same by (rule istree_frame [OF it(1)])
  ultimately show "sp_ok m' fl' q0 t0" using assms(4) k by (auto simp: sp_ok_def)
qed

lemma cache_modify_law2:
  assumes "cache_rep2 q0 kvs c M"
  shows "\<exists>c'. cache_modify junk mmsi f c = Some c' \<and>
    cache_rep2 q0 kvs c' (M(word_of_int mmsi \<mapsto> f (case M (word_of_int mmsi) of None \<Rightarrow> new_ent | Some e \<Rightarrow> e)))"
proof -
  obtain q fl t t0 where s: "cache_spt c = Some q" "sp_ok (cache_mem c) fl q t"
      "\<forall>x \<in> set_tree t. snd (the (kd (cells (cache_mem c)) x)) \<noteq> None"
      "content (cells (cache_mem c)) t = M" and o: "sp_ok (cache_mem c) fl q0 t0" "set_tree t0 \<inter> set_tree t = {}"
      "\<forall>x \<in> set_tree t0. snd (the (kd (cells (cache_mem c)) x)) \<noteq> None" "tree_kvs (cells (cache_mem c)) t0 = kvs"
    using assms unfolding cache_rep2_def by (elim exE conjE) (rule that)
  obtain q' m' fl' t' where r: "cache_modify junk mmsi f c = Some (c\<lparr>cache_spt := Some q', cache_mem := m'\<rparr>)"
      "sp_ok m' fl' q' t'" "\<forall>x \<in> set_tree t'. snd (the (kd (cells m') x)) \<noteq> None"
      "content (cells m') t' = M(word_of_int mmsi \<mapsto> f (case M (word_of_int mmsi) of None \<Rightarrow> new_ent | Some e \<Rightarrow> e))"
      "others_kept (cache_mem c) fl t m' fl' t'"
    using cache_modify_ok [OF s(2,1,3,4), of junk mmsi f] by (elim exE conjE) (rule that)
  have "heap_ok m' fl'" using r(2) by (simp add: sp_ok_def)
  note k = sp_ok_others [OF o(1) r(5) o(2) this]
  have "tree_kvs (cells m') t0 = kvs"
    unfolding o(4) [symmetric] tree_kvs_def by (rule map_cong) (simp_all add: nkey_def kd_def k(3))
  moreover have "\<forall>x \<in> set_tree t0. snd (the (kd (cells m') x)) \<noteq> None" using o(3) k(3) by (simp add: kd_def)
  ultimately have "cache_rep2 q0 kvs (c\<lparr>cache_spt := Some q', cache_mem := m'\<rparr>)
      (M(word_of_int mmsi \<mapsto> f (case M (word_of_int mmsi) of None \<Rightarrow> new_ent | Some e \<Rightarrow> e)))"
    unfolding cache_rep2_def
    by (intro exI [of _ q'] exI [of _ fl'] exI [of _ t'] exI [of _ t0]) (use r(2-4) k(1,2) in simp)
  then show ?thesis using r(1) by blast
qed

interpretation rotated: record_store "cache_rep2 q0 kvs" new_ent "\<lambda>k. cache_modify junk (uint k)"
  for q0 kvs and junk :: "cache_ent spblk"
  by unfold_locales (use cache_modify_law2 in \<open>fastforce simp: word_of_int_uint\<close>)

lemma cache_init_rep:
  assumes "heap_ok (cache_mem c) fl"
  shows "cache_rep (cache_init c) Map.empty"
proof -
  have "sp_ok (cache_mem c) fl (sp_init\<lparr>symbols := 0\<rparr>) Leaf"
    using assms by (simp add: sp_ok_def sp_init_def keyed_def)
  moreover have "content h Leaf = Map.empty" for h :: "cache_ent cells" by (simp add: content_def fun_eq_iff)
  ultimately show ?thesis unfolding cache_rep_def sp_rep_def cache_init_def
    by (intro exI [of _ "sp_init\<lparr>symbols := 0\<rparr>"] conjI exI [of _ fl] exI [of _ Leaf]) simp_all
qed

lemma cache_rotate_rep:
  assumes "cache_rep c M"
  shows "\<exists>q c' kvs. cache_rotate c = (Some q, c') \<and> cache_rep2 q kvs c' Map.empty
    \<and> sorted_wrt (<) (map fst kvs) \<and> set (map fst kvs) = dom M \<and> map snd kvs = map (the \<circ> M) (map fst kvs)"
proof -
  obtain q fl t where s: "cache_spt c = Some q" "sp_ok (cache_mem c) fl q t"
      "content (cells (cache_mem c)) t = M" "\<forall>x \<in> set_tree t. snd (the (kd (cells (cache_mem c)) x)) \<noteq> None"
    using assms by (auto simp: cache_rep_def sp_rep_def)
  let ?h = "cells (cache_mem c)" and ?c = "c\<lparr>cache_spt := Some (sp_init\<lparr>symbols := 0\<rparr>)\<rparr>"
  let ?kvs = "tree_kvs ?h t"
  have keyed: "keyed ?h t" using s(2) by (simp add: sp_ok_def)
  have "sp_ok (cache_mem c) fl (sp_init\<lparr>symbols := 0\<rparr>) Leaf"
    using s(2) by (simp add: sp_ok_def sp_init_def keyed_def)
  moreover have "content h Leaf = Map.empty" for h :: "cache_ent cells" by (simp add: content_def fun_eq_iff)
  ultimately have rep: "cache_rep2 q ?kvs ?c Map.empty"
    unfolding cache_rep2_def using s
    by (intro exI [of _ "sp_init\<lparr>symbols := 0\<rparr>"] exI [of _ fl] exI [of _ Leaf] exI [of _ t]) simp
  have fst: "map fst ?kvs = map (nkey ?h) (inorder t)" by (simp add: tree_kvs_def comp_def)
  have at: "M (nkey ?h x) = snd (the (kd ?h x))" if "x \<in> set_tree t" for x
    using content_at [OF keyed that] s(3) by simp
  have "dom M = nkey ?h ` set_tree t"
    using at s(3,4) content_none [of _ ?h t] by (auto simp: dom_def) (metis option.distinct(1))
  moreover have "sorted_wrt (<) (map fst ?kvs)" using keyed by (simp add: fst keyed_def sorted_wrt_map)
  moreover have "map snd ?kvs = map (the \<circ> M) (map fst ?kvs)" by (simp add: tree_kvs_def at)
  ultimately show ?thesis using rep s(1) set_inorder [of t] unfolding cache_rotate_def
    by (intro exI [of _ q] exI [of _ ?c] exI [of _ ?kvs]) (simp add: fst)
qed

text \<open>
  C16. What the export thread sees. From an initialised cache, any sequence of cache operations is
  defined behaviour (no null or dangling pointer is followed and every loop ends). The tree that
  \<open>cache_rotate\<close> takes out is not affected by later operations on the new cache, and
  freeing it enumerates, in strictly ascending order of the MMSI, exactly one entry per ship that had
  an operation before the rotation: the entry obtained from the empty one by applying that ship's
  operations in their order. After that, the new cache holds what the operations since the rotation
  say, and the old tree is empty.
\<close>

theorem cache_export:
  assumes "heap_ok (cache_mem c) fl"
  shows "\<exists>c1 q c2 c3 es q' m'. run_ops junk before (cache_init c) = Some c1
    \<and> cache_rotate c1 = (Some q, c2) \<and> run_ops junk after c2 = Some c3
    \<and> cache_free q (cache_mem c3) = Some (es, q', m') \<and> sp_root q' = 0
    \<and> (\<exists>ks. sorted_wrt (<) ks \<and> set ks = op_key ` set before \<and> es = map (the \<circ> ship_ent before) ks)
    \<and> cache_rep (c3\<lparr>cache_mem := m'\<rparr>) (ship_ent after)"
proof -
  obtain c1 where c1: "run_ops junk before (cache_init c) = Some c1" "cache_rep c1 (ship_ent before)"
    using run_ops_rep [OF cachemap.record_store_axioms cache_init_rep [OF assms]] by blast
  obtain q c2 kvs where c2: "cache_rotate c1 = (Some q, c2)" "cache_rep2 q kvs c2 Map.empty"
      "sorted_wrt (<) (map fst kvs)" "set (map fst kvs) = dom (ship_ent before)"
      "map snd kvs = map (the \<circ> ship_ent before) (map fst kvs)"
    using cache_rotate_rep [OF c1(2)] by blast
  obtain c3 where c3: "run_ops junk after c2 = Some c3" "cache_rep2 q kvs c3 (ship_ent after)"
    using run_ops_rep [OF rotated.record_store_axioms c2(2)] by blast
  obtain q3 fl3 t t0 where s: "cache_spt c3 = Some q3" "sp_ok (cache_mem c3) fl3 q3 t"
      "\<forall>x \<in> set_tree t. snd (the (kd (cells (cache_mem c3)) x)) \<noteq> None"
      "content (cells (cache_mem c3)) t = ship_ent after"
      "sp_ok (cache_mem c3) fl3 q t0" "set_tree t0 \<inter> set_tree t = {}"
      "\<forall>x \<in> set_tree t0. snd (the (kd (cells (cache_mem c3)) x)) \<noteq> None"
      "tree_kvs (cells (cache_mem c3)) t0 = kvs"
    using c3(2) unfolding cache_rep2_def by (elim exE conjE) (rule that)
  obtain q' m' fl' where f: "cache_free q (cache_mem c3) = Some (tree_ents (cells (cache_mem c3)) t0, q', m')"
      "sp_ok m' fl' q' Leaf" "others_kept (cache_mem c3) fl3 t0 m' fl' Leaf"
    using cache_free_ok [OF s(5,7)] by blast
  have hk: "heap_ok m' fl'" "sp_root q' = 0" using f(2) by (auto simp: sp_ok_def)
  have dj: "set_tree t \<inter> set_tree t0 = {}" using s(6) by blast
  note k = sp_ok_others [OF s(2) f(3) dj hk(1)]
  have kd: "kd (cells m') x = kd (cells (cache_mem c3)) x" if "x \<in> set_tree t" for x
    using k(3) [OF that] by (simp add: kd_def)
  have "content (cells m') t = ship_ent after"
    using content_same [of "cells (cache_mem c3)" t "cells m'" t] s(2,4) k(1) kd by (simp add: sp_ok_def)
  then have "cache_rep (c3\<lparr>cache_mem := m'\<rparr>) (ship_ent after)"
    unfolding cache_rep_def sp_rep_def using s(1,3) k(1) kd
    by (intro exI [of _ q3] conjI exI [of _ fl'] exI [of _ t]) simp_all
  moreover have "tree_ents (cells (cache_mem c3)) t0 = map snd kvs"
    unfolding s(8) [symmetric] by (simp add: tree_ents_def tree_kvs_def comp_def)
  moreover have "dom (ship_ent before) = op_key ` set before"
    by (auto simp: ship_ent_def ship_ops_def dom_def filter_empty_conv image_iff)
  ultimately show ?thesis using c1(1) c2 c3(1) f(1) hk(2)
    by (intro exI [of _ c1] exI [of _ q] exI [of _ c2] exI [of _ c3] exI [of _ "map snd kvs"]
        exI [of _ q'] exI [of _ m']) (auto intro!: exI [of _ "map fst kvs"])
qed

definition cache0 :: cache where
  "cache0 = \<lparr>cache_positions = 0, cache_spt = None,
     cache_mem = \<lparr>cells = Map.empty, brk = 1, sp_free_list = 0, sp_allocated = 0, sp_entries = 0\<rparr>\<rparr>"

definition junk0 :: "cache_ent spblk" where
  "junk0 = \<lparr>leftlink = 9, rightlink = 9, uplink = 9, key = 77, data = None\<rparr>"

theorem cache_export_witness:
  "heap_ok (cache_mem cache0) [] \<and>
   (\<exists>c1 q c2 c3 es q' m'. run_ops junk0 [Vessel_persons 5 219000001 7, Vessel_persons 6 211000002 3]
        (cache_init cache0) = Some c1
    \<and> cache_rotate c1 = (Some q, c2) \<and> run_ops junk0 [Vessel_persons 9 219000001 8] c2 = Some c3
    \<and> cache_free q (cache_mem c3) = Some (es, q', m') \<and> sp_root q' = 0
    \<and> map persons_on_board es = [3, 7])"
proof -
  let ?b = "[Vessel_persons 5 219000001 7, Vessel_persons 6 211000002 3]"
  have h: "heap_ok (cache_mem cache0) []" by (simp add: heap_ok_def cache0_def)
  obtain c1 q c2 c3 es q' m' ks where r: "run_ops junk0 ?b (cache_init cache0) = Some c1"
      "cache_rotate c1 = (Some q, c2)" "run_ops junk0 [Vessel_persons 9 219000001 8] c2 = Some c3"
      "cache_free q (cache_mem c3) = Some (es, q', m')" "sp_root q' = 0"
      "sorted_wrt (<) ks" "set ks = op_key ` set ?b" "es = map (the \<circ> ship_ent ?b) ks"
    using cache_export [OF h, where junk = junk0 and before = ?b and after = "[Vessel_persons 9 219000001 8]"]
    by (elim exE conjE) (rule that)
  have "ks = [211000002, 219000001]"
    using r(6,7) by (intro sorted_distinct_set_unique)
      (auto simp: strict_sorted_iff op_key_def)
  then have "map persons_on_board es = [3, 7]"
    by (simp add: r(8) ship_ent_def ship_ops_def op_key_def)
  then show ?thesis using h r(1-5) by (intro conjI exI) assumption+
qed

end
