(* ===== verification/Ais_World.thy ===== *)
theory Ais_World
  imports Bitfield Cache
begin

text \<open>
  The state the decoder works on: the demodulator state of one channel (\<open>demod_state_t\<close> of
  protodec.h) and the rest of the process as far as the decoder reads or changes it (configuration,
  clock, cache, and the trace of everything that is written to the terminal, the serial port, the
  local socket and the database). Pointers that are only tested against \<^verbatim>\<open>NULL\<close> are
  booleans. range.c, which keeps the best range of a channel, is here too.
\<close>

section \<open>Demodulator state\<close>

datatype dstate = ST_SKURR | ST_PREAMBLE | ST_STARTSIGN | ST_DATA | ST_STOPSIGN

definition DEMOD_BUFFER_LEN :: nat where "DEMOD_BUFFER_LEN = 450"
definition SERBUFFER_LEN :: nat where "SERBUFFER_LEN = 100"
definition IPCBUFFER_LEN :: nat where "IPCBUFFER_LEN = 255"
definition MAX_AIS_PACKET_TYPE :: nat where "MAX_AIS_PACKET_TYPE = 24"

record demod_state =
  chanid :: u8
  dstate :: dstate
  offset :: u32
  nskurr :: int
  npreamble :: int
  nstartsign :: int
  ndata :: int
  nstopsign :: int
  antallenner :: int
  buffer :: "u8 list"
  rbuffer :: "u8 list"
  bufferpos :: nat
  dlast :: u8
  antallpreamble :: int
  bitstuff :: int
  receivedframes :: int
  lostframes :: int
  lostframes2 :: int
  seqnr :: u8
  best_range :: cfloat
  serial :: bool
  ipc :: bool
  serbuffer :: "u8 list"
  ipcbuffer :: "u8 list"
  nmea :: "u8 list"

section \<open>The rest of the process\<close>

text \<open>
  Formatted output is recorded as the format string with its arguments: integers, doubles, C strings.
\<close>

datatype parg = PInt int | PDouble cfloat | PStr "u8 list" | PLit string

datatype event =
    Printf string "parg list"
  | Hlog string "parg list"
  | Serial_write "u8 list"
  | Ipc_write "u8 list"
  | Myout_ais_position int int cfloat cfloat cfloat cfloat cfloat
  | Myout_ais_basestation int int cfloat cfloat
  | Myout_ais_vesseldata int int "u8 list" "u8 list" cfloat int int int int
  | Myout_ais_vesselname int int "u8 list" "u8 list"
  | Myout_ais_vesseldatab int int int int int int
  | Myout_nmea int "u8 list"

record libm =
  sinf :: "cfloat \<Rightarrow> cfloat"
  cosf :: "cfloat \<Rightarrow> cfloat"
  atan2f :: "cfloat \<Rightarrow> cfloat \<Rightarrow> cfloat"
  sqrtf :: "cfloat \<Rightarrow> cfloat"

record world =
  w_clock :: "nat \<Rightarrow> int"
  w_tick :: nat
  w_out :: "event list"
  w_cache :: cache
  w_junk :: "cache_ent spblk"
  w_stack :: "nat \<Rightarrow> u8"
  w_libm :: libm
  w_my :: bool
  have_my_loc :: bool
  mylat :: cfloat
  mylng :: cfloat
  skip_type :: "int list"

definition emit :: "event \<Rightarrow> world \<Rightarrow> world" where
  "emit e w = w\<lparr>w_out := w_out w @ [e]\<rparr>"

definition time_now :: "world \<Rightarrow> int \<times> world" where
  "time_now w = (w_clock w (w_tick w), w\<lparr>w_tick := Suc (w_tick w)\<rparr>)"

text \<open>An uninitialised local array of \<open>n\<close> characters.\<close>

definition local_array :: "nat \<Rightarrow> world \<Rightarrow> u8 list" where
  "local_array n w = map (w_stack w) [0..<n]"

text \<open>A call that updates the cache, with the C memory contents a new node starts with.\<close>

definition with_cache :: "(cache_ent spblk \<Rightarrow> cache \<Rightarrow> cache option) \<Rightarrow> world \<Rightarrow> world option" where
  "with_cache f w = do { c \<leftarrow> f (w_junk w) (w_cache w); Some (w\<lparr>w_cache := c\<rparr>) }"

text \<open>\<^verbatim>\<open>(float) i / 600000.0\<close>, a double; \<^verbatim>\<open>(float) i / 10.0\<close>.\<close>

definition deg600000 :: "int \<Rightarrow> cfloat" where
  "deg600000 i = f64 (f32 (of_int i) / 600000)"

definition tenth :: "int \<Rightarrow> cfloat" where
  "tenth i = f64 (f32 (of_int i) / 10)"

section \<open>Range\<close>

definition M_PI :: cfloat where
  "M_PI = 884279719003555 / 281474976710656"

definition lat2rad :: "cfloat \<Rightarrow> cfloat" where
  "lat2rad l = f32 (f64 (l * f64 (M_PI / 180)))"

definition lon2rad :: "cfloat \<Rightarrow> cfloat" where
  "lon2rad l = f32 (f64 (l * f64 (M_PI / 180)))"

definition maidenhead_km_distance :: "libm \<Rightarrow> cfloat \<Rightarrow> cfloat \<Rightarrow> cfloat \<Rightarrow> cfloat \<Rightarrow> cfloat" where
  "maidenhead_km_distance lm lat1 lon1 lat2 lon2 =
     (let sindlat2 = sinf lm (f32 (f64 (f32 (lat1 - lat2) / 2)));
          sindlon2 = sinf lm (f32 (f64 (f32 (lon1 - lon2) / 2)));
          coslat1 = cosf lm lat1;
          coslat2 = cosf lm lat2;
          a = f32 (f32 (sindlat2 * sindlat2) +
                f32 (f32 (f32 (coslat1 * coslat2) * sindlon2) * sindlon2));
          c = f32 (f64 (2 * atan2f lm (sqrtf lm a) (sqrtf lm (f32 (f64 (1 - a))))))
      in f32 (f64 (f64 (f64 (f64 (1112 / 10) * 180) / M_PI) * c)))"

definition update_range :: "demod_state \<Rightarrow> cfloat \<Rightarrow> cfloat \<Rightarrow> world \<Rightarrow> demod_state" where
  "update_range d la lo w =
     (if la > 89 \<or> la < -89 \<or> lo > f64 (18001 / 100) \<or> lo < - f64 (18001 / 100) then d
      else if la < f64 (1 / 1000) \<and> la > - f64 (1 / 1000) \<and> lo < f64 (1 / 1000) \<and> lo > - f64 (1 / 1000) then d
      else let distance = maidenhead_km_distance (w_libm w) (mylat w) (mylng w) (lat2rad la) (lon2rad lo)
           in if distance > best_range d then d\<lparr>best_range := distance\<rparr> else d)"

definition log_range :: "demod_state \<Rightarrow> world \<Rightarrow> demod_state \<times> world" where
  "log_range rx w =
     (rx\<lparr>best_range := 0\<rparr>,
      if best_range rx > f64 (1 / 10)
      then emit (Hlog ''Best range ch %c: %.1f km'' [PInt (uint (chanid rx)), PDouble (best_range rx)]) w
      else w)"

section \<open>An idle channel\<close>

text \<open>A channel with cleared buffers and counters, for concrete instances of the theorems.\<close>

definition idle_demod :: demod_state where
  "idle_demod = \<lparr>chanid = 65, dstate = ST_SKURR, offset = 0, nskurr = 0, npreamble = 0, nstartsign = 0, ndata = 0,
     nstopsign = 0, antallenner = 0, buffer = replicate 450 0, rbuffer = replicate 450 0, bufferpos = 0, dlast = 0,
     antallpreamble = 0, bitstuff = 0, receivedframes = 0, lostframes = 0, lostframes2 = 0, seqnr = 0,
     best_range = 0, serial = True, ipc = True, serbuffer = replicate 100 0, ipcbuffer = replicate 255 0,
     nmea = replicate 100 0\<rparr>"

text \<open>A process that has just started its cache, with trivial trigonometric functions.\<close>

definition idle_world :: world where
  "idle_world = \<lparr>w_clock = (\<lambda>_. 1300000000), w_tick = 0, w_out = [], w_cache = cache_init cache0, w_junk = junk0,
     w_stack = (\<lambda>_. 7), w_libm = \<lparr>sinf = (\<lambda>_. 0), cosf = (\<lambda>_. 1), atan2f = (\<lambda>_ _. 0), sqrtf = (\<lambda>_. 0)\<rparr>,
     w_my = True, have_my_loc = False, mylat = 0, mylng = 0, skip_type = replicate 25 0\<rparr>"

end
