(* ===== verification/Nmea.thy ===== *)
theory Nmea
  imports Ais_World
begin

text \<open>
  \<^verbatim>\<open>protodec_generate_nmea\<close> of protodec.c: the received bits as one or two AIVDM sentences,
  written to the serial port, the local socket and the database. The sentence is built in the array
  \<open>nmea\<close> of the channel, so all writes are checked against its length.
\<close>

section \<open>C strings\<close>

definition cstr_of :: "u8 list \<Rightarrow> u8 list option" where
  "cstr_of s = (if 0 \<in> set s then Some (c_str s) else None)"

text \<open>\<^verbatim>\<open>snprintf\<close> of a finished text into a buffer of \<open>n\<close> bytes: truncated, terminated; the
  result is the length the text would have had.\<close>

definition snprintf_text :: "u8 list \<Rightarrow> nat \<Rightarrow> u8 list \<Rightarrow> (u8 list \<times> nat) option" where
  "snprintf_text buf n t =
     (if n = 0 then Some (buf, length t)
      else let out = take (n - 1) t @ [0]
           in if length out \<le> length buf then Some (out @ drop (length out) buf, length t) else None)"

fun set_many :: "u8 list \<Rightarrow> nat \<Rightarrow> u8 list \<Rightarrow> u8 list option" where
  "set_many a i [] = Some a"
| "set_many a i (v # vs) = do { a \<leftarrow> arr_set a i v; set_many a (Suc i) vs }"

definition hexdigit :: "nat \<Rightarrow> u8" where
  "hexdigit n = of_nat (if n < 10 then 48 + n else 55 + n)"

text \<open>\<^verbatim>\<open>"%X"\<close> of an unsigned char.\<close>

definition hex_of :: "u8 \<Rightarrow> u8 list" where
  "hex_of v = (if unat v < 16 then [hexdigit (unat v)] else [hexdigit (unat v div 16), hexdigit (unat v mod 16)])"

section \<open>Sentences\<close>

definition senlen :: nat where
  "senlen = 61"

definition sentence_count :: "nat \<Rightarrow> u8" where
  "sentence_count bufferlen =
     (if bufferlen \<le> senlen * 6 then 1
      else of_nat (bufferlen div (senlen * 6)) + (if bufferlen mod (senlen * 6) \<noteq> 0 then 1 else 0))"

text \<open>The armouring of six bits as one character.\<close>

definition armour :: "u64 \<Rightarrow> u8" where
  "armour letter = (if letter < 40 then ucast letter + 48 else ucast letter + 56)"

function nmea_fill :: "u8 list \<Rightarrow> nat \<Rightarrow> nat \<Rightarrow> nat \<Rightarrow> u8 list \<Rightarrow> (u8 list \<times> nat \<times> nat) option" where
  "nmea_fill rbuf bufferlen k pos a =
     (if k < senlen + 13 \<and> pos < bufferlen
      then do {
        letter \<leftarrow> protodec_henten pos 6 rbuf;
        a \<leftarrow> arr_set a k (armour letter);
        nmea_fill rbuf bufferlen (k + 1) (pos + 6) a
      }
      else Some (a, k, pos))"
  by auto
termination by (relation "measure (\<lambda>(rbuf, bufferlen, k, pos, a). senlen + 13 - k)") auto

declare nmea_fill.simps [simp del]

function nmea_chk :: "u8 list \<Rightarrow> nat \<Rightarrow> u8 \<Rightarrow> u8 option" where
  "nmea_chk a m chk = do {
     c \<leftarrow> arr_get a m;
     if c \<noteq> 42 then nmea_chk a (m + 1) (chk XOR c) else Some chk
   }"
  by auto
termination
  by (relation "measure (\<lambda>(a, m, chk). length a - m)") (auto simp: arr_get_def split: if_splits)

declare nmea_chk.simps [simp del]

text \<open>Header fields 10 to 12 and the fill bit count, which depend on whether there are several parts.\<close>

definition nmea_header :: "u8 \<Rightarrow> u8 \<Rightarrow> u8 \<Rightarrow> nat \<Rightarrow> nat \<Rightarrow> u8 list \<Rightarrow> u8 list option" where
  "nmea_header sentences sentencenum seq fillbits k a = do {
     a \<leftarrow> set_many a 0 [65, 73, 86, 68, 77, 44, 48 + sentences, 44, 48 + sentencenum, 44];
     if sentences > 1 then do {
       a \<leftarrow> set_many a 10 [seq + 48, 44, 44];
       if sentencenum = sentences then arr_set a (k + 1) (48 + of_nat fillbits) else Some a
     } else set_many a 10 [44, 65, 44]
   }"

definition nmea_trailer :: "nat \<Rightarrow> u8 list \<Rightarrow> u8 list option" where
  "nmea_trailer k a = do {
     a0 \<leftarrow> arr_get a 0;
     nmeachk \<leftarrow> nmea_chk a 1 a0;
     case hex_of nmeachk of
       [c] \<Rightarrow> arr_set a (k + 4) c
     | c # c' # _ \<Rightarrow> set_many a (k + 3) [c, c']
     | [] \<Rightarrow> Some a
   }"

text \<open>Writing a finished sentence to the outputs that are configured.\<close>

definition nmea_output :: "int \<Rightarrow> demod_state \<Rightarrow> world \<Rightarrow> (demod_state \<times> world) option" where
  "nmea_output received_t d w = do {
     s \<leftarrow> cstr_of (nmea d);
     (ser, serbuffer_l) \<leftarrow> snprintf_text (serbuffer d) SERBUFFER_LEN ([33] @ s @ [13, 10]);
     let d = d\<lparr>serbuffer := ser\<rparr>;
     w \<leftarrow> (if serial d then
             (if serbuffer_l \<le> length ser then Some (emit (Serial_write (take serbuffer_l ser)) w) else None)
           else Some w);
     (ib, ipcbuffer_l) \<leftarrow> snprintf_text (ipcbuffer d) IPCBUFFER_LEN ([33] @ s);
     let d = d\<lparr>ipcbuffer := ib\<rparr>;
     w \<leftarrow> (if ipc d then
             (if ipcbuffer_l \<le> length ib then Some (emit (Ipc_write (take ipcbuffer_l ib)) w) else None)
           else Some w);
     Some (d, if w_my w then emit (Myout_nmea received_t s) w else w)
   }"

definition nmea_sentence ::
    "nat \<Rightarrow> nat \<Rightarrow> int \<Rightarrow> u8 \<Rightarrow> u8 \<Rightarrow> nat \<Rightarrow> demod_state \<Rightarrow> world \<Rightarrow> (u8 \<times> nat \<times> demod_state \<times> world) option" where
  "nmea_sentence bufferlen fillbits received_t sentences sentencenum pos d w = do {
     (a, k, pos) \<leftarrow> nmea_fill (rbuffer d) bufferlen 13 pos (nmea d);
     a \<leftarrow> set_many a k [44, 48, 42, 48, 48, 0];
     let sentencenum = sentencenum + 1;
     a \<leftarrow> nmea_header sentences sentencenum (seqnr d) fillbits k a;
     a \<leftarrow> nmea_trailer k a;
     (d, w) \<leftarrow> nmea_output received_t (d\<lparr>nmea := a\<rparr>) w;
     Some (sentencenum, pos, d, w)
   }"

partial_function (option) nmea_loop ::
    "nat \<Rightarrow> nat \<Rightarrow> int \<Rightarrow> u8 \<Rightarrow> u8 \<Rightarrow> nat \<Rightarrow> demod_state \<Rightarrow> world \<Rightarrow> (demod_state \<times> world) option" where
  "nmea_loop bufferlen fillbits received_t sentences sentencenum pos d w = do {
     (sentencenum, pos, d, w) \<leftarrow> nmea_sentence bufferlen fillbits received_t sentences sentencenum pos d w;
     if sentencenum < sentences
     then nmea_loop bufferlen fillbits received_t sentences sentencenum pos d w
     else Some (d, w)
   }"

definition protodec_generate_nmea ::
    "demod_state \<Rightarrow> nat \<Rightarrow> nat \<Rightarrow> int \<Rightarrow> world \<Rightarrow> (demod_state \<times> world) option" where
  "protodec_generate_nmea d bufferlen fillbits received_t w =
     nmea_loop bufferlen fillbits received_t (sentence_count bufferlen) 0 0 d w"

section \<open>The sentence as a text\<close>

lemma set_many_eq:
  "i + length vs \<le> length a \<Longrightarrow> set_many a i vs = Some (take i a @ vs @ drop (i + length vs) a)"
proof (induction vs arbitrary: a i)
  case (Cons v vs)
  then have "set_many (a[i := v]) (Suc i) vs
      = Some (take (Suc i) (a[i := v]) @ vs @ drop (Suc i + length vs) (a[i := v]))" by simp
  then show ?case using Cons.prems by (simp add: take_Suc_conv_app_nth)
qed simp

lemma nmea_chk_eq:
  "42 \<notin> set xs \<Longrightarrow> nmea_chk (pre @ xs @ 42 # post) (length pre) chk = Some (foldl (XOR) chk xs)"
proof (induction xs arbitrary: pre chk)
  case Nil
  then show ?case by (subst nmea_chk.simps) (simp add: nth_append)
next
  case (Cons x xs)
  have "nmea_chk ((pre @ [x]) @ xs @ 42 # post) (length (pre @ [x])) (chk XOR x) = Some (foldl (XOR) (chk XOR x) xs)"
    using Cons by (intro Cons.IH) simp
  then show ?case using Cons.prems by (subst nmea_chk.simps) (simp add: nth_append)
qed

declare set_many.simps [simp del]

definition xor_sum :: "u8 list \<Rightarrow> u8" where
  "xor_sum bs = foldl (XOR) 0 bs"

definition hex2 :: "u8 \<Rightarrow> u8 list" where
  "hex2 v = [hexdigit (unat v div 16), hexdigit (unat v mod 16)]"

text \<open>An AIVDM sentence without its leading exclamation mark: the body, a star and the checksum.\<close>

definition with_checksum :: "u8 list \<Rightarrow> u8 list" where
  "with_checksum body = body @ [42] @ hex2 (xor_sum body)"

definition aivdm_body :: "u8 \<Rightarrow> u8 \<Rightarrow> u8 list \<Rightarrow> u8 list \<Rightarrow> u8 \<Rightarrow> u8 list" where
  "aivdm_body n i mid payload fill =
     [65, 73, 86, 68, 77, 44, 48 + n, 44, 48 + i, 44] @ mid @ payload @ [44, fill]"

definition payload :: "u8 list \<Rightarrow> nat \<Rightarrow> nat \<Rightarrow> u8 list" where
  "payload rb from n = map (\<lambda>j. armour (field (from + 6 * j) 6 rb)) [0..<n]"

lemma payload_length [simp]: "length (payload rb from n) = n"
  by (simp add: payload_def)

lemma payload_Suc: "payload rb from (Suc n) = armour (field from 6 rb) # payload rb (from + 6) n"
  by (rule nth_equalityI) (auto simp: payload_def nth_Cons' algebra_simps simp del: upt_Suc)

lemma armour_range:
  assumes "unat v < 64"
  shows "unat (armour v) = (if unat v < 40 then unat v + 48 else unat v + 56)"
proof -
  have u: "unat (ucast v :: u8) = unat v"
    using assms by (simp add: unsigned_ucast_eq take_bit_nat_eq_self_iff)
  have lt: "v < 40 \<longleftrightarrow> unat v < 40" by (simp add: word_less_nat_alt)
  show ?thesis using assms u by (auto simp: armour_def lt unat_word_ariths)
qed

lemma payload_no_star: "bits01 rb \<Longrightarrow> from + 6 * n \<le> length rb \<Longrightarrow> 42 \<notin> set (payload rb from n)"
proof
  assume b: "bits01 rb" and l: "from + 6 * n \<le> length rb" and "42 \<in> set (payload rb from n)"
  then obtain j where j: "j < n" "armour (field (from + 6 * j) 6 rb) = 42" by (auto simp: payload_def)
  have "unat (field (from + 6 * j) 6 rb) < 64" 
    using field_bound [of "from + 6 * j" 6 rb] l j(1) by simp
  from armour_range [OF this] j(2) show False by (auto split: if_splits)
qed

lemma nmea_fill_eq:
  assumes "bits01 rb" "bufferlen = pos + 6 * m" "bufferlen \<le> length rb" "length a = 100" "k \<le> 74"
    and "c = min (74 - k) m"
  shows "nmea_fill rb bufferlen k pos a
    = Some (take k a @ payload rb pos c @ drop (k + c) a, k + c, pos + 6 * c)"
  using assms
proof (induction c arbitrary: k pos a m)
  case 0
  then have "\<not> (k < 74 \<and> pos < bufferlen)" by (cases m) auto
  then show ?case by (subst nmea_fill.simps) (auto simp: senlen_def payload_def)
next
  case (Suc c)
  obtain m' where m: "m = Suc m'" using Suc.prems(6) by (cases m) auto
  have k: "k < 74" using Suc.prems(6) by linarith
  have h: "protodec_henten pos 6 rb = Some (field pos 6 rb)"
    using Suc.prems m by (intro henten_field) auto
  let ?a = "a[k := armour (field pos 6 rb)]"
  have "nmea_fill rb bufferlen (k + 1) (pos + 6) ?a
      = Some (take (k + 1) ?a @ payload rb (pos + 6) c @ drop (k + 1 + c) ?a, k + 1 + c, pos + 6 + 6 * c)"
    using Suc.prems m k by (intro Suc.IH [of _ m']) auto
  moreover have "take (k + 1) ?a = take k a @ [armour (field pos 6 rb)]"
    using k Suc.prems(4) by (simp add: take_Suc_conv_app_nth)
  ultimately show ?case
    using h k Suc.prems(2,4) m by (subst nmea_fill.simps) (simp add: senlen_def payload_Suc)
qed

lemma nmea_trailer_eq:
  assumes "42 \<notin> set body" "body \<noteq> []" "length body = k + 2"
  shows "nmea_trailer k (body @ [42, 48, 48, 0] @ rest) = Some (with_checksum body @ [0] @ rest)"
proof -
  obtain x xs where b: "body = x # xs" using assms(2) by (cases body) auto
  let ?a = "body @ [42, 48, 48, 0] @ rest"
  have "nmea_chk ([x] @ xs @ 42 # [48, 48, 0] @ rest) (length [x]) x = Some (foldl (XOR) x xs)"
    using assms(1) b by (intro nmea_chk_eq) simp
  then have chk: "nmea_chk ?a 1 x = Some (xor_sum body)" by (simp add: b xor_sum_def)
  have take: "take (k + 3) ?a = body @ [42]" "take (k + 4) ?a = body @ [42, 48]" using assms(3) by simp_all
  have drop: "drop (k + 5) ?a = 0 # rest" "drop (5 + k) ?a = 0 # rest" using assms(3) by simp_all
  show ?thesis
  proof (cases "unat (xor_sum body) < 16")
    case True
    have "set_many ?a (k + 4) [hexdigit (unat (xor_sum body))]
        = Some (take (k + 4) ?a @ [hexdigit (unat (xor_sum body))] @ drop (k + 4 + 1) ?a)"
      using assms(3) by (subst set_many_eq) simp_all
    then show ?thesis using chk True take drop
      by (simp add: set_many.simps nmea_trailer_def b hex_of_def with_checksum_def hex2_def hexdigit_def)
  next
    case False
    let ?h = "hex2 (xor_sum body)"
    have "set_many ?a (k + 3) ?h = Some (take (k + 3) ?a @ ?h @ drop (k + 3 + 2) ?a)"
      using assms(3) by (subst set_many_eq) (simp_all add: hex2_def)
    then show ?thesis using chk False take drop
      by (simp add: nmea_trailer_def b hex_of_def with_checksum_def hex2_def)
  qed
qed

text \<open>What one sentence leaves in the buffers and on the outputs.\<close>

definition sent :: "int \<Rightarrow> u8 list \<Rightarrow> demod_state \<Rightarrow> world \<Rightarrow> world" where
  "sent t s d w = w\<lparr>w_out := w_out w
     @ (if serial d then [Serial_write ([33] @ s @ [13, 10])] else [])
     @ (if ipc d then [Ipc_write ([33] @ s)] else [])
     @ (if w_my w then [Myout_nmea t s] else [])\<rparr>"

definition buffers_ok :: "demod_state \<Rightarrow> bool" where
  "buffers_ok d \<longleftrightarrow> length (nmea d) = 100 \<and> length (serbuffer d) = 100 \<and> length (ipcbuffer d) = 255"

text \<open>\<open>d'\<close> is \<open>d\<close> up to the three output buffers.\<close>

definition same_but_out :: "demod_state \<Rightarrow> demod_state \<Rightarrow> bool" where
  "same_but_out d d' \<longleftrightarrow> (\<exists>a b e. d' = d\<lparr>nmea := a, serbuffer := b, ipcbuffer := e\<rparr>) \<and> buffers_ok d'"

lemma nmea_output_eq:
  assumes "length s \<le> 96" "0 \<notin> set s" "buffers_ok (d\<lparr>nmea := s @ [0] @ rest\<rparr>)"
  shows "\<exists>d'. nmea_output t (d\<lparr>nmea := s @ [0] @ rest\<rparr>) w = Some (d', sent t s d w)
    \<and> same_but_out d d' \<and> nmea d' = s @ [0] @ rest"
proof -
  have c: "cstr_of (s @ [0] @ rest) = Some s"
  proof -
    have "takeWhile (\<lambda>c. c \<noteq> 0) (s @ [0] @ rest) = s"
      using assms(2) by (subst takeWhile_append2) auto
    then show ?thesis by (simp add: cstr_of_def c_str_def)
  qed
  let ?ser = "([33] @ s @ [13, 10] @ [0]) @ drop (length s + 4) (serbuffer d)"
  let ?ib = "([33] @ s @ [0]) @ drop (length s + 2) (ipcbuffer d)"
  have ser: "snprintf_text (serbuffer d) SERBUFFER_LEN ([33] @ s @ [13, 10]) = Some (?ser, length s + 3)"
    using assms(1,3) by (simp add: snprintf_text_def SERBUFFER_LEN_def buffers_ok_def Let_def eval_nat_numeral(2,3))
  have ib: "snprintf_text (ipcbuffer d) IPCBUFFER_LEN ([33] @ s) = Some (?ib, length s + 1)"
    using assms(1,3) by (simp add: snprintf_text_def IPCBUFFER_LEN_def buffers_ok_def)
  let ?d = "d\<lparr>nmea := s @ [0] @ rest, serbuffer := ?ser, ipcbuffer := ?ib\<rparr>"
  have tk: "take (length s + 3) ?ser = [33] @ s @ [13, 10]" "length s + 3 \<le> length ?ser"
      "take (length s + 1) ?ib = [33] @ s" "length s + 1 \<le> length ?ib" by (simp_all add: eval_nat_numeral(2,3))
  have "nmea_output t (d\<lparr>nmea := s @ [0] @ rest\<rparr>) w = Some (?d, sent t s d w)"
    unfolding nmea_output_def using c ser ib tk
    by (simp add: sent_def emit_def del: append_Cons take_append)
  moreover have "same_but_out d ?d"
    using assms(1,3) unfolding same_but_out_def by (auto simp: buffers_ok_def)
  ultimately show ?thesis by auto
qed

text \<open>The fields between the part number and the payload, and the fill bit count of a part.\<close>

definition nmea_mid :: "u8 \<Rightarrow> u8 \<Rightarrow> u8 list" where
  "nmea_mid n seq = (if n > 1 then [seq + 48, 44, 44] else [44, 65, 44])"

definition nmea_fillchar :: "u8 \<Rightarrow> u8 \<Rightarrow> nat \<Rightarrow> u8" where
  "nmea_fillchar n i fillbits = (if n > 1 \<and> i = n then 48 + of_nat fillbits else 48)"

lemma nmea_header_eq:
  assumes "length a = 100" "k + 6 \<le> 100" "13 \<le> k" "a = take k a @ [44, 48] @ rest"
  shows "nmea_header n i seq fillbits k a
    = Some ([65, 73, 86, 68, 77, 44, 48 + n, 44, 48 + i, 44] @ nmea_mid n seq @ drop 13 (take k a)
        @ [44, nmea_fillchar n i fillbits] @ rest)"
proof -
  define h where "h = [65, 73, 86, 68, 77, 44, 48 + n, 44, 48 + i, 44]"
  have lh: "length h = 10" by (simp add: h_def)
  have a1: "set_many a 0 h = Some (h @ drop 10 a)" using assms(1) lh by (subst set_many_eq) simp_all
  have a2: "set_many (h @ drop 10 a) 10 v = Some (h @ v @ drop 13 a)" if "length v = 3" for v
    using that lh assms(1) by (subst set_many_eq) simp_all
  have d13: "drop 13 a = drop 13 (take k a) @ [44, 48] @ rest"
    using assms(1-3) by (subst assms(4)) simp
  let ?p = "h @ [seq + 48, 44, 44] @ drop 13 (take k a) @ [44]"
  have lp: "length ?p = k + 1" using lh assms(1-3) by simp
  have "arr_set (?p @ 48 # rest) (length ?p) v = Some (?p @ v # rest)" for v
    by (simp add: list_update_append)
  then have fl: "arr_set (?p @ 48 # rest) (k + 1) v = Some (?p @ v # rest)" for v unfolding lp .
  have "nmea_header n i seq fillbits k a
    = Some (h @ nmea_mid n seq @ drop 13 (take k a) @ [44, nmea_fillchar n i fillbits] @ rest)"
    unfolding nmea_header_def h_def [symmetric]
    using fl by (simp add: a1 a2 d13 nmea_mid_def nmea_fillchar_def)
  then show ?thesis by (simp add: h_def)
qed

lemma digit_char:
  assumes "x \<le> (9 :: u8)"
  shows "unat (48 + x) = 48 + unat x"
proof -
  have "unat x \<le> 9" using assms by (simp add: word_le_nat_alt)
  then show ?thesis by (simp add: unat_word_ariths)
qed

lemma digit_char_neq:
  assumes "x \<le> (9 :: u8)"
  shows "48 + x \<noteq> 42" "48 + x \<noteq> 0" "x + 48 \<noteq> 42" "x + 48 \<noteq> 0"
proof -
  have u: "unat (48 + x) \<noteq> unat (42 :: u8)" "unat (48 + x) \<noteq> unat (0 :: u8)" using digit_char [OF assms] by simp_all
  then show "48 + x \<noteq> 42" "48 + x \<noteq> 0" by metis+
  then show "x + 48 \<noteq> 42" "x + 48 \<noteq> 0" by (simp_all add: add.commute)
qed

lemma hexdigit_nonzero: "n < 16 \<Longrightarrow> hexdigit n \<noteq> 0"
proof -
  assume "n < 16"
  then have "unat (hexdigit n) = (if n < 10 then 48 + n else 55 + n)"
    by (simp add: hexdigit_def unat_of_nat)
  then show ?thesis by (auto split: if_splits)
qed

lemma hex2_nonzero: "0 \<notin> set (hex2 v)"
proof -
  have "unat v < 256" using unsigned_less [of v] by simp
  then show ?thesis using hexdigit_nonzero by (auto simp: hex2_def)
qed

lemma payload_nonzero: "from + 6 * n \<le> length rb \<Longrightarrow> 0 \<notin> set (payload rb from n)"
proof
  assume l: "from + 6 * n \<le> length rb" and "0 \<in> set (payload rb from n)"
  then obtain j where j: "j < n" "armour (field (from + 6 * j) 6 rb) = 0" by (auto simp: payload_def)
  have "unat (field (from + 6 * j) 6 rb) < 64" using field_bound [of "from + 6 * j" 6 rb] l j(1) by simp
  from armour_range [OF this] j(2) show False by (auto split: if_splits)
qed

lemma aivdm_chars:
  assumes "bits01 rb" "from + 6 * c \<le> length rb" "n \<le> 9" "i \<le> 9" "seq \<le> 9" "fillbits \<le> 9"
  shows "42 \<notin> set (aivdm_body n i (nmea_mid n seq) (payload rb from c) (nmea_fillchar n i fillbits))"
    and "0 \<notin> set (with_checksum (aivdm_body n i (nmea_mid n seq) (payload rb from c) (nmea_fillchar n i fillbits)))"
proof -
  have "of_nat fillbits \<le> (9 :: u8)" using assms(6) by (simp add: word_le_nat_alt unat_of_nat)
  note d = digit_char_neq [OF assms(3)] digit_char_neq [OF assms(4)] digit_char_neq [OF assms(5)] digit_char_neq [OF this]
  show "42 \<notin> set (aivdm_body n i (nmea_mid n seq) (payload rb from c) (nmea_fillchar n i fillbits))"
    using d payload_no_star [OF assms(1,2)] by (auto simp: aivdm_body_def nmea_mid_def nmea_fillchar_def)
  show "0 \<notin> set (with_checksum (aivdm_body n i (nmea_mid n seq) (payload rb from c) (nmea_fillchar n i fillbits)))"
    using d payload_nonzero [OF assms(2)] hex2_nonzero
    by (auto simp: with_checksum_def aivdm_body_def nmea_mid_def nmea_fillchar_def)
qed

definition aivdm :: "u8 \<Rightarrow> u8 \<Rightarrow> u8 \<Rightarrow> u8 list \<Rightarrow> nat \<Rightarrow> u8 list" where
  "aivdm n i seq pl fillbits = with_checksum (aivdm_body n i (nmea_mid n seq) pl (nmea_fillchar n i fillbits))"

lemma nmea_sentence_ok:
  assumes d: "buffers_ok d" "bits01 (rbuffer d)" "seqnr d \<le> 9" and p: "bufferlen = pos + 6 * m" "bufferlen \<le> length (rbuffer d)"
    and n: "n \<le> 9" "i < n" "fillbits \<le> 9" and c: "c = min 61 m"
  shows "\<exists>d'. nmea_sentence bufferlen fillbits t n i pos d w
      = Some (i + 1, pos + 6 * c, d', sent t (aivdm n (i + 1) (seqnr d) (payload (rbuffer d) pos c) fillbits) d w)
    \<and> same_but_out d d' \<and> c_str (nmea d') = aivdm n (i + 1) (seqnr d) (payload (rbuffer d) pos c) fillbits"
proof -
  let ?pl = "payload (rbuffer d) pos c" and ?k = "13 + c"
  let ?body = "aivdm_body n (i + 1) (nmea_mid n (seqnr d)) ?pl (nmea_fillchar n (i + 1) fillbits)"
  let ?a1 = "take 13 (nmea d) @ ?pl @ drop ?k (nmea d)" and ?rest = "drop (?k + 6) (nmea d)"
  have len: "length (nmea d) = 100" and c61: "c \<le> 61" using d(1) c by (auto simp: buffers_ok_def)
  have fill: "nmea_fill (rbuffer d) bufferlen 13 pos (nmea d) = Some (?a1, ?k, pos + 6 * c)"
    using nmea_fill_eq [OF d(2) p len, of 13 c] c by simp
  have l1: "length ?a1 = 100" using len c61 by simp
  define a2 where "a2 = take ?k ?a1 @ [44, 48] @ [42, 48, 48, 0] @ ?rest"
  have a2: "set_many ?a1 ?k [44, 48, 42, 48, 48, 0] = Some a2"
    using len c61 unfolding a2_def by (subst set_many_eq) (simp_all add: add.assoc)
  have i1: "i + 1 \<le> 9" using n(1,2) inc_le [of i n] order_trans by blast
  have "take ?k a2 = take ?k ?a1" "length a2 = 100" using len c61 by (simp_all add: a2_def)
  then have a3: "nmea_header n (i + 1) (seqnr d) fillbits ?k a2 = Some (?body @ [42, 48, 48, 0] @ ?rest)"
    using len c61 by (subst nmea_header_eq [where rest = "[42, 48, 48, 0] @ ?rest"])
      (simp_all add: aivdm_body_def a2_def)
  have "pos + 6 * c \<le> length (rbuffer d)" using p c by simp
  note ch = aivdm_chars [OF d(2) this n(1) i1 d(3) n(3)]
  have lb: "length ?body = ?k + 2" by (simp add: aivdm_body_def nmea_mid_def)
  have a4: "nmea_trailer ?k (?body @ [42, 48, 48, 0] @ ?rest) = Some (with_checksum ?body @ [0] @ ?rest)"
    using ch(1) lb by (intro nmea_trailer_eq) (auto simp: aivdm_body_def)
  have lw: "length (with_checksum ?body) = c + 18" using lb by (simp add: with_checksum_def hex2_def)
  have "buffers_ok (d\<lparr>nmea := with_checksum ?body @ [0] @ ?rest\<rparr>)"
    using d(1) lw len c61 by (simp add: buffers_ok_def)
  from nmea_output_eq [OF _ ch(2) this, of t w] obtain d' where o:
      "nmea_output t (d\<lparr>nmea := with_checksum ?body @ [0] @ ?rest\<rparr>) w = Some (d', sent t (with_checksum ?body) d w)"
      "same_but_out d d'" "nmea d' = with_checksum ?body @ [0] @ ?rest" using lw c61 by auto
  have "c_str (with_checksum ?body @ [0] @ ?rest) = with_checksum ?body"
    using ch(2) unfolding c_str_def by (subst takeWhile_append2) auto
  moreover have "nmea_sentence bufferlen fillbits t n i pos d w
      = Some (i + 1, pos + 6 * c, d', sent t (with_checksum ?body) d w)"
    unfolding nmea_sentence_def fill
    by (simp only: Option.bind.simps prod.case a2 Let_def a3 a4 o(1))
  ultimately show ?thesis using o(2,3) unfolding aivdm_def by auto
qed

section \<open>All sentences of a message\<close>

definition part_count :: "nat \<Rightarrow> nat" where
  "part_count m = (if m \<le> 61 then 1 else (m + 60) div 61)"

text \<open>The reference: a message of \<open>m\<close> six-bit groups as its parts, sixty-one groups each.\<close>

definition aivdm_part :: "u8 \<Rightarrow> u8 list \<Rightarrow> nat \<Rightarrow> nat \<Rightarrow> nat \<Rightarrow> u8 list" where
  "aivdm_part seq rb m fillbits i = aivdm (of_nat (part_count m)) (of_nat (Suc i)) seq
     (payload rb (366 * i) (min 61 (m - 61 * i))) fillbits"

definition aivdm_parts :: "u8 \<Rightarrow> u8 list \<Rightarrow> nat \<Rightarrow> nat \<Rightarrow> u8 list list" where
  "aivdm_parts seq rb m fillbits = map (aivdm_part seq rb m fillbits) [0..<part_count m]"

lemma div_round_up: "(m + 60) div 61 = m div 61 + (if m mod 61 \<noteq> 0 then 1 else (0 :: nat))"
proof -
  define q r where "q = m div 61" and "r = m mod 61"
  then have m: "m + 60 = (r + 60) + q * 61" and "r < 61" by simp_all
  then have "(r + 60) div 61 = (if r \<noteq> 0 then 1 else 0)" by (auto simp: div_nat_eqI)
  moreover have "(m + 60) div 61 = q + (r + 60) div 61" unfolding m by simp
  ultimately show ?thesis by (simp add: q_def r_def)
qed

lemma part_count_le: "m \<le> 549 \<Longrightarrow> part_count m \<le> 9"
  using div_le_mono [of "m + 60" 609 61] by (simp add: part_count_def)

lemma sentence_count_eq: "m \<le> 549 \<Longrightarrow> sentence_count (6 * m) = of_nat (part_count m)"
proof (cases "m \<le> 61")
  case True
  then show ?thesis by (simp add: sentence_count_def part_count_def senlen_def)
next
  case False
  have "6 * m div 366 = m div 61" "6 * m mod 366 = 6 * (m mod 61)"
    using div_mult2_eq [of "6 * m" 6 61] mult_mod_right [of 6 m 61] by simp_all
  moreover have "(m + 60) div 61 = m div 61 + (if m mod 61 \<noteq> 0 then 1 else 0)"
    by (rule div_round_up)
  ultimately show ?thesis using False by (simp add: sentence_count_def part_count_def senlen_def)
qed

lemma same_but_out_trans:
  assumes "same_but_out d d'" "same_but_out d' d''"
  shows "same_but_out d d''"
proof -
  obtain a b e a' b' e' where "d' = d\<lparr>nmea := a, serbuffer := b, ipcbuffer := e\<rparr>"
      "d'' = d'\<lparr>nmea := a', serbuffer := b', ipcbuffer := e'\<rparr>" "buffers_ok d''"
    using assms unfolding same_but_out_def by blast
  then have "d'' = d\<lparr>nmea := a', serbuffer := b', ipcbuffer := e'\<rparr>" by simp
  then show ?thesis using \<open>buffers_ok d''\<close> unfolding same_but_out_def by blast
qed

lemma same_but_out_simps:
  assumes "same_but_out d d'"
  shows "rbuffer d' = rbuffer d" "seqnr d' = seqnr d" "sent t s d' w = sent t s d w" "buffers_ok d'"
    "serial d' = serial d" "ipc d' = ipc d"
  using assms by (auto simp: same_but_out_def sent_def)

lemma nmea_loop_ok:
  assumes "buffers_ok d" "bits01 (rbuffer d)" "seqnr d \<le> 9" "6 * m \<le> length (rbuffer d)"
    and "part_count m \<le> 9" "fillbits \<le> 9" "i < part_count m"
  shows "\<exists>d'. nmea_loop (6 * m) fillbits t (of_nat (part_count m)) (of_nat i) (366 * i) d w
      = Some (d', foldl (\<lambda>w s. sent t s d w) w
          (map (aivdm_part (seqnr d) (rbuffer d) m fillbits) [i..<part_count m]))
    \<and> same_but_out d d' \<and> c_str (nmea d') = aivdm_part (seqnr d) (rbuffer d) m fillbits (part_count m - 1)"
  using assms
proof (induction "part_count m - i" arbitrary: i d w)
  case 0
  then show ?case by simp
next
  case (Suc x)
  let ?n = "part_count m" and ?c = "min 61 (m - 61 * i)"
  have un: "unat (of_nat ?n :: u8) = ?n" "unat (of_nat i :: u8) = i" "unat (of_nat (Suc i) :: u8) = Suc i"
    using Suc.prems(5,7) by (simp_all add: unat_of_nat del: of_nat_Suc)
  have n9: "(of_nat ?n :: u8) \<le> 9" "(of_nat i :: u8) < of_nat ?n"
    using Suc.prems(5,7) un by (simp_all add: word_le_nat_alt word_less_nat_alt)
  have i61: "61 * i \<le> m"
    using Suc.prems(7) by (auto simp: part_count_def split: if_splits)
  have len: "6 * m = 366 * i + 6 * (m - 61 * i)" using i61 by simp
  obtain d1 where s: "nmea_sentence (6 * m) fillbits t (of_nat ?n) (of_nat i) (366 * i) d w
      = Some (of_nat i + 1, 366 * i + 6 * ?c, d1,
          sent t (aivdm (of_nat ?n) (of_nat i + 1) (seqnr d) (payload (rbuffer d) (366 * i) ?c) fillbits) d w)"
      "same_but_out d d1"
      "c_str (nmea d1) = aivdm (of_nat ?n) (of_nat i + 1) (seqnr d) (payload (rbuffer d) (366 * i) ?c) fillbits"
    using nmea_sentence_ok [OF Suc.prems(1-3) len Suc.prems(4) n9(1,2) Suc.prems(6) refl, of t w] by blast
  let ?p = "aivdm_part (seqnr d) (rbuffer d) m fillbits"
  have pi: "aivdm (of_nat ?n) (of_nat i + 1) (seqnr d) (payload (rbuffer d) (366 * i) ?c) fillbits = ?p i"
    by (simp add: aivdm_part_def add.commute)
  have suc: "of_nat i + 1 = (of_nat (Suc i) :: u8)" by (simp add: add.commute)
  have s1: "nmea_sentence (6 * m) fillbits t (of_nat ?n) (of_nat i) (366 * i) d w
      = Some (of_nat (Suc i), 366 * i + 6 * ?c, d1, sent t (?p i) d w)"
    using s(1) unfolding pi by (simp only: suc)
  have lt: "(of_nat (Suc i) :: u8) < of_nat ?n \<longleftrightarrow> Suc i < ?n" using un by (simp add: word_less_nat_alt)
  show ?case
  proof (cases "Suc i < ?n")
    case True
    have x: "x = part_count m - Suc i" using Suc.hyps(2) by simp
    have "?c = 61" using True by (auto simp: part_count_def split: if_splits)
    then have pos: "366 * i + 6 * ?c = 366 * Suc i" by simp
    have "nmea_loop (6 * m) fillbits t (of_nat ?n) (of_nat i) (366 * i) d w
        = nmea_loop (6 * m) fillbits t (of_nat ?n) (of_nat (Suc i)) (366 * Suc i) d1 (sent t (?p i) d w)"
      using s1 lt True unfolding pos by (subst nmea_loop.simps) (simp del: of_nat_Suc mult_Suc_right)
    moreover have d1: "buffers_ok d1" "bits01 (rbuffer d1)" "seqnr d1 \<le> 9" "6 * m \<le> length (rbuffer d1)"
      using Suc.prems(2-4) by (simp_all add: same_but_out_simps [OF s(2)])
    obtain d' where "nmea_loop (6 * m) fillbits t (of_nat ?n) (of_nat (Suc i)) (366 * Suc i) d1 (sent t (?p i) d w)
        = Some (d', foldl (\<lambda>w s. sent t s d1 w) (sent t (?p i) d w)
            (map (aivdm_part (seqnr d1) (rbuffer d1) m fillbits) [Suc i..<?n]))"
        "same_but_out d1 d'" "c_str (nmea d') = aivdm_part (seqnr d1) (rbuffer d1) m fillbits (?n - 1)"
      using Suc.hyps(1) [OF x d1 Suc.prems(5,6) True, of "sent t (?p i) d w"] by blast
    ultimately show ?thesis
      using same_but_out_trans [OF s(2)] True
      by (simp add: same_but_out_simps [OF s(2)] upt_conv_Cons)
  next
    case False
    then have "?n = Suc i" using Suc.prems(7) by simp
    moreover have "nmea_loop (6 * m) fillbits t (of_nat ?n) (of_nat i) (366 * i) d w = Some (d1, sent t (?p i) d w)"
      using s1 lt False by (subst nmea_loop.simps) (simp del: of_nat_Suc)
    ultimately show ?thesis using s(2,3) pi by simp
  qed
qed

lemma part_count_pos: "0 < part_count m"
  using div_le_mono [of 61 "m + 60" 61] by (auto simp: part_count_def Suc_le_eq)

lemma generate_nmea_ok:
  assumes "buffers_ok d" "bits01 (rbuffer d)" "seqnr d \<le> 9" "6 * m \<le> length (rbuffer d)" "m \<le> 549" "fillbits \<le> 9"
  shows "\<exists>d'. protodec_generate_nmea d (6 * m) fillbits t w
      = Some (d', foldl (\<lambda>w s. sent t s d w) w (aivdm_parts (seqnr d) (rbuffer d) m fillbits))
    \<and> same_but_out d d' \<and> c_str (nmea d') = List.last (aivdm_parts (seqnr d) (rbuffer d) m fillbits)"
proof -
  have "part_count m \<le> 9" using assms(5) by (rule part_count_le)
  from nmea_loop_ok [OF assms(1-4) this assms(6) part_count_pos, of t w] show ?thesis
    using part_count_pos [of m]
    by (simp add: protodec_generate_nmea_def sentence_count_eq [OF assms(5)] aivdm_parts_def last_map)
qed

section \<open>Round trip\<close>

definition dearmour :: "u8 \<Rightarrow> nat" where
  "dearmour c = (if unat c < 88 then unat c - 48 else unat c - 56)"

text \<open>The payload field of a sentence, between the fifth and the sixth comma.\<close>

definition payload_of :: "u8 list \<Rightarrow> u8 list" where
  "payload_of s = takeWhile (\<lambda>c. c \<noteq> 44) (drop 13 s)"

definition payload_bits :: "u8 list \<Rightarrow> u8 list" where
  "payload_bits s = concat (map (\<lambda>c. enc_bits 6 (dearmour c)) (payload_of s))"

definition checksum_ok :: "u8 list \<Rightarrow> bool" where
  "checksum_ok s \<longleftrightarrow> (let body = takeWhile (\<lambda>c. c \<noteq> 42) s in drop (length body) s = 42 # hex2 (xor_sum body))"

lemma dearmour_armour: "unat v < 64 \<Longrightarrow> dearmour (armour v) = unat v"
  using armour_range [of v] by (simp add: dearmour_def)

lemma payload_bits_eq:
  assumes "bits01 rb"
  shows "from + 6 * n \<le> length rb \<Longrightarrow>
    concat (map (\<lambda>c. enc_bits 6 (dearmour c)) (payload rb from n)) = take (6 * n) (drop from rb)"
proof (induction n arbitrary: "from")
  case (Suc n)
  have "unat (field from 6 rb) < 64" using field_bound [of "from" 6 rb] Suc.prems by simp
  then have "enc_bits 6 (dearmour (armour (field from 6 rb))) = take 6 (drop from rb)"
    using dearmour_armour enc_bits_field [OF assms, of "from" 6] Suc.prems by simp
  moreover have "concat (map (\<lambda>c. enc_bits 6 (dearmour c)) (payload rb (from + 6) n)) = take (6 * n) (drop (from + 6) rb)"
    using Suc by simp
  moreover have "take (6 * Suc n) (drop from rb) = take 6 (drop from rb) @ take (6 * n) (drop (from + 6) rb)"
    by (simp add: take_add [of 6 "6 * n"] add.commute)
  ultimately show ?case by (simp add: payload_Suc)
qed (simp add: payload_def)

lemma concat_parts:
  "61 * i \<le> m \<Longrightarrow> concat (map (\<lambda>i. take (6 * min 61 (m - 61 * i)) (drop (366 * i) (rb :: u8 list))) [i..<i + n])
     = take (6 * min (61 * n) (m - 61 * i)) (drop (366 * i) rb)"
proof (induction n arbitrary: i)
  case (Suc n)
  show ?case
  proof (cases "61 * Suc i \<le> m")
    case True
    have "take (6 * min (61 * Suc n) (m - 61 * i)) (drop (366 * i) rb)
        = take 366 (drop (366 * i) rb) @ take (6 * min (61 * n) (m - 61 * Suc i)) (drop (366 * Suc i) rb)"
    proof -
      have "6 * min (61 * Suc n) (m - 61 * i) = 366 + 6 * min (61 * n) (m - 61 * Suc i)"
        using True by (auto simp: min_def)
      then show ?thesis by (simp add: take_add add.commute)
    qed
    moreover have "min 61 (m - 61 * i) = 61" using True by simp
    ultimately show ?thesis using Suc.IH [OF True] by (simp add: upt_conv_Cons del: upt_Suc)
  next
    case False
    have z: "min 61 (m - 61 * x) = 0" if "Suc i \<le> x" for x using False mult_le_mono2 [OF that, of 61] by simp
    have "concat (map (\<lambda>i. take (6 * min 61 (m - 61 * i)) (drop (366 * i) rb)) [Suc i..<Suc i + n]) = []"
      unfolding concat_eq_Nil_conv by (auto simp: z simp del: upt_Suc)
    moreover have "min 61 (m - 61 * i) = min (61 * Suc n) (m - 61 * i)" using False by auto
    ultimately show ?thesis by (simp add: upt_conv_Cons del: upt_Suc)
  qed
qed simp

lemma payload_of_aivdm:
  assumes "42 \<notin> set pl" "44 \<notin> set pl"
  shows "payload_of (aivdm n i seq pl fillbits) = pl"
proof -
  have "drop 13 (aivdm n i seq pl fillbits) = pl @ [44, nmea_fillchar n i fillbits, 42]
      @ hex2 (xor_sum (aivdm_body n i (nmea_mid n seq) pl (nmea_fillchar n i fillbits)))"
    by (simp add: aivdm_def with_checksum_def aivdm_body_def nmea_mid_def)
  then show ?thesis unfolding payload_of_def using assms
    by (simp only:) (subst takeWhile_append2; auto)
qed

lemma payload_no_comma: "from + 6 * n \<le> length rb \<Longrightarrow> 44 \<notin> set (payload rb from n)"
proof
  assume l: "from + 6 * n \<le> length rb" and "44 \<in> set (payload rb from n)"
  then obtain j where j: "j < n" "armour (field (from + 6 * j) 6 rb) = 44" by (auto simp: payload_def)
  have "unat (field (from + 6 * j) 6 rb) < 64" using field_bound [of "from + 6 * j" 6 rb] l j(1) by simp
  from armour_range [OF this] j(2) show False by (auto split: if_splits)
qed

lemma parts_payload:
  assumes "bits01 rb" "6 * m \<le> length rb"
  shows "concat (map payload_bits (aivdm_parts seq rb m fillbits)) = take (6 * m) rb"
proof -
  have "payload_bits (aivdm_part seq rb m fillbits i) = take (6 * min 61 (m - 61 * i)) (drop (366 * i) rb)"
    if "i < part_count m" for i
  proof -
    have "61 * i \<le> m" using that by (auto simp: part_count_def split: if_splits)
    then have l: "366 * i + 6 * min 61 (m - 61 * i) \<le> length rb" using assms(2) by auto
    show ?thesis unfolding payload_bits_def aivdm_part_def
      using payload_of_aivdm payload_no_star [OF assms(1) l] payload_no_comma [OF l] payload_bits_eq [OF assms(1) l]
      by simp
  qed
  then have "concat (map payload_bits (aivdm_parts seq rb m fillbits))
      = concat (map (\<lambda>i. take (6 * min 61 (m - 61 * i)) (drop (366 * i) rb)) [0..<0 + part_count m])"
    unfolding aivdm_parts_def map_map by (intro arg_cong [of _ _ concat] map_cong) simp_all
  moreover have "min (61 * part_count m) m = m" by (auto simp: part_count_def)
  ultimately show ?thesis using concat_parts [of 0 m rb "part_count m"] by simp
qed

lemma aivdm_valid:
  assumes "bits01 rb" "from + 6 * c \<le> length rb" "n \<le> 9" "i \<le> 9" "seq \<le> 9" "fillbits \<le> 9"
  shows "checksum_ok (aivdm n i seq (payload rb from c) fillbits)"
    and "length (aivdm n i seq (payload rb from c) fillbits) = c + 18"
proof -
  let ?b = "aivdm_body n i (nmea_mid n seq) (payload rb from c) (nmea_fillchar n i fillbits)"
  have "takeWhile (\<lambda>c. c \<noteq> 42) (with_checksum ?b) = ?b"
    unfolding with_checksum_def using aivdm_chars(1) [OF assms] by (subst takeWhile_append2) auto
  then show "checksum_ok (aivdm n i seq (payload rb from c) fillbits)"
    by (simp add: checksum_ok_def aivdm_def Let_def) (simp add: with_checksum_def)
  show "length (aivdm n i seq (payload rb from c) fillbits) = c + 18"
    by (simp add: aivdm_def with_checksum_def aivdm_body_def nmea_mid_def hex2_def)
qed

text \<open>
  C12. A received message can be recovered from the sentences. For any frame of bits that the receiver
  can hold, the generator is defined and writes one sentence per sixty-one characters, in order, to
  every configured output: each has a correct checksum and with its exclamation mark and line end
  at most the 82 characters NMEA allows, and the payloads, read back six bits per character, are
  the message bits.
\<close>

theorem nmea_roundtrip:
  assumes "buffers_ok d" "bits01 (rbuffer d)" "seqnr d \<le> 9" "6 * m \<le> length (rbuffer d)" "m \<le> 549" "fillbits \<le> 9"
  shows "\<exists>d' ss. protodec_generate_nmea d (6 * m) fillbits t w = Some (d', foldl (\<lambda>w s. sent t s d w) w ss)
    \<and> length ss = part_count m \<and> (\<forall>s \<in> set ss. checksum_ok s \<and> length s + 3 \<le> 82)
    \<and> concat (map payload_bits ss) = take (6 * m) (rbuffer d)"
proof -
  let ?ss = "aivdm_parts (seqnr d) (rbuffer d) m fillbits"
  have p9: "part_count m \<le> 9" using assms(5) by (rule part_count_le)
  have "checksum_ok (aivdm_part (seqnr d) (rbuffer d) m fillbits i)
      \<and> length (aivdm_part (seqnr d) (rbuffer d) m fillbits i) + 3 \<le> 82" if "i < part_count m" for i
  proof -
    have "61 * i \<le> m" using that by (auto simp: part_count_def split: if_splits)
    then have l: "366 * i + 6 * min 61 (m - 61 * i) \<le> length (rbuffer d)" using assms(4) by auto
    have "(of_nat (part_count m) :: u8) \<le> 9" "(of_nat (Suc i) :: u8) \<le> 9"
      using p9 that by (simp_all add: word_le_nat_alt unat_of_nat del: of_nat_Suc)
    from aivdm_valid [OF assms(2) l this assms(3,6)] show ?thesis by (simp add: aivdm_part_def)
  qed
  then have "\<forall>s \<in> set ?ss. checksum_ok s \<and> length s + 3 \<le> 82" by (auto simp: aivdm_parts_def)
  moreover have "length ?ss = part_count m" by (simp add: aivdm_parts_def)
  ultimately show ?thesis using generate_nmea_ok [OF assms, of t w] parts_payload [OF assms(2,4)] by blast
qed

theorem nmea_roundtrip_witness:
  "\<forall>t w. \<exists>d' ss. protodec_generate_nmea (idle_demod\<lparr>rbuffer := replicate 168 1 @ replicate 282 0\<rparr>) (6 * 70) 2 t w
      = Some (d', foldl (\<lambda>w s. sent t s idle_demod w) w ss)
    \<and> length ss = 2 \<and> (\<forall>s \<in> set ss. checksum_ok s \<and> length s + 3 \<le> 82)
    \<and> concat (map payload_bits ss) = replicate 168 1 @ replicate 252 0"
proof (intro allI)
  fix t w
  let ?d = "idle_demod\<lparr>rbuffer := replicate 168 1 @ replicate 282 0\<rparr>"
  have d: "buffers_ok ?d" "seqnr ?d \<le> 9" "6 * 70 \<le> length (rbuffer ?d)"
    by (simp_all add: idle_demod_def buffers_ok_def)
  have b: "bits01 (rbuffer ?d)" by (simp add: bits01_def)
  have p: "part_count 70 = 2" by (simp add: part_count_def)
  have s: "sent t s ?d w' = sent t s idle_demod w'" for s w' by (simp add: sent_def idle_demod_def)
  show "\<exists>d' ss. protodec_generate_nmea ?d (6 * 70) 2 t w = Some (d', foldl (\<lambda>w s. sent t s idle_demod w) w ss)
    \<and> length ss = 2 \<and> (\<forall>s \<in> set ss. checksum_ok s \<and> length s + 3 \<le> 82)
    \<and> concat (map payload_bits ss) = replicate 168 1 @ replicate 252 0"
    using nmea_roundtrip [OF d(1) b d(2,3), of 2 t w] by (simp add: p s)
qed

end
