(* ===== verification/Messages.thy ===== *)
theory Messages
  imports Nmea
begin

text \<open>
  The message handlers of protodec.c (\<^verbatim>\<open>protodec_msg_40\<close> to \<^verbatim>\<open>protodec_24\<close>): each
  reads its fields out of \<open>rbuffer\<close> and reports them to the terminal, the database, the cache
  and the range statistics, as configured.
\<close>

section \<open>Fields\<close>

text \<open>A field assigned to an \<^verbatim>\<open>int\<close>; all fields that are have at most 30 bits.\<close>

definition int_field :: "nat \<Rightarrow> nat \<Rightarrow> u8 list \<Rightarrow> int option" where
  "int_field from sz frame = do { v \<leftarrow> protodec_henten from sz frame; Some (uint v) }"

text \<open>A field assigned to a (signed) \<^verbatim>\<open>char\<close>.\<close>

definition char_field :: "nat \<Rightarrow> nat \<Rightarrow> u8 list \<Rightarrow> int option" where
  "char_field from sz frame = do { v \<leftarrow> protodec_henten from sz frame; Some (sint (ucast v :: u8)) }"

text \<open>\<^verbatim>\<open>if (((x >> n) & 1) == 1) x |= mask\<close> on an \<^verbatim>\<open>int\<close>.\<close>

definition sign_extend :: "nat \<Rightarrow> u32 \<Rightarrow> int \<Rightarrow> int" where
  "sign_extend n msk x =
     (let w = word_of_int x :: u32 in if bit w n then sint (w OR msk) else sint w)"

definition get_longitude :: "nat \<Rightarrow> u8 list \<Rightarrow> int option" where
  "get_longitude from frame = do { x \<leftarrow> int_field from 28 frame; Some (sign_extend 27 0xF0000000 x) }"

definition get_latitude :: "nat \<Rightarrow> u8 list \<Rightarrow> int option" where
  "get_latitude from frame = do { x \<leftarrow> int_field from 27 frame; Some (sign_extend 26 0xf8000000 x) }"

definition cached :: "(cache_ent spblk \<Rightarrow> cache \<Rightarrow> cache option) \<Rightarrow> world \<Rightarrow> world option" where
  "cached f w = (if cache_positions (w_cache w) \<noteq> 0 then with_cache f w else Some w)"

definition to_db :: "event \<Rightarrow> world \<Rightarrow> world" where
  "to_db e w = (if w_my w then emit e w else w)"

section \<open>Binary messages\<close>

definition appid_ifm :: "int \<Rightarrow> string" where
  "appid_ifm i =
     (if i = 0 then ''text-telegram'' else if i = 1 then ''application-ack''
      else if i = 2 then ''iai-fi-capab-interrogation'' else if i = 3 then ''iai-capabi-interrogation''
      else if i = 4 then ''capability-reply'' else if i = 11 then ''tide-weather''
      else if i = 16 then ''vts-targets'' else if i = 17 then ''ship-waypoints''
      else if i = 18 then ''advice-of-waypoints'' else if i = 19 then ''extended-ship-data''
      else if i = 20 then ''berthing-data'' else if i = 21 then ''weather-obs-report''
      else if i = 22 then ''area-notice-bc'' else if i = 23 then ''area-notice-addr''
      else if i = 24 then ''extended-ship-static'' else if i = 25 then ''dangerous-cargo-info''
      else if i = 26 then ''environmental'' else if i = 27 then ''route-info-bc''
      else if i = 28 then ''route-info-addr'' else if i = 29 then ''text-description-bc''
      else if i = 30 then ''text-description-addr'' else if i = 40 then ''persons-on-board''
      else ''unknown'')"

definition protodec_msg_40 :: "u8 list \<Rightarrow> nat \<Rightarrow> int \<Rightarrow> int \<Rightarrow> world \<Rightarrow> world option" where
  "protodec_msg_40 buf msg_start received_t mmsi w = do {
     people_on_board \<leftarrow> int_field msg_start 13 buf;
     let w = emit (Printf '' persons-on-board %d'' [PInt people_on_board]) w;
     cached (\<lambda>junk. cache_vessel_persons junk (wrap32 received_t) mmsi people_on_board) w
   }"

text \<open>
  \<^verbatim>\<open>protodec_msg_11\<close>: the running offset \<open>msg_start\<close> is only advanced by the fields that are
  read; the lines of the fields in between are comments in the source.
\<close>

definition protodec_msg_11 :: "u8 list \<Rightarrow> nat \<Rightarrow> world \<Rightarrow> world option" where
  "protodec_msg_11 buf s w = do {
     latitude \<leftarrow> int_field s 24 buf;
     let s = s + 24; longitude \<leftarrow> int_field s 25 buf;
     let s = s + 16; wind_speed \<leftarrow> int_field s 7 buf;
     let s = s + 7; wind_gust \<leftarrow> int_field s 7 buf;
     let s = s + 7; wind_dir \<leftarrow> int_field s 9 buf;
     let s = s + 9; wind_gust_dir \<leftarrow> int_field s 9 buf;
     let s = s + 9; air_temp \<leftarrow> int_field s 11 buf;
     let s = s + 11; rel_humid \<leftarrow> int_field s 7 buf;
     let s = s + 7; dew_point \<leftarrow> int_field s 10 buf;
     let s = s + 10; air_press0 \<leftarrow> int_field s 9 buf; let air_press = air_press0 + 800;
     let s = s + 9; air_press_tend \<leftarrow> int_field s 2 buf;
     let s = s + 2; horiz_visib_nm \<leftarrow> int_field s 8 buf;
     let s = s + 8; water_level \<leftarrow> int_field s 9 buf;
     let s = s + 5; wave_height_significant \<leftarrow> int_field s 8 buf;
     let s = s + 4; water_temp \<leftarrow> int_field s 10 buf;
     Some (emit (Printf '' lat %.6f lon %.6f wind_speed %dkt wind_gust %dkt wind_dir %d wind_gust_dir %d air_temp %.1fC rel_humid %d%% dew_point %.1fC pressure %d pressure_tend %d visib %.1fNM water_level %.1fm wave_height %.1fm water_temp %.1fC''
       [PDouble (f64 (f32 (of_int latitude) / 60000)), PDouble (f64 (f32 (of_int longitude) / 60000)),
        PInt wind_speed, PInt wind_gust, PInt wind_dir, PInt wind_gust_dir,
        PDouble (f64 (tenth air_temp - 60)), PInt rel_humid, PDouble (f64 (tenth dew_point - 20)),
        PInt air_press, PInt air_press_tend, PDouble (tenth horiz_visib_nm),
        PDouble (f64 (tenth water_level - 10)), PDouble (tenth wave_height_significant),
        PDouble (f64 (tenth water_temp - 10))]) w)
   }"

definition protodec_msg_bin :: "u8 list \<Rightarrow> int \<Rightarrow> nat \<Rightarrow> int \<Rightarrow> int \<Rightarrow> world \<Rightarrow> world option" where
  "protodec_msg_bin buf appid_fi msg_start received_t mmsi w =
     (if appid_fi = 11 then protodec_msg_11 buf msg_start w
      else if appid_fi = 40 then protodec_msg_40 buf msg_start received_t mmsi w
      else Some w)"

section \<open>Positions\<close>

text \<open>What class A and class B position reports do once the fields are read.\<close>

definition report_position ::
    "demod_state \<Rightarrow> int \<Rightarrow> int \<Rightarrow> int \<Rightarrow> int \<Rightarrow> int \<Rightarrow> int \<Rightarrow> int \<Rightarrow> int \<Rightarrow> int \<Rightarrow> world \<Rightarrow> (demod_state \<times> world) option" where
  "report_position d received_t mmsi latitude longitude crs sg rateofturn navst heading w = do {
     let w = emit (Printf '' lat %.6f lon %.6f course %.0f speed %.1f rateofturn %d navstat %d heading %d''
       [PDouble (deg600000 latitude), PDouble (deg600000 longitude), PDouble (tenth crs), PDouble (tenth sg),
        PInt rateofturn, PInt navst, PInt heading]) w;
     let w = to_db (Myout_ais_position received_t mmsi (f32 (deg600000 latitude)) (f32 (deg600000 longitude))
       (f32 (of_int heading)) (f32 (tenth crs)) (f32 (tenth sg))) w;
     w \<leftarrow> cached (\<lambda>junk. cache_position junk (wrap32 received_t) mmsi navst (f32 (deg600000 latitude))
       (f32 (deg600000 longitude)) heading (f32 (tenth crs)) rateofturn (f32 (tenth sg))) w;
     Some (if have_my_loc w then update_range d (f32 (deg600000 latitude)) (f32 (deg600000 longitude)) w else d, w)
   }"

definition protodec_pos :: "demod_state \<Rightarrow> int \<Rightarrow> int \<Rightarrow> world \<Rightarrow> (demod_state \<times> world) option" where
  "protodec_pos d received_t mmsi w = do {
     longitude \<leftarrow> get_longitude 61 (rbuffer d);
     latitude \<leftarrow> get_latitude (38 + 22 + 29) (rbuffer d);
     crs \<leftarrow> int_field (38 + 22 + 28 + 28) 12 (rbuffer d);
     sg \<leftarrow> int_field 50 10 (rbuffer d);
     rateofturn \<leftarrow> char_field (38 + 2) 8 (rbuffer d);
     navst \<leftarrow> char_field 38 2 (rbuffer d);
     heading \<leftarrow> int_field (38 + 22 + 28 + 28 + 12) 9 (rbuffer d);
     report_position d received_t mmsi latitude longitude crs sg rateofturn navst heading w
   }"

definition protodec_18 :: "demod_state \<Rightarrow> int \<Rightarrow> int \<Rightarrow> world \<Rightarrow> (demod_state \<times> world) option" where
  "protodec_18 d received_t mmsi w = do {
     longitude \<leftarrow> get_longitude 57 (rbuffer d);
     latitude \<leftarrow> get_latitude 85 (rbuffer d);
     crs \<leftarrow> int_field 112 12 (rbuffer d);
     sg \<leftarrow> int_field 46 10 (rbuffer d);
     heading \<leftarrow> int_field 124 9 (rbuffer d);
     report_position d received_t mmsi latitude longitude crs sg 0 15 heading w
   }"

definition protodec_4 :: "demod_state \<Rightarrow> int \<Rightarrow> int \<Rightarrow> world \<Rightarrow> (demod_state \<times> world) option" where
  "protodec_4 d received_t mmsi w = do {
     year \<leftarrow> int_field 40 12 (rbuffer d);
     month \<leftarrow> int_field 52 4 (rbuffer d);
     day \<leftarrow> int_field 56 5 (rbuffer d);
     hour \<leftarrow> int_field 61 5 (rbuffer d);
     minute \<leftarrow> int_field 66 6 (rbuffer d);
     second \<leftarrow> int_field 72 6 (rbuffer d);
     longitude \<leftarrow> get_longitude 79 (rbuffer d);
     let longit = f32 (f64 (f64 (f32 (of_int longitude) / 10000) / 60));
     latitude \<leftarrow> get_latitude 107 (rbuffer d);
     let latit = f32 (f64 (f64 (f32 (of_int latitude) / 10000) / 60));
     let w = emit (Printf '' date %ld-%ld-%ld time %02ld:%02ld:%02ld lat %.6f lon %.6f''
       [PInt year, PInt month, PInt day, PInt hour, PInt minute, PInt second, PDouble latit, PDouble longit]) w;
     let w = to_db (Myout_ais_basestation received_t mmsi (f32 (deg600000 latitude)) (f32 (deg600000 longitude))) w;
     w \<leftarrow> cached (\<lambda>junk. cache_position junk (wrap32 received_t) mmsi 0 (f32 (deg600000 latitude))
       (f32 (deg600000 longitude)) 0 0 0 0) w;
     Some (if have_my_loc w then update_range d (f32 (deg600000 latitude)) (f32 (deg600000 longitude)) w else d, w)
   }"

section \<open>Vessel data\<close>

definition protodec_5 :: "demod_state \<Rightarrow> int \<Rightarrow> int \<Rightarrow> world \<Rightarrow> world option" where
  "protodec_5 d received_t mmsi w = do {
     im \<leftarrow> int_field 40 30 (rbuffer d);
     cs \<leftarrow> sixbit_field (rbuffer d) 70 6 (local_array 7 w);
     nm \<leftarrow> sixbit_field (rbuffer d) 112 20 (local_array 21 w);
     dest \<leftarrow> sixbit_field (rbuffer d) (120 + 106 + 68 + 8) 20 (local_array 21 w);
     ty \<leftarrow> int_field 232 8 (rbuffer d);
     a \<leftarrow> int_field 240 9 (rbuffer d);
     b \<leftarrow> int_field (240 + 9) 9 (rbuffer d);
     c \<leftarrow> int_field (240 + 9 + 9) 6 (rbuffer d);
     dd \<leftarrow> int_field (240 + 9 + 9 + 6) 6 (rbuffer d);
     dr \<leftarrow> int_field 294 8 (rbuffer d);
     let w = emit (Printf '' name \"%s\" destination \"%s\" type %d length %d width %d draught %.1f''
       [PStr (c_str nm), PStr (c_str dest), PInt ty, PInt (a + b), PInt (c + dd), PDouble (tenth dr)]) w;
     let w = to_db (Myout_ais_vesseldata received_t mmsi (c_str nm) (c_str dest) (f32 (tenth dr)) a b c dd) w;
     cached (\<lambda>junk. cache_vesseldata junk (wrap32 received_t) mmsi im (c_str cs) (c_str nm) (c_str dest) ty
       a b c dd (f32 (f64 (of_int dr / 10)))) w
   }"

definition class_b_destination :: "u8 list" where
  "class_b_destination = [67, 76, 65, 83, 83, 32, 66]"

definition protodec_19 :: "demod_state \<Rightarrow> int \<Rightarrow> int \<Rightarrow> world \<Rightarrow> world option" where
  "protodec_19 d received_t mmsi w = do {
     nm \<leftarrow> sixbit_field (rbuffer d) 143 20 (local_array 21 w);
     ty \<leftarrow> int_field 263 8 (rbuffer d);
     a \<leftarrow> int_field 271 9 (rbuffer d);
     b \<leftarrow> int_field (271 + 9) 9 (rbuffer d);
     c \<leftarrow> int_field (271 + 9 + 9) 6 (rbuffer d);
     dd \<leftarrow> int_field (271 + 9 + 9 + 6) 6 (rbuffer d);
     let w = emit (Printf '' name \"%s\" type %d length %d  width %d''
       [PStr (c_str nm), PInt ty, PInt (a + b), PInt (c + dd)]) w;
     let w = to_db (Myout_ais_vesselname received_t mmsi (c_str nm) class_b_destination) w;
     let w = to_db (Myout_ais_vesseldatab received_t mmsi a b c dd) w;
     w \<leftarrow> cached (\<lambda>junk. cache_vesselname junk (wrap32 received_t) mmsi (c_str nm) class_b_destination) w;
     cached (\<lambda>junk. cache_vesseldatabb junk (wrap32 received_t) mmsi ty a b c dd) w
   }"

definition protodec_24 :: "demod_state \<Rightarrow> int \<Rightarrow> int \<Rightarrow> world \<Rightarrow> world option" where
  "protodec_24 d received_t mmsi w = do {
     partnr \<leftarrow> int_field 38 2 (rbuffer d);
     w \<leftarrow> (if partnr = 0 then do {
         nm \<leftarrow> sixbit_field (rbuffer d) 40 20 (local_array 21 w);
         let w = emit (Printf '' name \"%s\"'' [PStr (c_str nm)]) w;
         let w = to_db (Myout_ais_vesselname received_t mmsi (c_str nm) class_b_destination) w;
         cached (\<lambda>junk. cache_vesselname junk (wrap32 received_t) mmsi (c_str nm) class_b_destination) w
       } else Some w);
     if partnr = 1 then do {
       cs \<leftarrow> sixbit_field (rbuffer d) 90 6 (local_array 7 w);
       ty \<leftarrow> int_field 40 8 (rbuffer d);
       a \<leftarrow> int_field 132 9 (rbuffer d);
       b \<leftarrow> int_field (132 + 9) 9 (rbuffer d);
       c \<leftarrow> int_field (132 + 9 + 9) 6 (rbuffer d);
       dd \<leftarrow> int_field (132 + 9 + 9 + 6) 6 (rbuffer d);
       let w = emit (Printf '' callsign \"%s\" type %d length %d width %d''
         [PStr (c_str cs), PInt ty, PInt (a + b), PInt (c + dd)]) w;
       let w = to_db (Myout_ais_vesseldatab received_t mmsi a b c dd) w;
       cached (\<lambda>junk. cache_vesseldatab junk (wrap32 received_t) mmsi (c_str cs) ty a b c dd) w
     } else Some w
   }"

section \<open>Other messages\<close>

definition protodec_6 :: "demod_state \<Rightarrow> int \<Rightarrow> int \<Rightarrow> world \<Rightarrow> world option" where
  "protodec_6 d received_t mmsi w = do {
     sequence \<leftarrow> int_field 38 2 (rbuffer d);
     dst_mmsi \<leftarrow> int_field 40 30 (rbuffer d);
     retransmitted \<leftarrow> int_field 70 1 (rbuffer d);
     appid \<leftarrow> int_field 72 16 (rbuffer d);
     appid_dac \<leftarrow> int_field 72 10 (rbuffer d);
     appid_fi \<leftarrow> int_field 82 6 (rbuffer d);
     let w = emit (Printf '' dst_mmsi %09ld seq %d retransmitted %d appid %d app_dac %d app_fi %d''
       [PInt dst_mmsi, PInt sequence, PInt retransmitted, PInt appid, PInt appid_dac, PInt appid_fi]) w;
     if appid_dac = 1
     then protodec_msg_bin (rbuffer d) appid_fi 88 received_t mmsi (emit (Printf ''(%s)'' [PLit (appid_ifm appid_fi)]) w)
     else Some w
   }"

definition protodec_8 :: "demod_state \<Rightarrow> int \<Rightarrow> int \<Rightarrow> world \<Rightarrow> world option" where
  "protodec_8 d received_t mmsi w = do {
     appid \<leftarrow> int_field 40 16 (rbuffer d);
     appid_dac \<leftarrow> int_field 40 10 (rbuffer d);
     appid_fi \<leftarrow> int_field 50 6 (rbuffer d);
     let w = emit (Printf '' appid %d app_dac %d app_fi %d'' [PInt appid, PInt appid_dac, PInt appid_fi]) w;
     if appid_dac = 1
     then protodec_msg_bin (rbuffer d) appid_fi 56 received_t mmsi (emit (Printf ''(%s)'' [PLit (appid_ifm appid_fi)]) w)
     else Some w
   }"

text \<open>The loops of types 7/13 and 20; the argument counts the rounds that are left of four.\<close>

fun acks_loop :: "u8 list \<Rightarrow> nat \<Rightarrow> nat \<Rightarrow> nat \<Rightarrow> world \<Rightarrow> world option" where
  "acks_loop rb bufferlen 0 pos w = Some w"
| "acks_loop rb bufferlen (Suc n) pos w =
     (if pos + 32 \<le> bufferlen then do {
        dst_mmsi \<leftarrow> int_field pos 30 rb;
        sequence \<leftarrow> int_field (pos + 30) 2 rb;
        acks_loop rb bufferlen n (pos + 32)
          (emit (Printf '' ack %d (to %09ld seq %d)'' [PInt (4 - int n), PInt dst_mmsi, PInt sequence]) w)
      } else Some w)"

definition protodec_7_13 :: "demod_state \<Rightarrow> nat \<Rightarrow> world \<Rightarrow> world option" where
  "protodec_7_13 d bufferlen w =
     acks_loop (rbuffer d) bufferlen 4 40
       (emit (Printf '' buflen %d pos+32 %d'' [PInt (int bufferlen), PInt (40 + 32)]) w)"

fun slots_loop :: "u8 list \<Rightarrow> nat \<Rightarrow> nat \<Rightarrow> nat \<Rightarrow> world \<Rightarrow> world option" where
  "slots_loop rb bufferlen 0 pos w = Some w"
| "slots_loop rb bufferlen (Suc n) pos w =
     (if pos + 30 < bufferlen then do {
        ofs \<leftarrow> int_field pos 12 rb;
        slots \<leftarrow> int_field (pos + 12) 4 rb;
        timeout \<leftarrow> int_field (pos + 12 + 4) 3 rb;
        incr \<leftarrow> int_field (pos + 12 + 4 + 3) 11 rb;
        slots_loop rb bufferlen n (pos + 30)
          (emit (Printf '' reserve %d (ofs %d slots %d timeout %d incr %d)''
             [PInt (4 - int n), PInt ofs, PInt slots, PInt timeout, PInt incr]) w)
      } else Some w)"

definition protodec_20 :: "demod_state \<Rightarrow> nat \<Rightarrow> world \<Rightarrow> world option" where
  "protodec_20 d bufferlen w = slots_loop (rbuffer d) bufferlen 4 40 w"

end
