(* ===== verification/Reports.thy ===== *)
theory Reports
  imports Messages
begin

text \<open>
  What the message handlers do, as a function of the received bits: every handler is defined on every
  frame of 450 bits, leaves the configuration alone and changes the cache by exactly the operations
  that \<open>msg_ops\<close> lists for the message.
\<close>

section \<open>Fields of a frame\<close>

lemma int_field_eq [safe_intros]:
  "bits01 rb \<Longrightarrow> from + sz \<le> length rb \<Longrightarrow> sz \<le> 31 \<Longrightarrow> int_field from sz rb = Some (uint (field from sz rb))"
  by (simp add: int_field_def henten_field)

lemma char_field_eq [safe_intros]:
  "bits01 rb \<Longrightarrow> from + sz \<le> length rb \<Longrightarrow> sz \<le> 31 \<Longrightarrow>
     char_field from sz rb = Some (sint (ucast (field from sz rb) :: u8))"
  by (simp add: char_field_def henten_field)

text \<open>A field read as a two's complement number.\<close>

definition sfield :: "nat \<Rightarrow> nat \<Rightarrow> u8 list \<Rightarrow> int" where
  "sfield from sz rb = signed_take_bit (sz - 1) (uint (field from sz rb))"

lemma sign_extend_eq:
  assumes "n < 31" "0 \<le> x" "x < 2 ^ Suc n"
  shows "sign_extend n (NOT (mask (Suc n))) x = signed_take_bit n x"
proof (rule bit_eqI)
  fix k
  have hi: "\<not> bit x j" if "Suc n \<le> j" for j
  proof -
    have "take_bit (Suc n) x = x" using assms(2,3) by (simp add: take_bit_int_eq_self)
    then show ?thesis using that by (metis bit_take_bit_iff not_less)
  qed
  consider "k < n" | "k = n" | "Suc n \<le> k" by linarith
  then show "bit (sign_extend n (NOT (mask (Suc n))) x) k = bit (signed_take_bit n x) k"
    using assms(1) hi [of k] hi [of 31]
    by cases (auto simp: sign_extend_def Let_def bit_signed_iff bit_or_iff bit_not_iff bit_mask_iff
        bit_signed_take_bit_iff bit_word_of_int_iff min_def not_less)
qed

lemma field_uint_bound:
  assumes "from + sz \<le> length rb" "sz \<le> 31"
  shows "0 \<le> uint (field from sz rb)" "uint (field from sz rb) < 2 ^ sz"
proof -
  have "int (unat (field from sz rb)) < int (2 ^ sz)"
    using field_bound [OF assms(1)] assms(2) by (simp only: of_nat_less_iff)
  then show "uint (field from sz rb) < 2 ^ sz" by simp
qed simp

lemma sign_masks:
  "(0xF0000000 :: u32) = NOT (mask (Suc 27))" "(0xf8000000 :: u32) = NOT (mask (Suc 26))"
  by (simp_all add: mask_eq_exp_minus_1)

lemma get_position_eq [safe_intros]:
  assumes "bits01 rb"
  shows "from + 28 \<le> length rb \<Longrightarrow> get_longitude from rb = Some (sfield from 28 rb)"
    and "from + 27 \<le> length rb \<Longrightarrow> get_latitude from rb = Some (sfield from 27 rb)"
proof -
  assume a: "from + 28 \<le> length rb"
  have "sign_extend 27 0xF0000000 (uint (field from 28 rb)) = sfield from 28 rb"
    unfolding sign_masks using field_uint_bound [OF a] by (subst sign_extend_eq) (simp_all add: sfield_def)
  then show "get_longitude from rb = Some (sfield from 28 rb)"
    using assms a by (simp add: get_longitude_def int_field_eq)
next
  assume a: "from + 27 \<le> length rb"
  have "sign_extend 26 0xf8000000 (uint (field from 27 rb)) = sfield from 27 rb"
    unfolding sign_masks using field_uint_bound [OF a] by (subst sign_extend_eq) (simp_all add: sfield_def)
  then show "get_latitude from rb = Some (sfield from 27 rb)"
    using assms a by (simp add: get_latitude_def int_field_eq)
qed

lemma local_array_length [simp]: "length (local_array n w) = n"
  by (simp add: local_array_def)

text \<open>A text field is read for the string it holds.\<close>

definition sixbit_text :: "u8 list \<Rightarrow> nat \<Rightarrow> nat \<Rightarrow> u8 list" where
  "sixbit_text rb pos n = rstrip (text_field rb pos n)"

lemma sixbit_field_text:
  assumes "bits01 rb" "pos + 6 * n \<le> length rb" "length nm = Suc n"
  obtains s where "sixbit_field rb pos n nm = Some s" "c_str s = sixbit_text rb pos n"
  using sixbit_field_cstr [OF assms] unfolding sixbit_text_def by blast

section \<open>Effects on the rest of the process\<close>

definition world_ok :: "world \<Rightarrow> bool" where
  "world_ok w \<longleftrightarrow> (cache_positions (w_cache w) \<noteq> 0 \<longrightarrow> (\<exists>M. cache_rep (w_cache w) M))"

definition apply_op :: "(u32 \<rightharpoonup> cache_ent) \<Rightarrow> cache_op \<Rightarrow> (u32 \<rightharpoonup> cache_ent)" where
  "apply_op M p = M(op_key p \<mapsto> op_effect p (case M (op_key p) of None \<Rightarrow> new_ent | Some e \<Rightarrow> e))"

text \<open>
  \<open>w'\<close> is \<open>w\<close> after some output and, when the cache is in use, the cache operations \<open>ps\<close>.
\<close>

definition reported :: "cache_op list \<Rightarrow> world \<Rightarrow> world \<Rightarrow> bool" where
  "reported ps w w' \<longleftrightarrow> (\<exists>es c. w' = w\<lparr>w_out := w_out w @ es, w_cache := c\<rparr>
     \<and> cache_positions c = cache_positions (w_cache w)
     \<and> (if cache_positions c \<noteq> 0 then \<forall>M. cache_rep (w_cache w) M \<longrightarrow> cache_rep c (foldl apply_op M ps)
        else c = w_cache w))"

lemma reported_refl [simp]: "reported [] w w"
  unfolding reported_def by (rule exI [of _ "[]"], rule exI [of _ "w_cache w"]) simp

lemma reported_emit [simp]: "reported [] w (emit e w)"
  unfolding reported_def emit_def by (rule exI [of _ "[e]"], rule exI [of _ "w_cache w"]) simp

lemma reported_to_db [simp]: "reported [] w (to_db e w)"
  by (simp add: to_db_def)

lemma reported_trans:
  assumes "reported ps w w'" "reported qs w' w''"
  shows "reported (ps @ qs) w w''"
proof -
  obtain es c where c: "w' = w\<lparr>w_out := w_out w @ es, w_cache := c\<rparr>"
      "cache_positions c = cache_positions (w_cache w)"
      "if cache_positions c \<noteq> 0 then \<forall>M. cache_rep (w_cache w) M \<longrightarrow> cache_rep c (foldl apply_op M ps)
        else c = w_cache w"
    using assms(1) unfolding reported_def by blast
  obtain es' c' where c': "w'' = w'\<lparr>w_out := w_out w' @ es', w_cache := c'\<rparr>"
      "cache_positions c' = cache_positions (w_cache w')"
      "if cache_positions c' \<noteq> 0 then \<forall>M. cache_rep (w_cache w') M \<longrightarrow> cache_rep c' (foldl apply_op M qs)
        else c' = w_cache w'"
    using assms(2) unfolding reported_def by blast
  show ?thesis unfolding reported_def
    using c c' by (intro exI [of _ "es @ es'"] exI [of _ c']) (simp split: if_splits)
qed

lemma reported_ok: "world_ok w \<Longrightarrow> reported ps w w' \<Longrightarrow> world_ok w'"
  unfolding world_ok_def reported_def by (auto split: if_splits) blast

lemma reported_config:
  assumes "reported ps w w'"
  shows "w_my w' = w_my w" "have_my_loc w' = have_my_loc w" "skip_type w' = skip_type w" "w_stack w' = w_stack w"
    "w_junk w' = w_junk w" "mylat w' = mylat w" "mylng w' = mylng w" "w_libm w' = w_libm w"
    "w_clock w' = w_clock w" "w_tick w' = w_tick w"
    "cache_positions (w_cache w') = cache_positions (w_cache w)"
  using assms by (auto simp: reported_def)

lemma run_op_positions:
  assumes "run_op junk p c = Some c'" "cache_rep c M"
  shows "cache_positions c' = cache_positions c"
proof -
  obtain q fl t where s: "cache_spt c = Some q" "sp_ok (cache_mem c) fl q t"
      "\<forall>x \<in> set_tree t. snd (the (kd (cells (cache_mem c)) x)) \<noteq> None"
    using assms(2) by (auto simp: cache_rep_def sp_rep_def)
  show ?thesis
    using cache_modify_ok [OF s(2,1,3) refl, of junk "uint (op_key p)" "op_effect p"] assms(1)
    by (auto simp: run_op_modify)
qed

lemma cached_ok:
  assumes "world_ok w"
  shows "\<exists>w'. cached (\<lambda>junk. run_op junk p) w = Some w' \<and> reported [p] w w'"
proof (cases "cache_positions (w_cache w) = 0")
  case True
  then show ?thesis unfolding cached_def reported_def
    by (intro exI [of _ w]) (auto intro!: exI [of _ "[]"] exI [of _ "w_cache w"])
next
  case False
  then obtain M where M: "cache_rep (w_cache w) M" using assms by (auto simp: world_ok_def)
  have law: "\<exists>c'. run_op (w_junk w) p (w_cache w) = Some c' \<and> cache_rep c' (apply_op M p)"
    if "cache_rep (w_cache w) M" for M
    using cache_modify_law [OF that, of "w_junk w" "uint (op_key p)" "op_effect p"]
    by (simp add: run_op_modify apply_op_def word_of_int_uint)
  obtain c' where c': "run_op (w_junk w) p (w_cache w) = Some c'" using law [OF M] by blast
  have "cache_positions c' = cache_positions (w_cache w)" using run_op_positions [OF c' M] .
  moreover have "cache_rep c' (apply_op M p)" if "cache_rep (w_cache w) M" for M
    using law [OF that] c' by simp
  ultimately show ?thesis using False c'
    unfolding cached_def with_cache_def reported_def
    by (intro exI [of _ "w\<lparr>w_cache := c'\<rparr>"]) (auto intro!: exI [of _ "[]"] exI [of _ c'])
qed


lemma reported_quiet:
  "reported ps w w1 \<Longrightarrow> reported ps w (emit e w1)"
  "reported ps w w1 \<Longrightarrow> reported ps w (to_db e w1)"
  using reported_trans [of ps w w1 "[]"] by simp_all

text \<open>The outcome of a handler started in \<open>w\<close>: defined, with the cache operations \<open>ps\<close>.\<close>

definition does :: "cache_op list \<Rightarrow> world \<Rightarrow> world option \<Rightarrow> bool" where
  "does ps w r \<longleftrightarrow> (\<exists>w'. r = Some w' \<and> reported ps w w')"

lemma does_Some: "reported ps w w' \<Longrightarrow> does ps w (Some w')"
  by (simp add: does_def)

lemma does_bind: "does ps w r \<Longrightarrow> (\<And>w1. reported ps w w1 \<Longrightarrow> does qs w (f w1)) \<Longrightarrow> does qs w (Option.bind r f)"
  by (auto simp: does_def)

lemma does_cached:
  assumes "world_ok w" "reported ps w w1"
  shows "does (ps @ [p]) w (cached (\<lambda>junk. run_op junk p) w1)"
  using cached_ok [OF reported_ok [OF assms], of p] reported_trans [OF assms(2)] unfolding does_def by blast

lemma does_cache:
  assumes "world_ok w" "reported ps w w1"
  shows "does (ps @ [Position a b c d e f g h i]) w (cached (\<lambda>junk. cache_position junk a b c d e f g h i) w1)"
    "does (ps @ [Vesseldata a b c cs nm ds ty a' b' c' d' e]) w
       (cached (\<lambda>junk. cache_vesseldata junk a b c cs nm ds ty a' b' c' d' e) w1)"
    "does (ps @ [Vesseldatab a b cs c a' b' c' d']) w (cached (\<lambda>junk. cache_vesseldatab junk a b cs c a' b' c' d') w1)"
    "does (ps @ [Vesseldatabb a b c a' b' c' d']) w (cached (\<lambda>junk. cache_vesseldatabb junk a b c a' b' c' d') w1)"
    "does (ps @ [Vesselname a b nm ds]) w (cached (\<lambda>junk. cache_vesselname junk a b nm ds) w1)"
    "does (ps @ [Vessel_persons a b c]) w (cached (\<lambda>junk. cache_vessel_persons junk a b c) w1)"
  unfolding run_op.simps [symmetric] by (rule does_cached [OF assms])+

lemmas does_single = does_cache [where ps = "[]", unfolded append_Nil]

lemmas does_intros = does_Some does_single reported_quiet reported_refl

section \<open>The cache operations of a message\<close>

definition position_op :: "int \<Rightarrow> int \<Rightarrow> int \<Rightarrow> int \<Rightarrow> int \<Rightarrow> int \<Rightarrow> int \<Rightarrow> int \<Rightarrow> int \<Rightarrow> cache_op" where
  "position_op t mm ns la lo hg cr ro sg = Position (wrap32 t) mm ns (f32 (deg600000 la)) (f32 (deg600000 lo)) hg
     (f32 (tenth cr)) ro (f32 (tenth sg))"

definition bin_ops :: "u8 list \<Rightarrow> nat \<Rightarrow> nat \<Rightarrow> int \<Rightarrow> int \<Rightarrow> cache_op list" where
  "bin_ops rb app from t mm =
     (if field app 10 rb = 1 \<and> field (app + 10) 6 rb = 40
      then [Vessel_persons (wrap32 t) mm (uint (field from 13 rb))] else [])"

definition msg_ops :: "nat \<Rightarrow> u8 list \<Rightarrow> int \<Rightarrow> int \<Rightarrow> cache_op list" where
  "msg_ops ty rb t mm = (let u = \<lambda>from sz. uint (field from sz rb); txt = sixbit_text rb; rt = wrap32 t in
     if ty = 1 \<or> ty = 2 \<or> ty = 3 then
       [position_op t mm (sint (ucast (field 38 2 rb) :: u8)) (sfield 89 27 rb) (sfield 61 28 rb) (u 128 9) (u 116 12)
         (sint (ucast (field 40 8 rb) :: u8)) (u 50 10)]
     else if ty = 4 then [Position rt mm 0 (f32 (deg600000 (sfield 107 27 rb))) (f32 (deg600000 (sfield 79 28 rb))) 0 0 0 0]
     else if ty = 5 then
       [Vesseldata rt mm (u 40 30) (txt 70 6) (txt 112 20) (txt 302 20) (u 232 8) (u 240 9) (u 249 9) (u 258 6) (u 264 6)
         (f32 (f64 (of_int (u 294 8) / 10)))]
     else if ty = 6 then bin_ops rb 72 88 t mm
     else if ty = 8 then bin_ops rb 40 56 t mm
     else if ty = 18 then
       [position_op t mm 15 (sfield 85 27 rb) (sfield 57 28 rb) (u 124 9) (u 112 12) 0 (u 46 10)]
     else if ty = 19 then
       [Vesselname rt mm (txt 143 20) class_b_destination,
        Vesseldatabb rt mm (u 263 8) (u 271 9) (u 280 9) (u 289 6) (u 295 6)]
     else if ty = 24 \<and> field 38 2 rb = 0 then [Vesselname rt mm (txt 40 20) class_b_destination]
     else if ty = 24 \<and> field 38 2 rb = 1 then
       [Vesseldatab rt mm (txt 90 6) (u 40 8) (u 132 9) (u 141 9) (u 150 6) (u 156 6)]
     else [])"

definition frame_ok :: "demod_state \<Rightarrow> bool" where
  "frame_ok d \<longleftrightarrow> length (rbuffer d) = 450 \<and> bits01 (rbuffer d)"

text \<open>\<open>d'\<close> is \<open>d\<close> up to the best range.\<close>

definition same_but_range :: "demod_state \<Rightarrow> demod_state \<Rightarrow> bool" where
  "same_but_range d d' \<longleftrightarrow> (\<exists>r. d' = d\<lparr>best_range := r\<rparr>)"

lemma same_but_range_refl [simp]: "same_but_range d d"
  unfolding same_but_range_def by (rule exI [of _ "best_range d"]) simp

lemma same_but_range_upd [simp]: "same_but_range d (d\<lparr>best_range := r\<rparr>)"
  unfolding same_but_range_def by (rule exI, rule refl)

lemma update_range_same [simp]: "same_but_range d (update_range d la lo w)"
  by (simp add: update_range_def Let_def)

text \<open>A handler that also updates the best range of its channel.\<close>

definition does_d :: "cache_op list \<Rightarrow> demod_state \<Rightarrow> world \<Rightarrow> (demod_state \<times> world) option \<Rightarrow> bool" where
  "does_d ps d w r \<longleftrightarrow> (\<exists>d' w'. r = Some (d', w') \<and> reported ps w w' \<and> same_but_range d d')"

lemma does_d_Some: "reported ps w w' \<Longrightarrow> same_but_range d d' \<Longrightarrow> does_d ps d w (Some (d', w'))"
  by (simp add: does_d_def)

lemma does_d_bind:
  "does ps w r \<Longrightarrow> (\<And>w1. reported ps w w1 \<Longrightarrow> does_d qs d w (f w1)) \<Longrightarrow> does_d qs d w (Option.bind r f)"
  by (auto simp: does_def)

lemma report_position_ok:
  "world_ok w \<Longrightarrow> does_d [position_op t mm ns la lo hg cr ro sg] d w
    (report_position d t mm la lo cr sg ro ns hg w)"
  unfolding report_position_def position_op_def Let_def
  by (rule does_d_bind, rule does_single) (auto intro: does_intros does_d_Some)

lemmas field_reads = int_field_eq char_field_eq get_position_eq

lemma protodec_pos_ok:
  "frame_ok d \<Longrightarrow> world_ok w \<Longrightarrow> does_d (msg_ops 1 (rbuffer d) t mm) d w (protodec_pos d t mm w)"
  using report_position_ok [of w]
  by (simp add: protodec_pos_def frame_ok_def field_reads msg_ops_def)

lemma protodec_18_ok:
  "frame_ok d \<Longrightarrow> world_ok w \<Longrightarrow> does_d (msg_ops 18 (rbuffer d) t mm) d w (protodec_18 d t mm w)"
  using report_position_ok [of w]
  by (simp add: protodec_18_def frame_ok_def field_reads msg_ops_def)

lemma protodec_4_ok:
  "frame_ok d \<Longrightarrow> world_ok w \<Longrightarrow> does_d (msg_ops 4 (rbuffer d) t mm) d w (protodec_4 d t mm w)"
  by (simp add: protodec_4_def frame_ok_def field_reads msg_ops_def Let_def del: f32_zero f64_zero)
    (rule does_d_bind, rule does_single, auto intro: does_intros does_d_Some)

lemma sixbit_field_bind:
  assumes "bits01 rb" "pos + 6 * n \<le> length rb" "\<And>s. c_str s = sixbit_text rb pos n \<Longrightarrow> does ps w (f s)"
  shows "does ps w (Option.bind (sixbit_field rb pos n (local_array (Suc n) w')) f)"
  using sixbit_field_text [OF assms(1,2), of "local_array (Suc n) w'"] assms(3)
  by (metis bind.bind_lunit local_array_length)

lemmas text_reads = sixbit_field_bind [where n = 6, simplified] sixbit_field_bind [where n = 20, simplified]

lemma protodec_5_ok:
  "frame_ok d \<Longrightarrow> world_ok w \<Longrightarrow> does (msg_ops 5 (rbuffer d) t mm) w (protodec_5 d t mm w)"
  by (simp add: protodec_5_def frame_ok_def field_reads msg_ops_def Let_def)
    ((rule text_reads; simp)+, auto intro: does_intros)

lemma protodec_19_ok:
  "frame_ok d \<Longrightarrow> world_ok w \<Longrightarrow> does (msg_ops 19 (rbuffer d) t mm) w (protodec_19 d t mm w)"
  by (simp add: protodec_19_def frame_ok_def field_reads msg_ops_def Let_def)
    ((rule text_reads; simp), rule does_bind, rule does_single,
      auto intro: does_intros does_cache [where ps = "[_]", simplified])

lemma uint_field_eq: "uint (field from sz rb) = 0 \<longleftrightarrow> field from sz rb = 0" "uint (field from sz rb) = 1 \<longleftrightarrow> field from sz rb = 1"
    "uint (field from sz rb) = numeral k \<longleftrightarrow> uint (field from sz rb) = numeral k"
  by (simp_all add: word_uint_eq_iff)

lemma protodec_24_ok:
  "frame_ok d \<Longrightarrow> world_ok w \<Longrightarrow> does (msg_ops 24 (rbuffer d) t mm) w (protodec_24 d t mm w)"
  by (cases "field 38 2 (rbuffer d) = 0"; cases "field 38 2 (rbuffer d) = 1";
    simp add: protodec_24_def frame_ok_def field_reads msg_ops_def Let_def uint_field_eq del: Option.bind_assoc)
    ((rule text_reads; simp)?, auto intro: does_intros)+

lemma protodec_msg_bin_ok:
  assumes "bits01 rb" "length rb = 450" "s \<le> 88" "world_ok w" "reported [] w w1"
  shows "does (if fi = 40 then [Vessel_persons (wrap32 t) mm (uint (field s 13 rb))] else []) w
    (protodec_msg_bin rb fi s t mm w1)"
proof -
  have "does [Vessel_persons (wrap32 t) mm (uint (field s 13 rb))] w (protodec_msg_40 rb s t mm w1)"
    using assms by (simp add: protodec_msg_40_def field_reads) (auto intro: does_intros)
  moreover have "does [] w (protodec_msg_11 rb s w1)"
    using assms by (simp add: protodec_msg_11_def field_reads) (auto intro: does_intros)
  ultimately show ?thesis using assms(5) by (simp add: protodec_msg_bin_def does_Some)
qed

lemma bin_ops_if:
  "bin_ops rb app from t mm = (if uint (field app 10 rb) = 1
     then (if uint (field (app + 10) 6 rb) = 40 then [Vessel_persons (wrap32 t) mm (uint (field from 13 rb))] else [])
     else [])"
  by (simp add: bin_ops_def word_uint_eq_iff)

lemma protodec_6_ok:
  "frame_ok d \<Longrightarrow> world_ok w \<Longrightarrow> does (msg_ops 6 (rbuffer d) t mm) w (protodec_6 d t mm w)"
  by (cases "uint (field 72 10 (rbuffer d)) = 1")
    (auto simp: protodec_6_def frame_ok_def field_reads msg_ops_def Let_def bin_ops_if
      intro!: does_intros protodec_msg_bin_ok split del: if_split)

lemma protodec_8_ok:
  "frame_ok d \<Longrightarrow> world_ok w \<Longrightarrow> does (msg_ops 8 (rbuffer d) t mm) w (protodec_8 d t mm w)"
  by (cases "uint (field 40 10 (rbuffer d)) = 1")
    (auto simp: protodec_8_def frame_ok_def field_reads msg_ops_def Let_def bin_ops_if
      intro!: does_intros protodec_msg_bin_ok split del: if_split)

lemma acks_loop_ok:
  "frame_ok d \<Longrightarrow> bufferlen \<le> 450 \<Longrightarrow> reported [] w w1 \<Longrightarrow> does [] w (acks_loop (rbuffer d) bufferlen n pos w1)"
  by (induction n arbitrary: pos w1) (auto simp: frame_ok_def field_reads intro!: does_intros)

lemma slots_loop_ok:
  "frame_ok d \<Longrightarrow> bufferlen \<le> 450 \<Longrightarrow> reported [] w w1 \<Longrightarrow> does [] w (slots_loop (rbuffer d) bufferlen n pos w1)"
  by (induction n arbitrary: pos w1) (auto simp: frame_ok_def field_reads intro!: does_intros)

lemma idle_world_ok: "world_ok idle_world"
  using cache_init_rep [of cache0 "[]"] unfolding world_ok_def idle_world_def by (auto simp: heap_ok_def cache0_def)

end
