(* ===== verification/Ais_Encode.thy ===== *)
theory Ais_Encode
  imports Reports
begin

text \<open>
  Messages as a transmitter builds them (ITU-R M.1371): a list of fields, each a width and a number.
  The handlers recover the position, the course and the texts of the messages they are sent.
\<close>

section \<open>Lists of fields\<close>

definition enc_fields :: "(nat \<times> nat) list \<Rightarrow> u8 list" where
  "enc_fields fs = concat (map (\<lambda>(sz, x). enc_bits sz x) fs)"

lemma enc_fields_simps [simp]:
  "enc_fields [] = []"
  "enc_fields (f # fs) = enc_bits (fst f) (snd f) @ enc_fields fs"
  "enc_fields (fs @ gs) = enc_fields fs @ enc_fields gs"
  by (simp_all add: enc_fields_def split_beta)

definition width :: "(nat \<times> nat) list \<Rightarrow> nat" where
  "width fs = sum_list (map fst fs)"

lemma width_simps [simp]: "width [] = 0" "width (f # fs) = fst f + width fs" "width (fs @ gs) = width fs + width gs"
  by (simp_all add: width_def)

lemma enc_fields_length [simp]: "length (enc_fields fs) = width fs"
  by (induction fs) simp_all

lemma bits01_enc_fields [simp]: "bits01 (enc_fields fs)"
  by (induction fs) simp_all

text \<open>The number at the head of the fields that start at bit \<open>from\<close>.\<close>

fun field_at :: "nat \<Rightarrow> (nat \<times> nat) list \<Rightarrow> (nat \<times> nat) option" where
  "field_at from [] = None"
| "field_at from (f # fs) = (if from = 0 then Some f else if fst f \<le> from then field_at (from - fst f) fs else None)"

lemma field_atE:
  assumes "field_at from fs = Some f"
  obtains as bs where "fs = as @ f # bs" "width as = from"
  using assms
proof (induction "from" fs arbitrary: thesis rule: field_at.induct)
  case (2 "from" g fs)
  show ?case
  proof (cases "from = 0")
    case True
    then show ?thesis using 2(2) [of "[]"] 2(3) by simp
  next
    case False
    then have g: "fst g \<le> from" "field_at (from - fst g) fs = Some f" using 2(3) by (auto split: if_splits)
    obtain as bs where "fs = as @ f # bs" "width as = from - fst g" using 2(1) [OF False g(1) _ g(2)] by blast
    then show ?thesis using 2(2) [of "g # as" bs] g(1) by simp
  qed
qed simp

lemma field_enc_fields:
  assumes "field_at from fs = Some (sz, x)" "x < 2 ^ sz" "sz \<le> 31"
  shows "field from sz (enc_fields fs @ post) = of_nat x"
proof -
  obtain as bs where f: "fs = as @ (sz, x) # bs" "width as = from" using assms(1) by (rule field_atE)
  show ?thesis using field_enc_bits [OF assms(2,3), of "enc_fields as" "enc_fields bs @ post"] f by simp
qed

lemma uint_field_enc:
  assumes "field_at from fs = Some (sz, x)" "x < 2 ^ sz" "sz \<le> 31"
  shows "uint (field from sz (enc_fields fs @ post)) = int x"
proof -
  have "x < 2 ^ 31" using assms(2,3) power_increasing [of sz 31 "2 :: nat"] by simp
  then show ?thesis using field_enc_fields [OF assms] by (simp add: unsigned_of_nat take_bit_nat_eq_self)
qed

text \<open>A signed number as the number that its two's complement bits denote.\<close>

definition twos :: "nat \<Rightarrow> int \<Rightarrow> nat" where
  "twos sz x = nat (take_bit sz x)"

lemma twos_bound: "twos sz x < 2 ^ sz"
  using take_bit_int_less_exp [of sz x] by (simp add: twos_def nat_less_iff)

lemma sfield_enc:
  assumes "field_at from fs = Some (sz, twos sz x)" "sz \<le> 31" "- (2 ^ (sz - 1)) \<le> x" "x < 2 ^ (sz - 1)" "0 < sz"
  shows "sfield from sz (enc_fields fs @ post) = x"
proof -
  have "uint (field from sz (enc_fields fs @ post)) = take_bit sz x"
    using uint_field_enc [OF assms(1) twos_bound assms(2)] by (simp add: twos_def)
  moreover have "signed_take_bit (sz - 1) (take_bit sz x) = x"
    using assms(3-5) signed_take_bit_int_eq_self [of "sz - 1" x] diff_Suc_less [OF assms(5), of 0]
    by (simp add: signed_take_bit_take_bit)
  ultimately show ?thesis by (simp add: sfield_def)
qed

text \<open>Splitting and joining fields.\<close>

lemma enc_bits_split:
  "enc_bits (a + b) x = enc_bits a (x div 2 ^ b) @ enc_bits b (x mod 2 ^ b)"
proof (rule nth_equalityI)
  fix i assume "i < length (enc_bits (a + b) x)"
  then have i: "i < a + b" by simp
  show "enc_bits (a + b) x ! i = (enc_bits a (x div 2 ^ b) @ enc_bits b (x mod 2 ^ b)) ! i"
  proof (cases "i < a")
    case True
    then have "b + (a - Suc i) = a + b - Suc i" by simp
    then show ?thesis using True
      by (simp add: enc_bits_def nth_append bit_drop_bit_eq flip: drop_bit_eq_div del: upt_Suc)
  next
    case False
    then have "b - Suc (i - a) = a + b - Suc i" "b - Suc (i - a) < b" using i by simp_all
    then show ?thesis using False i
      by (simp add: enc_bits_def nth_append bit_take_bit_iff flip: take_bit_eq_mod del: upt_Suc)
  qed
qed simp

section \<open>Texts\<close>

definition text_fields :: "nat \<Rightarrow> u8 list \<Rightarrow> (nat \<times> nat) list" where
  "text_fields n s = map (\<lambda>c. (6, sixbit_code c)) s @ replicate (n - length s) (6, 0)"

definition sendable :: "nat \<Rightarrow> u8 list \<Rightarrow> bool" where
  "sendable n s \<longleftrightarrow> (\<forall>c \<in> set s. sixbit_printable c) \<and> (s = [] \<or> List.last s \<noteq> 32) \<and> length s \<le> n"

lemma enc_text_fields: "enc_fields (text_fields n s) = enc_text s @ replicate (6 * (n - length s)) 0"
proof -
  have "enc_fields (map (\<lambda>c. (6, sixbit_code c)) s) = enc_text s" by (induction s) simp_all
  moreover have "enc_fields (replicate k (6, 0)) = replicate (6 * k) 0" for k
    by (induction k) (simp_all add: enc_bits_def numeral_eq_Suc)
  ultimately show ?thesis by (simp add: text_fields_def)
qed

lemma text_fields_width [simp]: "length s \<le> n \<Longrightarrow> width (text_fields n s) = 6 * n"
  using arg_cong [OF enc_text_fields, of length n s] by (simp add: algebra_simps)

lemma sixbit_text_enc:
  assumes "sendable n s" "width as = pos"
  shows "sixbit_text (enc_fields (as @ text_fields n s @ bs) @ post) pos n = s"
  using text_field_padded [of s n "enc_fields as" "enc_fields bs @ post"] assms
  by (simp add: sixbit_text_def enc_text_fields sendable_def)

section \<open>Accuracy of positions\<close>

lemma deg64_error:
  assumes "\<bar>i\<bar> \<le> 108000000"
  shows "\<bar>deg600000 i - of_int i / 600000\<bar> \<le> 1 / 131072" and "\<bar>deg600000 i\<bar> < 256"
proof -
  define x a b :: rat where "x = of_int i" and "a = f32 x" and "b = f64 (a / 600000)"
  have x: "\<bar>x\<bar> \<le> 108000000" using assms unfolding x_def by (simp flip: of_int_abs)
  have "\<bar>a - x\<bar> \<le> 2 powi (27 - 24) / 2" unfolding a_def using x by (intro f32_error) (simp_all add: power_int_def)
  then have a: "\<bar>a - x\<bar> \<le> 4" by (simp add: power_int_def)
  then have a': "\<bar>a / 600000\<bar> < 181" using x by (simp add: abs_le_iff abs_less_iff)
  then have "\<bar>b - a / 600000\<bar> \<le> 2 powi (8 - 53) / 2"
    unfolding b_def by (intro f64_error) (simp_all add: power_int_def)
  then have b: "\<bar>b - a / 600000\<bar> \<le> 1 / 1000000000" by (simp add: power_int_def power_divide)
  have "a / 600000 \<le> x / 600000 + 4 / 600000" "x / 600000 \<le> a / 600000 + 4 / 600000"
    using a by (simp_all add: abs_le_iff field_simps)
  then have "\<bar>b - x / 600000\<bar> \<le> 1 / 131072" "\<bar>b\<bar> < 256" using b a' by linarith+
  then show "\<bar>deg600000 i - of_int i / 600000\<bar> \<le> 1 / 131072" "\<bar>deg600000 i\<bar> < 256"
    by (simp_all add: deg600000_def a_def b_def x_def)
qed

lemma deg_error:
  assumes "\<bar>i\<bar> \<le> 108000000"
  shows "\<bar>f32 (deg600000 i) - of_int i / 600000\<bar> \<le> 1 / 65536"
proof -
  have "\<bar>deg600000 i\<bar> < 2 powi 8" using deg64_error(2) [OF assms] by (simp add: power_int_def)
  then have "\<bar>f32 (deg600000 i) - deg600000 i\<bar> \<le> 2 powi (8 - 24) / 2" by (intro f32_error) simp_all
  then have "\<bar>f32 (deg600000 i) - deg600000 i\<bar> \<le> 1 / 131072" by (simp add: power_int_def power_divide)
  then show ?thesis using deg64_error(1) [OF assms] by linarith
qed

lemma tenth_error:
  assumes "\<bar>i\<bar> \<le> 4095"
  shows "\<bar>f32 (tenth i) - of_int i / 10\<bar> \<le> 1 / 65535"
proof -
  define x b :: rat where "x = of_int i" and "b = f64 (x / 10)"
  have x: "\<bar>x\<bar> \<le> 4095" using assms unfolding x_def by (simp flip: of_int_abs)
  have e: "f32 x = x" unfolding x_def using assms by (intro f32_of_int) simp
  have "\<bar>b - x / 10\<bar> \<le> 2 powi (9 - 53) / 2"
    unfolding b_def using x by (intro f64_error) (simp_all add: power_int_def)
  then have b: "\<bar>b - x / 10\<bar> \<le> 1 / 10000000000" by (simp add: power_int_def power_divide)
  then have "\<bar>b\<bar> < 512" using x by linarith
  then have "\<bar>b\<bar> < 2 powi 9" by (simp add: power_int_def)
  then have "\<bar>f32 b - b\<bar> \<le> 2 powi (9 - 24) / 2" by (intro f32_error) simp_all
  then have c: "\<bar>f32 b - b\<bar> \<le> 1 / 65536" by (simp add: power_int_def power_divide)
  then have "\<bar>f32 b - x / 10\<bar> \<le> 1 / 65535" using b by linarith
  then show ?thesis using e by (simp add: tenth_def b_def x_def)
qed

section \<open>Position reports\<close>

record pos_report =
  pr_type :: nat
  pr_repeat :: nat
  pr_mmsi :: nat
  pr_navstat :: nat
  pr_rot :: nat
  pr_sog :: nat
  pr_accuracy :: nat
  pr_lon :: int
  pr_lat :: int
  pr_cog :: nat
  pr_heading :: nat
  pr_rest :: nat

definition pos_report_ok :: "pos_report \<Rightarrow> bool" where
  "pos_report_ok r \<longleftrightarrow> pr_type r \<in> {1, 2, 3} \<and> pr_mmsi r < 2 ^ 30 \<and> pr_navstat r < 16 \<and> pr_rot r < 256
     \<and> pr_sog r < 1024 \<and> \<bar>pr_lon r\<bar> \<le> 108000000 \<and> \<bar>pr_lat r\<bar> \<le> 54000000 \<and> pr_cog r < 4096 \<and> pr_heading r < 512"

text \<open>The 168 bits of a position report; the rate of turn is given by its eight bits.\<close>

definition pos_fields :: "pos_report \<Rightarrow> (nat \<times> nat) list" where
  "pos_fields r = [(6, pr_type r), (2, pr_repeat r), (30, pr_mmsi r), (4, pr_navstat r), (8, pr_rot r), (10, pr_sog r),
     (1, pr_accuracy r), (28, twos 28 (pr_lon r)), (27, twos 27 (pr_lat r)), (12, pr_cog r), (9, pr_heading r),
     (31, pr_rest r)]"

text \<open>The same bits with the field boundaries that \<^verbatim>\<open>protodec_pos\<close> assumes.\<close>

definition pos_fields_read :: "pos_report \<Rightarrow> (nat \<times> nat) list" where
  "pos_fields_read r = [(6, pr_type r), (2, pr_repeat r), (30, pr_mmsi r), (2, pr_navstat r div 4),
     (8, pr_navstat r mod 4 * 64 + pr_rot r div 4), (2, pr_rot r mod 4), (10, pr_sog r),
     (1, pr_accuracy r), (28, twos 28 (pr_lon r)), (27, twos 27 (pr_lat r)), (12, pr_cog r), (9, pr_heading r),
     (31, pr_rest r)]"

lemma pos_fields_regroup:
  assumes "pr_rot r < 256"
  shows "enc_fields (pos_fields r) = enc_fields (pos_fields_read r)"
proof -
  let ?n = "pr_navstat r" and ?r = "pr_rot r"
  let ?x = "?n mod 4 * 64 + ?r div 4"
  have "?r div 4 < 64" using assms by (simp add: less_mult_imp_div_less)
  then have x: "?x div 2 ^ 6 = ?n mod 4" "?x mod 2 ^ 6 = ?r div 4" by simp_all
  have "enc_bits 4 ?n @ enc_bits 8 ?r
      = (enc_bits 2 (?n div 4) @ enc_bits 2 (?n mod 4)) @ enc_bits 6 (?r div 4) @ enc_bits 2 (?r mod 4)"
    using enc_bits_split [of 2 2 ?n] enc_bits_split [of 6 2 ?r] by simp
  also have "\<dots> = enc_bits 2 (?n div 4) @ enc_bits 8 ?x @ enc_bits 2 (?r mod 4)"
    using enc_bits_split [of 2 6 ?x] unfolding x by simp
  finally show ?thesis by (simp add: pos_fields_def pos_fields_read_def)
qed

lemma small_char:
  assumes "n < 128"
  shows "sint (ucast (of_nat n :: u64) :: u8) = int n"
proof -
  have "ucast (of_nat n :: u64) = (of_nat n :: u8)" by (rule bit_word_eqI) (simp add: bit_ucast_iff bit_of_nat_iff)
  moreover have "signed_take_bit 7 (int n) = int n" using assms by (intro signed_take_bit_int_eq_self) simp_all
  ultimately show ?thesis by (simp add: signed_of_nat)
qed

lemma pos_report_ops:
  assumes "pos_report_ok r"
  shows "msg_ops 1 (enc_fields (pos_fields r) @ post) t mm
    = [position_op t mm (int (pr_navstat r div 4)) (pr_lat r) (pr_lon r) (int (pr_heading r)) (int (pr_cog r))
        (sint (ucast (field 40 8 (enc_fields (pos_fields r) @ post)) :: u8)) (int (pr_sog r))]"
proof -
  let ?f = "pos_fields_read r"
  have e: "enc_fields (pos_fields r) = enc_fields ?f"
    using assms by (intro pos_fields_regroup) (simp add: pos_report_ok_def)
  have "field 38 2 (enc_fields ?f @ post) = of_nat (pr_navstat r div 4)"
    using assms by (intro field_enc_fields) (auto simp: pos_fields_read_def pos_report_ok_def)
  then have ns: "sint (ucast (field 38 2 (enc_fields ?f @ post)) :: u8) = int (pr_navstat r div 4)"
    using small_char [of "pr_navstat r div 4"] assms
    by (simp add: pos_report_ok_def less_mult_imp_div_less del: of_nat_div)
  have "sfield 89 27 (enc_fields ?f @ post) = pr_lat r" "sfield 61 28 (enc_fields ?f @ post) = pr_lon r"
    using assms by (intro sfield_enc; auto simp: pos_fields_read_def pos_report_ok_def)+
  moreover have "uint (field 128 9 (enc_fields ?f @ post)) = int (pr_heading r)"
      "uint (field 116 12 (enc_fields ?f @ post)) = int (pr_cog r)"
      "uint (field 50 10 (enc_fields ?f @ post)) = int (pr_sog r)"
    using assms by (intro uint_field_enc; auto simp: pos_fields_read_def pos_report_ok_def)+
  ultimately show ?thesis unfolding e msg_ops_def Let_def using ns by simp
qed

text \<open>
  C11. Position reports. When the received frame starts with a class A position report (types 1, 2, 3) of a position
  on earth, the handler is defined and, if the cache is in use, gives the entry of the ship exactly one
  update: the heading as sent, the latitude and longitude within 1/65536 degree (less than two metres) of
  what was sent, course and speed within 1/65535 of a degree and a knot. The navigational
  status is not what was sent: only its two high bits are read.
\<close>

theorem position_report:
  assumes "pos_report_ok r" "rbuffer d = enc_fields (pos_fields r) @ post" "frame_ok d" "world_ok w"
  shows "\<exists>d' w' la lo cr ro sg. protodec_pos d t (int (pr_mmsi r)) w = Some (d', w')
    \<and> reported [Position (wrap32 t) (int (pr_mmsi r)) (int (pr_navstat r div 4)) la lo (int (pr_heading r)) cr ro sg] w w'
    \<and> \<bar>la - of_int (pr_lat r) / 600000\<bar> \<le> 1 / 65536 \<and> \<bar>lo - of_int (pr_lon r) / 600000\<bar> \<le> 1 / 65536
    \<and> \<bar>cr - of_nat (pr_cog r) / 10\<bar> \<le> 1 / 65535 \<and> \<bar>sg - of_nat (pr_sog r) / 10\<bar> \<le> 1 / 65535"
proof -
  have e: "\<bar>f32 (deg600000 (pr_lat r)) - of_int (pr_lat r) / 600000\<bar> \<le> 1 / 65536"
      "\<bar>f32 (deg600000 (pr_lon r)) - of_int (pr_lon r) / 600000\<bar> \<le> 1 / 65536"
    using assms(1) by (intro deg_error; simp add: pos_report_ok_def)+
  have e': "\<bar>f32 (tenth (int (pr_cog r))) - of_nat (pr_cog r) / 10\<bar> \<le> 1 / 65535"
      "\<bar>f32 (tenth (int (pr_sog r))) - of_nat (pr_sog r) / 10\<bar> \<le> 1 / 65535"
    using assms(1) tenth_error [of "int (pr_cog r)"] tenth_error [of "int (pr_sog r)"]
    by (simp_all add: pos_report_ok_def)
  have "does_d (msg_ops 1 (rbuffer d) t (int (pr_mmsi r))) d w (protodec_pos d t (int (pr_mmsi r)) w)"
    by (rule protodec_pos_ok [OF assms(3,4)])
  then show ?thesis using e e'
    unfolding assms(2) pos_report_ops [OF assms(1)] does_d_def position_op_def by blast
qed

definition report0 :: pos_report where
  "report0 = \<lparr>pr_type = 1, pr_repeat = 0, pr_mmsi = 257123000, pr_navstat = 5, pr_rot = 128, pr_sog = 123,
     pr_accuracy = 1, pr_lon = 6240000, pr_lat = 35940000, pr_cog = 2710, pr_heading = 268, pr_rest = 0\<rparr>"

theorem position_report_witness:
  "\<exists>d' w' la lo cr ro sg. protodec_pos (idle_demod\<lparr>rbuffer := enc_fields (pos_fields report0) @ replicate 282 0\<rparr>)
      1300000000 257123000 idle_world = Some (d', w')
    \<and> reported [Position 1300000000 257123000 1 la lo 268 cr ro sg] idle_world w'
    \<and> \<bar>la - 35940000 / 600000\<bar> \<le> 1 / 65536 \<and> \<bar>lo - 6240000 / 600000\<bar> \<le> 1 / 65536
    \<and> \<bar>cr - 271\<bar> \<le> 1 / 65535 \<and> \<bar>sg - 123 / 10\<bar> \<le> 1 / 65535"
proof -
  let ?d = "idle_demod\<lparr>rbuffer := enc_fields (pos_fields report0) @ replicate 282 0\<rparr>"
  have r: "pos_report_ok report0" by (simp add: report0_def pos_report_ok_def)
  have d: "frame_ok ?d" by (simp add: frame_ok_def pos_fields_def)
  have b: "rbuffer ?d = enc_fields (pos_fields report0) @ replicate 282 0" by simp
  show ?thesis
    using position_report [OF r b d idle_world_ok, where t = 1300000000]
    by (simp add: report0_def)
qed

section \<open>Static and voyage related data\<close>

record static_report =
  sr_repeat :: nat
  sr_mmsi :: nat
  sr_version :: nat
  sr_imo :: nat
  sr_callsign :: "u8 list"
  sr_name :: "u8 list"
  sr_shiptype :: nat
  sr_A :: nat
  sr_B :: nat
  sr_C :: nat
  sr_D :: nat
  sr_epfd :: nat
  sr_eta :: nat
  sr_draught :: nat
  sr_destination :: "u8 list"

definition static_report_ok :: "static_report \<Rightarrow> bool" where
  "static_report_ok r \<longleftrightarrow> sr_mmsi r < 2 ^ 30 \<and> sr_imo r < 2 ^ 30 \<and> sendable 7 (sr_callsign r) \<and> 32 \<notin> set (sr_callsign r)
     \<and> sendable 20 (sr_name r) \<and> sendable 20 (sr_destination r) \<and> sr_shiptype r < 256 \<and> sr_A r < 512 \<and> sr_B r < 512
     \<and> sr_C r < 64 \<and> sr_D r < 64 \<and> sr_draught r < 256"

text \<open>The 424 bits of message 5.\<close>

definition static_fields :: "static_report \<Rightarrow> (nat \<times> nat) list" where
  "static_fields r = [(6, 5), (2, sr_repeat r), (30, sr_mmsi r), (2, sr_version r), (30, sr_imo r)]
     @ text_fields 7 (sr_callsign r) @ text_fields 20 (sr_name r)
     @ [(8, sr_shiptype r), (9, sr_A r), (9, sr_B r), (6, sr_C r), (6, sr_D r), (4, sr_epfd r), (20, sr_eta r),
        (8, sr_draught r)] @ text_fields 20 (sr_destination r) @ [(2, 0)]"

lemma field_at_append: "field_at from fs = Some f \<Longrightarrow> field_at from (fs @ gs) = Some f"
  by (induction "from" fs rule: field_at.induct) (auto split: if_splits)

lemma field_enc_after:
  assumes "width as \<le> from" "field_at (from - width as) bs = Some (sz, x)" "x < 2 ^ sz" "sz \<le> 31"
  shows "uint (field from sz (enc_fields (as @ bs) @ post)) = int x"
proof -
  obtain cs ds where b: "bs = cs @ (sz, x) # ds" "width cs = from - width as" using assms(2) by (rule field_atE)
  have "field (length (enc_fields (as @ cs))) sz (enc_fields (as @ cs) @ enc_bits sz x @ (enc_fields ds @ post)) = of_nat x"
    using assms(3,4) by (rule field_enc_bits)
  then have "field from sz (enc_fields (as @ bs) @ post) = of_nat x" using b assms(1) by simp
  moreover have "x < 2 ^ 31" using assms(3,4) power_increasing [of sz 31 "2 :: nat"] by simp
  ultimately show ?thesis by (simp add: unsigned_of_nat take_bit_nat_eq_self)
qed

text \<open>The six letters read of a call sign of up to seven.\<close>

lemma text_fields_take:
  assumes "length s \<le> Suc n"
  shows "\<exists>x. text_fields (Suc n) s = text_fields n (take n s) @ [(6, x)]"
proof (cases "length s \<le> n")
  case True
  then show ?thesis by (auto simp: text_fields_def Suc_diff_le simp flip: replicate_append_same)
next
  case False
  then have "s = take n s @ [s ! n]" using assms take_Suc_conv_app_nth [of n s] by simp
  then have "map (\<lambda>c. (6 :: nat, sixbit_code c)) s = map (\<lambda>c. (6, sixbit_code c)) (take n s) @ [(6, sixbit_code (s ! n))]"
    by (metis list.simps(8,9) map_append)
  then show ?thesis using False assms by (simp add: text_fields_def)
qed

lemma static_report_ops:
  assumes "static_report_ok r"
  shows "msg_ops 5 (enc_fields (static_fields r) @ post) t mm
    = [Vesseldata (wrap32 t) mm (int (sr_imo r)) (take 6 (sr_callsign r)) (sr_name r) (sr_destination r)
        (int (sr_shiptype r)) (int (sr_A r)) (int (sr_B r)) (int (sr_C r)) (int (sr_D r))
        (f32 (f64 (of_nat (sr_draught r) / 10)))]"
proof -
  define hd :: "(nat \<times> nat) list" where "hd = [(6, 5), (2, sr_repeat r), (30, sr_mmsi r), (2, sr_version r), (30, sr_imo r)]"
  define md :: "(nat \<times> nat) list" where "md = [(8, sr_shiptype r), (9, sr_A r), (9, sr_B r), (6, sr_C r), (6, sr_D r), (4, sr_epfd r),
    (20, sr_eta r), (8, sr_draught r)]"
  let ?cs = "text_fields 7 (sr_callsign r)" and ?nm = "text_fields 20 (sr_name r)"
    and ?ds = "text_fields 20 (sr_destination r)"
  have f: "static_fields r = hd @ ?cs @ ?nm @ md @ ?ds @ [(2, 0)]" by (simp add: static_fields_def hd_def md_def)
  let ?rb = "enc_fields (static_fields r) @ post"
  have w: "width hd = 70" "width md = 70" "width ?cs = 42" "width ?nm = 120" "width ?ds = 120"
    using assms by (simp_all add: hd_def md_def static_report_ok_def sendable_def)
  obtain x where x: "?cs = text_fields 6 (take 6 (sr_callsign r)) @ [(6, x)]"
    using text_fields_take [of "sr_callsign r" 6] assms by (auto simp: static_report_ok_def sendable_def)
  have "List.last (take 6 (sr_callsign r)) \<noteq> 32" if "take 6 (sr_callsign r) \<noteq> []"
    using assms last_in_set [OF that] unfolding static_report_ok_def by (metis in_set_takeD)
  moreover have "\<forall>c \<in> set (take 6 (sr_callsign r)). sixbit_printable c"
    using assms unfolding static_report_ok_def sendable_def by (metis in_set_takeD)
  ultimately have "sendable 6 (take 6 (sr_callsign r))" unfolding sendable_def by auto
  then have "sixbit_text ?rb 70 6 = take 6 (sr_callsign r)"
    using sixbit_text_enc [of 6 _ hd 70 "[(6, x)] @ ?nm @ md @ ?ds @ [(2, 0)]" post] w unfolding f x by simp
  moreover have "sixbit_text ?rb 112 20 = sr_name r"
    using sixbit_text_enc [of 20 "sr_name r" "hd @ ?cs" 112 "md @ ?ds @ [(2, 0)]" post] assms w unfolding f
    by (simp add: static_report_ok_def)
  moreover have "sixbit_text ?rb 302 20 = sr_destination r"
    using sixbit_text_enc [of 20 "sr_destination r" "hd @ ?cs @ ?nm @ md" 302 "[(2, 0)]" post] assms w unfolding f
    by (simp add: static_report_ok_def)
  moreover have "uint (field 40 30 ?rb) = int (sr_imo r)"
    using assms unfolding f by (intro uint_field_enc) (simp_all add: hd_def static_report_ok_def)
  moreover have "uint (field from sz ?rb) = int x"
    if "field_at (from - 232) md = Some (sz, x)" "232 \<le> from" "from < 302" "x < 2 ^ sz" "sz \<le> 31" for "from" sz x
  proof -
    have "field_at (from - 232) (md @ ?ds @ [(2, 0)]) = Some (sz, x)"
      using that(1) by (rule field_at_append)
    then show ?thesis
      using field_enc_after [of "hd @ ?cs @ ?nm" "from" "md @ ?ds @ [(2, 0)]" sz x post] that(2-5) w unfolding f by simp
  qed
  note this [of 232 8 "sr_shiptype r"] this [of 240 9 "sr_A r"] this [of 249 9 "sr_B r"] this [of 258 6 "sr_C r"]
    this [of 264 6 "sr_D r"] this [of 294 8 "sr_draught r"]
  ultimately show ?thesis using assms
    unfolding msg_ops_def Let_def by (simp add: md_def static_report_ok_def)
qed

text \<open>
  C13. Static and voyage related data. When the received frame starts with message 5, the handler is defined and, if the cache
  is in use, gives the ship's entry the IMO number, name, destination, ship type and dimensions
  that were sent and the draught as the nearest \<^verbatim>\<open>float\<close>. Of the call sign, which has up to seven characters and is
  sent without blanks in it (trailing ones of what is kept are cut off), only the first six are kept.
\<close>

theorem static_report:
  assumes "static_report_ok r" "rbuffer d = enc_fields (static_fields r) @ post" "frame_ok d" "world_ok w"
  shows "\<exists>w'. protodec_5 d t (int (sr_mmsi r)) w = Some w'
    \<and> reported [Vesseldata (wrap32 t) (int (sr_mmsi r)) (int (sr_imo r)) (take 6 (sr_callsign r)) (sr_name r)
        (sr_destination r) (int (sr_shiptype r)) (int (sr_A r)) (int (sr_B r)) (int (sr_C r)) (int (sr_D r))
        (f32 (f64 (of_nat (sr_draught r) / 10)))] w w'"
  using protodec_5_ok [OF assms(3,4), of t "int (sr_mmsi r)"]
  unfolding assms(2) static_report_ops [OF assms(1)] does_def .

definition static0 :: static_report where
  "static0 = \<lparr>sr_repeat = 0, sr_mmsi = 257123000, sr_version = 0, sr_imo = 9074729, sr_callsign = [76, 65, 50, 51, 52, 53, 54],
     sr_name = [70, 82, 65, 77, 32, 73, 73], sr_shiptype = 70, sr_A = 100, sr_B = 20, sr_C = 8, sr_D = 9,
     sr_epfd = 1, sr_eta = 0, sr_draught = 71, sr_destination = [79, 83, 76, 79]\<rparr>"

theorem static_report_witness:
  "\<exists>w'. protodec_5 (idle_demod\<lparr>rbuffer := enc_fields (static_fields static0) @ replicate 26 0\<rparr>)
      1300000000 257123000 idle_world = Some w'
    \<and> reported [Vesseldata 1300000000 257123000 9074729 [76, 65, 50, 51, 52, 53] [70, 82, 65, 77, 32, 73, 73]
        [79, 83, 76, 79] 70 100 20 8 9 (f32 (f64 (71 / 10)))] idle_world w'"
proof -
  let ?d = "idle_demod\<lparr>rbuffer := enc_fields (static_fields static0) @ replicate 26 0\<rparr>"
  have r: "static_report_ok static0"
    by (simp add: static0_def static_report_ok_def sendable_def sixbit_printable_def)
  have "width (static_fields static0) = 424" by (simp add: static_fields_def static0_def)
  then have d: "frame_ok ?d" by (simp add: frame_ok_def)
  have b: "rbuffer ?d = enc_fields (static_fields static0) @ replicate 26 0" by simp
  show ?thesis
    using static_report [OF r b d idle_world_ok, where t = 1300000000] by (simp add: static0_def)
qed

end
