(* ===== verification/Sdlc_Crc.thy ===== *)
theory Sdlc_Crc
  imports Prelude
begin

text \<open>
  The frame check sequence of protodec.c (\<^verbatim>\<open>protodec_sdlc_crc\<close>): the reflected CRC-16/X.25
  with generator 0x8408. The theory relates the byte loop of the source to a reference that
  consumes one bit at a time, and derives the laws that make it a frame check: the residue law,
  linearity, and the detection of every error burst that is not longer than the register.
\<close>

section \<open>The source\<close>

function crc_bits :: "u16 \<Rightarrow> u16 \<Rightarrow> u16" where
  "crc_bits c crc =
     (if c > 1
      then crc_bits (drop_bit 1 c)
             (if (crc XOR c) AND 1 \<noteq> 0 then drop_bit 1 crc XOR 0x8408 else drop_bit 1 crc)
      else crc)"
  by pat_completeness auto
termination
proof (relation "measure (\<lambda>(c, crc). unat c)")
  fix c crc :: u16
  assume "c > 1"
  then have "1 < unat c" by (simp add: word_less_nat_alt)
  then show "((drop_bit 1 c, if (crc XOR c) AND 1 \<noteq> 0 then drop_bit 1 crc XOR 0x8408 else drop_bit 1 crc),
      (c, crc)) \<in> measure (\<lambda>(c, crc). unat c)"
    by (simp add: unat_drop_bit_eq drop_bit_eq_div unat_div)
qed simp

declare crc_bits.simps [simp del]

fun sdlc_crc_loop :: "u8 list \<Rightarrow> nat \<Rightarrow> u16 \<Rightarrow> u16 option" where
  "sdlc_crc_loop data 0 crc = Some crc"
| "sdlc_crc_loop [] (Suc len) crc = None"
| "sdlc_crc_loop (b # data) (Suc len) crc = sdlc_crc_loop data len (crc_bits (0x100 + ucast b) crc)"

definition protodec_sdlc_crc :: "u8 list \<Rightarrow> nat \<Rightarrow> u16 option" where
  "protodec_sdlc_crc data len = map_option NOT (sdlc_crc_loop data len 0xffff)"

section \<open>A reference that consumes bits\<close>

definition crc_step :: "u16 \<Rightarrow> bool \<Rightarrow> u16" where
  "crc_step crc b =
     (if bit crc 0 \<noteq> b then drop_bit 1 crc XOR 0x8408 else drop_bit 1 crc)"

definition crc_run :: "u16 \<Rightarrow> bool list \<Rightarrow> u16" where
  "crc_run crc bs = foldl crc_step crc bs"

definition byte_bits :: "u8 \<Rightarrow> bool list" where
  "byte_bits b = map (bit b) [0..<8]"

lemma crc_run_simps [simp]:
  "crc_run crc [] = crc"
  "crc_run crc (b # bs) = crc_run (crc_step crc b) bs"
  "crc_run crc (as @ bs) = crc_run (crc_run crc as) bs"
  by (simp_all add: crc_run_def)

lemma crc_step_alt:
  "(if (crc XOR c) AND 1 \<noteq> 0 then drop_bit 1 crc XOR 0x8408 else drop_bit 1 crc)
     = crc_step crc (bit c 0)"
  by (auto simp: crc_step_def and_one_nonzero bit_0 even_xor_iff)

lemma crc_bits_run:
  fixes x :: u16
  assumes "n < 16" and "unat x < 2 ^ n"
  shows "crc_bits (2 ^ n + x) crc = crc_run crc (map (bit x) [0..<n])"
  using assms
proof (induction n arbitrary: x crc)
  case 0
  then have "x = 0" by (simp add: unat_eq_zero)
  then show ?case by (simp add: crc_bits.simps)
next
  case (Suc n)
  have n: "n < 15" using Suc.prems by simp
  have pw: "unat (2 ^ Suc n :: u16) = 2 ^ Suc n"
    using Suc.prems(1) by (intro unat_pow2) simp
  have le: "2 ^ Suc n + unat x < (2::nat) ^ 16"
  proof -
    have "2 ^ Suc n + unat x < 2 ^ Suc (Suc n)" using Suc.prems(2) by simp
    also have "\<dots> \<le> (2::nat) ^ 16" using Suc.prems(1) by (intro power_increasing) simp_all
    finally show ?thesis .
  qed
  then have un: "unat (2 ^ Suc n + x) = 2 ^ Suc n + unat x"
    using pw by (subst unat_add_lem [THEN iffD1]) simp_all
  have gt: "2 ^ Suc n + x > 1"
  proof -
    have "(1::nat) \<le> 2 ^ n" by simp
    then have "(1::nat) < 2 ^ Suc n + unat x" unfolding power_Suc by linarith
    then show ?thesis using un by (simp add: word_less_nat_alt)
  qed
  have dx: "unat (drop_bit 1 x) = unat x div 2"
    by (simp add: unat_drop_bit_eq drop_bit_eq_div unat_div)
  have pn: "unat (2 ^ n :: u16) = 2 ^ n" using n by (intro unat_pow2) simp
  have dxl: "unat (drop_bit 1 x) < 2 ^ n" using Suc.prems(2) dx by simp
  have dr: "drop_bit 1 (2 ^ Suc n + x) = 2 ^ n + drop_bit 1 x"
  proof -
    have "unat (drop_bit 1 (2 ^ Suc n + x)) = 2 ^ n + unat x div 2"
      by (simp only: unat_drop_bit_eq un) (simp add: drop_bit_eq_div)
    moreover have "unat (2 ^ n + drop_bit 1 x :: u16) = 2 ^ n + unat x div 2"
      using le dx pn by (subst unat_add_lem [THEN iffD1]) simp_all
    ultimately show ?thesis by (simp add: word_unat_eq_iff)
  qed
  have od: "bit (2 ^ Suc n + x) 0 = bit x 0" by (simp add: bit_0)
  have "crc_bits (2 ^ Suc n + x) crc = crc_bits (2 ^ n + drop_bit 1 x) (crc_step crc (bit x 0))"
    by (subst crc_bits.simps) (simp only: gt if_True crc_step_alt dr od)
  also have "\<dots> = crc_run (crc_step crc (bit x 0)) (map (bit (drop_bit 1 x)) [0..<n])"
    using n dxl by (intro Suc.IH) simp_all
  also have "map (bit (drop_bit 1 x)) [0..<n] = map (bit x) (map Suc [0..<n])"
    by (simp add: bit_drop_bit_eq fun_eq_iff)
  also have "crc_run (crc_step crc (bit x 0)) (map (bit x) (map Suc [0..<n]))
      = crc_run crc (map (bit x) (0 # map Suc [0..<n]))" by simp
  also have "0 # map Suc [0..<n] = [0..<Suc n]" by (simp only: map_Suc_upt upt_conv_Cons zero_less_Suc)
  finally show ?case .
qed

lemma byte_bits_length [simp]: "length (byte_bits b) = 8"
  by (simp add: byte_bits_def)

lemma crc_bits_byte: "crc_bits (0x100 + ucast b) crc = crc_run crc (byte_bits b)"
proof -
  have lt: "unat (ucast b :: u16) < 2 ^ 8"
    using unsigned_less [of b, where ?'a = nat] by (simp add: unat_ucast_up)
  have "crc_bits (2 ^ 8 + ucast b) crc = crc_run crc (map (bit (ucast b :: u16)) [0..<8])"
    using lt by (intro crc_bits_run) simp_all
  also have "map (bit (ucast b :: u16)) [0..<8] = byte_bits b"
    by (auto simp: byte_bits_def bit_ucast_iff)
  finally show ?thesis by simp
qed

lemma sdlc_crc_loop_run:
  "sdlc_crc_loop data (length data) crc = Some (crc_run crc (concat (map byte_bits data)))"
  by (induction data arbitrary: crc) (simp_all add: crc_bits_byte)

lemma protodec_sdlc_crc_run:
  "protodec_sdlc_crc data (length data) = Some (NOT (crc_run 0xffff (concat (map byte_bits data))))"
  by (simp add: protodec_sdlc_crc_def sdlc_crc_loop_run)

section \<open>The residue law\<close>

lemma crc_step_xor: "crc_step (s XOR x) False = crc_step s (bit x 0) XOR drop_bit 1 x"
  by (auto simp: crc_step_def bit_xor_iff ac_simps)

lemma crc_run_absorb:
  "drop_bit n x = 0 \<Longrightarrow>
     crc_run s (map (bit x) [0..<n]) = crc_run (s XOR x) (replicate n False)"
proof (induction n arbitrary: s x)
  case 0
  then show ?case by simp
next
  case (Suc n)
  have "drop_bit n (drop_bit 1 x) = 0" using Suc.prems by simp
  note IH = Suc.IH [OF this, of "crc_step s (bit x 0)"]
  have "map (bit x) [0..<Suc n] = bit x 0 # map (bit (drop_bit 1 x)) [0..<n]"
    by (simp add: upt_conv_Cons bit_drop_bit_eq fun_eq_iff flip: map_Suc_upt del: upt_Suc)
  then show ?case using IH by (simp add: crc_step_xor)
qed

text \<open>
  Appending the complemented register, low byte first, drives the register to a constant: this is
  how the receiver recognises a frame, whatever it holds.
\<close>

lemma crc_run_residue:
  "crc_run s (map (bit (NOT s)) [0..<16]) = 0xf0b8"
proof -
  have "crc_run s (map (bit (NOT s)) [0..<16]) = crc_run (s XOR NOT s) (replicate 16 False)"
    by (rule crc_run_absorb) (simp add: drop_bit_word_beyond)
  also have "s XOR NOT s = - 1" by (simp add: bit_eq_iff)
  also have "(- 1 :: u16) = 0xffff" by simp
  also have "crc_run 0xffff (replicate 16 False) = 0xf0b8"
    by code_simp
  finally show ?thesis .
qed


definition fcs_bytes :: "u16 \<Rightarrow> u8 list" where
  "fcs_bytes c = [ucast c, ucast (drop_bit 8 c)]"

lemma fcs_bytes_length [simp]: "length (fcs_bytes c) = 2"
  by (simp add: fcs_bytes_def)

lemma fcs_bytes_bits: "concat (map byte_bits (fcs_bytes c)) = map (bit c) [0..<16]"
proof -
  have "byte_bits (ucast c) = map (bit c) [0..<8]"
    by (auto simp: byte_bits_def bit_ucast_iff)
  moreover have "byte_bits (ucast (drop_bit 8 c)) = map (bit c) (map (\<lambda>i. i + 8) [0..<8])"
    by (auto simp: byte_bits_def bit_ucast_iff bit_drop_bit_eq ac_simps)
  moreover have "[0..<16] = [0..<8] @ map (\<lambda>i. i + 8) [0..<8]"
    by (simp add: upt_conv_Cons)
  ultimately show ?thesis
    by (simp only: fcs_bytes_def list.map concat.simps append_Nil2 map_append)
qed

section \<open>Linearity and error detection\<close>

lemma crc_step_linear [simplified]: "crc_step (s XOR t) (a \<noteq> b) = crc_step s a XOR crc_step t b"
  by (auto simp: crc_step_def bit_xor_iff ac_simps)

lemma crc_run_linear:
  "length as = length bs \<Longrightarrow>
     crc_run (s XOR t) (map2 (\<noteq>) as bs) = crc_run s as XOR crc_run t bs"
proof (induction as bs arbitrary: s t rule: list_induct2)
  case (Cons a as b bs)
  show ?case using Cons.IH [of "crc_step s a" "crc_step t b"] by (simp add: crc_step_linear)
qed simp

lemma crc_step_zero_inj: "crc_step s False = 0 \<Longrightarrow> s = 0"
proof -
  assume z: "crc_step s False = 0"
  have "\<not> bit s 0"
  proof
    assume "bit s 0"
    then have "bit (drop_bit 1 s XOR 0x8408) 15 = bit (0 :: u16) 15"
      using z by (simp add: crc_step_def)
    then show False using bit_imp_le_length [of s 16] by (simp add: bit_xor_iff bit_drop_bit_eq)
  qed
  moreover from this have "drop_bit 1 s = 0" using z by (simp add: crc_step_def)
  then have "bit (drop_bit 1 s) i = bit (0 :: u16) i" for i by simp
  then have "\<not> bit s (Suc i)" for i by (simp add: bit_drop_bit_eq)
  ultimately have "\<not> bit s i" for i by (cases i) auto
  then show "s = 0" by (simp add: bit_eq_iff)
qed

lemma crc_run_zeros_inj: "crc_run s (replicate n False) = 0 \<Longrightarrow> s = 0"
  by (induction n arbitrary: s) (auto dest: crc_step_zero_inj)

lemma crc_run_zero [simp]: "crc_run 0 (replicate n False) = 0"
  by (induction n) (simp_all add: crc_step_def)


lemma crc_run_short_inj:
  assumes "crc_run 0 bs = 0" and "length bs \<le> 16"
  shows "bs = replicate (length bs) False"
proof -
  define w :: u16 where "w = horner_sum of_bool 2 bs"
  have bitw: "bit w i \<longleftrightarrow> i < length bs \<and> bs ! i" for i
    using assms(2) by (simp add: w_def bit_horner_sum_bit_word_iff)
  have bs: "bs = map (bit w) [0..<length bs]"
    by (rule nth_equalityI) (simp_all add: bitw)
  have "drop_bit (length bs) w = 0"
    by (simp add: bit_eq_iff bit_drop_bit_eq bitw)
  then have "crc_run 0 (map (bit w) [0..<length bs]) = crc_run w (replicate (length bs) False)"
    using crc_run_absorb [of "length bs" w 0] by simp
  with assms(1) bs have "w = 0" by (metis crc_run_zeros_inj)
  then have "\<not> bs ! i" if "i < length bs" for i using that bitw [of i] by simp
  then show ?thesis by (intro nth_equalityI) simp_all
qed

lemma byte_bits_inj: "byte_bits a = byte_bits b \<Longrightarrow> a = b"
  by (auto simp: byte_bits_def bit_eq_iff)

lemma frame_bits_inj:
  "length a = length b \<Longrightarrow> concat (map byte_bits a) = concat (map byte_bits b) \<Longrightarrow> a = b"
  by (induction a b rule: list_induct2) (auto dest: byte_bits_inj)

lemma length_frame_bits [simp]: "length (concat (map byte_bits data)) = 8 * length data"
  by (induction data) simp_all

lemma crc_run_burst:
  assumes len: "length as = length bs"
    and out: "\<And>i. i < length as \<Longrightarrow> i < k \<or> k + 16 \<le> i \<Longrightarrow> as ! i = bs ! i"
    and eq: "crc_run s as = crc_run s bs"
  shows "as = bs"
proof -
  define e where "e = map2 (\<noteq>) as bs"
  have le: "length e = length as" using len by (simp add: e_def)
  have nth: "e ! i \<longleftrightarrow> as ! i \<noteq> bs ! i" if "i < length as" for i
    using that len by (simp add: e_def)
  have "crc_run (s XOR s) e = crc_run s as XOR crc_run s bs"
    unfolding e_def using len by (rule crc_run_linear)
  then have z: "crc_run 0 e = 0" using eq by simp
  have pre: "take k e = replicate (length (take k e)) False"
    using out le nth by (intro nth_equalityI) auto
  have post: "drop (k + 16) e = replicate (length (drop (k + 16) e)) False"
    using out le nth by (intro nth_equalityI) auto
  have split: "e = take k e @ take 16 (drop k e) @ drop (k + 16) e"
    by (metis append_take_drop_id drop_drop add.commute)
  have "crc_run (crc_run 0 (take 16 (drop k e))) (drop (k + 16) e) = 0"
    using z split pre by (metis crc_run_simps(3) crc_run_zero)
  then have "crc_run 0 (take 16 (drop k e)) = 0"
    using post by (metis crc_run_zeros_inj)
  then have "take 16 (drop k e) = replicate (length (take 16 (drop k e))) False"
    by (rule crc_run_short_inj) simp
  then have "\<not> e ! i" if "i < length e" for i
    using that split pre post by (metis Un_iff in_set_conv_nth in_set_replicate set_append)
  then show ?thesis using len le nth by (intro nth_equalityI) auto
qed

lemma crc_run_zeros_eq: "crc_run s (replicate n False) = crc_run t (replicate n False) \<Longrightarrow> s = t"
proof -
  assume eq: "crc_run s (replicate n False) = crc_run t (replicate n False)"
  have "map2 (\<noteq>) (replicate n False) (replicate n False) = replicate n False" by (simp add: zip_replicate)
  then have "crc_run (s XOR t) (replicate n False) = 0"
    using crc_run_linear [of "replicate n False" "replicate n False" s t] eq by simp
  then have "s XOR t = 0" by (rule crc_run_zeros_inj)
  then show "s = t" by (simp add: bit_eq_iff bit_xor_iff)
qed

text \<open>The two check bytes that lead to the accepted value are the complemented register, and no others.\<close>

lemma crc_run_residue_iff: "crc_run s (map (bit c) [0..<16]) = 0xf0b8 \<longleftrightarrow> c = NOT s"
proof
  assume a: "crc_run s (map (bit c) [0..<16]) = 0xf0b8"
  have absorb: "crc_run s (map (bit x) [0..<16]) = crc_run (s XOR x) (replicate 16 False)" for x :: u16
    by (rule crc_run_absorb) (simp add: drop_bit_word_beyond)
  have "crc_run (s XOR c) (replicate 16 False) = crc_run (s XOR NOT s) (replicate 16 False)"
    using a crc_run_residue [of s] by (simp only: absorb)
  then have "s XOR c = s XOR NOT s" by (rule crc_run_zeros_eq)
  then show "c = NOT s" by (simp add: bit_eq_iff bit_xor_iff bit_not_iff)
qed (simp only: crc_run_residue)

lemma sdlc_crc_accepts_iff:
  "protodec_sdlc_crc (data @ fcs_bytes c) (length data + 2) = Some 0x0f47
     \<longleftrightarrow> c = NOT (crc_run 0xffff (concat (map byte_bits data)))"
proof -
  let ?s = "crc_run 0xffff (concat (map byte_bits data))"
  have "protodec_sdlc_crc (data @ fcs_bytes c) (length (data @ fcs_bytes c)) = Some (NOT (crc_run ?s (map (bit c) [0..<16])))"
    by (simp only: protodec_sdlc_crc_run map_append concat_append crc_run_simps fcs_bytes_bits)
  moreover have "NOT r = 0x0f47 \<longleftrightarrow> r = 0xf0b8" for r :: u16
  proof -
    have "NOT r = 0x0f47 \<longleftrightarrow> NOT (NOT r) = NOT 0x0f47" by (metis bit.double_compl)
    moreover have "(NOT 0x0f47 :: u16) = 0xf0b8" by simp
    ultimately show ?thesis by (simp only: bit.double_compl)
  qed
  ultimately show ?thesis using crc_run_residue_iff [of ?s c] by simp
qed

lemma fcs_bytes_inj: "fcs_bytes c = fcs_bytes d \<Longrightarrow> c = d"
proof -
  assume "fcs_bytes c = fcs_bytes d"
  then have "map (bit c) [0..<16] = map (bit d) [0..<16]" by (simp only: fcs_bytes_bits [symmetric])
  then show "c = d" by (simp add: bit_eq_iff)
qed

lemma fcs_bytes_all: "\<exists>c. fcs_bytes c = [x, y]"
proof -
  have "ucast (ucast x OR push_bit 8 (ucast y) :: u16) = x" "ucast (drop_bit 8 (ucast x OR push_bit 8 (ucast y) :: u16)) = y"
    using bit_imp_le_length [of x]
    by (auto intro!: bit_word_eqI simp: bit_ucast_iff bit_or_iff bit_push_bit_iff bit_drop_bit_eq) force+
  then show ?thesis unfolding fcs_bytes_def by blast
qed

text \<open>
  C19. The receiver's acceptance test. For every byte string \<^const>\<open>protodec_sdlc_crc\<close> is the complement of the reference
  shift register, started with ones, after the bits of the bytes, low bit first; and with two more bytes behind them it is the constant
  0x0f47, with which \<^verbatim>\<open>protodec_calculate_crc\<close> compares, exactly when these two bytes, low byte first, are
  that complement.
\<close>

theorem sdlc_crc_residue:
  "protodec_sdlc_crc data (length data) = Some (NOT (crc_run 0xffff (concat (map byte_bits data))))
   \<and> (protodec_sdlc_crc (data @ fcs_bytes c) (length data + 2) = Some 0x0f47
        \<longleftrightarrow> c = NOT (crc_run 0xffff (concat (map byte_bits data))))"
  using protodec_sdlc_crc_run sdlc_crc_accepts_iff by simp

text \<open>
  C20. Two byte strings of the same length whose frame bits differ only inside a window of sixteen
  consecutive bits have different check values, unless they are equal: every single bit error and
  every error burst of up to sixteen bits is detected.
\<close>

theorem sdlc_crc_detects_bursts:
  assumes "length a = length b" and "a \<noteq> b"
    and "\<And>i. i < 8 * length a \<Longrightarrow> i < k \<or> k + 16 \<le> i \<Longrightarrow>
           concat (map byte_bits a) ! i = concat (map byte_bits b) ! i"
  shows "protodec_sdlc_crc a (length a) \<noteq> protodec_sdlc_crc b (length b)"
proof
  assume "protodec_sdlc_crc a (length a) = protodec_sdlc_crc b (length b)"
  then have "crc_run 0xffff (concat (map byte_bits a)) = crc_run 0xffff (concat (map byte_bits b))"
    by (simp add: protodec_sdlc_crc_run)
  then have "concat (map byte_bits a) = concat (map byte_bits b)"
    using assms(1,3) by (intro crc_run_burst [where k = k]) simp_all
  with assms(1) have "a = b" by (rule frame_bits_inj)
  with assms(2) show False ..
qed

theorem sdlc_crc_detects_bursts_witness:
  "protodec_sdlc_crc [0x12, 0x34] (length [0x12, 0x34 :: u8])
     \<noteq> protodec_sdlc_crc [0x12, 0x35] (length [0x12, 0x35 :: u8])"
  by (rule sdlc_crc_detects_bursts [where k = 0]) simp_all

end
