(* ===== verification/Protodec.thy ===== *)
theory Protodec
  imports Reports Sdlc_Crc
begin

text \<open>
  The frame decoder of protodec.c: set-up and reset of a channel, the check of a frame
  (\<^verbatim>\<open>protodec_calculate_crc\<close>), what is done with a good one (\<^verbatim>\<open>protodec_getdata\<close>), and the state
  machine that is fed one bit at a time (\<^verbatim>\<open>protodec_decode\<close>).
\<close>

section \<open>Set-up\<close>

definition protodec_reset :: "demod_state \<Rightarrow> demod_state" where
  "protodec_reset d = d\<lparr>dstate := ST_SKURR, nskurr := 0, ndata := 0, npreamble := 0, nstartsign := 0, nstopsign := 0,
     antallpreamble := 0, antallenner := 0, dlast := 0, bitstuff := 0, bufferpos := 0\<rparr>"

text \<open>
  The five buffers come from \<^verbatim>\<open>hmalloc\<close> and start with whatever \<open>mem\<close> says their
  memory holds.
\<close>

definition protodec_initialize :: "(nat \<Rightarrow> nat \<Rightarrow> u8) \<Rightarrow> bool \<Rightarrow> bool \<Rightarrow> u8 \<Rightarrow> demod_state" where
  "protodec_initialize mem ser ip ch =
     (let d = \<lparr>chanid = 0, dstate = ST_SKURR, offset = 0, nskurr = 0, npreamble = 0, nstartsign = 0, ndata = 0,
          nstopsign = 0, antallenner = 0, buffer = [], rbuffer = [], bufferpos = 0, dlast = 0, antallpreamble = 0,
          bitstuff = 0, receivedframes = 0, lostframes = 0, lostframes2 = 0, seqnr = 0, best_range = 0,
          serial = False, ipc = False, serbuffer = [], ipcbuffer = [], nmea = []\<rparr>;
          d = d\<lparr>chanid := ch, serial := ser, ipc := ip, receivedframes := 0, lostframes := 0, lostframes2 := 0\<rparr>;
          d = (protodec_reset d)\<lparr>seqnr := 0\<rparr>
      in d\<lparr>buffer := map (mem 0) [0..<DEMOD_BUFFER_LEN], rbuffer := map (mem 1) [0..<DEMOD_BUFFER_LEN],
           serbuffer := map (mem 2) [0..<SERBUFFER_LEN], ipcbuffer := map (mem 3) [0..<IPCBUFFER_LEN],
           nmea := map (mem 4) [0..<SERBUFFER_LEN]\<rparr>)"

definition protodec_deinit :: "demod_state \<Rightarrow> demod_state" where
  "protodec_deinit d = d\<lparr>buffer := [], rbuffer := [], serbuffer := [], ipcbuffer := [], nmea := []\<rparr>"

section \<open>The check of a frame\<close>

definition memset0 :: "nat \<Rightarrow> u8 list \<Rightarrow> u8 list option" where
  "memset0 n a = (if n \<le> length a then Some (replicate n 0 @ drop n a) else None)"

function pack_byte :: "u8 list \<Rightarrow> nat \<Rightarrow> nat \<Rightarrow> u8 \<Rightarrow> u8 option" where
  "pack_byte b j i tmp =
     (if i < 8 then do { x \<leftarrow> arr_get b (i + 8 * j); pack_byte b j (i + 1) (tmp OR push_bit i x) } else Some tmp)"
  by auto
termination by (relation "measure (\<lambda>(b, j, i, tmp). 8 - i)") auto

declare pack_byte.simps [simp del]

function pack_loop :: "u8 list \<Rightarrow> nat \<Rightarrow> nat \<Rightarrow> u8 list \<Rightarrow> u8 list option" where
  "pack_loop b buflen j buf =
     (if j < buflen then do { tmp \<leftarrow> pack_byte b j 0 0; buf \<leftarrow> arr_set buf j tmp; pack_loop b buflen (j + 1) buf }
      else Some buf)"
  by auto
termination by (relation "measure (\<lambda>(b, buflen, j, buf). buflen - j)") auto

declare pack_loop.simps [simp del]

text \<open>The two nested loops that copy the bits into \<open>rbuffer\<close>; the flag is false when they stop early.\<close>

function unpack_loop :: "u8 list \<Rightarrow> nat \<Rightarrow> nat \<Rightarrow> nat \<Rightarrow> u8 list \<Rightarrow> (bool \<times> u8 list) option" where
  "unpack_loop buf length_bytes j i rb =
     (if j < length_bytes then
        if i < 8 then
          if j * 8 + i \<ge> DEMOD_BUFFER_LEN then Some (False, rb)
          else do {
            x \<leftarrow> arr_get buf j;
            rb \<leftarrow> arr_set rb (j * 8 + i) (drop_bit (7 - i) x AND 1);
            unpack_loop buf length_bytes j (i + 1) rb
          }
        else unpack_loop buf length_bytes (j + 1) 0 rb
      else Some (True, rb))"
  by auto
termination by (relation "measures [\<lambda>(buf, n, j, i, rb). n - j, \<lambda>(buf, n, j, i, rb). 8 - i]") auto

declare unpack_loop.simps [simp del]

definition protodec_calculate_crc :: "int \<Rightarrow> demod_state \<Rightarrow> world \<Rightarrow> (bool \<times> demod_state \<times> world) option" where
  "protodec_calculate_crc length_bits d w =
     (if length_bits \<le> 0 then Some (False, d, emit (Hlog ''protodec_calculate_crc: length_bits <= 0!'' []) w)
      else do {
        let length_bytes = nat length_bits div 8;
        let buflen = length_bytes + 2;
        buf \<leftarrow> pack_loop (buffer d) buflen 0 (local_array buflen w);
        crc \<leftarrow> protodec_sdlc_crc buf buflen;
        rb \<leftarrow> memset0 DEMOD_BUFFER_LEN (rbuffer d);
        (ok, rb) \<leftarrow> unpack_loop buf length_bytes 0 0 rb;
        let d = d\<lparr>rbuffer := rb\<rparr>;
        if ok then Some (crc = 0x0f47, d, w)
        else Some (False, d, emit (Hlog ''protodec_calculate_crc: would run over rbuffer length'' []) w)
      })"

section \<open>A good frame\<close>

definition keep :: "demod_state \<Rightarrow> world option \<Rightarrow> (demod_state \<times> world) option" where
  "keep d r = map_option (Pair d) r"

definition handle_message :: "nat \<Rightarrow> nat \<Rightarrow> int \<Rightarrow> int \<Rightarrow> demod_state \<Rightarrow> world \<Rightarrow> (demod_state \<times> world) option" where
  "handle_message ty bufferlen received_t mmsi d w =
     (if ty = 1 \<or> ty = 2 \<or> ty = 3 then protodec_pos d received_t mmsi w
      else if ty = 4 then protodec_4 d received_t mmsi w
      else if ty = 5 then keep d (protodec_5 d received_t mmsi w)
      else if ty = 6 then keep d (protodec_6 d received_t mmsi w)
      else if ty = 7 \<or> ty = 13 then keep d (protodec_7_13 d bufferlen w)
      else if ty = 8 then keep d (protodec_8 d received_t mmsi w)
      else if ty = 18 then protodec_18 d received_t mmsi w
      else if ty = 19 then keep d (protodec_19 d received_t mmsi w)
      else if ty = 24 then keep d (protodec_24 d received_t mmsi w)
      else if ty = 20 then keep d (protodec_20 d bufferlen w)
      else Some (d, w))"

definition protodec_getdata :: "nat \<Rightarrow> demod_state \<Rightarrow> world \<Rightarrow> (demod_state \<times> world) option" where
  "protodec_getdata bufferlen d w = do {
     v \<leftarrow> protodec_henten 0 6 (rbuffer d);
     let ty = unat (ucast v :: u8);
     if ty < 1 \<or> ty > MAX_AIS_PACKET_TYPE then Some (d, w)
     else do {
       mmsi \<leftarrow> protodec_henten 8 30 (rbuffer d);
       let (received_t, w) = time_now w;
       let fillbits = (if bufferlen mod 6 > 0 then 6 - bufferlen mod 6 else 0);
       rb \<leftarrow> set_many (rbuffer d) bufferlen (replicate fillbits 0);
       let d = d\<lparr>rbuffer := rb\<rparr>;
       let bufferlen = bufferlen + fillbits;
       (d, w) \<leftarrow> protodec_generate_nmea d bufferlen fillbits received_t w;
       let d = d\<lparr>seqnr := seqnr d + 1\<rparr>;
       let d = (if seqnr d > 9 then d\<lparr>seqnr := 0\<rparr> else d);
       skip \<leftarrow> arr_get (skip_type w) ty;
       if skip \<noteq> 0 then Some (d, w)
       else do {
         let w = emit (Printf ''ch %c type %d mmsi %09ld:'' [PInt (uint (chanid d)), PInt (int ty), PInt (uint mmsi)]) w;
         (d, w) \<leftarrow> handle_message ty bufferlen received_t (uint mmsi) d w;
         s \<leftarrow> cstr_of (nmea d);
         Some (d, emit (Printf '' (!%s)\<newline>'' [PStr s]) w)
       }
     }
   }"

section \<open>The state machine\<close>

definition step_data :: "u8 \<Rightarrow> demod_state \<Rightarrow> demod_state option" where
  "step_data b d =
     (if bitstuff d \<noteq> 0 then
        Some (if b = 1 then d\<lparr>dstate := ST_STOPSIGN, ndata := 0, bitstuff := 0\<rparr>
              else d\<lparr>ndata := wrap32 (ndata d + 1), dlast := b, bitstuff := 0\<rparr>)
      else do {
        let d = (if b = dlast d \<and> b = 1
                 then let d = d\<lparr>antallenner := wrap32 (antallenner d + 1)\<rparr>
                      in if antallenner d = 4 then d\<lparr>bitstuff := 1, antallenner := 0\<rparr> else d
                 else d\<lparr>antallenner := 0\<rparr>);
        buf \<leftarrow> arr_set (buffer d) (bufferpos d) b;
        let d = d\<lparr>buffer := buf, bufferpos := bufferpos d + 1, ndata := wrap32 (ndata d + 1)\<rparr>;
        Some (if bufferpos d \<ge> 449 then protodec_reset d else d)
      })"

definition step_skurr :: "u8 \<Rightarrow> demod_state \<Rightarrow> demod_state" where
  "step_skurr b d =
     (let d = (if b \<noteq> dlast d then d\<lparr>antallpreamble := wrap32 (antallpreamble d + 1)\<rparr> else d\<lparr>antallpreamble := 0\<rparr>);
          d = d\<lparr>dlast := b\<rparr>;
          d = (if antallpreamble d > 14 \<and> b = 0
               then d\<lparr>dstate := ST_PREAMBLE, nskurr := 0, antallpreamble := 0\<rparr> else d)
      in d\<lparr>nskurr := wrap32 (nskurr d + 1)\<rparr>)"

definition step_preamble :: "u8 \<Rightarrow> demod_state \<Rightarrow> demod_state" where
  "step_preamble b d =
     (let d = (if b \<noteq> dlast d \<and> nstartsign d = 0 then d\<lparr>antallpreamble := wrap32 (antallpreamble d + 1)\<rparr>
               else if b = 1 then
                 (if nstartsign d = 0 then d\<lparr>nstartsign := 3, dlast := b\<rparr>
                  else if nstartsign d = 5
                  then d\<lparr>nstartsign := wrap32 (nstartsign d + 1), npreamble := 0, antallpreamble := 0, dstate := ST_STARTSIGN\<rparr>
                  else d\<lparr>nstartsign := wrap32 (nstartsign d + 1)\<rparr>)
               else (if nstartsign d = 0 then d\<lparr>nstartsign := 1\<rparr> else protodec_reset d))
      in d\<lparr>npreamble := wrap32 (npreamble d + 1)\<rparr>)"

definition step_startsign :: "u8 \<Rightarrow> demod_state \<Rightarrow> demod_state option" where
  "step_startsign b d = do {
     d \<leftarrow> (if nstartsign d \<ge> 7 then
             (if b = 0 then do {
                buf \<leftarrow> memset0 DEMOD_BUFFER_LEN (buffer d);
                Some (d\<lparr>dstate := ST_DATA, nstartsign := 0, antallenner := 0, buffer := buf, bufferpos := 0\<rparr>)
              } else Some (protodec_reset d))
           else Some (if b = 0 then protodec_reset d else d));
     Some (d\<lparr>nstartsign := wrap32 (nstartsign d + 1)\<rparr>)
   }"

definition step_stopsign :: "u8 \<Rightarrow> demod_state \<Rightarrow> world \<Rightarrow> (demod_state \<times> world) option" where
  "step_stopsign b d w = do {
     let bufferlength = int (bufferpos d) - 6 - 16;
     (d, w) \<leftarrow> (if b = 0 \<and> bufferlength > 0 then do {
         (correct, d, w) \<leftarrow> protodec_calculate_crc bufferlength d w;
         if correct
         then protodec_getdata (nat bufferlength) (d\<lparr>receivedframes := wrap32 (receivedframes d + 1)\<rparr>) w
         else Some (d\<lparr>lostframes := wrap32 (lostframes d + 1)\<rparr>, w)
       } else Some (d\<lparr>lostframes2 := wrap32 (lostframes2 d + 1)\<rparr>, w));
     Some (protodec_reset d, w)
   }"

text \<open>One round of the loop: the branch of the current state, then \<^verbatim>\<open>d->last = in[i]\<close>.\<close>

definition decode_bit :: "u8 \<Rightarrow> demod_state \<Rightarrow> world \<Rightarrow> (demod_state \<times> world) option" where
  "decode_bit b d w = do {
     (d, w) \<leftarrow> (case dstate d of
         ST_DATA \<Rightarrow> do { d \<leftarrow> step_data b d; Some (d, w) }
       | ST_SKURR \<Rightarrow> Some (step_skurr b d, w)
       | ST_PREAMBLE \<Rightarrow> Some (step_preamble b d, w)
       | ST_STARTSIGN \<Rightarrow> do { d \<leftarrow> step_startsign b d; Some (d, w) }
       | ST_STOPSIGN \<Rightarrow> step_stopsign b d w);
     Some (d\<lparr>dlast := b\<rparr>, w)
   }"

function decode_loop :: "u8 list \<Rightarrow> nat \<Rightarrow> nat \<Rightarrow> demod_state \<Rightarrow> world \<Rightarrow> (demod_state \<times> world) option" where
  "decode_loop inp cnt i d w =
     (if i < cnt then do {
        b \<leftarrow> arr_get inp i;
        (d, w) \<leftarrow> decode_bit b d w;
        decode_loop inp cnt (i + 1) d w
      } else Some (d, w))"
  by auto
termination by (relation "measure (\<lambda>(inp, cnt, i, d, w). cnt - i)") auto

declare decode_loop.simps [simp del]

definition protodec_decode :: "u8 list \<Rightarrow> nat \<Rightarrow> demod_state \<Rightarrow> world \<Rightarrow> (demod_state \<times> world) option" where
  "protodec_decode inp cnt d w = decode_loop inp cnt 0 d w"

section \<open>The loops of the frame check\<close>

definition packed :: "u8 list \<Rightarrow> nat \<Rightarrow> u8" where
  "packed b j = foldl (\<lambda>t i. t OR push_bit i (b ! (i + 8 * j))) 0 [0..<8]"

lemma pack_byte_eq:
  "8 * j + 8 \<le> length b \<Longrightarrow> pack_byte b j i tmp = Some (foldl (\<lambda>t i. t OR push_bit i (b ! (i + 8 * j))) tmp [i..<8])"
proof (induction "8 - i" arbitrary: i tmp)
  case 0
  then show ?case by (simp add: pack_byte.simps)
next
  case (Suc n)
  then show ?case by (subst pack_byte.simps) (simp add: upt_conv_Cons)
qed

lemma pack_loop_eq:
  "8 * n \<le> length b \<Longrightarrow> length buf = n \<Longrightarrow> j \<le> n \<Longrightarrow> pack_loop b n j buf = Some (take j buf @ map (packed b) [j..<n])"
proof (induction "n - j" arbitrary: j buf)
  case 0
  then show ?case by (simp add: pack_loop.simps)
next
  case (Suc k)
  then have j: "j < n" by simp
  then have "pack_loop b n (j + 1) (buf[j := packed b j])
      = Some (take (j + 1) (buf[j := packed b j]) @ map (packed b) [j + 1..<n])"
    using Suc by (intro Suc.hyps(1)) simp_all
  moreover have "pack_byte b j 0 0 = Some (packed b j)"
    using j Suc.prems(1) unfolding packed_def by (intro pack_byte_eq) simp
  ultimately show ?case using j Suc.prems
    by (subst pack_loop.simps) (simp add: upt_conv_Cons take_Suc_conv_app_nth)
qed

text \<open>Bit \<open>x\<close> of a message whose bytes are \<open>buf\<close>, most significant bit first.\<close>

definition msg_bit :: "u8 list \<Rightarrow> nat \<Rightarrow> u8" where
  "msg_bit buf x = drop_bit (7 - x mod 8) (buf ! (x div 8)) AND 1"

lemma unpack_loop_eq:
  assumes "n \<le> length buf" "8 * n \<le> 450"
  shows "length rb = 450 \<Longrightarrow> i \<le> 8 \<Longrightarrow> j < n \<or> j = n \<and> i = 0 \<Longrightarrow>
    unpack_loop buf n j i rb
      = Some (True, take (8 * j + i) rb @ map (msg_bit buf) [8 * j + i..<8 * n] @ drop (8 * n) rb)"
proof (induction "8 * n + n - (8 * j + j + i)" arbitrary: j i rb rule: less_induct)
  case less
  show ?case
  proof (cases "j < n")
    case False
    then show ?thesis using less.prems by (subst unpack_loop.simps) simp
  next
    case True
    show ?thesis
    proof (cases "i < 8")
      case i: True
      let ?x = "8 * j + i" and ?b = "drop_bit (7 - i) (buf ! j) AND 1"
      have x: "?x < 8 * n" "?x < 450" "j < length buf" using True i assms by linarith+
      have b: "?b = msg_bit buf ?x" using i by (simp add: msg_bit_def)
      have "unpack_loop buf n j (i + 1) (rb[?x := ?b]) = Some (True, take (8 * j + (i + 1)) (rb[?x := ?b])
          @ map (msg_bit buf) [8 * j + (i + 1)..<8 * n] @ drop (8 * n) (rb[?x := ?b]))"
        using less.prems True i by (intro less.hyps) simp_all
      then show ?thesis using True i x less.prems(1) b
        by (subst unpack_loop.simps)
          (simp add: DEMOD_BUFFER_LEN_def mult.commute upt_conv_Cons take_Suc_conv_app_nth)
    next
      case False
      then have i: "i = 8" using less.prems by simp
      have "unpack_loop buf n (j + 1) 0 rb
          = Some (True, take (8 * (j + 1) + 0) rb @ map (msg_bit buf) [8 * (j + 1) + 0..<8 * n] @ drop (8 * n) rb)"
        using less.prems True i by (intro less.hyps) auto
      then show ?thesis using True i by (subst unpack_loop.simps) (simp add: algebra_simps)
    qed
  qed
qed

text \<open>The message bits that a frame of \<open>n\<close> bytes in the receive buffer stands for.\<close>

definition frame_bytes :: "u8 list \<Rightarrow> nat \<Rightarrow> u8 list" where
  "frame_bytes b n = map (packed b) [0..<n]"

definition message_bits :: "u8 list \<Rightarrow> nat \<Rightarrow> u8 list" where
  "message_bits b n = map (msg_bit (frame_bytes b n)) [0..<8 * n] @ replicate (450 - 8 * n) 0"

lemma msg_bit_01: "msg_bit buf x = 0 \<or> msg_bit buf x = 1"
  unfolding msg_bit_def and_one_eq by (metis not_mod_2_eq_1_eq_0)

lemma message_bits_ok: "8 * n \<le> 450 \<Longrightarrow> length (message_bits b n) = 450" "bits01 (message_bits b n)"
  using msg_bit_01 by (auto simp: message_bits_def bits01_def)

lemma calculate_crc_eq:
  assumes "0 < len" "len \<le> 426" "length (buffer d) = 450" "length (rbuffer d) = 450"
  shows "protodec_calculate_crc len d w = Some
    (protodec_sdlc_crc (frame_bytes (buffer d) (nat len div 8 + 2)) (nat len div 8 + 2) = Some 0x0f47,
     d\<lparr>rbuffer := message_bits (buffer d) (nat len div 8)\<rparr>, w)"
proof -
  let ?n = "nat len div 8" and ?buf = "frame_bytes (buffer d) (nat len div 8 + 2)"
  have "nat len \<le> 426" using assms(1,2) by simp
  then have n: "?n \<le> 53" using div_le_mono [of "nat len" 426 8] by simp
  have p: "pack_loop (buffer d) (?n + 2) 0 (local_array (?n + 2) w) = Some ?buf"
    using n assms(3) by (subst pack_loop_eq) (simp_all add: frame_bytes_def)
  have lb: "length ?buf = ?n + 2" by (simp add: frame_bytes_def)
  obtain c where c: "protodec_sdlc_crc ?buf (?n + 2) = Some c"
    using protodec_sdlc_crc_run [of ?buf] unfolding lb by blast
  have m: "memset0 DEMOD_BUFFER_LEN (rbuffer d) = Some (replicate 450 0)"
    using assms(4) by (simp add: memset0_def DEMOD_BUFFER_LEN_def)
  have "msg_bit ?buf x = msg_bit (frame_bytes (buffer d) ?n) x" if "x < 8 * ?n" for x
  proof -
    have "x div 8 < ?n" using that by (simp add: less_mult_imp_div_less mult.commute)
    then show ?thesis by (simp add: msg_bit_def frame_bytes_def nth_append)
  qed
  then have "map (msg_bit ?buf) [0..<8 * ?n] = map (msg_bit (frame_bytes (buffer d) ?n)) [0..<8 * ?n]" by simp
  then have "unpack_loop ?buf ?n 0 0 (replicate 450 0) = Some (True, message_bits (buffer d) ?n)"
    using n lb by (subst unpack_loop_eq) (auto simp: message_bits_def simp del: map_eq_conv)
  then show ?thesis using assms(1) p c m by (simp add: protodec_calculate_crc_def Let_def del: local_array_length)
qed

section \<open>What a good frame does\<close>

definition env_ok :: "world \<Rightarrow> bool" where
  "env_ok w \<longleftrightarrow> world_ok w \<and> length (skip_type w) = 25"

lemma reported_env: "env_ok w \<Longrightarrow> reported ps w w' \<Longrightarrow> env_ok w'"
  using reported_ok reported_config(3) unfolding env_ok_def by metis

lemma does_keep: "does ps w r \<Longrightarrow> does_d ps d w (keep d r)"
  by (auto simp: does_def does_d_def keep_def)

lemma msg_ops_other:
  "ty \<notin> {1, 2, 3, 4, 5, 6, 8, 18, 19, 24} \<Longrightarrow> msg_ops ty rb t mm = []"
  by (simp add: msg_ops_def Let_def)

lemma msg_ops_pos: "msg_ops 2 = msg_ops 1" "msg_ops 3 = msg_ops 1"
  by (simp_all add: msg_ops_def Let_def fun_eq_iff)

lemma handle_message_ok:
  assumes d: "frame_ok d" and w: "world_ok w" and l: "bufferlen \<le> 450"
  shows "does_d (msg_ops ty (rbuffer d) t mm) d w (handle_message ty bufferlen t mm d w)"
proof -
  have seven: "does [] w (protodec_7_13 d bufferlen w)"
    unfolding protodec_7_13_def by (rule acks_loop_ok [OF d l]) simp
  have twenty: "does [] w (protodec_20 d bufferlen w)"
    unfolding protodec_20_def by (rule slots_loop_ok [OF d l]) simp
  consider "ty = 1 \<or> ty = 2 \<or> ty = 3" | "ty = 4" | "ty = 18" | "ty = 5" | "ty = 6" | "ty = 8" | "ty = 19" | "ty = 24"
    | "ty = 7 \<or> ty = 13" | "ty = 20" | "ty \<notin> {1, 2, 3, 4, 5, 6, 7, 8, 13, 18, 19, 20, 24}" by blast
  then show ?thesis
  proof cases
    case 1
    then show ?thesis using protodec_pos_ok [OF d w] msg_ops_pos by (auto simp: handle_message_def)
  next
    case 11
    then show ?thesis by (simp add: handle_message_def msg_ops_other does_d_Some)
  qed (use d w seven twenty in \<open>auto simp: handle_message_def msg_ops_other intro!: does_keep protodec_4_ok protodec_18_ok
      protodec_5_ok protodec_6_ok protodec_8_ok protodec_19_ok protodec_24_ok\<close>)
qed

lemma reported_out: "reported [] w (w\<lparr>w_out := w_out w @ es\<rparr>)"
  unfolding reported_def by (rule exI [of _ es], rule exI [of _ "w_cache w"]) simp

lemma reported_sent: "reported [] w (sent t s d w)"
  unfolding sent_def by (rule reported_out)

lemma reported_sents: "reported [] w w1 \<Longrightarrow> reported [] w (foldl (\<lambda>w s. sent t s d w) w1 ss)"
proof (induction ss arbitrary: w1)
  case (Cons s ss)
  then show ?case using reported_trans [OF Cons.prems reported_sent] by simp
qed simp

text \<open>The type of a message, its sender, and the operations it stands for.\<close>

definition msg_type :: "u8 list \<Rightarrow> nat" where
  "msg_type rb = unat (field 0 6 rb)"

definition msg_mmsi :: "u8 list \<Rightarrow> int" where
  "msg_mmsi rb = uint (field 8 30 rb)"

definition frame_ops :: "int list \<Rightarrow> u8 list \<Rightarrow> int \<Rightarrow> cache_op list" where
  "frame_ops skip rb t =
     (if 1 \<le> msg_type rb \<and> msg_type rb \<le> 24 \<and> skip ! msg_type rb = 0 then msg_ops (msg_type rb) rb t (msg_mmsi rb) else [])"

definition next_seq :: "u8 \<Rightarrow> u8" where
  "next_seq s = (if s + 1 > 9 then 0 else s + 1)"

lemma next_seq_le: "next_seq s \<le> 9"
  by (simp add: next_seq_def not_less)

text \<open>The number of fill bits that bring \<open>len\<close> bits to whole six-bit groups, and the number of groups.\<close>

definition fill_bits :: "nat \<Rightarrow> nat" where
  "fill_bits len = (if len mod 6 > 0 then 6 - len mod 6 else 0)"

definition groups :: "nat \<Rightarrow> nat" where
  "groups len = (len + fill_bits len) div 6"

lemma groups_eq: "len + fill_bits len = 6 * groups len" "fill_bits len \<le> 5"
proof -
  have "(len + fill_bits len) mod 6 = 0" unfolding fill_bits_def by presburger
  then show "len + fill_bits len = 6 * groups len" unfolding groups_def by presburger
  show "fill_bits len \<le> 5" unfolding fill_bits_def by presburger
qed

text \<open>
  What a frame of \<open>len\<close> bits in \<open>rbuffer\<close> does to the process: its sentences go to the outputs, then its
  operations to the cache.
\<close>

definition sentences_of :: "demod_state \<Rightarrow> nat \<Rightarrow> u8 list list" where
  "sentences_of d len = aivdm_parts (seqnr d) (rbuffer d) (groups len) (fill_bits len)"

definition frame_effect :: "demod_state \<Rightarrow> nat \<Rightarrow> world \<Rightarrow> world \<Rightarrow> bool" where
  "frame_effect d len w w' \<longleftrightarrow>
     (if 1 \<le> msg_type (rbuffer d) \<and> msg_type (rbuffer d) \<le> 24
      then reported (frame_ops (skip_type w) (rbuffer d) (w_clock w (w_tick w)))
        (foldl (\<lambda>v s. sent (w_clock w (w_tick w)) s d v) (w\<lparr>w_tick := Suc (w_tick w)\<rparr>) (sentences_of d len)) w'
      else w' = w)"

definition same_but_report :: "demod_state \<Rightarrow> demod_state \<Rightarrow> bool" where
  "same_but_report d d' \<longleftrightarrow> (\<exists>a b e s r. d' = d\<lparr>nmea := a, serbuffer := b, ipcbuffer := e, seqnr := s, best_range := r\<rparr>)
     \<and> buffers_ok d' \<and> seqnr d' \<le> 9"

lemma same_but_reportI:
  assumes "same_but_out d d1" "same_but_range (d1\<lparr>seqnr := next_seq (seqnr d1)\<rparr>) d2"
  shows "same_but_report d d2" "nmea d2 = nmea d1" "rbuffer d2 = rbuffer d" "seqnr d2 = next_seq (seqnr d)"
proof -
  obtain a b e where d1: "d1 = d\<lparr>nmea := a, serbuffer := b, ipcbuffer := e\<rparr>" and ok: "buffers_ok d1"
    using assms(1) by (auto simp: same_but_out_def)
  obtain r where d2: "d2 = d1\<lparr>seqnr := next_seq (seqnr d1), best_range := r\<rparr>"
    using assms(2) by (auto simp: same_but_range_def)
  have "d2 = d\<lparr>nmea := a, serbuffer := b, ipcbuffer := e, seqnr := next_seq (seqnr d), best_range := r\<rparr>"
    by (simp add: d2 d1)
  moreover have "buffers_ok d2" "seqnr d2 \<le> 9" using ok next_seq_le by (simp_all add: d2 buffers_ok_def)
  ultimately show "same_but_report d d2" unfolding same_but_report_def by blast
  show "nmea d2 = nmea d1" "rbuffer d2 = rbuffer d" "seqnr d2 = next_seq (seqnr d)" by (simp_all add: d2 d1)
qed

lemma sent_fold_config:
  "skip_type (foldl (\<lambda>w s. sent t s d w) w ss) = skip_type w"
  "world_ok (foldl (\<lambda>w s. sent t s d w) w ss) = world_ok w"
  by (induction ss arbitrary: w) (simp_all add: sent_def world_ok_def)

lemma set_many_zeros:
  assumes "drop n rb = replicate (length rb - n) 0" "n + k \<le> length rb"
  shows "set_many rb n (replicate k 0) = Some rb"
proof -
  have "take k (drop n rb) = replicate k 0" unfolding assms(1) using assms(2) by simp
  then have "drop n rb = replicate k 0 @ drop (n + k) rb"
    using append_take_drop_id [of k "drop n rb"] by (simp add: add.commute)
  then show ?thesis using assms(2) append_take_drop_id [of n rb] by (simp add: set_many_eq)
qed

lemma seqnr_next:
  "(if seqnr (d\<lparr>seqnr := seqnr d + 1\<rparr>) > 9 then d\<lparr>seqnr := seqnr d + 1, seqnr := 0\<rparr> else d\<lparr>seqnr := seqnr d + 1\<rparr>)
    = d\<lparr>seqnr := next_seq (seqnr d)\<rparr>"
  by (simp add: next_seq_def)

lemma cstr_of_Some: "c_str s \<noteq> s \<Longrightarrow> cstr_of s = Some (c_str s)"
  using takeWhile_eq_all_conv [of "\<lambda>c. c \<noteq> 0" s] by (auto simp: cstr_of_def c_str_def)

lemma aivdm_length: "length (aivdm n i seq pl fl) = length pl + 18"
  by (simp add: aivdm_def with_checksum_def aivdm_body_def nmea_mid_def hex2_def)

lemma last_sentence_short: "length (List.last (aivdm_parts seq rb m fl)) \<le> 79"
  using part_count_pos [of m] by (simp add: aivdm_parts_def last_map aivdm_part_def aivdm_length)

lemma nmea_terminated:
  assumes "buffers_ok d" "c_str (nmea d) = List.last (aivdm_parts seq rb m fl)"
  shows "cstr_of (nmea d) = Some (c_str (nmea d))"
  using assms last_sentence_short [of seq rb m fl] by (intro cstr_of_Some) (auto simp: buffers_ok_def)

lemma getdata_ok:
  assumes d: "frame_ok d" "buffers_ok d" "seqnr d \<le> 9" and w: "env_ok w" and len: "len \<le> 426"
    and z: "drop len (rbuffer d) = replicate (450 - len) 0"
  shows "\<exists>d' w'. protodec_getdata len d w = Some (d', w') \<and> same_but_report d d' \<and> frame_effect d len w w'
    \<and> rbuffer d' = rbuffer d \<and> (1 \<le> msg_type (rbuffer d) \<and> msg_type (rbuffer d) \<le> 24 \<longrightarrow> seqnr d' = next_seq (seqnr d))"
proof -
  let ?rb = "rbuffer d"
  have rb: "length ?rb = 450" "bits01 ?rb" using d(1) by (simp_all add: frame_ok_def)
  have "unat (field 0 6 ?rb) < 64" using field_bound [of 0 6 ?rb] rb by simp
  then have ty: "unat (ucast (field 0 6 ?rb) :: u8) = msg_type ?rb"
    by (simp add: msg_type_def unsigned_ucast_eq take_bit_nat_eq_self_iff)
  then have tyi: "uint (ucast (field 0 6 ?rb) :: u8) = int (msg_type ?rb)" by (metis uint_nat)
  have h: "protodec_henten 0 6 ?rb = Some (field 0 6 ?rb)" "protodec_henten 8 30 ?rb = Some (field 8 30 ?rb)"
    using rb by (simp_all add: henten_field)
  show ?thesis
  proof (cases "1 \<le> msg_type ?rb \<and> msg_type ?rb \<le> 24")
    case False
    then have "protodec_getdata len d w = Some (d, w)"
      using h(1) by (auto simp: protodec_getdata_def ty MAX_AIS_PACKET_TYPE_def)
    moreover have "same_but_report d d"
      unfolding same_but_report_def using d(2,3)
      by (intro conjI exI [of _ "nmea d"] exI [of _ "serbuffer d"] exI [of _ "ipcbuffer d"] exI [of _ "seqnr d"]
          exI [of _ "best_range d"]) simp_all
    ultimately show ?thesis using False by (auto simp: frame_effect_def)
  next
    case True
    let ?t = "w_clock w (w_tick w)" and ?w0 = "w\<lparr>w_tick := Suc (w_tick w)\<rparr>"
    let ?m = "groups len" and ?f = "fill_bits len"
    let ?w1 = "foldl (\<lambda>w s. sent ?t s d w) ?w0 (sentences_of d len)"
    have m: "6 * ?m \<le> length ?rb" "?m \<le> 549" "?f \<le> 9" using groups_eq [of len] len rb(1) by linarith+
    have fill: "set_many ?rb len (replicate ?f 0) = Some ?rb"
      using z m(1) groups_eq(1) [of len] rb(1) by (intro set_many_zeros) simp_all
    obtain d1 where g: "protodec_generate_nmea d (len + ?f) ?f ?t ?w0 = Some (d1, ?w1)" "same_but_out d d1"
        "c_str (nmea d1) = List.last (sentences_of d len)"
      using generate_nmea_ok [OF d(2) rb(2) d(3) m, of ?t ?w0] unfolding groups_eq(1) sentences_of_def by blast
    have d1: "rbuffer d1 = ?rb" "buffers_ok d1" "chanid d1 = chanid d" using g(2) by (auto simp: same_but_out_def)
    have w1: "world_ok ?w1" "skip_type ?w1 = skip_type w"
      using w by (simp_all add: sent_fold_config env_ok_def) (simp add: world_ok_def)
    have skip: "arr_get (skip_type w) (msg_type ?rb) = Some (skip_type w ! msg_type ?rb)"
      using True w by (simp add: env_ok_def)
    let ?d2 = "d1\<lparr>seqnr := next_seq (seqnr d1)\<rparr>"
    have d2: "frame_ok ?d2" using d(1) d1(1) by (simp add: frame_ok_def)
    have run: "protodec_getdata len d w =
      (if skip_type w ! msg_type ?rb \<noteq> 0 then Some (?d2, ?w1)
       else do {
         (d, w) \<leftarrow> handle_message (msg_type ?rb) (len + ?f) ?t (msg_mmsi ?rb) ?d2
           (emit (Printf ''ch %c type %d mmsi %09ld:'' [PInt (uint (chanid d)), PInt (int (msg_type ?rb)), PInt (msg_mmsi ?rb)]) ?w1);
         s \<leftarrow> cstr_of (nmea d);
         Some (d, emit (Printf '' (!%s)\<newline>'' [PStr s]) w)
       })"
      using True h fill g(1) skip w1(2) d1(3) seqnr_next [of d1]
      by (simp add: protodec_getdata_def ty tyi MAX_AIS_PACKET_TYPE_def time_now_def fill_bits_def [symmetric] msg_mmsi_def
          Let_def cong: if_cong split del: if_split)
    show ?thesis
    proof (cases "skip_type w ! msg_type ?rb = 0")
      case False
      have "same_but_report d ?d2" "rbuffer ?d2 = ?rb" "seqnr ?d2 = next_seq (seqnr d)"
        using same_but_reportI [OF g(2) same_but_range_refl] by blast+
      then show ?thesis using False True run by (auto simp: frame_effect_def frame_ops_def)
    next
      case skip0: True
      let ?w2 = "emit (Printf ''ch %c type %d mmsi %09ld:''
        [PInt (uint (chanid d)), PInt (int (msg_type ?rb)), PInt (msg_mmsi ?rb)]) ?w1"
      have w2: "world_ok ?w2" using reported_ok [OF w1(1) reported_emit] .
      have "len + ?f \<le> 450" using m(1) groups_eq(1) [of len] rb(1) by linarith
      from handle_message_ok [OF d2 w2 this, of "msg_type ?rb" ?t "msg_mmsi ?rb"] obtain d3 w3
        where e: "handle_message (msg_type ?rb) (len + ?f) ?t (msg_mmsi ?rb) ?d2 ?w2 = Some (d3, w3)"
          "reported (msg_ops (msg_type ?rb) ?rb ?t (msg_mmsi ?rb)) ?w2 w3" "same_but_range ?d2 d3"
        using d1(1) by (auto simp: does_d_def)
      note d3 = same_but_reportI [OF g(2) e(3)]
      have "buffers_ok d3" using d3(1) by (simp add: same_but_report_def)
      then have c: "cstr_of (nmea d3) = Some (c_str (nmea d3))"
        using nmea_terminated [of d3] g(3) d3(2) unfolding sentences_of_def by simp
      have "reported (msg_ops (msg_type ?rb) ?rb ?t (msg_mmsi ?rb)) ?w1 w3"
        using reported_trans [OF reported_emit e(2)] by simp
      then have "frame_effect d len w (emit (Printf '' (!%s)\<newline>'' [PStr (c_str (nmea d3))]) w3)"
        using True skip0 reported_quiet(1) by (simp add: frame_effect_def frame_ops_def)
      then show ?thesis using run skip0 e(1) c d3 by simp
    qed
  qed
qed

section \<open>Memory safety of the state machine\<close>

definition demod_ok :: "demod_state \<Rightarrow> bool" where
  "demod_ok d \<longleftrightarrow> length (buffer d) = 450 \<and> length (rbuffer d) = 450 \<and> buffers_ok d \<and> seqnr d \<le> 9 \<and> bufferpos d \<le> 448"

lemma demod_ok_reset [simp]: "demod_ok d \<Longrightarrow> demod_ok (protodec_reset d)"
  by (simp add: demod_ok_def protodec_reset_def buffers_ok_def)

lemma demod_ok_fields [simp]:
  "demod_ok (d\<lparr>dlast := b\<rparr>) = demod_ok d" "demod_ok (d\<lparr>dstate := s\<rparr>) = demod_ok d" "demod_ok (d\<lparr>nskurr := i\<rparr>) = demod_ok d"
  "demod_ok (d\<lparr>npreamble := i\<rparr>) = demod_ok d" "demod_ok (d\<lparr>nstartsign := i\<rparr>) = demod_ok d"
  "demod_ok (d\<lparr>ndata := i\<rparr>) = demod_ok d" "demod_ok (d\<lparr>antallenner := i\<rparr>) = demod_ok d"
  "demod_ok (d\<lparr>antallpreamble := i\<rparr>) = demod_ok d" "demod_ok (d\<lparr>bitstuff := i\<rparr>) = demod_ok d"
  "demod_ok (d\<lparr>receivedframes := i\<rparr>) = demod_ok d" "demod_ok (d\<lparr>lostframes := i\<rparr>) = demod_ok d"
  "demod_ok (d\<lparr>lostframes2 := i\<rparr>) = demod_ok d"
  by (simp_all add: demod_ok_def buffers_ok_def)

lemma initialize_ok: "demod_ok (protodec_initialize mem ser ip ch)"
  by (simp add: protodec_initialize_def protodec_reset_def demod_ok_def buffers_ok_def
      DEMOD_BUFFER_LEN_def SERBUFFER_LEN_def IPCBUFFER_LEN_def)

lemma frame_effect_env:
  assumes "env_ok w" "frame_effect d len w w'"
  shows "env_ok w'"
proof (cases "1 \<le> msg_type (rbuffer d) \<and> msg_type (rbuffer d) \<le> 24")
  case True
  let ?w = "foldl (\<lambda>v s. sent (w_clock w (w_tick w)) s d v) (w\<lparr>w_tick := Suc (w_tick w)\<rparr>) (sentences_of d len)"
  have "env_ok ?w" using assms(1) by (simp add: env_ok_def sent_fold_config) (simp add: world_ok_def)
  then show ?thesis using assms(2) True reported_env by (simp add: frame_effect_def)
qed (use assms in \<open>simp add: frame_effect_def\<close>)

lemma step_data_ok: "demod_ok d \<Longrightarrow> \<exists>d'. step_data b d = Some d' \<and> demod_ok d'"
  unfolding step_data_def demod_ok_def buffers_ok_def
  by (cases "bitstuff d = 0") (simp_all add: Let_def protodec_reset_def)

lemma step_startsign_ok: "demod_ok d \<Longrightarrow> \<exists>d'. step_startsign b d = Some d' \<and> demod_ok d'"
  unfolding step_startsign_def memset0_def
  by (auto simp: DEMOD_BUFFER_LEN_def demod_ok_def buffers_ok_def protodec_reset_def)

lemma step_skurr_ok: "demod_ok d \<Longrightarrow> demod_ok (step_skurr b d)"
  by (simp add: step_skurr_def Let_def)

lemma step_preamble_ok: "demod_ok d \<Longrightarrow> demod_ok (step_preamble b d)"
  by (simp add: step_preamble_def Let_def)

text \<open>A frame that is complete: it is either processed or counted as lost.\<close>

lemma message_bits_zero: "8 * n \<le> len \<Longrightarrow> len \<le> 450 \<Longrightarrow> drop len (message_bits b n) = replicate (450 - len) 0"
  by (simp add: message_bits_def)

lemma stopsign_frame:
  assumes "demod_ok d" "env_ok w" "22 < bufferpos d"
  defines "len \<equiv> bufferpos d - 22"
  defines "d1 \<equiv> d\<lparr>rbuffer := message_bits (buffer d) (len div 8)\<rparr>"
  shows "if protodec_sdlc_crc (frame_bytes (buffer d) (len div 8 + 2)) (len div 8 + 2) = Some 0x0f47
    then \<exists>d2 w2. step_stopsign 0 d w = Some (protodec_reset d2, w2)
        \<and> same_but_report (d1\<lparr>receivedframes := wrap32 (receivedframes d + 1)\<rparr>) d2 \<and> frame_effect d1 len w w2
        \<and> (1 \<le> msg_type (rbuffer d1) \<and> msg_type (rbuffer d1) \<le> 24 \<longrightarrow> seqnr d2 = next_seq (seqnr d))
    else step_stopsign 0 d w = Some (protodec_reset (d1\<lparr>lostframes := wrap32 (lostframes d + 1)\<rparr>), w)"
proof -
  let ?n = "len div 8"
  have len: "int (bufferpos d) - 6 - 16 = int len" "0 < int len" "len \<le> 426"
    using assms(1,3) by (auto simp: len_def demod_ok_def)
  have n: "8 * ?n \<le> len" "8 * ?n \<le> 450" using len(3) by simp_all
  have crc: "protodec_calculate_crc (int len) d w = Some
      (protodec_sdlc_crc (frame_bytes (buffer d) (?n + 2)) (?n + 2) = Some 0x0f47, d1, w)"
    using calculate_crc_eq [OF len(2), of d w] len(3) assms(1) by (simp add: demod_ok_def d1_def)
  let ?d1 = "d1\<lparr>receivedframes := wrap32 (receivedframes d1 + 1)\<rparr>"
  have "frame_ok ?d1" "buffers_ok ?d1" "seqnr ?d1 \<le> 9" "drop len (rbuffer ?d1) = replicate (450 - len) 0"
    using assms(1) n message_bits_ok message_bits_zero [OF n(1)] len(3)
    by (simp_all add: d1_def frame_ok_def buffers_ok_def demod_ok_def)
  from getdata_ok [OF this(1-3) assms(2) len(3) this(4)]
  obtain d2 w2 where g: "protodec_getdata len ?d1 w = Some (d2, w2)" "same_but_report ?d1 d2" "frame_effect ?d1 len w w2"
      "1 \<le> msg_type (rbuffer ?d1) \<and> msg_type (rbuffer ?d1) \<le> 24 \<longrightarrow> seqnr d2 = next_seq (seqnr ?d1)"
    by (elim exE conjE) (rule that)
  have "frame_effect ?d1 len w w2 = frame_effect d1 len w w2"
    by (simp add: frame_effect_def sentences_of_def sent_def)
  moreover have "receivedframes d1 = receivedframes d" "lostframes d1 = lostframes d" "seqnr d1 = seqnr d"
    by (simp_all add: d1_def)
  ultimately show ?thesis using g crc len(1,2)
    by (auto simp: step_stopsign_def Let_def split del: if_split split: if_split)
qed

lemma same_but_report_ok: "demod_ok d \<Longrightarrow> same_but_report d d' \<Longrightarrow> demod_ok d'"
  by (auto simp: same_but_report_def demod_ok_def)

lemma step_stopsign_ok:
  assumes "demod_ok d" "env_ok w"
  shows "\<exists>d' w'. step_stopsign b d w = Some (d', w') \<and> demod_ok d' \<and> env_ok w'"
proof (cases "b = 0 \<and> 22 < bufferpos d")
  case True
  let ?len = "bufferpos d - 22"
  let ?d1 = "d\<lparr>rbuffer := message_bits (buffer d) (?len div 8)\<rparr>"
  have "8 * (?len div 8) \<le> ?len" "?len \<le> 426" using assms(1) by (auto simp: demod_ok_def)
  then have "8 * (?len div 8) \<le> 450" by linarith
  then have d1: "demod_ok ?d1" using assms(1) message_bits_ok by (simp add: demod_ok_def buffers_ok_def)
  note f = stopsign_frame [OF assms conjunct2 [OF True]]
  show ?thesis
  proof (cases "protodec_sdlc_crc (frame_bytes (buffer d) (?len div 8 + 2)) (?len div 8 + 2) = Some 0x0f47")
    case ok: True
    obtain d2 w2 where s: "step_stopsign 0 d w = Some (protodec_reset d2, w2)"
        "same_but_report (?d1\<lparr>receivedframes := wrap32 (receivedframes d + 1)\<rparr>) d2" "frame_effect ?d1 ?len w w2"
      using f unfolding if_P [OF ok] by blast
    have "demod_ok d2" using same_but_report_ok [OF _ s(2)] d1 by simp
    then show ?thesis using True s(1) frame_effect_env [OF assms(2) s(3)] by simp
  next
    case False
    then show ?thesis using f True d1 assms(2) by simp
  qed
next
  case False
  then have "step_stopsign b d w = Some (protodec_reset (d\<lparr>lostframes2 := wrap32 (lostframes2 d + 1)\<rparr>), w)"
    by (auto simp: step_stopsign_def Let_def)
  then show ?thesis using assms by simp
qed

lemma decode_bit_ok:
  assumes "demod_ok d" "env_ok w"
  shows "\<exists>d' w'. decode_bit b d w = Some (d', w') \<and> demod_ok d' \<and> env_ok w'"
  using step_data_ok [OF assms(1), of b] step_startsign_ok [OF assms(1), of b] step_skurr_ok [OF assms(1), of b]
    step_preamble_ok [OF assms(1), of b] step_stopsign_ok [OF assms, of b] assms(2)
  by (cases "dstate d") (auto simp: decode_bit_def)

section \<open>Runs\<close>

fun decode_bits :: "u8 list \<Rightarrow> demod_state \<Rightarrow> world \<Rightarrow> (demod_state \<times> world) option" where
  "decode_bits [] d w = Some (d, w)"
| "decode_bits (b # bs) d w = do { (d, w) \<leftarrow> decode_bit b d w; decode_bits bs d w }"

lemma decode_loop_bits: "i \<le> length inp \<Longrightarrow> decode_loop inp (length inp) i d w = decode_bits (drop i inp) d w"
proof (induction "length inp - i" arbitrary: i d w)
  case 0
  then show ?case by (simp add: decode_loop.simps)
next
  case (Suc n)
  then have i: "i < length inp" and n: "n = length inp - (i + 1)" by simp_all
  have "decode_loop inp (length inp) (i + 1) d w = decode_bits (drop (i + 1) inp) d w" for d w
    using Suc.hyps(1) [OF n] i by simp
  then show ?case using i by (subst decode_loop.simps) (simp add: Cons_nth_drop_Suc [symmetric] split_def)
qed

lemma protodec_decode_bits: "protodec_decode inp (length inp) d w = decode_bits inp d w"
  using decode_loop_bits [of 0 inp] by (simp add: protodec_decode_def)

lemma decode_bits_append:
  "decode_bits (xs @ ys) d w = do { (d, w) \<leftarrow> decode_bits xs d w; decode_bits ys d w }"
  by (induction xs arbitrary: d w) (auto split: Option.bind_splits)

lemma decode_bits_ok:
  "demod_ok d \<Longrightarrow> env_ok w \<Longrightarrow> \<exists>d' w'. decode_bits bs d w = Some (d', w') \<and> demod_ok d' \<and> env_ok w'"
proof (induction bs arbitrary: d w)
  case (Cons b bs)
  obtain d1 w1 where "decode_bit b d w = Some (d1, w1)" "demod_ok d1" "env_ok w1"
    using decode_bit_ok [OF Cons.prems] by blast
  then show ?case using Cons.IH [of d1 w1] by simp
qed simp

text \<open>
  C7. The decoder is memory safe on every input. Whatever bytes are fed to a freshly initialised channel, however long, and
  whatever the buffers from the allocator contain, no access is out of bounds, no pointer of the cache is
  misused, every loop ends, and the receive position, the buffer sizes and the sequence number stay within their limits.
\<close>

theorem decode_safe:
  assumes "env_ok w"
  shows "\<exists>d w'. protodec_decode inp (length inp) (protodec_initialize mem ser ip ch) w = Some (d, w')
    \<and> demod_ok d \<and> env_ok w'"
  unfolding protodec_decode_bits by (rule decode_bits_ok [OF initialize_ok assms])

lemma idle_env_ok: "env_ok idle_world"
  using idle_world_ok by (simp add: env_ok_def idle_world_def)

theorem decode_safe_witness:
  "env_ok idle_world \<and> (\<exists>d w'. protodec_decode (replicate 3000 1 @ replicate 70 0) 3070
      (protodec_initialize (\<lambda>_ _. 255) True False 66) idle_world = Some (d, w') \<and> demod_ok d \<and> env_ok w')"
  using idle_env_ok decode_safe [OF idle_env_ok, where inp = "replicate 3000 1 @ replicate 70 0"] by simp

end
