(* ===== verification/Hdlc.thy ===== *)
theory Hdlc
  imports Protodec
begin

text \<open>
  The link layer from the transmitter's side: bytes are sent least significant bit first with the frame
  check sequence, zeros are stuffed after five ones, and the frame is put between flags after a
  training sequence. A channel that is hunting for a frame receives every frame sent in this way.
\<close>

section \<open>The transmitter\<close>

fun alternating :: "u8 \<Rightarrow> nat \<Rightarrow> u8 list" where
  "alternating b 0 = []"
| "alternating b (Suc n) = b # alternating (1 - b) n"

definition training :: "u8 list" where
  "training = alternating 0 24"

definition flag :: "u8 list" where
  "flag = [0, 1, 1, 1, 1, 1, 1, 0]"

text \<open>Bit stuffing; the number counts the ones just sent.\<close>

fun stuff :: "nat \<Rightarrow> u8 list \<Rightarrow> u8 list" where
  "stuff k [] = []"
| "stuff k (b # bs) =
     (if b = 1 then (if k = 4 then 1 # 0 # stuff 0 bs else 1 # stuff (Suc k) bs) else b # stuff 0 bs)"

definition wire_bits :: "u8 list \<Rightarrow> u8 list" where
  "wire_bits bytes = concat (map (\<lambda>x. map of_bool (byte_bits x)) bytes)"

definition fcs :: "u8 list \<Rightarrow> u8 list" where
  "fcs bytes = fcs_bytes (NOT (crc_run 0xffff (concat (map byte_bits bytes))))"

text \<open>A frame with any bits between its flags, and one with bytes and their check sequence.\<close>

definition bit_frame :: "u8 list \<Rightarrow> u8 list" where
  "bit_frame bs = training @ flag @ stuff 0 bs @ flag"

definition hdlc_frame :: "u8 list \<Rightarrow> u8 list" where
  "hdlc_frame bytes = training @ flag @ stuff 0 (wire_bits (bytes @ fcs bytes)) @ flag"

section \<open>Hunting\<close>

text \<open>Everything but the state machine and the receive buffer.\<close>

definition same_session :: "demod_state \<Rightarrow> demod_state \<Rightarrow> bool" where
  "same_session d d' \<longleftrightarrow> chanid d' = chanid d \<and> rbuffer d' = rbuffer d \<and> receivedframes d' = receivedframes d
     \<and> lostframes d' = lostframes d \<and> lostframes2 d' = lostframes2 d \<and> seqnr d' = seqnr d \<and> best_range d' = best_range d
     \<and> serial d' = serial d \<and> ipc d' = ipc d \<and> serbuffer d' = serbuffer d \<and> ipcbuffer d' = ipcbuffer d
     \<and> nmea d' = nmea d \<and> length (buffer d') = length (buffer d)"

lemma same_session_refl [simp]: "same_session d d"
  by (simp add: same_session_def)

lemma same_session_trans: "same_session d d' \<Longrightarrow> same_session d' d'' \<Longrightarrow> same_session d d''"
  by (simp add: same_session_def)

definition hunting :: "demod_state \<Rightarrow> bool" where
  "hunting d \<longleftrightarrow> dstate d = ST_SKURR \<and> nstartsign d = 0 \<and> bitstuff d = 0
     \<and> 0 \<le> antallpreamble d \<and> antallpreamble d \<le> 15 \<and> (antallpreamble d = 15 \<longrightarrow> dlast d = 1)"

definition in_preamble :: "demod_state \<Rightarrow> bool" where
  "in_preamble d \<longleftrightarrow> dstate d = ST_PREAMBLE \<and> nstartsign d = 0 \<and> bitstuff d = 0"

text \<open>One more alternation while hunting: counted, or enough to recognise a training sequence.\<close>

lemma hunting_step:
  assumes "hunting d" "b \<noteq> dlast d" "b = 0 \<or> b = 1"
  obtains d' where "decode_bit b d w = Some (d', w)" "same_session d d'" "dlast d' = b"
    "in_preamble d' \<or> hunting d' \<and> antallpreamble d' = antallpreamble d + 1"
  using assms
  by (auto simp: hunting_def in_preamble_def decode_bit_def step_skurr_def Let_def same_session_def)

lemma preamble_step:
  assumes "in_preamble d" "b \<noteq> dlast d"
  obtains d' where "decode_bit b d w = Some (d', w)" "same_session d d'" "dlast d' = b" "in_preamble d'"
  using assms by (auto simp: in_preamble_def decode_bit_def step_preamble_def Let_def same_session_def)

lemma preamble_run:
  "in_preamble d \<Longrightarrow> b = 1 - dlast d \<Longrightarrow> dlast d = 0 \<or> dlast d = 1 \<Longrightarrow>
    \<exists>d'. decode_bits (alternating b n) d w = Some (d', w) \<and> same_session d d' \<and> in_preamble d'
      \<and> dlast d' = (if even n then dlast d else b)"
proof (induction n arbitrary: b d)
  case (Suc n)
  have "b \<noteq> dlast d" using Suc.prems(2,3) by auto
  then obtain d1 where d1: "decode_bit b d w = Some (d1, w)" "same_session d d1" "dlast d1 = b" "in_preamble d1"
    by (rule preamble_step [OF Suc.prems(1)])
  have "b = 0 \<or> b = 1" using Suc.prems(2,3) by auto
  with d1(3,4) obtain d2 where "decode_bits (alternating (1 - b) n) d1 w = Some (d2, w)" "same_session d1 d2"
      "in_preamble d2" "dlast d2 = (if even n then dlast d1 else 1 - b)"
    using Suc.IH [of d1 "1 - b"] by auto
  then show ?case using d1 Suc.prems(2,3) same_session_trans [OF d1(2)] by auto
qed simp

lemma hunting_run:
  "hunting d \<Longrightarrow> b = 1 - dlast d \<Longrightarrow> dlast d = 0 \<or> dlast d = 1 \<Longrightarrow>
    \<exists>d'. decode_bits (alternating b n) d w = Some (d', w) \<and> same_session d d'
      \<and> (in_preamble d' \<or> hunting d' \<and> antallpreamble d' = antallpreamble d + int n)
      \<and> dlast d' = (if even n then dlast d else b)"
proof (induction n arbitrary: b d)
  case (Suc n)
  have b: "b \<noteq> dlast d" "b = 0 \<or> b = 1" "1 - (1 - b) = b" using Suc.prems(2,3) by auto
  obtain d1 where d1: "decode_bit b d w = Some (d1, w)" "same_session d d1" "dlast d1 = b"
      "in_preamble d1 \<or> hunting d1 \<and> antallpreamble d1 = antallpreamble d + 1"
    by (rule hunting_step [OF Suc.prems(1) b(1,2)])
  obtain d2 where "decode_bits (alternating (1 - b) n) d1 w = Some (d2, w)" "same_session d1 d2"
      "in_preamble d2 \<or> hunting d2 \<and> antallpreamble d2 = antallpreamble d + int (Suc n)"
      "dlast d2 = (if even n then dlast d1 else 1 - b)"
    using d1(4)
  proof
    assume "in_preamble d1"
    then show thesis using preamble_run [of d1 "1 - b" n w] d1(3) b(2) that by blast
  next
    assume "hunting d1 \<and> antallpreamble d1 = antallpreamble d + 1"
    then show thesis using Suc.IH [of d1 "1 - b"] d1(3) b(2) that by force
  qed
  then show ?case using d1 Suc.prems(2,3) same_session_trans [OF d1(2)] by auto
qed simp

lemma training_run:
  assumes "hunting d" "dlast d = 0 \<or> dlast d = 1"
  obtains d' where "decode_bits training d w = Some (d', w)" "same_session d d'" "in_preamble d'" "dlast d' = 1"
proof (cases "dlast d = 1")
  case True
  then show thesis using hunting_run [OF assms(1), of 0 24 w] assms(1) that
    by (auto simp: training_def hunting_def)
next
  case False
  then have l: "dlast d = 0" using assms(2) by simp
  have tr: "training = 0 # alternating 1 23" by (simp add: training_def numeral_eq_Suc)
  obtain d1 where d1: "decode_bit 0 d w = Some (d1, w)" "same_session d d1" "dlast d1 = 0" "hunting d1"
    using assms(1) l that
    by (auto simp: hunting_def decode_bit_def step_skurr_def Let_def same_session_def)
  obtain d2 where "decode_bits (alternating 1 23) d1 w = Some (d2, w)" "same_session d1 d2"
      "in_preamble d2 \<or> hunting d2 \<and> antallpreamble d2 = antallpreamble d1 + int 23" "dlast d2 = 1"
    using hunting_run [OF d1(4), of 1 23 w] d1(3) by auto
  then show thesis using that [of d2] d1 same_session_trans [OF d1(2)] unfolding tr by (auto simp: hunting_def)
qed

section \<open>Receiving\<close>

text \<open>The channel holds \<open>bits\<close>, of which the last \<open>k\<close> are ones.\<close>

definition receiving :: "nat \<Rightarrow> u8 list \<Rightarrow> demod_state \<Rightarrow> bool" where
  "receiving k bits d \<longleftrightarrow> dstate d = ST_DATA \<and> bitstuff d = 0 \<and> bufferpos d = length bits
     \<and> buffer d = bits @ replicate (450 - length bits) 0
     \<and> (if k = 0 then dlast d = 0 \<and> antallenner d = 0 else dlast d = 1 \<and> antallenner d = int k - 1)"

lemma flag_run:
  assumes "in_preamble d" "dlast d = 1" "length (buffer d) = 450"
  obtains d' where "decode_bits flag d w = Some (d', w)" "same_session d d'" "receiving 0 [] d'"
  using assms
  by (auto simp: in_preamble_def flag_def decode_bit_def step_preamble_def step_startsign_def memset0_def
      DEMOD_BUFFER_LEN_def same_session_def receiving_def Let_def)

definition count_ones :: "u8 \<Rightarrow> demod_state \<Rightarrow> demod_state" where
  "count_ones b d = (if b = dlast d \<and> b = 1
     then (if antallenner d = 3 then d\<lparr>bitstuff := 1, antallenner := 0\<rparr> else d\<lparr>antallenner := antallenner d + 1\<rparr>)
     else d\<lparr>antallenner := 0\<rparr>)"

lemma decode_store:
  assumes "dstate d = ST_DATA" "bitstuff d = 0" "bufferpos d = length bits" "length bits < 448"
    "buffer d = bits @ replicate (450 - length bits) 0" "0 \<le> antallenner d" "antallenner d \<le> 3"
  shows "decode_bit b d w = Some ((count_ones b d)\<lparr>buffer := (bits @ [b]) @ replicate (450 - length (bits @ [b])) 0,
    bufferpos := Suc (length bits), ndata := wrap32 (ndata d + 1), dlast := b\<rparr>, w)"
proof -
  have "replicate (450 - length bits) 0 = 0 # replicate (450 - length (bits @ [b])) (0 :: u8)"
    using assms(4) by (simp flip: replicate_Suc)
  then have "arr_set (buffer d) (length bits) b = Some ((bits @ [b]) @ replicate (450 - length (bits @ [b])) 0)"
    using assms(4) unfolding assms(5) by (simp add: list_update_append)
  moreover have "wrap32 (antallenner d + 1) = antallenner d + 1" using assms(6,7) by simp
  ultimately show ?thesis using assms(1-4)
    by (auto simp: decode_bit_def step_data_def count_ones_def Let_def)
qed

lemma same_session_store: "length (buffer d) = 450 \<Longrightarrow> length bits < 448 \<Longrightarrow>
    same_session d ((count_ones b d)\<lparr>buffer := (bits @ [b]) @ replicate (450 - length (bits @ [b])) 0,
      bufferpos := i, ndata := j, dlast := b\<rparr>)"
  by (simp add: same_session_def count_ones_def)

lemma receiving_facts:
  assumes "receiving k bits d" "length bits < 448" "k \<le> 4"
  shows "decode_bit b d w = Some ((count_ones b d)\<lparr>buffer := (bits @ [b]) @ replicate (450 - length (bits @ [b])) 0,
      bufferpos := Suc (length bits), ndata := wrap32 (ndata d + 1), dlast := b\<rparr>, w)"
    and "length (buffer d) = 450"
proof -
  have r: "dstate d = ST_DATA" "bitstuff d = 0" "bufferpos d = length bits"
      "buffer d = bits @ replicate (450 - length bits) 0" "0 \<le> antallenner d" "antallenner d \<le> 3"
    using assms by (auto simp: receiving_def split: if_splits)
  show "decode_bit b d w = Some ((count_ones b d)\<lparr>buffer := (bits @ [b]) @ replicate (450 - length (bits @ [b])) 0,
      bufferpos := Suc (length bits), ndata := wrap32 (ndata d + 1), dlast := b\<rparr>, w)"
    by (rule decode_store [OF r(1-3) assms(2) r(4-6)])
  show "length (buffer d) = 450" using assms(2) by (simp add: r(4))
qed

lemma receiving_store:
  assumes "receiving k bits d" "length bits < 448" "b = 0 \<or> b = 1" "k \<le> 4" "b = 1 \<longrightarrow> k < 4"
  obtains d' where "decode_bit b d w = Some (d', w)" "same_session d d'"
    "receiving (if b = 1 then Suc k else 0) (bits @ [b]) d'"
proof -
  let ?d = "(count_ones b d)\<lparr>buffer := (bits @ [b]) @ replicate (450 - length (bits @ [b])) 0,
      bufferpos := Suc (length bits), ndata := wrap32 (ndata d + 1), dlast := b\<rparr>"
  note f = receiving_facts [OF assms(1,2,4)]
  have "receiving (if b = 1 then Suc k else 0) (bits @ [b]) ?d"
    using assms unfolding receiving_def count_ones_def by (auto split: if_splits)
  then show thesis using that [of ?d] f same_session_store [OF f(2) assms(2)] by simp
qed

text \<open>The fifth one in a row is stored and what follows it is either a stuffed zero or the end of the frame.\<close>

lemma receiving_fifth:
  assumes "receiving 4 bits d" "length bits < 448"
  obtains d' where "decode_bit 1 d w = Some (d', w)" "same_session d d'" "dstate d' = ST_DATA" "bitstuff d' = 1" "antallenner d' = 0"
    "bufferpos d' = Suc (length bits)" "buffer d' = (bits @ [1]) @ replicate (450 - length (bits @ [1])) 0"
proof -
  let ?d = "(count_ones 1 d)\<lparr>buffer := (bits @ [1]) @ replicate (450 - length (bits @ [1])) 0,
      bufferpos := Suc (length bits), ndata := wrap32 (ndata d + 1), dlast := 1\<rparr>"
  note f = receiving_facts [OF assms]
  have "dstate ?d = ST_DATA" "bitstuff ?d = 1" "antallenner ?d = 0" using assms(1) by (auto simp: receiving_def count_ones_def)
  then show thesis using that [of ?d] f same_session_store [OF f(2) assms(2)] by simp
qed

lemma stuffed_zero:
  assumes "dstate d = ST_DATA" "bitstuff d = 1" "antallenner d = 0" "bufferpos d = length bits" "buffer d = bits @ replicate (450 - length bits) 0"
  obtains d' where "decode_bit 0 d w = Some (d', w)" "same_session d d'" "receiving 0 bits d'"
  using assms by (auto simp: decode_bit_def step_data_def same_session_def receiving_def)

lemma data_run:
  "receiving k pre d \<Longrightarrow> k \<le> 4 \<Longrightarrow> bits01 bs \<Longrightarrow> length pre + length bs \<le> 448 \<Longrightarrow>
    \<exists>d' k'. decode_bits (stuff k bs) d w = Some (d', w) \<and> same_session d d' \<and> k' \<le> 4 \<and> receiving k' (pre @ bs) d'"
proof (induction k bs arbitrary: pre d rule: stuff.induct)
  case (1 k)
  then show ?case by auto
next
  case (2 k b bs)
  have b: "b = 0 \<or> b = 1" "bits01 bs" "length pre < 448" "length (pre @ [b]) + length bs \<le> 448" using "2.prems" by auto
  show ?case
  proof (cases "b = 1 \<and> k = 4")
    case True
    then have four: "receiving 4 pre d" using "2.prems"(1) by simp
    obtain d1 where d1: "decode_bit 1 d w = Some (d1, w)" "same_session d d1" "dstate d1 = ST_DATA" "bitstuff d1 = 1" "antallenner d1 = 0"
      "bufferpos d1 = Suc (length pre)" "buffer d1 = (pre @ [1]) @ replicate (450 - length (pre @ [1])) 0"
      by (rule receiving_fifth [OF four b(3)])
    obtain d2 where d2: "decode_bit 0 d1 w = Some (d2, w)" "same_session d1 d2" "receiving 0 (pre @ [1]) d2"
      using d1(6,7) by (auto intro: stuffed_zero [OF d1(3-5), of "pre @ [1]" w])
    obtain d3 k' where d3: "decode_bits (stuff 0 bs) d2 w = Some (d3, w)" "same_session d2 d3" "k' \<le> 4"
        "receiving k' ((pre @ [1]) @ bs) d3"
      using "2.IH"(1) [of "pre @ [1]" d2] True d2(3) b by auto
    have "same_session d d3" using d1(2) d2(2) d3(2) same_session_trans by blast
    then show ?thesis using True d1(1) d2(1) d3 by auto
  next
    case False
    obtain d1 where d1: "decode_bit b d w = Some (d1, w)" "same_session d d1"
        "receiving (if b = 1 then Suc k else 0) (pre @ [b]) d1"
      using "2.prems" b False by (auto intro: receiving_store [of k pre d b w])
    obtain d2 k' where d2: "decode_bits (stuff (if b = 1 then Suc k else 0) bs) d1 w = Some (d2, w)" "same_session d1 d2"
        "k' \<le> 4" "receiving k' ((pre @ [b]) @ bs) d2"
      using "2.IH"(2,3) [of "pre @ [b]" d1] d1(3) b False "2.prems"(2) by (cases "b = 1") auto
    have "same_session d d2" using d1(2) d2(2) same_session_trans by blast
    moreover have "stuff k (b # bs) = b # stuff (if b = 1 then Suc k else 0) bs" using False by auto
    ultimately show ?thesis using d1(1) d2 by auto
  qed
qed

lemma ones_run:
  "receiving k bits d \<Longrightarrow> k + n \<le> 4 \<Longrightarrow> length bits + n \<le> 448 \<Longrightarrow>
    \<exists>d'. decode_bits (replicate n 1) d w = Some (d', w) \<and> same_session d d' \<and> receiving (k + n) (bits @ replicate n 1) d'"
proof (induction n arbitrary: k bits d)
  case (Suc n)
  obtain d1 where d1: "decode_bit 1 d w = Some (d1, w)" "same_session d d1" "receiving (Suc k) (bits @ [1]) d1"
    using Suc.prems by (auto intro: receiving_store [of k bits d 1 w])
  obtain d2 where "decode_bits (replicate n 1) d1 w = Some (d2, w)" "same_session d1 d2"
      "receiving (Suc k + n) ((bits @ [1]) @ replicate n 1) d2"
    using Suc.IH [OF d1(3)] Suc.prems by auto
  then show ?case using d1 same_session_trans by auto
qed simp

text \<open>The closing flag up to its last bit.\<close>

lemma closing_run:
  assumes "receiving k bits d" "k \<le> 4" "length bits + 6 \<le> 448"
  obtains d' where "decode_bits [0, 1, 1, 1, 1, 1, 1] d w = Some (d', w)" "same_session d d'" "dstate d' = ST_STOPSIGN"
    "bitstuff d' = 0" "bufferpos d' = length bits + 6"
    "buffer d' = (bits @ [0, 1, 1, 1, 1, 1]) @ replicate (450 - (length bits + 6)) 0"
proof -
  have l: "length bits < 448" using assms(3) by simp
  obtain d1 where d1: "decode_bit 0 d w = Some (d1, w)" "same_session d d1" "receiving 0 (bits @ [0]) d1"
    using receiving_store [OF assms(1) l, of 0 w] assms(2) by auto
  obtain d2 where d2: "decode_bits (replicate 4 1) d1 w = Some (d2, w)" "same_session d1 d2"
      "receiving 4 ((bits @ [0]) @ replicate 4 1) d2"
    using ones_run [OF d1(3), of 4 w] assms(3) by auto
  have l4: "length ((bits @ [0]) @ replicate 4 1) < 448" using assms(3) by simp
  obtain d3 where d3: "decode_bit 1 d2 w = Some (d3, w)" "same_session d2 d3" "dstate d3 = ST_DATA" "bitstuff d3 = 1" "antallenner d3 = 0"
    "bufferpos d3 = Suc (length ((bits @ [0]) @ replicate 4 1))"
    "buffer d3 = (((bits @ [0]) @ replicate 4 1) @ [1]) @ replicate (450 - length (((bits @ [0]) @ replicate 4 1) @ [1])) 0"
    by (rule receiving_fifth [OF d2(3) l4])
  obtain d4 where d4: "decode_bit 1 d3 w = Some (d4, w)" "same_session d3 d4" "dstate d4 = ST_STOPSIGN" "bitstuff d4 = 0"
    "bufferpos d4 = bufferpos d3" "buffer d4 = buffer d3"
    using d3(3,4) that by (auto simp: decode_bit_def step_data_def same_session_def)
  have "same_session d d4" using d1(2) d2(2) d3(2) d4(2) same_session_trans by blast
  moreover have "decode_bits ([0] @ replicate 4 1 @ [1, 1]) d w = Some (d4, w)"
    using d1(1) d2(1) d3(1) d4(1) by (simp add: decode_bits_append del: replicate.simps)
  ultimately show thesis using that [of d4] d4(3-6) d3(6,7) by (simp add: numeral_eq_Suc)
qed

lemma decode_bits_after: "decode_bits xs d w = Some (d', w') \<Longrightarrow> decode_bits (xs @ ys) d w = decode_bits ys d' w'"
  by (simp add: decode_bits_append)

section \<open>Bytes on the wire\<close>

lemma bit_foldl_push:
  "bit (foldl (\<lambda>t i. t OR push_bit i (of_bool (f i))) (t :: u8) [0..<n]) k \<longleftrightarrow> bit t k \<or> k < n \<and> k < 8 \<and> f k"
  by (induction n) (auto simp: bit_or_iff bit_push_bit_iff bit_1_iff less_Suc_eq split: if_splits)

lemma packed_eq:
  assumes "\<And>i. i < 8 \<Longrightarrow> b ! (i + 8 * j) = of_bool (bit x i)"
  shows "packed b j = x"
proof -
  have "packed b j = foldl (\<lambda>t i. t OR push_bit i (of_bool (bit x i))) 0 [0..<8]"
    unfolding packed_def by (rule foldl_cong) (simp_all add: assms)
  then show ?thesis by (intro bit_word_eqI) (simp add: bit_foldl_push)
qed

lemma wire_bits_simps [simp]:
  "wire_bits [] = []"
  "wire_bits (x # xs) = map of_bool (byte_bits x) @ wire_bits xs"
  "wire_bits (xs @ ys) = wire_bits xs @ wire_bits ys"
  by (simp_all add: wire_bits_def)

lemma wire_bits_length [simp]: "length (wire_bits bytes) = 8 * length bytes"
  by (induction bytes) simp_all

lemma bits01_wire [simp]: "bits01 (wire_bits bytes)"
  by (induction bytes) (auto simp: bits01_def)

lemma wire_bits_nth: "i < 8 \<Longrightarrow> j < length bytes \<Longrightarrow> wire_bits bytes ! (i + 8 * j) = of_bool (bit (bytes ! j) i)"
proof (induction bytes arbitrary: j)
  case (Cons x bytes)
  then show ?case by (cases j) (auto simp: nth_append byte_bits_def)
qed simp

lemma frame_bytes_wire:
  assumes "n \<le> length bytes"
  shows "frame_bytes (wire_bits bytes @ post) n = take n bytes"
proof (rule nth_equalityI)
  fix j assume "j < length (frame_bytes (wire_bits bytes @ post) n)"
  then have j: "j < n" by (simp add: frame_bytes_def)
  have "packed (wire_bits bytes @ post) j = bytes ! j"
    using j assms by (intro packed_eq) (auto simp: nth_append wire_bits_nth)
  then show "frame_bytes (wire_bits bytes @ post) n ! j = take n bytes ! j" using j by (simp add: frame_bytes_def)
qed (use assms in \<open>simp add: frame_bytes_def\<close>)

text \<open>The receive buffer for the message that the bytes are, most significant bit first.\<close>

definition message_of :: "u8 list \<Rightarrow> u8 list" where
  "message_of bytes = map (msg_bit bytes) [0..<8 * length bytes] @ replicate (450 - 8 * length bytes) 0"

lemma fcs_length [simp]: "length (fcs bytes) = 2"
  by (simp add: fcs_def)

text \<open>Any bits, as far as they are whole bytes, are the bits of their bytes.\<close>

lemma wire_frame_bytes:
  assumes "bits01 bs" "8 * n \<le> length bs"
  shows "wire_bits (frame_bytes bs n) = take (8 * n) bs"
proof (rule nth_equalityI)
  show "length (wire_bits (frame_bytes bs n)) = length (take (8 * n) bs)" using assms(2) by (simp add: frame_bytes_def)
  fix i assume "i < length (wire_bits (frame_bytes bs n))"
  then have i: "i < 8 * n" by (simp add: frame_bytes_def)
  define j k where "j = i div 8" and "k = i mod 8"
  have ik: "i = k + 8 * j" "k < 8" "j < n" using i by (auto simp: j_def k_def)
  have "packed bs j = foldl (\<lambda>t i. t OR push_bit i (of_bool (bs ! (i + 8 * j) = 1))) 0 [0..<8]"
    unfolding packed_def
  proof (rule foldl_cong)
    fix t x assume "x \<in> set [0..<8 :: nat]"
    then have "x + 8 * j < length bs" using ik(3) assms(2) by auto
    then have "bs ! (x + 8 * j) = 0 \<or> bs ! (x + 8 * j) = 1" using assms(1) by (simp add: bits01_def)
    then show "t OR push_bit x (bs ! (x + 8 * j)) = t OR push_bit x (of_bool (bs ! (x + 8 * j) = 1))" by auto
  qed simp_all
  then have "bit (packed bs j) k \<longleftrightarrow> bs ! i = 1" using ik by (simp add: bit_foldl_push)
  moreover have "wire_bits (frame_bytes bs n) ! i = of_bool (bit (frame_bytes bs n ! j) k)"
    unfolding ik(1) by (rule wire_bits_nth) (use ik in \<open>simp_all add: frame_bytes_def\<close>)
  moreover have "i < length bs" using i assms(2) by simp
  then have "bs ! i = 0 \<or> bs ! i = 1" using assms(1) by (simp add: bits01_def)
  ultimately show "wire_bits (frame_bytes bs n) ! i = take (8 * n) bs ! i"
    using i ik(3) by (auto simp: frame_bytes_def)
qed

lemma frame_bytes_append: "8 * n \<le> length bs \<Longrightarrow> frame_bytes (bs @ post) n = frame_bytes bs n"
  by (auto simp: frame_bytes_def packed_def nth_append intro!: foldl_cong)

section \<open>A frame is judged\<close>

lemma hdlc_frame_bits: "hdlc_frame bytes = bit_frame (wire_bits (bytes @ fcs bytes))"
  by (simp add: hdlc_frame_def bit_frame_def)

text \<open>The message in the bits between two flags, and whether the two bytes behind it are its check sequence.\<close>

definition frame_message :: "u8 list \<Rightarrow> u8 list" where
  "frame_message bs = frame_bytes bs (length bs div 8 - 2)"

definition good_bits :: "u8 list \<Rightarrow> bool" where
  "good_bits bs \<longleftrightarrow> 16 < length bs \<and> take (8 * (length bs div 8)) bs = wire_bits (frame_message bs @ fcs (frame_message bs))"

lemma frame_bytes_wire_all: "frame_bytes (wire_bits bytes) (length bytes) = bytes"
  using frame_bytes_wire [of "length bytes" bytes "[]"] by simp

lemma good_hdlc:
  assumes "m \<noteq> []"
  shows "good_bits (wire_bits (m @ fcs m))" "frame_message (wire_bits (m @ fcs m)) = m"
proof -
  have "frame_bytes (wire_bits (m @ fcs m) @ []) (length m) = take (length m) (m @ fcs m)" by (rule frame_bytes_wire) simp
  then show f: "frame_message (wire_bits (m @ fcs m)) = m" by (simp add: frame_message_def)
  show "good_bits (wire_bits (m @ fcs m))" using assms unfolding good_bits_def f by (cases m) simp_all
qed

lemma good_bits_crc:
  assumes "bits01 bs" "16 < length bs"
  shows "protodec_sdlc_crc (frame_bytes bs (length bs div 8)) (length bs div 8) = Some 0x0f47 \<longleftrightarrow> good_bits bs"
proof -
  define n where "n = length bs div 8 - 2"
  have n: "length bs div 8 = n + 2" using div_le_mono [of 16 "length bs" 8] assms(2) by (simp add: n_def)
  have m: "frame_message bs = frame_bytes bs n" by (simp add: frame_message_def n_def)
  obtain c where c: "fcs_bytes c = [packed bs n, packed bs (Suc n)]" using fcs_bytes_all by blast
  have bys: "frame_bytes bs (n + 2) = frame_message bs @ fcs_bytes c" by (simp add: m c frame_bytes_def)
  have l: "length (frame_message bs) = n" by (simp add: m frame_bytes_def)
  have "protodec_sdlc_crc (frame_bytes bs (n + 2)) (n + 2) = Some 0x0f47 \<longleftrightarrow> fcs_bytes c = fcs (frame_message bs)"
    unfolding bys using sdlc_crc_accepts_iff [of "frame_message bs" c] fcs_bytes_inj unfolding l fcs_def by auto
  also have "\<dots> \<longleftrightarrow> frame_bytes bs (n + 2) = frame_message bs @ fcs (frame_message bs)" by (simp only: bys same_append_eq)
  also have "\<dots> \<longleftrightarrow> wire_bits (frame_bytes bs (n + 2)) = wire_bits (frame_message bs @ fcs (frame_message bs))"
  proof
    assume w: "wire_bits (frame_bytes bs (n + 2)) = wire_bits (frame_message bs @ fcs (frame_message bs))"
    have "length (frame_bytes bs (n + 2)) = length (frame_message bs @ fcs (frame_message bs))" by (simp add: l frame_bytes_def)
    then show "frame_bytes bs (n + 2) = frame_message bs @ fcs (frame_message bs)"
      using w frame_bytes_wire_all by metis
  qed simp
  also have "wire_bits (frame_bytes bs (n + 2)) = take (8 * (n + 2)) bs"
    using n times_div_less_eq_dividend [of 8 "length bs"] by (intro wire_frame_bytes [OF assms(1)]) simp
  finally show ?thesis unfolding good_bits_def n using assms(2) by simp
qed

lemma message_bits_frame:
  assumes "16 < length bs"
  shows "message_bits (bs @ post) ((length bs - 16) div 8) = message_of (frame_message bs)"
proof -
  have k: "(length bs - 16) div 8 = length bs div 8 - 2" using assms by linarith
  have "frame_bytes (bs @ post) (length bs div 8 - 2) = frame_message bs"
    unfolding frame_message_def by (rule frame_bytes_append) linarith
  moreover have "length (frame_message bs) = length bs div 8 - 2" by (simp add: frame_message_def frame_bytes_def)
  ultimately show ?thesis by (simp add: k message_bits_def message_of_def)
qed

definition ready :: "demod_state \<Rightarrow> bool" where
  "ready d \<longleftrightarrow> demod_ok d \<and> hunting d \<and> (dlast d = 0 \<or> dlast d = 1)"


lemma bits_to_stop:
  assumes "ready d" "bits01 bs" "length bs \<le> 442"
  obtains d' where "decode_bits (training @ flag @ stuff 0 bs @ [0, 1, 1, 1, 1, 1, 1]) d w = Some (d', w)"
    "same_session d d'" "dstate d' = ST_STOPSIGN" "bitstuff d' = 0" "bufferpos d' = length bs + 6"
    "buffer d' = bs @ [0, 1, 1, 1, 1, 1] @ replicate (450 - (length bs + 6)) 0"
proof -
  have d: "demod_ok d" "hunting d" "dlast d = 0 \<or> dlast d = 1" using assms(1) by (simp_all add: ready_def)
  obtain d1 where d1: "decode_bits training d w = Some (d1, w)" "same_session d d1" "in_preamble d1" "dlast d1 = 1"
    by (rule training_run [OF d(2,3)])
  have b1: "length (buffer d1) = 450" using d1(2) d(1) by (simp add: same_session_def demod_ok_def)
  obtain d2 where d2: "decode_bits flag d1 w = Some (d2, w)" "same_session d1 d2" "receiving 0 [] d2"
    by (rule flag_run [OF d1(3,4) b1])
  obtain d3 k where d3: "decode_bits (stuff 0 bs) d2 w = Some (d3, w)" "same_session d2 d3" "k \<le> 4" "receiving k bs d3"
    using data_run [OF d2(3) _ assms(2), of w] assms(3) by auto
  have l: "length bs + 6 \<le> 448" using assms(3) by simp
  obtain d4 where d4: "decode_bits [0, 1, 1, 1, 1, 1, 1] d3 w = Some (d4, w)" "same_session d3 d4" "dstate d4 = ST_STOPSIGN"
    "bitstuff d4 = 0" "bufferpos d4 = length bs + 6"
    "buffer d4 = (bs @ [0, 1, 1, 1, 1, 1]) @ replicate (450 - (length bs + 6)) 0"
    by (rule closing_run [OF d3(4,3) l])
  have "same_session d d4" using d1(2) d2(2) d3(2) d4(2) same_session_trans by blast
  then show thesis using that [of d4] d1(1) d2(1) d3(1) d4
    by (simp add: decode_bits_append del: decode_bits.simps)
qed

text \<open>What becomes of the bits between two flags: too few for a check sequence, a wrong one, or a message.\<close>

definition frame_judged :: "demod_state \<Rightarrow> u8 list \<Rightarrow> world \<Rightarrow> demod_state \<Rightarrow> world \<Rightarrow> bool" where
  "frame_judged d bs w d' w' \<longleftrightarrow> ready d' \<and> env_ok w'
     \<and> receivedframes d' = (if good_bits bs then wrap32 (receivedframes d + 1) else receivedframes d)
     \<and> lostframes d' = (if 16 < length bs \<and> \<not> good_bits bs then wrap32 (lostframes d + 1) else lostframes d)
     \<and> lostframes2 d' = (if length bs \<le> 16 then wrap32 (lostframes2 d + 1) else lostframes2 d)
     \<and> (if good_bits bs then rbuffer d' = message_of (frame_message bs)
            \<and> frame_effect (d\<lparr>rbuffer := message_of (frame_message bs)\<rparr>) (length bs - 16) w w'
        else w' = w)"

lemma decode_bit_frame:
  assumes "ready d" "env_ok w" "bits01 bs" "length bs \<le> 442"
  shows "\<exists>d' w'. decode_bits (bit_frame bs) d w = Some (d', w') \<and> frame_judged d bs w d' w'"
proof -
  obtain d1 where d1: "decode_bits (training @ flag @ stuff 0 bs @ [0, 1, 1, 1, 1, 1, 1]) d w = Some (d1, w)"
    "same_session d d1" "dstate d1 = ST_STOPSIGN" "bitstuff d1 = 0" "bufferpos d1 = length bs + 6"
    "buffer d1 = bs @ [0, 1, 1, 1, 1, 1] @ replicate (450 - (length bs + 6)) 0"
    by (rule bits_to_stop [OF assms(1,3,4)])
  have ok: "demod_ok d1" using assms(1,4) d1(2,5) by (auto simp: ready_def demod_ok_def same_session_def buffers_ok_def)
  have ready: "ready ((protodec_reset e)\<lparr>dlast := 0\<rparr>)" if "demod_ok e" for e
    using that by (simp add: ready_def hunting_def) (simp add: protodec_reset_def)
  have run: "decode_bits (bit_frame bs) d w = Some ((protodec_reset e)\<lparr>dlast := 0\<rparr>, v)"
    if "step_stopsign 0 d1 w = Some (protodec_reset e, v)" for e v
  proof -
    have "decode_bit 0 d1 w = Some ((protodec_reset e)\<lparr>dlast := 0\<rparr>, v)" using that d1(3) by (simp add: decode_bit_def)
    moreover have "bit_frame bs = (training @ flag @ stuff 0 bs @ [0, 1, 1, 1, 1, 1, 1]) @ [0]" by (simp add: bit_frame_def flag_def)
    ultimately show ?thesis using decode_bits_after [OF d1(1), of "[0]"] by (simp del: append_assoc)
  qed
  have reset: "receivedframes (protodec_reset e) = receivedframes e" "lostframes (protodec_reset e) = lostframes e"
    "lostframes2 (protodec_reset e) = lostframes2 e" "rbuffer (protodec_reset e) = rbuffer e" for e
    by (simp_all add: protodec_reset_def)
  show ?thesis
  proof (cases "16 < length bs")
    case False
    then have "step_stopsign 0 d1 w = Some (protodec_reset (d1\<lparr>lostframes2 := wrap32 (lostframes2 d1 + 1)\<rparr>), w)"
      by (simp add: step_stopsign_def d1(5) Let_def)
    moreover have "\<not> good_bits bs" using False by (simp add: good_bits_def)
    ultimately show ?thesis using run ready [of "d1\<lparr>lostframes2 := wrap32 (lostframes2 d1 + 1)\<rparr>"] ok False d1(2) assms(2)
      by (simp add: frame_judged_def reset same_session_def)
  next
    case True
    let ?n = "length bs - 16" and ?m = "frame_message bs"
    let ?d1 = "d1\<lparr>rbuffer := message_of ?m\<rparr>"
    have n: "22 < bufferpos d1" "bufferpos d1 - 22 = ?n" "?n div 8 + 2 = length bs div 8" using True unfolding d1(5) by linarith+
    have mb: "message_bits (buffer d1) (?n div 8) = message_of ?m" unfolding d1(6) by (rule message_bits_frame [OF True])
    have "frame_bytes (buffer d1) (length bs div 8) = frame_bytes bs (length bs div 8)"
      unfolding d1(6) by (rule frame_bytes_append) linarith
    then have crc: "protodec_sdlc_crc (frame_bytes (buffer d1) (?n div 8 + 2)) (?n div 8 + 2) = Some 0x0f47 \<longleftrightarrow> good_bits bs"
      using good_bits_crc [OF assms(3) True] by (simp only: n(3))
    note f = stopsign_frame [OF ok assms(2) n(1), unfolded n(2) crc mb]
    have "length (message_of ?m) = 450"
      using assms(4) by (simp add: message_of_def frame_message_def frame_bytes_def)
    then have ok1: "demod_ok ?d1" using ok by (simp add: demod_ok_def buffers_ok_def)
    show ?thesis
    proof (cases "good_bits bs")
      case False
      let ?e = "?d1\<lparr>lostframes := wrap32 (lostframes d1 + 1)\<rparr>"
      have "step_stopsign 0 d1 w = Some (protodec_reset ?e, w)" using f False by simp
      note run [OF this] ready [of ?e]
      then show ?thesis using ok1 True False d1(2) assms(2) by (simp add: frame_judged_def reset same_session_def)
    next
      case good: True
      obtain d2 w2 where s: "step_stopsign 0 d1 w = Some (protodec_reset d2, w2)"
          "same_but_report (?d1\<lparr>receivedframes := wrap32 (receivedframes d1 + 1)\<rparr>) d2" "frame_effect ?d1 ?n w w2"
        using f good by auto
      have "demod_ok (?d1\<lparr>receivedframes := wrap32 (receivedframes d1 + 1)\<rparr>)" using ok1 by simp
      then have "demod_ok d2" using s(2) by (rule same_but_report_ok)
      moreover have "frame_effect (d\<lparr>rbuffer := message_of ?m\<rparr>) ?n w w2"
        using s(3) d1(2) by (simp add: frame_effect_def sentences_of_def sent_def same_session_def cong: if_cong)
      moreover have "env_ok w2" using frame_effect_env [OF assms(2) s(3)] .
      ultimately show ?thesis using run [OF s(1)] ready [of d2] s(2) d1(2) good True
        by (auto simp: frame_judged_def reset same_session_def same_but_report_def)
    qed
  qed
qed

definition frame_received :: "demod_state \<Rightarrow> u8 list \<Rightarrow> world \<Rightarrow> demod_state \<Rightarrow> world \<Rightarrow> bool" where
  "frame_received d bytes w d' w' \<longleftrightarrow> ready d' \<and> env_ok w' \<and> rbuffer d' = message_of bytes
     \<and> receivedframes d' = wrap32 (receivedframes d + 1) \<and> lostframes d' = lostframes d \<and> lostframes2 d' = lostframes2 d
     \<and> frame_effect (d\<lparr>rbuffer := message_of bytes\<rparr>) (8 * length bytes) w w'"

lemma decode_hdlc_frame:
  assumes "ready d" "env_ok w" "bytes \<noteq> []" "length bytes \<le> 53"
  shows "\<exists>d' w'. decode_bits (hdlc_frame bytes) d w = Some (d', w') \<and> frame_received d bytes w d' w'"
proof -
  let ?bs = "wire_bits (bytes @ fcs bytes)"
  have "length ?bs \<le> 442" "16 < length ?bs" "length ?bs - 16 = 8 * length bytes" using assms(3,4) by simp_all
  moreover from this obtain d' w' where "decode_bits (bit_frame ?bs) d w = Some (d', w')" "frame_judged d ?bs w d' w'"
    using decode_bit_frame [OF assms(1,2) bits01_wire, of "bytes @ fcs bytes"] by blast
  ultimately show ?thesis using good_hdlc [OF assms(3)]
    by (simp add: hdlc_frame_bits frame_judged_def frame_received_def)
qed

text \<open>
  C6. Every frame that is sent is received. A channel that is hunting for a frame, fed the training sequence, the
  flags and the stuffed bits of any 1 to 53 bytes with their check sequence, counts one good frame and no lost one,
  holds the message bits in \<open>rbuffer\<close>, has written the AIVDM sentences and the cache updates of that
  message, and is hunting again.
\<close>

theorem frame_roundtrip:
  assumes "ready d" "env_ok w" "bytes \<noteq> []" "length bytes \<le> 53"
  shows "\<exists>d' w'. protodec_decode (hdlc_frame bytes) (length (hdlc_frame bytes)) d w = Some (d', w')
    \<and> frame_received d bytes w d' w'"
  using decode_hdlc_frame [OF assms] by (simp add: protodec_decode_bits)

lemma idle_ready: "ready idle_demod"
  by (simp add: ready_def demod_ok_def buffers_ok_def hunting_def idle_demod_def)

theorem frame_roundtrip_witness:
  "\<exists>d' w'. protodec_decode (hdlc_frame [0x0c, 0xff, 0x7e]) (length (hdlc_frame [0x0c, 0xff, 0x7e])) idle_demod idle_world
      = Some (d', w') \<and> receivedframes d' = 1"
proof -
  have "receivedframes idle_demod = 0" by (simp add: idle_demod_def)
  moreover have "[0x0c, 0xff, 0x7e :: u8] \<noteq> []" "length [0x0c, 0xff, 0x7e :: u8] \<le> 53" by simp_all
  note frame_roundtrip [OF idle_ready idle_env_ok this]
  ultimately show ?thesis by (auto simp: frame_received_def)
qed

section \<open>A stream of frames\<close>

text \<open>The cache operations of a stream of messages; each message with a valid type reads the clock once.\<close>

fun stream_ops :: "int list \<Rightarrow> (nat \<Rightarrow> int) \<Rightarrow> nat \<Rightarrow> u8 list list \<Rightarrow> cache_op list" where
  "stream_ops skip clk i [] = []"
| "stream_ops skip clk i (m # ms) =
     (if 1 \<le> msg_type (message_of m) \<and> msg_type (message_of m) \<le> 24
      then frame_ops skip (message_of m) (clk i) @ stream_ops skip clk (Suc i) ms else stream_ops skip clk i ms)"

lemma sent_fold_more:
  "w_clock (foldl (\<lambda>w s. sent t s d w) w ss) = w_clock w" "w_tick (foldl (\<lambda>w s. sent t s d w) w ss) = w_tick w"
  "w_cache (foldl (\<lambda>w s. sent t s d w) w ss) = w_cache w"
  by (induction ss arbitrary: w) (simp_all add: sent_def)

lemma frame_effect_world:
  assumes "frame_effect d len w w'"
  defines "valid \<equiv> 1 \<le> msg_type (rbuffer d) \<and> msg_type (rbuffer d) \<le> 24"
  shows "skip_type w' = skip_type w" "w_clock w' = w_clock w" "w_tick w' = (if valid then Suc (w_tick w) else w_tick w)"
    "cache_positions (w_cache w') = cache_positions (w_cache w)"
    "cache_positions (w_cache w) \<noteq> 0 \<Longrightarrow> cache_rep (w_cache w) M \<Longrightarrow>
      cache_rep (w_cache w') (foldl apply_op M (if valid then frame_ops (skip_type w) (rbuffer d) (w_clock w (w_tick w)) else []))"
proof -
  let ?w = "foldl (\<lambda>v s. sent (w_clock w (w_tick w)) s d v) (w\<lparr>w_tick := Suc (w_tick w)\<rparr>) (sentences_of d len)"
  have e: "if valid then reported (frame_ops (skip_type w) (rbuffer d) (w_clock w (w_tick w))) ?w w' else w' = w"
    using assms unfolding frame_effect_def by simp
  show "skip_type w' = skip_type w" "w_clock w' = w_clock w" "w_tick w' = (if valid then Suc (w_tick w) else w_tick w)"
    "cache_positions (w_cache w') = cache_positions (w_cache w)"
    using e reported_config [of _ ?w w'] by (cases valid; simp add: sent_fold_more sent_fold_config)+
  show "cache_rep (w_cache w') (foldl apply_op M (if valid then frame_ops (skip_type w) (rbuffer d) (w_clock w (w_tick w)) else []))"
    if "cache_positions (w_cache w) \<noteq> 0" "cache_rep (w_cache w) M"
    using e that by (cases valid) (auto simp: reported_def sent_fold_more split: if_splits)
qed

text \<open>An idle line, whose level does not change, is a run of ones; the channel goes on hunting.\<close>

lemma idle_step:
  assumes "ready d"
  obtains d' where "decode_bit 1 d w = Some (d', w)" "same_session d d'" "ready d'"
proof -
  let ?d = "(step_skurr 1 d)\<lparr>dlast := 1\<rparr>"
  have h: "dstate d = ST_SKURR" "hunting d" "demod_ok d" "dlast d = 0 \<or> dlast d = 1" using assms by (simp_all add: ready_def hunting_def)
  have "decode_bit 1 d w = Some (?d, w)" using h(1) by (simp add: decode_bit_def)
  moreover have "same_session d ?d" by (simp add: step_skurr_def Let_def same_session_def)
  moreover have "hunting ?d" using h(2,4) by (auto simp: hunting_def step_skurr_def Let_def)
  moreover have "demod_ok ?d" using step_skurr_ok [OF h(3)] by simp
  ultimately show thesis using that [of ?d] by (simp add: ready_def)
qed

lemma idle_run:
  "ready d \<Longrightarrow> \<exists>d'. decode_bits (replicate k 1) d w = Some (d', w) \<and> same_session d d' \<and> ready d'"
proof (induction k arbitrary: d)
  case (Suc k)
  obtain d1 where d1: "decode_bit 1 d w = Some (d1, w)" "same_session d d1" "ready d1" by (rule idle_step [OF Suc.prems])
  then show ?case using Suc.IH [OF d1(3)] same_session_trans by auto
qed auto

text \<open>Frames with arbitrary bits between their flags, each after a number of ones.\<close>

definition sent_bits :: "(nat \<times> u8 list) list \<Rightarrow> u8 list" where
  "sent_bits fs = concat (map (\<lambda>(k, bs). replicate k 1 @ bit_frame bs) fs)"

lemma sent_bits_simps [simp]:
  "sent_bits [] = []" "sent_bits ((k, bs) # fs) = replicate k 1 @ bit_frame bs @ sent_bits fs"
  by (simp_all add: sent_bits_def)

abbreviation counted :: "int \<Rightarrow> 'a list \<Rightarrow> int" where
  "counted n xs \<equiv> foldl (\<lambda>n _. wrap32 (n + 1)) n xs"

lemma decode_mixed:
  assumes "ready d" "env_ok w" "\<forall>(k, bs) \<in> set fs. bits01 bs \<and> length bs \<le> 442"
    and "cache_positions (w_cache w) \<noteq> 0" "cache_rep (w_cache w) M"
  shows "\<exists>d' w'. decode_bits (sent_bits fs) d w = Some (d', w') \<and> ready d' \<and> env_ok w'
    \<and> receivedframes d' = counted (receivedframes d) (filter good_bits (map snd fs))
    \<and> lostframes d' = counted (lostframes d) (filter (\<lambda>bs. 16 < length bs \<and> \<not> good_bits bs) (map snd fs))
    \<and> lostframes2 d' = counted (lostframes2 d) (filter (\<lambda>bs. length bs \<le> 16) (map snd fs))
    \<and> cache_rep (w_cache w') (foldl apply_op M
        (stream_ops (skip_type w) (w_clock w) (w_tick w) (map frame_message (filter good_bits (map snd fs)))))"
  using assms
proof (induction fs arbitrary: d w M)
  case (Cons f fs)
  obtain k bs where f: "f = (k, bs)" by (cases f)
  have bs: "bits01 bs" "length bs \<le> 442" "\<forall>(k, bs) \<in> set fs. bits01 bs \<and> length bs \<le> 442" using Cons.prems(3) by (simp_all add: f)
  obtain d0 where d0: "decode_bits (replicate k 1) d w = Some (d0, w)" "same_session d d0" "ready d0"
    using idle_run [OF Cons.prems(1)] by blast
  obtain d1 w1 where j: "decode_bits (bit_frame bs) d0 w = Some (d1, w1)" "frame_judged d0 bs w d1 w1"
    using decode_bit_frame [OF d0(3) Cons.prems(2) bs(1,2)] by blast
  have d1: "ready d1" "env_ok w1" using j(2) by (simp_all add: frame_judged_def)
  let ?m = "frame_message bs"
  let ?ops = "if good_bits bs \<and> 1 \<le> msg_type (message_of ?m) \<and> msg_type (message_of ?m) \<le> 24
    then frame_ops (skip_type w) (message_of ?m) (w_clock w (w_tick w)) else []"
  have w1: "skip_type w1 = skip_type w" "w_clock w1 = w_clock w" "cache_positions (w_cache w1) \<noteq> 0"
    "w_tick w1 = (if good_bits bs \<and> 1 \<le> msg_type (message_of ?m) \<and> msg_type (message_of ?m) \<le> 24 then Suc (w_tick w) else w_tick w)"
    "cache_rep (w_cache w1) (foldl apply_op M ?ops)"
  proof -
    have "skip_type w1 = skip_type w \<and> w_clock w1 = w_clock w \<and> cache_positions (w_cache w1) \<noteq> 0
      \<and> w_tick w1 = (if good_bits bs \<and> 1 \<le> msg_type (message_of ?m) \<and> msg_type (message_of ?m) \<le> 24 then Suc (w_tick w) else w_tick w)
      \<and> cache_rep (w_cache w1) (foldl apply_op M ?ops)"
    proof (cases "good_bits bs")
      case True
      then have e: "frame_effect (d0\<lparr>rbuffer := message_of ?m\<rparr>) (length bs - 16) w w1" using j(2) by (simp add: frame_judged_def)
      show ?thesis using frame_effect_world [OF e] Cons.prems(4,5) True by (simp cong: if_cong)
    qed (use j(2) Cons.prems(4,5) in \<open>simp add: frame_judged_def\<close>)
    then show "skip_type w1 = skip_type w" "w_clock w1 = w_clock w" "cache_positions (w_cache w1) \<noteq> 0"
      "w_tick w1 = (if good_bits bs \<and> 1 \<le> msg_type (message_of ?m) \<and> msg_type (message_of ?m) \<le> 24 then Suc (w_tick w) else w_tick w)"
      "cache_rep (w_cache w1) (foldl apply_op M ?ops)" by blast+
  qed
  obtain d2 w2 where r: "decode_bits (sent_bits fs) d1 w1 = Some (d2, w2)" "ready d2" "env_ok w2"
      "receivedframes d2 = counted (receivedframes d1) (filter good_bits (map snd fs))"
      "lostframes d2 = counted (lostframes d1) (filter (\<lambda>bs. 16 < length bs \<and> \<not> good_bits bs) (map snd fs))"
      "lostframes2 d2 = counted (lostframes2 d1) (filter (\<lambda>bs. length bs \<le> 16) (map snd fs))"
      "cache_rep (w_cache w2) (foldl apply_op (foldl apply_op M ?ops)
        (stream_ops (skip_type w1) (w_clock w1) (w_tick w1) (map frame_message (filter good_bits (map snd fs)))))"
    using Cons.IH [OF d1 bs(3) w1(3,5)] by blast
  have "decode_bits (sent_bits (f # fs)) d w = Some (d2, w2)"
    using decode_bits_after [OF d0(1)] decode_bits_after [OF j(1)] r(1) by (simp add: f)
  moreover have "receivedframes d1 = (if good_bits bs then wrap32 (receivedframes d + 1) else receivedframes d)"
    "lostframes d1 = (if 16 < length bs \<and> \<not> good_bits bs then wrap32 (lostframes d + 1) else lostframes d)"
    "lostframes2 d1 = (if length bs \<le> 16 then wrap32 (lostframes2 d + 1) else lostframes2 d)"
    using j(2) d0(2) by (simp_all add: frame_judged_def same_session_def)
  moreover have "foldl apply_op (foldl apply_op M ?ops)
        (stream_ops (skip_type w1) (w_clock w1) (w_tick w1) (map frame_message (filter good_bits (map snd fs))))
      = foldl apply_op M (stream_ops (skip_type w) (w_clock w) (w_tick w) (map frame_message (filter good_bits (map snd (f # fs)))))"
    by (simp add: w1(1,2,4) f)
  ultimately show ?case using r(2-7) by (intro exI [of _ d2] exI [of _ w2]) (simp add: f)
qed simp

lemma sent_good:
  assumes "\<forall>(k, m) \<in> set ms. m \<noteq> []"
  defines "fs \<equiv> map (\<lambda>(k, m). (k, wire_bits (m @ fcs m))) ms"
  shows "sent_bits fs = concat (map (\<lambda>(k, m). replicate k 1 @ hdlc_frame m) ms)" "filter good_bits (map snd fs) = map snd fs"
    "map frame_message (map snd fs) = map snd ms" "filter (\<lambda>bs. 16 < length bs \<and> \<not> good_bits bs) (map snd fs) = []"
    "filter (\<lambda>bs. length bs \<le> 16) (map snd fs) = []"
  using assms(1) good_hdlc unfolding fs_def by (induction ms) (auto simp: hdlc_frame_bits)

text \<open>Good frames only, with ones before each.\<close>

lemma decode_idle_stream:
  assumes "ready d" "env_ok w" "\<forall>(k, m) \<in> set ms. m \<noteq> [] \<and> length m \<le> 53"
    and "cache_positions (w_cache w) \<noteq> 0" "cache_rep (w_cache w) M"
  shows "\<exists>d' w'. decode_bits (concat (map (\<lambda>(k, m). replicate k 1 @ hdlc_frame m) ms)) d w = Some (d', w') \<and> ready d' \<and> env_ok w'
    \<and> receivedframes d' = counted (receivedframes d) ms \<and> lostframes d' = lostframes d \<and> lostframes2 d' = lostframes2 d
    \<and> cache_rep (w_cache w') (foldl apply_op M (stream_ops (skip_type w) (w_clock w) (w_tick w) (map snd ms)))"
proof -
  let ?fs = "map (\<lambda>(k, m). (k, wire_bits (m @ fcs m))) ms"
  have ne: "\<forall>(k, m) \<in> set ms. m \<noteq> []" using assms(3) by auto
  have "\<forall>(k, bs) \<in> set ?fs. bits01 bs \<and> length bs \<le> 442" using assms(3) by auto
  from decode_mixed [OF assms(1,2) this assms(4,5)] show ?thesis
    unfolding sent_good(2-5) [OF ne] unfolding sent_good(1) [OF ne] by (simp add: foldl_map)
qed

lemma decode_stream:
  assumes "ready d" "env_ok w" "\<forall>m \<in> set ms. m \<noteq> [] \<and> length m \<le> 53"
    and "cache_positions (w_cache w) \<noteq> 0" "cache_rep (w_cache w) M"
  shows "\<exists>d' w'. decode_bits (concat (map hdlc_frame ms)) d w = Some (d', w') \<and> ready d' \<and> env_ok w'
    \<and> receivedframes d' = foldl (\<lambda>n _. wrap32 (n + 1)) (receivedframes d) ms \<and> lostframes d' = lostframes d \<and> lostframes2 d' = lostframes2 d
    \<and> cache_rep (w_cache w') (foldl apply_op M (stream_ops (skip_type w) (w_clock w) (w_tick w) ms))"
  using decode_idle_stream [of d w "map (Pair 0) ms" M] assms by (simp add: foldl_map comp_def)

lemma wrap32_add: "wrap32 (wrap32 x + y) = wrap32 (x + y)"
proof -
  have "(x + 2147483648) mod 4294967296 - 2147483648 + y + 2147483648 = (x + 2147483648) mod 4294967296 + y" by simp
  then show ?thesis unfolding wrap32_def by (simp add: mod_add_left_eq) (simp add: algebra_simps)
qed

lemma foldl_wrap: "foldl (\<lambda>n _. wrap32 (n + 1)) (wrap32 x) xs = wrap32 (x + int (length xs))"
  by (induction xs arbitrary: x) (simp_all add: wrap32_add add.assoc)

lemma initialize_ready: "ready (protodec_initialize mem ser ip ch)"
  unfolding ready_def using initialize_ok
  by (simp add: hunting_def) (simp add: protodec_initialize_def protodec_reset_def)

lemma initialize_counts:
  "receivedframes (protodec_initialize mem ser ip ch) = 0" "lostframes (protodec_initialize mem ser ip ch) = 0"
  "lostframes2 (protodec_initialize mem ser ip ch) = 0"
  by (simp_all add: protodec_initialize_def protodec_reset_def)

text \<open>
  C5. From the antenna to the cache. A freshly initialised channel that is fed any sequence of frames, one after the other,
  counts all of them and none as lost, and leaves in the cache exactly what the
  messages say: the cache represents the ships it had before with the updates of the messages
  applied in the order of reception, each stamped with the time the clock showed for it.
\<close>

theorem stream_roundtrip:
  assumes "env_ok w" "\<forall>m \<in> set ms. m \<noteq> [] \<and> length m \<le> 53"
    and "cache_positions (w_cache w) \<noteq> 0" "cache_rep (w_cache w) M"
  shows "\<exists>d w'. protodec_decode (concat (map hdlc_frame ms)) (length (concat (map hdlc_frame ms)))
      (protodec_initialize mem ser ip ch) w = Some (d, w')
    \<and> receivedframes d = wrap32 (int (length ms)) \<and> lostframes d = 0 \<and> lostframes2 d = 0
    \<and> cache_rep (w_cache w') (foldl apply_op M (stream_ops (skip_type w) (w_clock w) (w_tick w) ms))"
proof -
  have "foldl (\<lambda>n _. wrap32 (n + 1)) 0 ms = wrap32 (int (length ms))" using foldl_wrap [of 0 ms] by simp
  then show ?thesis
    using decode_stream [OF initialize_ready assms, of mem ser ip ch] unfolding protodec_decode_bits initialize_counts
    by auto
qed

theorem stream_roundtrip_witness:
  "\<exists>d w'. protodec_decode (concat (map hdlc_frame [[0x20, 1, 2], [0xff], [0x21, 7]]))
      (length (concat (map hdlc_frame [[0x20, 1, 2], [0xff], [0x21, 7]])))
      (protodec_initialize (\<lambda>_ _. 9) True True 65) idle_world = Some (d, w')
    \<and> receivedframes d = 3 \<and> lostframes d = 0 \<and> lostframes2 d = 0"
proof -
  let ?ms = "[[0x20, 1, 2], [0xff], [0x21, 7 :: u8]]"
  have "cache_positions (w_cache idle_world) \<noteq> 0" by (simp add: idle_world_def cache_init_def)
  moreover have "\<exists>M. cache_rep (w_cache idle_world) M" using calculation idle_world_ok by (auto simp: world_ok_def)
  then obtain M where "cache_rep (w_cache idle_world) M" ..
  moreover have "\<forall>m \<in> set ?ms. m \<noteq> [] \<and> length m \<le> 53" by simp
  ultimately show ?thesis
    using stream_roundtrip [OF idle_env_ok, of ?ms M "\<lambda>_ _. 9" True True 65] by auto
qed

section \<open>Damaged frames\<close>

text \<open>
  C15. Only undamaged frames are received. A freshly initialised channel is fed any sequence of frames, each after any number of ones, with
  arbitrary bits (stuffed, at most 442) between the flags instead of a message with its check sequence. Exactly the frames in which the
  last two of the whole bytes are the check sequence of the bytes before them are counted as received, and the cache gets exactly the
  updates of their messages, in order; the other frames of more than 16 bits are counted in \<open>lostframes\<close> and
  the shorter ones in \<open>lostframes2\<close>, and they leave no trace in the cache and do not disturb the frames after them.
\<close>

theorem mixed_stream:
  assumes "env_ok w" "\<forall>(k, bs) \<in> set fs. bits01 bs \<and> length bs \<le> 442"
    and "cache_positions (w_cache w) \<noteq> 0" "cache_rep (w_cache w) M"
  shows "\<exists>d w'. protodec_decode (sent_bits fs) (length (sent_bits fs)) (protodec_initialize mem ser ip ch) w = Some (d, w')
    \<and> receivedframes d = wrap32 (int (length (filter good_bits (map snd fs))))
    \<and> lostframes d = wrap32 (int (length (filter (\<lambda>bs. 16 < length bs \<and> \<not> good_bits bs) (map snd fs))))
    \<and> lostframes2 d = wrap32 (int (length (filter (\<lambda>bs. length bs \<le> 16) (map snd fs))))
    \<and> cache_rep (w_cache w') (foldl apply_op M
        (stream_ops (skip_type w) (w_clock w) (w_tick w) (map frame_message (filter good_bits (map snd fs)))))"
proof -
  have c: "counted 0 xs = wrap32 (int (length xs))" for xs :: "u8 list list" using foldl_wrap [of 0 xs] by simp
  show ?thesis
    using decode_mixed [OF initialize_ready assms, of mem ser ip ch] unfolding protodec_decode_bits initialize_counts c
    by (elim exE conjE) (intro exI conjI)
qed

text \<open>A good frame, one with a wrong bit in its message, one with eight bits, and a good frame again.\<close>

definition bad_sample :: "(nat \<times> u8 list) list" where
  "bad_sample = [(3, wire_bits ([0x20, 1, 2] @ fcs [0x20, 1, 2])), (0, wire_bits ([0x20, 1, 3] @ fcs [0x20, 1, 2])),
     (70, [1, 1, 1, 1, 1, 1, 1, 1]), (1, wire_bits ([0xff] @ fcs [0xff]))]"

lemma bad_sample_good:
  "length (filter good_bits (map snd bad_sample)) = 2" "length (filter (\<lambda>bs. 16 < length bs \<and> \<not> good_bits bs) (map snd bad_sample)) = 1"
  "length (filter (\<lambda>bs. length bs \<le> 16) (map snd bad_sample)) = 1"
  by code_simp+

theorem mixed_stream_witness:
  "\<exists>d w'. protodec_decode (sent_bits bad_sample) (length (sent_bits bad_sample)) (protodec_initialize (\<lambda>_ _. 7) True False 65) idle_world = Some (d, w')
    \<and> receivedframes d = 2 \<and> lostframes d = 1 \<and> lostframes2 d = 1"
proof -
  have p: "cache_positions (w_cache idle_world) \<noteq> 0" by (simp add: idle_world_def cache_init_def)
  then obtain M where M: "cache_rep (w_cache idle_world) M" using idle_world_ok by (auto simp: world_ok_def)
  have fs: "\<forall>(k, bs) \<in> set bad_sample. bits01 bs \<and> length bs \<le> 442" by (simp add: bad_sample_def del: wire_bits_simps)
  show ?thesis using mixed_stream [OF idle_env_ok fs p M, of "\<lambda>_ _. 7" True False 65] unfolding bad_sample_good
    by (elim exE conjE) (intro exI conjI, assumption, simp_all add: wrap32_def)
qed

section \<open>A false start spoils the next frame\<close>

text \<open>A training sequence whose flag has only five ones.\<close>

definition false_start :: "u8 list" where
  "false_start = training @ [0, 1, 1, 1, 1, 1, 0]"

lemma training_bits: "training = [0, 1, 0, 1, 0, 1, 0, 1, 0, 1, 0, 1, 0, 1, 0, 1, 0, 1, 0, 1, 0, 1, 0, 1]"
  by (simp add: training_def numeral_eq_Suc)

definition spoiled :: "demod_state \<Rightarrow> bool" where
  "spoiled d \<longleftrightarrow> dstate d = ST_SKURR \<and> nstartsign d = 1 \<and> antallpreamble d = 0 \<and> dlast d = 0"

lemma broken_flag:
  assumes "in_preamble d" "dlast d = 1"
  obtains d' where "decode_bits [0, 1, 1, 1, 1, 1, 0] d w = Some (d', w)" "spoiled d'"
  using assms by (auto simp: in_preamble_def decode_bit_def step_preamble_def step_startsign_def protodec_reset_def
      spoiled_def Let_def)

text \<open>What the hunting states do, on the fields that decide it.\<close>

definition view :: "demod_state \<Rightarrow> dstate \<times> int \<times> int \<times> u8" where
  "view d = (dstate d, nstartsign d, antallpreamble d, dlast d)"

fun vstep :: "u8 \<Rightarrow> dstate \<times> int \<times> int \<times> u8 \<Rightarrow> dstate \<times> int \<times> int \<times> u8" where
  "vstep b (ST_SKURR, n, a, l) =
     (let a = (if b \<noteq> l then wrap32 (a + 1) else 0) in if a > 14 \<and> b = 0 then (ST_PREAMBLE, n, 0, b) else (ST_SKURR, n, a, b))"
| "vstep b (ST_PREAMBLE, n, a, l) =
     (if b \<noteq> l \<and> n = 0 then (ST_PREAMBLE, n, wrap32 (a + 1), b)
      else if b = 1 then
        (if n = 0 then (ST_PREAMBLE, 3, a, b) else if n = 5 then (ST_STARTSIGN, 6, 0, b) else (ST_PREAMBLE, wrap32 (n + 1), a, b))
      else if n = 0 then (ST_PREAMBLE, 1, a, b) else (ST_SKURR, 0, 0, b))"
| "vstep b (s, n, a, l) = (s, n, a, b)"

lemma view_step:
  assumes "dstate d = ST_SKURR \<or> dstate d = ST_PREAMBLE"
  shows "\<exists>d'. decode_bit b d w = Some (d', w) \<and> view d' = vstep b (view d)"
  using assms by (auto simp: decode_bit_def step_skurr_def step_preamble_def view_def Let_def protodec_reset_def)

fun vrun :: "u8 list \<Rightarrow> dstate \<times> int \<times> int \<times> u8 \<Rightarrow> (dstate \<times> int \<times> int \<times> u8) option" where
  "vrun [] v = Some v"
| "vrun (b # bs) v = (if fst v = ST_SKURR \<or> fst v = ST_PREAMBLE then vrun bs (vstep b v) else None)"

lemma view_run: "vrun bs (view d) = Some v \<Longrightarrow> \<exists>d'. decode_bits bs d w = Some (d', w) \<and> view d' = v"
proof (induction bs arbitrary: d)
  case (Cons b bs)
  then have "dstate d = ST_SKURR \<or> dstate d = ST_PREAMBLE" by (auto simp: view_def split: if_splits)
  from view_step [OF this, of b w] obtain d1 where "decode_bit b d w = Some (d1, w)" "view d1 = vstep b (view d)" by blast
  then show ?case using Cons.IH [of d1] Cons.prems by (auto split: if_splits)
qed simp

lemma spoiled_misses:
  assumes "spoiled d"
  obtains d' where "decode_bits (training @ flag) d w = Some (d', w)" "dstate d' = ST_SKURR"
proof -
  have "view d = (ST_SKURR, 1, 0, 0)" using assms by (simp add: spoiled_def view_def)
  moreover have "vrun (training @ flag) (ST_SKURR, 1, 0, 0) = Some (ST_SKURR, 0, 1, 0)" by code_simp
  ultimately show thesis using view_run [of "training @ flag" d _ w] that by (auto simp: view_def)
qed

text \<open>
  C14. A false start spoils the next frame. A channel that hunts for a frame and sees a training sequence with a
  flag of only five ones goes back to hunting with a flag counter that is left at one, because the counter
  is incremented after the reset. The training sequence and the flag of the next, undamaged frame then
  do not start the reception, which they do without the false start.
\<close>

theorem false_start_misses_frame:
  assumes "hunting d" "dlast d = 0 \<or> dlast d = 1" "length (buffer d) = 450"
  shows "\<exists>d1 d2. protodec_decode (false_start @ training @ flag) (length (false_start @ training @ flag)) d w = Some (d1, w)
    \<and> dstate d1 = ST_SKURR
    \<and> protodec_decode (training @ flag) (length (training @ flag)) d w = Some (d2, w) \<and> dstate d2 = ST_DATA"
proof -
  obtain dp where dp: "decode_bits training d w = Some (dp, w)" "same_session d dp" "in_preamble dp" "dlast dp = 1"
    by (rule training_run [OF assms(1,2)])
  obtain ds where ds: "decode_bits [0, 1, 1, 1, 1, 1, 0] dp w = Some (ds, w)" "spoiled ds"
    by (rule broken_flag [OF dp(3,4)])
  obtain d1 where d1: "decode_bits (training @ flag) ds w = Some (d1, w)" "dstate d1 = ST_SKURR"
    by (rule spoiled_misses [OF ds(2)])
  have "length (buffer dp) = 450" using dp(2) assms(3) by (simp add: same_session_def)
  then obtain d2 where d2: "decode_bits flag dp w = Some (d2, w)" "receiving 0 [] d2"
    using flag_run [OF dp(3,4), of w] by blast
  have "decode_bits (false_start @ training @ flag) d w = Some (d1, w)"
    using decode_bits_after [OF dp(1)] decode_bits_after [OF ds(1), of "training @ flag"] d1(1)
    by (simp add: false_start_def del: decode_bits.simps)
  then show ?thesis unfolding protodec_decode_bits
    using d1(2) d2 decode_bits_after [OF dp(1), of flag] by (auto simp: receiving_def)
qed

theorem false_start_misses_frame_witness:
  "\<exists>d1 d2. protodec_decode (false_start @ training @ flag) (length (false_start @ training @ flag)) idle_demod idle_world
      = Some (d1, idle_world) \<and> dstate d1 = ST_SKURR
    \<and> protodec_decode (training @ flag) (length (training @ flag)) idle_demod idle_world = Some (d2, idle_world) \<and> dstate d2 = ST_DATA"
  by (rule false_start_misses_frame) (simp_all add: hunting_def idle_demod_def)

end
