(* ===== verification/Air.thy ===== *)
theory Air
  imports Ais_Encode Hdlc
begin

text \<open>
  From a ship's report to the cache: the message encoders and the link layer put together.
\<close>

section \<open>Bits to bytes\<close>

definition to_byte :: "u8 list \<Rightarrow> u8" where
  "to_byte bs = horner_sum of_bool 2 (rev (map (\<lambda>b. b = 1) bs))"

definition to_bytes :: "u8 list \<Rightarrow> u8 list" where
  "to_bytes bits = map (\<lambda>j. to_byte (take 8 (drop (8 * j) bits))) [0..<length bits div 8]"

lemma bit_to_byte: "length bs = 8 \<Longrightarrow> bit (to_byte bs) i \<longleftrightarrow> i < 8 \<and> bs ! (7 - i) = 1"
  by (auto simp: to_byte_def bit_horner_sum_bit_word_iff rev_nth)

lemma msg_bit_to_bytes:
  assumes "bits01 bits" "x < 8 * (length bits div 8)"
  shows "msg_bit (to_bytes bits) x = bits ! x"
proof -
  let ?j = "x div 8" and ?i = "x mod 8"
  let ?bs = "take 8 (drop (8 * ?j) bits)"
  have j: "?j < length bits div 8" using assms(2) by (simp add: less_mult_imp_div_less mult.commute)
  have x: "8 * ?j + ?i = x" "x < length bits" using assms(2) by simp_all
  have "8 * ?j + 8 \<le> length bits" using j by linarith
  then have bs: "length ?bs = 8" by simp
  have "7 - (7 - ?i) = ?i" using mod_less_divisor [of 8 x] by linarith
  moreover have "7 - ?i < 8" by linarith
  ultimately have "bit (to_byte ?bs) (7 - ?i) \<longleftrightarrow> bits ! x = 1" using bit_to_byte [OF bs, of "7 - ?i"] x by simp
  moreover have "bits ! x = 0 \<or> bits ! x = 1" using assms(1) x(2) by (rule bits01_nth)
  moreover have "msg_bit (to_bytes bits) x = of_bool (bit (to_byte ?bs) (7 - ?i))"
    using j by (simp add: msg_bit_def to_bytes_def and_one_eq bit_iff_odd_drop_bit odd_iff_mod_2_eq_one)
  ultimately show ?thesis by auto
qed

lemma to_bytes_length [simp]: "length (to_bytes bits) = length bits div 8"
  by (simp add: to_bytes_def)

lemma message_of_to_bytes:
  assumes "bits01 bits" "8 dvd length bits"
  shows "message_of (to_bytes bits) = bits @ replicate (450 - length bits) 0"
proof -
  have l: "8 * (length bits div 8) = length bits" using assms(2) by simp
  have "map (msg_bit (to_bytes bits)) [0..<length bits] = bits"
    by (rule nth_equalityI) (simp_all add: msg_bit_to_bytes [OF assms(1)] l)
  then show ?thesis by (simp add: message_of_def l)
qed

section \<open>A position report over the air\<close>

definition pos_bytes :: "pos_report \<Rightarrow> u8 list" where
  "pos_bytes r = to_bytes (enc_fields (pos_fields r))"

lemma pos_message: "message_of (pos_bytes r) = enc_fields (pos_fields r) @ replicate 282 0" "length (pos_bytes r) = 21"
proof -
  have w: "width (pos_fields r) = 168" by (simp add: pos_fields_def)
  then show "message_of (pos_bytes r) = enc_fields (pos_fields r) @ replicate 282 0" "length (pos_bytes r) = 21"
    unfolding pos_bytes_def by (simp_all add: message_of_to_bytes)
qed

lemma pos_stream_ops:
  assumes "pos_report_ok r" "pr_repeat r < 4" "skip ! pr_type r = 0"
  shows "\<exists>ro. stream_ops skip clk i [pos_bytes r]
    = [position_op (clk i) (int (pr_mmsi r)) (int (pr_navstat r div 4)) (pr_lat r) (pr_lon r) (int (pr_heading r))
        (int (pr_cog r)) ro (int (pr_sog r))]"
proof -
  let ?rb = "enc_fields (pos_fields r) @ replicate 282 0"
  have "field 0 6 ?rb = of_nat (pr_type r)"
    using assms(1) by (intro field_enc_fields) (auto simp: pos_fields_def pos_report_ok_def)
  then have ty: "msg_type ?rb = pr_type r" using assms(1) by (auto simp: msg_type_def pos_report_ok_def)
  have mm: "msg_mmsi ?rb = int (pr_mmsi r)"
    unfolding msg_mmsi_def using assms(1) by (intro uint_field_enc) (auto simp: pos_fields_def pos_report_ok_def)
  have "msg_ops (pr_type r) = msg_ops 1" using assms(1) msg_ops_pos by (auto simp: pos_report_ok_def)
  moreover have "1 \<le> pr_type r" "pr_type r \<le> 24" using assms(1) by (auto simp: pos_report_ok_def)
  ultimately show ?thesis using assms(3) pos_report_ops [OF assms(1)]
    by (simp add: pos_message ty mm frame_ops_def) (rule exI, rule refl)
qed

text \<open>
  C1. Over the air. Any ship that sends a class A report of a position on earth, as the standard lays it out, to a station with a
  fresh channel and a cache in use, ends up in the cache under its MMSI: with the heading it
  sent, its position to within 1/65536 degree and the time of reception, while the entries of
  all other ships are as before.
\<close>

theorem position_over_the_air:
  assumes "pos_report_ok r" "pr_repeat r < 4" "skip_type w ! pr_type r = 0"
    and "env_ok w" "cache_positions (w_cache w) \<noteq> 0" "cache_rep (w_cache w) M"
  shows "\<exists>d w' M' e. protodec_decode (hdlc_frame (pos_bytes r)) (length (hdlc_frame (pos_bytes r)))
      (protodec_initialize mem ser ip ch) w = Some (d, w')
    \<and> cache_rep (w_cache w') M' \<and> M' (of_nat (pr_mmsi r)) = Some e \<and> (\<forall>k. k \<noteq> of_nat (pr_mmsi r) \<longrightarrow> M' k = M k)
    \<and> ce_mmsi e = int (pr_mmsi r) \<and> received_pos e = wrap32 (w_clock w (w_tick w)) \<and> hdg e = int (pr_heading r)
    \<and> \<bar>lat e - of_int (pr_lat r) / 600000\<bar> \<le> 1 / 65536 \<and> \<bar>lon e - of_int (pr_lon r) / 600000\<bar> \<le> 1 / 65536"
proof -
  obtain ro where ops: "stream_ops (skip_type w) (w_clock w) (w_tick w) [pos_bytes r]
    = [position_op (w_clock w (w_tick w)) (int (pr_mmsi r)) (int (pr_navstat r div 4)) (pr_lat r) (pr_lon r)
        (int (pr_heading r)) (int (pr_cog r)) ro (int (pr_sog r))]" (is "_ = [?p]")
    using pos_stream_ops [OF assms(1-3)] by blast
  have "\<forall>m \<in> set [pos_bytes r]. m \<noteq> [] \<and> length m \<le> 53" using pos_message(2) [of r] by auto
  from decode_stream [OF initialize_ready assms(4) this assms(5,6), of mem ser ip ch]
  obtain d w' where d: "decode_bits (hdlc_frame (pos_bytes r)) (protodec_initialize mem ser ip ch) w = Some (d, w')"
      "cache_rep (w_cache w') (apply_op M ?p)"
    unfolding ops by auto
  let ?e = "op_effect ?p (case M (op_key ?p) of None \<Rightarrow> new_ent | Some e \<Rightarrow> e)"
  have k: "op_key ?p = of_nat (pr_mmsi r)" by (simp add: op_key_def position_op_def)
  have "apply_op M ?p (of_nat (pr_mmsi r)) = Some ?e" "\<forall>k. k \<noteq> of_nat (pr_mmsi r) \<longrightarrow> apply_op M ?p k = M k"
    by (simp_all add: apply_op_def k)
  moreover have "ce_mmsi ?e = int (pr_mmsi r)" "received_pos ?e = wrap32 (w_clock w (w_tick w))" "hdg ?e = int (pr_heading r)"
      "lat ?e = f32 (deg600000 (pr_lat r))" "lon ?e = f32 (deg600000 (pr_lon r))"
    by (simp_all add: position_op_def)
  moreover have "\<bar>f32 (deg600000 (pr_lat r)) - of_int (pr_lat r) / 600000\<bar> \<le> 1 / 65536"
      "\<bar>f32 (deg600000 (pr_lon r)) - of_int (pr_lon r) / 600000\<bar> \<le> 1 / 65536"
    using assms(1) by (intro deg_error; simp add: pos_report_ok_def)+
  ultimately show ?thesis using d unfolding protodec_decode_bits
    by (intro exI [of _ d] exI [of _ w'] exI [of _ "apply_op M ?p"] exI [of _ ?e]) simp
qed

theorem position_over_the_air_witness:
  "\<exists>d w' M' e. protodec_decode (hdlc_frame (pos_bytes report0)) (length (hdlc_frame (pos_bytes report0)))
      (protodec_initialize (\<lambda>_ _. 3) False True 65) idle_world = Some (d, w')
    \<and> cache_rep (w_cache w') M' \<and> M' 257123000 = Some e \<and> hdg e = 268 \<and> received_pos e = 1300000000
    \<and> \<bar>lat e - 599 / 10\<bar> \<le> 1 / 65536"
proof -
  have p: "cache_positions (w_cache idle_world) \<noteq> 0" by (simp add: idle_world_def cache_init_def)
  then obtain M where M: "cache_rep (w_cache idle_world) M" using idle_world_ok by (auto simp: world_ok_def)
  have r: "pos_report_ok report0" "pr_repeat report0 < 4" "skip_type idle_world ! pr_type report0 = 0"
    by (simp_all add: report0_def pos_report_ok_def idle_world_def)
  have "wrap32 (w_clock idle_world (w_tick idle_world)) = 1300000000" by (simp add: idle_world_def)
  moreover have "of_nat (pr_mmsi report0) = (257123000 :: u32)" "pr_heading report0 = 268" "pr_lat report0 = 35940000"
    by (simp_all add: report0_def)
  moreover note position_over_the_air [OF r idle_env_ok p M, of "\<lambda>_ _. 3" False True 65]
  ultimately show ?thesis by (auto simp: field_simps)
qed

end
