(* ===== verification/Fir.thy ===== *)
theory Fir
  imports CFloat
begin

text \<open>
  filter.c: the receive filter, a finite impulse response filter over a buffer that is longer than
  the filter, so that the samples are moved to its front only now and then. (The inline assembly of
  filter-i386.h that replaces \<^verbatim>\<open>filter_mac\<close> on 32-bit x86 is not modelled.)
\<close>

type_synonym s16 = "16 word"

definition BufferLen :: nat where "BufferLen = 1024"

record filt =
  f_length :: nat
  f_taps :: "cfloat list"
  f_buffer :: "cfloat list"
  f_pointer :: nat

section \<open>The source\<close>

text \<open>\<^verbatim>\<open>filter_mac(&buffer[from], taps, sz)\<close>\<close>

function mac_loop :: "cfloat list \<Rightarrow> nat \<Rightarrow> cfloat list \<Rightarrow> nat \<Rightarrow> nat \<Rightarrow> cfloat \<Rightarrow> cfloat option" where
  "mac_loop a from b sz i sm =
     (if i < sz then do {
        x \<leftarrow> arr_get a (from + i);
        y \<leftarrow> arr_get b i;
        mac_loop a from b sz (i + 1) (f32 (sm + f32 (x * y)))
      } else Some sm)"
  by auto
termination by (relation "measure (\<lambda>(a, from, b, sz, i, sm). sz - i)") auto

declare mac_loop.simps [simp del]

definition filter_mac :: "cfloat list \<Rightarrow> nat \<Rightarrow> cfloat list \<Rightarrow> nat \<Rightarrow> cfloat option" where
  "filter_mac a from b sz = mac_loop a from b sz 0 0"

definition filter_init :: "nat \<Rightarrow> cfloat list \<Rightarrow> filt option" where
  "filter_init len taps =
     (if len \<le> length taps
      then Some \<lparr>f_length = len, f_taps = take len taps, f_buffer = replicate BufferLen 0, f_pointer = len\<rparr>
      else None)"

text \<open>
  \<^verbatim>\<open>memcpy\<close> of the last \<open>len\<close> values to the front, undefined if the areas overlap.
\<close>

definition move_front :: "nat \<Rightarrow> cfloat list \<Rightarrow> cfloat list option" where
  "move_front len buf =
     (if len \<le> BufferLen - len \<and> BufferLen \<le> length buf
      then Some (take len (drop (BufferLen - len) buf) @ drop len buf) else None)"

definition filter_run :: "filt \<Rightarrow> cfloat \<Rightarrow> (filt \<times> cfloat) option" where
  "filter_run f inp = do {
     let p = f_pointer f;
     let f = f\<lparr>f_pointer := p + 1\<rparr>;
     buf \<leftarrow> arr_set (f_buffer f) p inp;
     out \<leftarrow> (if f_length f \<le> p then filter_mac buf (p - f_length f) (f_taps f) (f_length f) else None);
     if f_pointer f = BufferLen then do {
       buf \<leftarrow> move_front (f_length f) buf;
       Some (f\<lparr>f_buffer := buf, f_pointer := f_length f\<rparr>, out)
     } else Some (f\<lparr>f_buffer := buf\<rparr>, out)
   }"

text \<open>The loop of \<^verbatim>\<open>filter_run_buf\<close>; \<open>od\<close> and \<open>id\<close> are its two indices.\<close>

function run_buf_loop ::
    "filt \<Rightarrow> s16 list \<Rightarrow> nat \<Rightarrow> nat \<Rightarrow> nat \<Rightarrow> nat \<Rightarrow> nat \<Rightarrow> cfloat list \<Rightarrow> cfloat list \<Rightarrow> int \<Rightarrow>
     (nat \<times> cfloat list \<times> cfloat list \<times> int) option" where
  "run_buf_loop f inp step len od i pointer buf out maxval =
     (if od < len then do {
        x \<leftarrow> arr_get inp i;
        buf \<leftarrow> arr_set buf pointer (f32 (of_int (sint x)));
        let maxval = (if sint x > maxval then sint x else maxval);
        y \<leftarrow> (if f_length f \<le> pointer then filter_mac buf (pointer - f_length f) (f_taps f) (f_length f) else None);
        out \<leftarrow> arr_set out od y;
        let pointer = pointer + 1;
        (buf, pointer) \<leftarrow> (if pointer = BufferLen then do { buf \<leftarrow> move_front (f_length f) buf; Some (buf, f_length f) }
                           else Some (buf, pointer));
        run_buf_loop f inp step len (od + 1) (i + step) pointer buf out maxval
      } else Some (pointer, buf, out, maxval))"
  by pat_completeness auto
termination
  by (relation "measure (\<lambda>(f, inp, step, len, od, i, pointer, buf, out, maxval). len - od)") auto

declare run_buf_loop.simps [simp del]

definition filter_run_buf :: "filt \<Rightarrow> s16 list \<Rightarrow> cfloat list \<Rightarrow> nat \<Rightarrow> nat \<Rightarrow> (int \<times> cfloat list \<times> filt) option" where
  "filter_run_buf f inp out step len = do {
     (pointer, buf, out, maxval) \<leftarrow> run_buf_loop f inp step len 0 0 (f_pointer f) (f_buffer f) out 0;
     Some (maxval, out, f\<lparr>f_buffer := buf, f_pointer := pointer\<rparr>)
   }"

section \<open>The filter as a convolution\<close>

text \<open>The sum of products in the order and the precision of the source.\<close>

definition fir :: "cfloat list \<Rightarrow> cfloat list \<Rightarrow> cfloat" where
  "fir taps xs = foldl (\<lambda>sm (x, y). f32 (sm + f32 (x * y))) 0 (zip xs taps)"

lemma mac_loop_eq:
  "from + sz \<le> length a \<Longrightarrow> sz \<le> length b \<Longrightarrow> i \<le> sz \<Longrightarrow>
    mac_loop a from b sz i sm
      = Some (foldl (\<lambda>sm (x, y). f32 (sm + f32 (x * y))) sm (zip (drop (from + i) (take (from + sz) a)) (drop i (take sz b))))"
proof (induction "sz - i" arbitrary: i sm)
  case 0
  then show ?case by (simp add: mac_loop.simps)
next
  case (Suc n)
  then have i: "i < sz" and n: "n = sz - (i + 1)" by simp_all
  have "drop (from + i) (take (from + sz) a) = a ! (from + i) # drop (from + (i + 1)) (take (from + sz) a)"
    using i Suc.prems(1) by (subst Cons_nth_drop_Suc [symmetric]) simp_all
  moreover have "drop i (take sz b) = b ! i # drop (i + 1) (take sz b)"
    using i Suc.prems(2) by (subst Cons_nth_drop_Suc [symmetric]) simp_all
  moreover have "mac_loop a from b sz (i + 1) sm' = Some (foldl (\<lambda>sm (x, y). f32 (sm + f32 (x * y))) sm'
      (zip (drop (from + (i + 1)) (take (from + sz) a)) (drop (i + 1) (take sz b))))" for sm'
    using Suc.hyps(1) [OF n Suc.prems(1,2)] i by simp
  ultimately show ?case using i Suc.prems by (subst mac_loop.simps) simp
qed

lemma filter_mac_eq:
  "from + sz \<le> length a \<Longrightarrow> sz = length b \<Longrightarrow> filter_mac a from b sz = Some (fir b (take sz (drop from a)))"
  by (simp add: filter_mac_def mac_loop_eq fir_def drop_take)

definition filt_ok :: "filt \<Rightarrow> bool" where
  "filt_ok f \<longleftrightarrow> 0 < f_length f \<and> length (f_taps f) = f_length f \<and> 2 * f_length f < BufferLen \<and> length (f_buffer f) = BufferLen
     \<and> f_length f \<le> f_pointer f \<and> f_pointer f < BufferLen"

text \<open>The samples the next output is made of: the last \<open>f_length\<close> ones before the write position.\<close>

definition window :: "nat \<Rightarrow> nat \<Rightarrow> cfloat list \<Rightarrow> cfloat list" where
  "window len pointer buf = take len (drop (pointer - len) buf)"

definition history :: "filt \<Rightarrow> cfloat list" where
  "history f = window (f_length f) (f_pointer f) (f_buffer f)"

definition sample :: "s16 \<Rightarrow> cfloat" where
  "sample x = of_int (sint x)"

lemma sample_exact: "f32 (signed (x :: s16)) = sample x"
proof -
  have "- 32768 \<le> sint x \<and> sint x < 32768" using sint_range_size [of x] by (simp add: word_size)
  then have "- 16777216 < sint x" "sint x < 16777216" by linarith+
  then have "\<bar>sint x\<bar> < 2 ^ 24" by (simp only: abs_less_iff) simp
  then show ?thesis using f32_of_int [of "sint x"] by (simp add: sample_def)
qed

lemma if_max: "(if a < b then b else a) = max a (b :: int)"
  by (simp add: max_def)

lemma window_store:
  assumes "n \<le> p" "p < length buf" "window n p buf = h" "0 < n"
  shows "window n (Suc p) (buf[p := x]) = tl h @ [x]" "window n p (buf[p := x]) = h"
proof -
  show "window n p (buf[p := x]) = h"
    using assms by (simp add: window_def take_drop)
  have lh: "length h = n" using assms(1-3) by (auto simp: window_def)
  show "window n (Suc p) (buf[p := x]) = tl h @ [x]"
  proof (rule nth_equalityI)
    fix i assume "i < length (window n (Suc p) (buf[p := x]))"
    then have i: "i < n" by (simp add: window_def)
    have "h ! j = buf ! (p - n + j)" if "j < n" for j
      using assms(1-3) that by (auto simp: window_def)
    then show "window n (Suc p) (buf[p := x]) ! i = (tl h @ [x]) ! i"
      using i assms(1,2,4) lh by (auto simp: window_def nth_append nth_tl nth_list_update Suc_diff_le less_Suc_eq)
  qed (use assms lh in \<open>simp add: window_def\<close>)
qed

text \<open>The outputs for a history and the samples that follow it.\<close>

fun firs :: "cfloat list \<Rightarrow> cfloat list \<Rightarrow> cfloat list \<Rightarrow> cfloat list" where
  "firs taps h [] = []"
| "firs taps h (x # xs) = fir taps h # firs taps (tl h @ [x]) xs"

definition shift_in :: "cfloat list \<Rightarrow> cfloat list \<Rightarrow> cfloat list" where
  "shift_in h xs = foldl (\<lambda>h x. tl h @ [x]) h xs"

lemma firs_length [simp]: "length (firs taps h xs) = length xs"
  by (induction xs arbitrary: h) simp_all

lemma firs_nth: "k < length xs \<Longrightarrow> h \<noteq> [] \<Longrightarrow> firs taps h xs ! k = fir taps (take (length h) (drop k (h @ xs)))"
proof (induction xs arbitrary: h k)
  case (Cons x xs)
  show ?case
  proof (cases k)
    case (Suc j)
    have l: "length (tl h @ [x]) = length h" using Cons.prems(2) by simp
    have "drop (Suc j) (h @ x # xs) = drop j ((tl h @ [x]) @ xs)"
      using Cons.prems(2) by (cases h) simp_all
    then show ?thesis using Cons.IH [of j "tl h @ [x]"] Cons.prems Suc l by simp
  qed simp
qed simp

lemma move_front_window:
  assumes "2 * n < BufferLen" "length buf = BufferLen" "0 < n"
  obtains buf' where "move_front n buf = Some buf'" "length buf' = BufferLen" "window n n buf' = window n BufferLen buf"
proof -
  let ?b = "take n (drop (BufferLen - n) buf) @ drop n buf"
  have n: "n \<le> BufferLen - n" "length (take n (drop (BufferLen - n) buf)) = n" using assms by simp_all
  then have "move_front n buf = Some ?b" using assms(2) by (simp add: move_front_def)
  moreover have "length ?b = BufferLen" using assms by simp
  moreover have "window n n ?b = window n BufferLen buf" using n by (simp add: window_def)
  ultimately show thesis by (rule that)
qed

lemma run_buf_loop_eq:
  assumes "0 < f_length f" "length (f_taps f) = f_length f" "2 * f_length f < BufferLen"
  shows "f_length f \<le> p \<Longrightarrow> p < BufferLen \<Longrightarrow> length buf = BufferLen \<Longrightarrow> len = od + length xs \<Longrightarrow> len \<le> length out \<Longrightarrow>
    \<forall>k < length xs. i + k * step < length inp \<and> inp ! (i + k * step) = xs ! k \<Longrightarrow>
    \<exists>p' buf'. run_buf_loop f inp step len od i p buf out mx
      = Some (p', buf', take od out @ firs (f_taps f) (window (f_length f) p buf) (map sample xs) @ drop len out,
          foldl (\<lambda>m x. max m (sint x)) mx xs)
      \<and> f_length f \<le> p' \<and> p' < BufferLen \<and> length buf' = BufferLen
      \<and> window (f_length f) p' buf' = shift_in (window (f_length f) p buf) (map sample xs)"
proof (induction xs arbitrary: od i p buf out mx)
  case Nil
  then show ?case by (subst run_buf_loop.simps) (simp add: shift_in_def)
next
  case (Cons x xs)
  let ?n = "f_length f" and ?h = "window (f_length f) p buf"
  let ?buf = "buf[p := sample x]" and ?mx = "max mx (sint x)"
  have x: "i < length inp" "inp ! i = x" using Cons.prems(6) by force+
  have rest: "\<forall>k < length xs. (i + step) + k * step < length inp \<and> inp ! ((i + step) + k * step) = xs ! k"
  proof (intro allI impI)
    fix k assume "k < length xs"
    then have "i + Suc k * step < length inp \<and> inp ! (i + Suc k * step) = (x # xs) ! Suc k"
      using Cons.prems(6) by (metis Suc_less_eq length_Cons)
    then show "(i + step) + k * step < length inp \<and> inp ! ((i + step) + k * step) = xs ! k" by (simp add: algebra_simps)
  qed
  have od: "od < len" "od < length out" using Cons.prems(4,5) by simp_all
  note ws = window_store [of ?n p buf ?h "sample x"]
  have w: "window ?n (Suc p) ?buf = tl ?h @ [sample x]" "take ?n (drop (p - ?n) ?buf) = ?h"
    using ws Cons.prems(1-3) assms(1) by (simp_all add: window_def)
  have mac: "filter_mac ?buf (p - ?n) (f_taps f) ?n = Some (fir (f_taps f) ?h)"
    using w(2) Cons.prems(1-3) assms(2) by (subst filter_mac_eq) simp_all
  let ?out = "out[od := fir (f_taps f) ?h]"
  obtain p1 buf1 where n1: "(if Suc p = BufferLen then do { buf \<leftarrow> move_front ?n ?buf; Some (buf, ?n) } else Some (?buf, Suc p)) = Some (buf1, p1)"
      "?n \<le> p1" "p1 < BufferLen" "length buf1 = BufferLen" "window ?n p1 buf1 = tl ?h @ [sample x]"
  proof (cases "Suc p = BufferLen")
    case True
    obtain b where "move_front ?n ?buf = Some b" "length b = BufferLen" "window ?n ?n b = window ?n BufferLen ?buf"
      using move_front_window [OF assms(3) _ assms(1), of ?buf] Cons.prems(3) by auto
    then show thesis using that [of b ?n] True w(1) assms(3) by simp
  next
    case False
    then show thesis using that [of ?buf "Suc p"] Cons.prems(1-3) w(1) by simp
  qed
  have "run_buf_loop f inp step len od i p buf out mx = run_buf_loop f inp step len (od + 1) (i + step) p1 buf1 ?out ?mx"
    using od x mac n1(1) Cons.prems(1-3)
    by (subst run_buf_loop.simps) (simp add: sample_exact if_max Let_def split del: if_split cong: if_cong)
  moreover obtain p' buf' where r: "run_buf_loop f inp step len (od + 1) (i + step) p1 buf1 ?out ?mx
      = Some (p', buf', take (od + 1) ?out @ firs (f_taps f) (window ?n p1 buf1) (map sample xs) @ drop len ?out,
          foldl (\<lambda>m x. max m (sint x)) ?mx xs)"
      "?n \<le> p'" "p' < BufferLen" "length buf' = BufferLen" "window ?n p' buf' = shift_in (window ?n p1 buf1) (map sample xs)"
    using Cons.IH [OF n1(2-4), of "od + 1" ?out "i + step" ?mx] Cons.prems(4,5) rest by auto
  ultimately show ?case using n1(5) od
    by (intro exI [of _ p'] exI [of _ buf']) (simp add: shift_in_def take_Suc_conv_app_nth)
qed

text \<open>The samples of one channel among interleaved ones.\<close>

definition channel_samples :: "s16 list \<Rightarrow> nat \<Rightarrow> nat \<Rightarrow> s16 list" where
  "channel_samples inp step len = map (\<lambda>k. inp ! (k * step)) [0..<len]"

lemma filter_run_buf_eq:
  assumes "filt_ok f" "len \<le> length out" "0 < len \<Longrightarrow> (len - 1) * step < length inp"
  shows "\<exists>f'. filter_run_buf f inp out step len
      = Some (foldl (\<lambda>m x. max m (sint x)) 0 (channel_samples inp step len),
          firs (f_taps f) (history f) (map sample (channel_samples inp step len)) @ drop len out, f')
    \<and> filt_ok f' \<and> f_taps f' = f_taps f \<and> f_length f' = f_length f
    \<and> history f' = shift_in (history f) (map sample (channel_samples inp step len))"
proof -
  let ?xs = "channel_samples inp step len"
  have "k * step < length inp" if "k < len" for k
  proof -
    have "k * step \<le> (len - 1) * step" using that by (intro mult_le_mono1) simp
    then show ?thesis using assms(3) that by linarith
  qed
  then have "\<forall>k < length ?xs. 0 + k * step < length inp \<and> inp ! (0 + k * step) = ?xs ! k"
    by (simp add: channel_samples_def)
  moreover have "len = 0 + length ?xs" by (simp add: channel_samples_def)
  ultimately obtain p' buf' where r: "run_buf_loop f inp step len 0 0 (f_pointer f) (f_buffer f) out 0
      = Some (p', buf', take 0 out @ firs (f_taps f) (history f) (map sample ?xs) @ drop len out,
          foldl (\<lambda>m x. max m (sint x)) 0 ?xs)"
      "f_length f \<le> p'" "p' < BufferLen" "length buf' = BufferLen" "window (f_length f) p' buf' = shift_in (history f) (map sample ?xs)"
    using run_buf_loop_eq [of f "f_pointer f" "f_buffer f" len 0 ?xs out 0 step inp 0] assms(1,2)
    unfolding filt_ok_def history_def by (elim meta_impE exE conjE) (simp_all add: that)
  let ?f = "f\<lparr>f_buffer := buf', f_pointer := p'\<rparr>"
  have "filt_ok ?f" "history ?f = shift_in (history f) (map sample ?xs)"
    using r(2-5) assms(1) by (simp_all add: filt_ok_def history_def)
  then show ?thesis using r(1) by (intro exI [of _ ?f]) (simp add: filter_run_buf_def)
qed

text \<open>
  C10. The filter is a convolution. For every filter, every history and every buffer of interleaved samples, the outputs are the weighted
  sums of the last samples before each position, computed in the order and the precision of
  the source, whatever the position of the write pointer in the ring buffer and however often the buffer
  is moved to its front; the reported level is the largest sample.
\<close>

theorem filter_convolution:
  assumes "filt_ok f" "len \<le> length out" "0 < len" "(len - 1) * step < length inp" "k < len"
  shows "\<exists>mx out' f'. filter_run_buf f inp out step len = Some (mx, out', f') \<and> filt_ok f'
    \<and> out' ! k = fir (f_taps f) (take (f_length f) (drop k (history f @ map sample (channel_samples inp step len))))
    \<and> mx = foldl max 0 (map sint (channel_samples inp step len))"
proof -
  have l: "length (channel_samples inp step len) = len" by (simp add: channel_samples_def)
  have h: "history f \<noteq> []" "length (history f) = f_length f"
    using assms(1) by (auto simp: filt_ok_def history_def window_def)
  have "foldl (\<lambda>m x. max m (sint x)) m xs = foldl max m (map sint xs)" for m and xs :: "s16 list"
    by (induction xs arbitrary: m) simp_all
  then show ?thesis
    using filter_run_buf_eq [OF assms(1,2,4)] firs_nth [of k "map sample (channel_samples inp step len)" "history f" "f_taps f"]
      assms(5) l h by (auto simp: nth_append)
qed

lemma filter_init_ok: "0 < len \<Longrightarrow> 2 * len < BufferLen \<Longrightarrow> len \<le> length taps \<Longrightarrow>
    \<exists>f. filter_init len taps = Some f \<and> filt_ok f \<and> f_taps f = take len taps \<and> f_length f = len \<and> history f = replicate len 0"
  by (simp add: filter_init_def filt_ok_def BufferLen_def history_def window_def)

theorem filter_convolution_witness:
  "\<exists>f mx out' f'. filter_init 3 [1 / 4, 1 / 2, 1 / 4] = Some f
    \<and> filter_run_buf f [100, 7, 200, 7, 300, 7] (replicate 4 9) 2 3 = Some (mx, out', f') \<and> filt_ok f'
    \<and> out' ! 2 = fir [1 / 4, 1 / 2, 1 / 4] [0, 100, 200] \<and> mx = 300"
proof -
  obtain f where f: "filter_init 3 [1 / 4, 1 / 2, 1 / 4] = Some f" "filt_ok f" "f_taps f = [1 / 4, 1 / 2, 1 / 4]"
      "f_length f = 3" "history f = replicate 3 0"
    using filter_init_ok [of 3 "[1 / 4, 1 / 2, 1 / 4]"] by (auto simp: BufferLen_def)
  have "channel_samples [100, 7, 200, 7, 300, 7 :: s16] 2 3 = [100, 200, 300]"
    by (simp add: channel_samples_def numeral_eq_Suc)
  then show ?thesis
    using filter_convolution [OF f(2), of 3 "replicate 4 9" 2 "[100, 7, 200, 7, 300, 7]" 2] f
    by (auto simp: sample_def numeral_eq_Suc)
qed

end
