(* ===== verification/Receiver.thy ===== *)
theory Receiver
  imports Hdlc Fir
begin

text \<open>
  receiver.c: one channel of the receiver. The filtered signal is sliced at the rate of a software phase locked
  loop, the NRZI code is undone, and the bits are fed to the decoder one by one.
\<close>

section \<open>The source\<close>

definition coeffs :: "cfloat list" where
  "coeffs = map (\<lambda>(m, e). f32 (f64 (of_int m / 10 ^ e)))
    [(25959, 59), (29479, 53), (14741, 47), (32462, 42), (31480, 37),
     (13443, 32), (25280, 28), (20934, 24), (76339, 21), (12259, 17),
     (86690, 15), (26996, 12), (37020, 10), (22355, 8), (59448, 7),
     (69616, 6), (35899, 5), (81522, 5), (81522, 5), (35899, 5),
     (69616, 6), (59448, 7), (22355, 8), (37020, 10), (26996, 12),
     (86690, 15), (12259, 17), (76339, 21), (20934, 24), (25280, 28),
     (13443, 32), (31480, 37), (32462, 42), (14741, 47), (29479, 53),
     (25959, 59)]"

definition COEFFS_L :: nat where "COEFFS_L = 36"
definition INC :: u32 where "INC = 16"
definition FILTERED_LEN :: nat where "FILTERED_LEN = 4096"

record receiver =
  rx_filter :: filt
  rx_name :: u8
  lastbit :: int
  num_ch :: nat
  ch_ofs :: nat
  pll :: u32
  pllinc :: u32
  decoder :: demod_state
  prev :: int
  last_levellog :: int

definition init_receiver :: "(nat \<Rightarrow> nat \<Rightarrow> u8) \<Rightarrow> u8 \<Rightarrow> nat \<Rightarrow> nat \<Rightarrow> bool \<Rightarrow> bool \<Rightarrow> receiver option" where
  "init_receiver mem nm nch ofs ser ip = do {
     f \<leftarrow> filter_init COEFFS_L coeffs;
     Some \<lparr>rx_filter = f, rx_name = nm, lastbit = 0, num_ch = nch, ch_ofs = ofs, pll = 0, pllinc = 0x10000 div 5,
       decoder = protodec_initialize mem ser ip nm, prev = 0, last_levellog = 0\<rparr>
   }"

text \<open>One filtered sample: the round of the loop of \<^verbatim>\<open>receiver_run\<close>.\<close>

definition receiver_sample :: "cfloat \<Rightarrow> receiver \<Rightarrow> world \<Rightarrow> (receiver \<times> world) option" where
  "receiver_sample out rx w = do {
     let curr = (if out > 0 then 1 else 0 :: int);
     let rx = (if (curr XOR prev rx) = 1
               then if pll rx < 0x10000 div 2 then rx\<lparr>pll := pll rx + pllinc rx div INC\<rparr>
                    else rx\<lparr>pll := pll rx - pllinc rx div INC\<rparr>
               else rx);
     let rx = rx\<lparr>prev := curr\<rparr>;
     let rx = rx\<lparr>pll := pll rx + pllinc rx\<rparr>;
     if pll rx > 0xffff then do {
       let bt = (if out > 0 then 1 else 0 :: int);
       let b = (if (bt XOR lastbit rx) = 0 then 1 else 0 :: u8);
       (d, w) \<leftarrow> protodec_decode [b] 1 (decoder rx) w;
       Some (rx\<lparr>decoder := d, lastbit := bt, pll := pll rx AND 0xffff\<rparr>, w)
     } else Some (rx, w)
   }"

function receiver_loop :: "cfloat list \<Rightarrow> nat \<Rightarrow> nat \<Rightarrow> receiver \<Rightarrow> world \<Rightarrow> (receiver \<times> world) option" where
  "receiver_loop filtered len i rx w =
     (if i < len then do {
        out \<leftarrow> arr_get filtered i;
        (rx, w) \<leftarrow> receiver_sample out rx w;
        receiver_loop filtered len (i + 1) rx w
      } else Some (rx, w))"
  by auto
termination by (relation "measure (\<lambda>(filtered, len, i, rx, w). len - i)") auto

declare receiver_loop.simps [simp del]

text \<open>The level of the buffer in per cent, and its log.\<close>

definition log_level :: "int \<Rightarrow> int \<Rightarrow> receiver \<Rightarrow> world \<Rightarrow> receiver \<times> world" where
  "log_level sound_levellog maxval rx w =
     (let level = f32 (f32 (f32 (of_int maxval) / 32768) * 100);
          (t, w) = time_now w;
          level_distance = wrap32 (t - last_levellog rx)
      in if level > 95 \<and> (level_distance \<ge> 30 \<or> level_distance \<ge> sound_levellog) then
           let w = emit (Hlog ''Level on ch %c too high: %.0f %%'' [PInt (uint (chanid (decoder rx))), PDouble level]) w;
               (t, w) = time_now w
           in (rx\<lparr>last_levellog := t\<rparr>, w)
         else if sound_levellog \<noteq> 0 \<and> level_distance \<ge> sound_levellog then
           let w = emit (Hlog ''Level on ch %c: %.0f %%'' [PInt (uint (chanid (decoder rx))), PDouble level]) w;
               (t, w) = time_now w
           in (rx\<lparr>last_levellog := t\<rparr>, w)
         else (rx, w))"

text \<open>
  \<open>stack\<close> is the array of filtered samples as it is found, uninitialised; a buffer that
  is too long makes the program abort (\<^const>\<open>None\<close>).
\<close>

definition receiver_run ::
    "int \<Rightarrow> cfloat list \<Rightarrow> receiver \<Rightarrow> s16 list \<Rightarrow> nat \<Rightarrow> world \<Rightarrow> (receiver \<times> world) option" where
  "receiver_run sound_levellog stack rx buf len w = do {
     let buf = drop (ch_ofs rx) buf;
     if len > FILTERED_LEN then None
     else do {
       (maxval, filtered, f) \<leftarrow> filter_run_buf (rx_filter rx) buf stack (num_ch rx) len;
       (rx, w) \<leftarrow> receiver_loop filtered len 0 (rx\<lparr>rx_filter := f\<rparr>) w;
       Some (log_level sound_levellog maxval rx w)
     }
   }"

section \<open>The slicer as a function of the signal\<close>

text \<open>
  Previous level, phase, last sliced bit. The result is the bits for the decoder.
\<close>

fun phase_step :: "bool \<Rightarrow> int \<Rightarrow> nat \<Rightarrow> nat" where
  "phase_step s p ph = (if (if s then 1 else 0) \<noteq> p then (if ph < 32768 then ph + 819 else ph - 819) else ph) + 13107"

fun slice :: "bool list \<Rightarrow> int \<times> nat \<times> int \<Rightarrow> u8 list \<times> (int \<times> nat \<times> int)" where
  "slice [] z = ([], z)"
| "slice (s # ss) (p, ph, lb) =
     (let c = (if s then 1 else 0); ph = phase_step s p ph
      in if ph > 65535
         then let (bs, z) = slice ss (c, ph - 65536, c) in ((if c = lb then 1 else 0) # bs, z)
         else slice ss (c, ph, lb))"

declare phase_step.simps [simp del]

lemma phase_step_bounds: "ph < 65536 \<Longrightarrow> phase_step s p ph < 131072" "13107 \<le> phase_step s p ph + 819"
  by (auto simp: phase_step.simps)

definition rx_ok :: "receiver \<Rightarrow> bool" where
  "rx_ok rx \<longleftrightarrow> unat (pll rx) < 65536 \<and> pllinc rx = 13107 \<and> prev rx \<in> {0, 1} \<and> lastbit rx \<in> {0, 1}"

definition rx_state :: "receiver \<Rightarrow> int \<times> nat \<times> int" where
  "rx_state rx = (prev rx, unat (pll rx), lastbit rx)"

definition rx_set :: "int \<times> nat \<times> int \<Rightarrow> demod_state \<Rightarrow> receiver \<Rightarrow> receiver" where
  "rx_set z d rx = rx\<lparr>prev := fst z, decoder := d, lastbit := snd (snd z), pll := of_nat (fst (snd z))\<rparr>"

lemma rx_set_simps [simp]:
  "decoder (rx_set z d rx) = d" "rx_set z d (rx_set z' d' rx) = rx_set z d rx" "rx_filter (rx_set z d rx) = rx_filter rx"
  "last_levellog (rx_set z d rx) = last_levellog rx" "num_ch (rx_set z d rx) = num_ch rx" "ch_ofs (rx_set z d rx) = ch_ofs rx"
  by (simp_all add: rx_set_def)

lemma rx_set_state: "rx_set (rx_state rx) (decoder rx) rx = rx"
  by (simp add: rx_set_def rx_state_def)

definition slice_ok :: "int \<times> nat \<times> int \<Rightarrow> bool" where
  "slice_ok z \<longleftrightarrow> fst z \<in> {0, 1} \<and> fst (snd z) < 65536 \<and> snd (snd z) \<in> {0, 1}"

lemma rx_state_ok: "rx_ok rx \<Longrightarrow> slice_ok (rx_state rx)"
  by (simp add: rx_ok_def slice_ok_def rx_state_def)

lemma rx_set_ok: "rx_ok rx \<Longrightarrow> slice_ok z \<Longrightarrow> rx_ok (rx_set z d rx) \<and> rx_state (rx_set z d rx) = z"
  by (cases z) (auto simp: rx_ok_def slice_ok_def rx_set_def rx_state_def unat_of_nat)

lemma slice_ok_step: "slice_ok z \<Longrightarrow> slice [s] z = (bs, z') \<Longrightarrow> slice_ok z'"
proof -
  assume z: "slice_ok z" and e: "slice [s] z = (bs, z')"
  obtain p ph lb where zz: "z = (p, ph, lb)" by (cases z)
  have "phase_step s p ph < 131072" using z by (intro phase_step_bounds) (simp add: slice_ok_def zz)
  then show ?thesis using e z by (auto simp: zz slice_ok_def Let_def split: if_splits)
qed

text \<open>The phase arithmetic of the source on 32-bit words.\<close>

lemma phase_words:
  fixes c :: bool and ph :: nat
  assumes "ph < 65536"
  defines "x \<equiv> (if c then if (of_nat ph :: u32) < 0x10000 div 2 then of_nat ph + 13107 div INC else of_nat ph - 13107 div INC
    else of_nat ph) + 13107"
  defines "n \<equiv> (if c then if ph < 32768 then ph + 819 else ph - 819 else ph) + 13107"
  shows "x = of_nat n" "x > 0xffff \<longleftrightarrow> n > 65535" "n > 65535 \<Longrightarrow> x AND 0xffff = of_nat (n - 65536)"
proof -
  have inc: "(13107 :: u32) div INC = of_nat 819" by (simp add: INC_def)
  have lt: "(of_nat ph :: u32) < 0x10000 div 2 \<longleftrightarrow> ph < 32768"
    using assms(1) by (simp add: word_less_nat_alt unat_of_nat)
  have "of_nat ph - (of_nat 819 :: u32) = of_nat (ph - 819)" if "\<not> ph < 32768"
    using that by (subst of_nat_diff) simp_all
  then show x: "x = of_nat n" unfolding x_def n_def inc lt by simp
  have n: "n < 131072" unfolding n_def using assms(1) by auto
  then have u: "unat (of_nat n :: u32) = n" by (simp add: unat_of_nat)
  show "x > 0xffff \<longleftrightarrow> n > 65535" unfolding x by (simp add: word_less_nat_alt u)
  show "x AND 0xffff = of_nat (n - 65536)" if "n > 65535"
  proof -
    have "(0xffff :: u32) = mask 16" by (simp add: mask_eq_exp_minus_1)
    then have "x AND 0xffff = take_bit 16 (of_nat n)" unfolding x by (simp add: take_bit_eq_mask)
    then have "unat (x AND 0xffff) = take_bit 16 n" by (simp only: unsigned_take_bit_eq u)
    then have "unat (x AND 0xffff) = n mod 65536" by (simp add: take_bit_eq_mod)
    moreover have "n mod 65536 = n - 65536" using that n by (simp add: mod_if)
    ultimately show ?thesis using n by (simp add: word_unat_eq_iff unat_of_nat)
  qed
qed

lemma xor_01: "a \<in> {0, 1} \<Longrightarrow> b \<in> {0, 1} \<Longrightarrow> (a XOR b = 1 \<longleftrightarrow> a \<noteq> b) \<and> (a XOR b = 0 \<longleftrightarrow> a = (b :: int))"
  by auto

lemma receiver_sample_eq:
  assumes "rx_ok rx" "slice [out > 0] (rx_state rx) = (bs, z)"
  shows "receiver_sample out rx w = do { (d, w) \<leftarrow> decode_bits bs (decoder rx) w; Some (rx_set z d rx, w) }"
proof -
  define c :: int where "c = (if 0 < out then 1 else 0)"
  define ph where "ph = unat (pll rx)"
  have ph: "ph < 65536" "pllinc rx = 13107" "prev rx \<in> {0, 1}" "lastbit rx \<in> {0, 1}"
    using assms(1) by (simp_all add: rx_ok_def ph_def)
  have pl: "of_nat ph = pll rx" by (simp add: ph_def)
  have c: "c \<in> {0, 1}" by (simp add: c_def)
  define y where "y = (if c \<noteq> prev rx then if pll rx < 0x10000 div 2 then pll rx + 13107 div INC else pll rx - 13107 div INC
    else pll rx) + 13107"
  define n where "n = phase_step (0 < out) (prev rx) ph"
  have "n = (if c \<noteq> prev rx then if ph < 32768 then ph + 819 else ph - 819 else ph) + 13107"
    by (simp add: phase_step.simps n_def c_def)
  then have y: "y = of_nat n" "y > 0xffff \<longleftrightarrow> n > 65535" "n > 65535 \<Longrightarrow> y AND 0xffff = of_nat (n - 65536)"
    using phase_words [OF ph(1), of "c \<noteq> prev rx", unfolded pl] unfolding y_def by metis+
  note x = xor_01 [OF c ph(3), THEN conjunct1] xor_01 [OF c ph(4), THEN conjunct2]
  define rx1 where "rx1 = (if c \<noteq> prev rx
               then if pll rx < 0x10000 div 2 then rx\<lparr>pll := pll rx + pllinc rx div INC\<rparr>
                    else rx\<lparr>pll := pll rx - pllinc rx div INC\<rparr>
               else rx)"
  have rx1: "rx1\<lparr>prev := c, pll := y\<rparr> = rx\<lparr>prev := c, pll := y\<rparr>" "lastbit rx1 = lastbit rx" "decoder rx1 = decoder rx"
    "pll rx1 + pllinc rx1 = y" "rx1\<lparr>prev := c, pll := i, decoder := d, lastbit := c\<rparr> = rx\<lparr>prev := c, pll := i, decoder := d, lastbit := c\<rparr>" for d i
    unfolding rx1_def y_def using ph(2) by (simp_all add: INC_def)
  have run: "receiver_sample out rx w = (if y > 0xffff then do {
       (d, w) \<leftarrow> protodec_decode [if c = lastbit rx then 1 else 0] 1 (decoder rx) w;
       Some (rx\<lparr>prev := c, decoder := d, lastbit := c, pll := y AND 0xffff\<rparr>, w)
     } else Some (rx\<lparr>prev := c, pll := y\<rparr>, w))"
    unfolding receiver_sample_def Let_def c_def [symmetric] x(1) rx1_def [symmetric]
    by (simp add: rx1 x(2) split del: if_split cong: if_cong)
  show ?thesis
  proof (cases "n > 65535")
    case True
    have "bs = [if c = lastbit rx then 1 else 0]" "z = (c, n - 65536, c)"
      using assms(2) True by (auto simp: rx_state_def Let_def n_def c_def ph_def)
    then show ?thesis using run y(2,3) True protodec_decode_bits [of "[if c = lastbit rx then 1 else 0]"]
      by (simp add: rx_set_def split del: if_split)
  next
    case False
    have "bs = []" "z = (c, n, lastbit rx)"
      using assms(2) False by (auto simp: rx_state_def Let_def n_def c_def ph_def)
    then show ?thesis using run y(1,2) False by (simp add: rx_set_def split del: if_split)
  qed
qed

lemma slice_append:
  "slice (as @ bs) z = (let (xs, z1) = slice as z; (ys, z2) = slice bs z1 in (xs @ ys, z2))"
proof (induction as arbitrary: z)
  case Nil
  then show ?case by (simp add: split_beta)
next
  case (Cons s as)
  obtain p ph lb where "z = (p, ph, lb)" by (cases z)
  then show ?case using Cons.IH by (simp add: Let_def split_beta)
qed

lemma slice_Cons: "slice (s # ss) z = (let (xs, z1) = slice [s] z; (ys, z2) = slice ss z1 in (xs @ ys, z2))"
  using slice_append [of "[s]" ss z] by simp

lemma slice_ok_run: "slice_ok z \<Longrightarrow> slice_ok (snd (slice ss z))"
proof (induction ss arbitrary: z)
  case (Cons s ss)
  obtain xs z1 where s: "slice [s] z = (xs, z1)" by (cases "slice [s] z")
  then have "slice_ok (snd (slice ss z1))" using Cons slice_ok_step by blast
  then show ?case by (subst slice_Cons) (simp add: s split_beta)
qed simp

text \<open>The loop of the receiver is the slicer followed by the decoder.\<close>

lemma receiver_loop_eq:
  "rx_ok rx \<Longrightarrow> i \<le> len \<Longrightarrow> len \<le> length filtered \<Longrightarrow>
    slice (map (\<lambda>x. x > 0) (drop i (take len filtered))) (rx_state rx) = (bs, z) \<Longrightarrow>
    receiver_loop filtered len i rx w = do { (d, w) \<leftarrow> decode_bits bs (decoder rx) w; Some (rx_set z d rx, w) }"
proof (induction "len - i" arbitrary: i rx w bs)
  case 0
  then show ?case by (auto simp: receiver_loop.simps rx_set_state)
next
  case (Suc n)
  then have i: "i < len" "n = len - (i + 1)" by simp_all
  let ?out = "filtered ! i"
  have dr: "drop i (take len filtered) = ?out # drop (i + 1) (take len filtered)"
    using i(1) Suc.prems(3) by (subst Cons_nth_drop_Suc [symmetric]) simp_all
  obtain xs z1 ys where s: "slice [?out > 0] (rx_state rx) = (xs, z1)"
      "slice (map (\<lambda>x. x > 0) (drop (i + 1) (take len filtered))) z1 = (ys, z)" "bs = xs @ ys"
    using Suc.prems(4) unfolding dr list.map by (subst (asm) slice_Cons) (auto simp: Let_def split_beta prod_eq_iff)
  have z1: "slice_ok z1" using slice_ok_step [OF rx_state_ok [OF Suc.prems(1)] s(1)] .
  have "receiver_loop filtered len (i + 1) (rx_set z1 d rx) w'
      = do { (d, w) \<leftarrow> decode_bits ys d w'; Some (rx_set z d rx, w) }" for d w'
    using Suc.hyps(1) [OF i(2), of "rx_set z1 d rx" ys w'] rx_set_ok [OF Suc.prems(1) z1, of d] s(2) i(1) Suc.prems(3) by simp
  then have "receiver_loop filtered len i rx w
      = do { (d, w) \<leftarrow> decode_bits xs (decoder rx) w; (d, w) \<leftarrow> decode_bits ys d w; Some (rx_set z d rx, w) }"
    using i(1) Suc.prems(3) receiver_sample_eq [OF Suc.prems(1) s(1), of w]
    by (subst receiver_loop.simps) (simp add: split_def)
  then show ?case unfolding s(3) decode_bits_append by (simp add: split_def)
qed

definition receiver_ok :: "receiver \<Rightarrow> bool" where
  "receiver_ok rx \<longleftrightarrow> rx_ok rx \<and> filt_ok (rx_filter rx) \<and> demod_ok (decoder rx)"

lemma coeffs_length: "length coeffs = 36"
  by (simp add: coeffs_def)

lemma init_receiver_ok:
  "\<exists>rx. init_receiver mem nm nch ofs ser ip = Some rx \<and> receiver_ok rx \<and> rx_state rx = (0, 0, 0) \<and> num_ch rx = nch \<and> ch_ofs rx = ofs
    \<and> decoder rx = protodec_initialize mem ser ip nm"
  using filter_init_ok [of COEFFS_L coeffs] initialize_ok coeffs_length
  by (auto simp: init_receiver_def receiver_ok_def rx_ok_def rx_state_def BufferLen_def COEFFS_L_def)

lemma log_level_env:
  assumes "env_ok w" "log_level sl mx rx w = (rx', w')"
  shows "env_ok w' \<and> (receiver_ok rx \<longrightarrow> receiver_ok rx') \<and> decoder rx' = decoder rx"
proof -
  have e: "env_ok (emit e w) = env_ok w" "env_ok (w\<lparr>w_tick := t\<rparr>) = env_ok w" for e w t
    by (simp_all add: env_ok_def world_ok_def emit_def)
  show ?thesis using assms
    by (auto simp: log_level_def Let_def time_now_def e receiver_ok_def rx_ok_def split: if_splits)
qed

section \<open>What a channel hears\<close>

text \<open>
  Filter history and slicer state of a receiver; the bits that it gets from samples, and the new state.
\<close>

definition ear :: "receiver \<Rightarrow> cfloat list \<times> (int \<times> nat \<times> int)" where
  "ear rx = (history (rx_filter rx), rx_state rx)"

definition hear :: "cfloat list \<Rightarrow> cfloat list \<times> (int \<times> nat \<times> int) \<Rightarrow> cfloat list \<Rightarrow> u8 list \<times> cfloat list \<times> (int \<times> nat \<times> int)" where
  "hear taps e xs = (let (bs, z) = slice (map (\<lambda>x. x > 0) (firs taps (fst e) xs)) (snd e) in (bs, shift_in (fst e) xs, z))"

lemma firs_append: "firs taps h (xs @ ys) = firs taps h xs @ firs taps (shift_in h xs) ys"
  by (induction xs arbitrary: h) (simp_all add: shift_in_def)

lemma hear_append:
  "hear taps e xs = (as, e1) \<Longrightarrow> hear taps e1 ys = (bs, e2) \<Longrightarrow> hear taps e (xs @ ys) = (as @ bs, e2)"
  by (auto simp: hear_def firs_append slice_append shift_in_def Let_def split: prod.splits)

lemma receiver_run_hears:
  assumes "receiver_ok rx" "env_ok w" "len \<le> 4096" "length stack = 4096"
    and "0 < len \<longrightarrow> ch_ofs rx + (len - 1) * num_ch rx < length buf"
    and "hear (f_taps (rx_filter rx)) (ear rx) (map sample (channel_samples (drop (ch_ofs rx) buf) (num_ch rx) len)) = (bs, e)"
  shows "\<exists>rx' w' w1. receiver_run sl stack rx buf len w = Some (rx', w') \<and> receiver_ok rx' \<and> env_ok w'
    \<and> decode_bits bs (decoder rx) w = Some (decoder rx', w1) \<and> ear rx' = e
    \<and> f_taps (rx_filter rx') = f_taps (rx_filter rx) \<and> num_ch rx' = num_ch rx \<and> ch_ofs rx' = ch_ofs rx"
proof -
  let ?buf = "drop (ch_ofs rx) buf"
  let ?xs = "map sample (channel_samples ?buf (num_ch rx) len)"
  let ?y = "firs (f_taps (rx_filter rx)) (history (rx_filter rx)) ?xs"
  have rx: "rx_ok rx" "filt_ok (rx_filter rx)" "demod_ok (decoder rx)" using assms(1) by (simp_all add: receiver_ok_def)
  have "0 < len \<Longrightarrow> (len - 1) * num_ch rx < length ?buf" using assms(5) by simp
  then obtain mx f where f: "filter_run_buf (rx_filter rx) ?buf stack (num_ch rx) len = Some (mx, ?y @ drop len stack, f)" "filt_ok f"
      "f_taps f = f_taps (rx_filter rx)" "history f = shift_in (history (rx_filter rx)) ?xs"
    using filter_run_buf_eq [OF rx(2), of len stack "num_ch rx" ?buf] assms(3,4) by auto
  let ?rx = "rx\<lparr>rx_filter := f\<rparr>"
  have ly: "length ?y = len" by (simp add: channel_samples_def)
  obtain z where s: "slice (map (\<lambda>x. x > 0) ?y) (rx_state rx) = (bs, z)" and e: "e = (history f, z)"
    using assms(6) by (auto simp: hear_def ear_def f(4) split: prod.splits)
  then have s': "slice (map (\<lambda>x. x > 0) (drop 0 (take len (?y @ drop len stack)))) (rx_state ?rx) = (bs, z)"
    using ly by (simp add: rx_state_def)
  obtain d w1 where d: "decode_bits bs (decoder rx) w = Some (d, w1)" "demod_ok d" "env_ok w1"
    using decode_bits_ok [OF rx(3) assms(2)] by blast
  have ok: "rx_ok ?rx" using rx(1) by (simp add: rx_ok_def)
  then have l: "receiver_loop (?y @ drop len stack) len 0 ?rx w = Some (rx_set z d ?rx, w1)"
    using receiver_loop_eq [OF _ _ _ s', of w] ly d(1) by simp
  have z: "slice_ok z" using slice_ok_run [OF rx_state_ok [OF rx(1)]] s by (metis snd_conv)
  then have k: "receiver_ok (rx_set z d ?rx)" "rx_state (rx_set z d ?rx) = z"
    using rx_set_ok [OF ok, of z d] d(2) f(2) by (simp_all add: receiver_ok_def)
  obtain rx' w' where lv: "log_level sl mx (rx_set z d ?rx) w1 = (rx', w')" by (rule prod.exhaust)
  moreover have "rx' = (rx_set z d ?rx)\<lparr>last_levellog := last_levellog rx'\<rparr>"
    using lv by (auto simp: log_level_def Let_def time_now_def split: if_splits)
  then obtain t where t: "rx' = (rx_set z d ?rx)\<lparr>last_levellog := t\<rparr>" by blast
  have "ear rx' = (history f, z)" "rx_filter rx' = f" "num_ch rx' = num_ch rx" "ch_ofs rx' = ch_ofs rx" "decoder rx' = d"
    using k(2) by (simp_all add: t ear_def rx_state_def)
  moreover note log_level_env [OF d(3) lv]
  ultimately show ?thesis using f(1,3) l assms(3) d(1) s k e
    by (auto simp: receiver_run_def FILTERED_LEN_def ear_def)
qed

text \<open>
  C8. A buffer of samples is received without undefined behaviour. For any samples, any level settings and any contents of the
  uninitialised array, as long as the buffer holds the announced number of samples of the channel, \<^const>\<open>receiver_run\<close>
  is defined, keeps the invariant of the channel, and what it feeds to the decoder is what
  the slicer makes of the filtered signal.
\<close>

theorem receiver_run_ok:
  assumes "receiver_ok rx" "env_ok w" "len \<le> 4096" "length stack = 4096"
    and "0 < len \<longrightarrow> ch_ofs rx + (len - 1) * num_ch rx < length buf"
  shows "\<exists>rx' w'. receiver_run sl stack rx buf len w = Some (rx', w') \<and> receiver_ok rx' \<and> env_ok w'
    \<and> (\<exists>w1. decode_bits (fst (slice (map (\<lambda>x. x > 0) (firs (f_taps (rx_filter rx)) (history (rx_filter rx))
          (map sample (channel_samples (drop (ch_ofs rx) buf) (num_ch rx) len)))) (rx_state rx))) (decoder rx) w
        = Some (decoder rx', w1))"
proof -
  let ?xs = "map sample (channel_samples (drop (ch_ofs rx) buf) (num_ch rx) len)"
  obtain bs e where h: "hear (f_taps (rx_filter rx)) (ear rx) ?xs = (bs, e)" by (rule prod.exhaust)
  then have "bs = fst (slice (map (\<lambda>x. x > 0) (firs (f_taps (rx_filter rx)) (history (rx_filter rx)) ?xs)) (rx_state rx))"
    by (auto simp: hear_def ear_def split: prod.splits)
  then show ?thesis using receiver_run_hears [OF assms h, of sl] by blast
qed

theorem receiver_run_ok_witness:
  "\<exists>rx rx' w'. init_receiver (\<lambda>_ _. 5) 65 2 1 True False = Some rx
    \<and> receiver_run 60 (replicate 4096 9) rx (replicate 2048 (-7)) 1024 idle_world = Some (rx', w') \<and> receiver_ok rx' \<and> env_ok w'"
proof -
  obtain rx where rx: "init_receiver (\<lambda>_ _. 5) 65 2 1 True False = Some rx" "receiver_ok rx" "num_ch rx = 2" "ch_ofs rx = 1"
    using init_receiver_ok by blast
  have "0 < (1024 :: nat) \<longrightarrow> ch_ofs rx + (1024 - 1) * num_ch rx < length (replicate 2048 (-7 :: s16))"
    using rx(3,4) by simp
  from receiver_run_ok [OF rx(2) idle_env_ok _ _ this, of "replicate 4096 9" 60] obtain rx' w' where
    "receiver_run 60 (replicate 4096 9) rx (replicate 2048 (-7)) 1024 idle_world = Some (rx', w')" "receiver_ok rx'" "env_ok w'"
    by auto
  then show ?thesis using rx(1) by blast
qed

section \<open>The phase locked loop\<close>

lemma slice_rate:
  assumes "slice ss (p, ph, lb) = (bs, (p', ph', lb'))" "ph < 65536"
  shows "12288 * length ss + ph \<le> 65536 * length bs + ph'" "65536 * length bs + ph' \<le> ph + 13926 * length ss"
proof -
  have "12288 * length ss + ph \<le> 65536 * length bs + ph' \<and> 65536 * length bs + ph' \<le> ph + 13926 * length ss"
    using assms
  proof (induction ss arbitrary: p ph lb bs)
    case (Cons s ss)
    let ?c = "if s then 1 else 0 :: int" and ?n = "phase_step s p ph"
    have n: "ph + 12288 \<le> ?n" "?n \<le> ph + 13926" by (auto simp: phase_step.simps)
    show ?case
    proof (cases "?n > 65535")
      case True
      then obtain bs1 where "slice ss (?c, ?n - 65536, ?c) = (bs1, (p', ph', lb'))" "length bs = Suc (length bs1)"
        using Cons.prems(1) by (auto simp: Let_def split: prod.splits)
      moreover have "?n - 65536 < 65536" using n(2) Cons.prems(2) by simp
      ultimately show ?thesis using Cons.IH [of ?c "?n - 65536" ?c bs1] n True by auto
    next
      case False
      then have "slice ss (?c, ?n, lb) = (bs, (p', ph', lb'))" using Cons.prems(1) by (simp add: Let_def)
      then show ?thesis using Cons.IH [of ?c ?n lb bs] n False by auto
    qed
  qed simp
  then show "12288 * length ss + ph \<le> 65536 * length bs + ph'" "65536 * length bs + ph' \<le> ph + 13926 * length ss" by simp_all
qed

text \<open>
  C9. The rate of the bit clock. Whatever the signal, the loop turns \<open>len\<close> samples into between 0.1875 and 0.2125 bits per sample,
  up to the phase of less than one bit that it starts and ends with (nominal: one bit in
  five samples): a phase correction never skips or doubles a bit.
\<close>

theorem pll_rate:
  assumes "rx_ok rx" "len \<le> length filtered"
  shows "\<exists>bs z. receiver_loop filtered len 0 rx w = do { (d, w) \<leftarrow> decode_bits bs (decoder rx) w; Some (rx_set z d rx, w) }
    \<and> fst (snd z) < 65536 \<and> 12288 * len + unat (pll rx) \<le> 65536 * length bs + fst (snd z)
    \<and> 65536 * length bs + fst (snd z) \<le> unat (pll rx) + 13926 * len"
proof -
  let ?ss = "map (\<lambda>x. x > 0) (drop 0 (take len filtered))"
  obtain bs p ph lb where s: "slice ?ss (rx_state rx) = (bs, (p, ph, lb))" by (metis surj_pair)
  have l: "length ?ss = len" using assms(2) by simp
  have "slice_ok (p, ph, lb)" using slice_ok_run [OF rx_state_ok [OF assms(1)], of ?ss] s by simp
  then have "ph < 65536" by (simp add: slice_ok_def)
  moreover have "unat (pll rx) < 65536" using assms(1) by (simp add: rx_ok_def)
  moreover note slice_rate [OF s [unfolded rx_state_def] this, unfolded l] receiver_loop_eq [OF assms(1) _ assms(2) s, of w]
  ultimately show ?thesis by (intro exI [of _ bs] exI [of _ "(p, ph, lb)"]) simp
qed

theorem pll_rate_witness:
  "\<exists>rx bs z. init_receiver (\<lambda>_ _. 0) 65 1 0 False False = Some rx
    \<and> receiver_loop (replicate 1000 1) 1000 0 rx idle_world
      = do { (d, w) \<leftarrow> decode_bits bs (decoder rx) idle_world; Some (rx_set z d rx, w) }
    \<and> 187 \<le> length bs \<and> length bs \<le> 212"
proof -
  obtain rx where rx: "init_receiver (\<lambda>_ _. 0) 65 1 0 False False = Some rx" "receiver_ok rx" "rx_state rx = (0, 0, 0)"
    using init_receiver_ok by blast
  have r: "rx_ok rx" "unat (pll rx) = 0" using rx(2,3) by (simp_all add: receiver_ok_def rx_state_def)
  obtain bs z where "receiver_loop (replicate 1000 1) 1000 0 rx idle_world
      = do { (d, w) \<leftarrow> decode_bits bs (decoder rx) idle_world; Some (rx_set z d rx, w) }"
      "fst (snd z) < 65536" "12288 * 1000 + 0 \<le> 65536 * length bs + fst (snd z)" "65536 * length bs + fst (snd z) \<le> 0 + 13926 * 1000"
    using pll_rate [OF r(1), of 1000 "replicate 1000 1" idle_world] r(2) by auto
  moreover from this have "187 \<le> length bs" "length bs \<le> 212" by linarith+
  ultimately show ?thesis using rx(1) by blast
qed

section \<open>Lock\<close>

definition level_int :: "bool \<Rightarrow> int" where
  "level_int l = (if l then 1 else 0)"

text \<open>NRZI: a zero is a change of level, a one is none.\<close>

fun nrzi_levels :: "int \<Rightarrow> u8 list \<Rightarrow> bool list" where
  "nrzi_levels lb [] = []"
| "nrzi_levels lb (b # bs) = (let l = (if b = 1 then lb = 1 else lb \<noteq> 1) in l # nrzi_levels (level_int l) bs)"

lemma slice_constant:
  "ph + 13107 * n < 65536 \<Longrightarrow> slice (replicate n l) (level_int l, ph, lb) = ([], (level_int l, ph + 13107 * n, lb))"
proof (induction n arbitrary: ph)
  case (Suc n)
  then show ?case by (simp add: phase_step.simps level_int_def Let_def)
qed simp

lemma slice_bit:
  assumes "ph < 65536" "level_int l = p \<longrightarrow> 1 \<le> ph"
  shows "\<exists>ph'. slice (replicate 5 l) (p, ph, lb) = ([if level_int l = lb then 1 else 0], (level_int l, ph', level_int l))
    \<and> ph' < 65536 \<and> (if level_int l = p then ph' = ph - 1 else 818 \<le> ph')"
proof -
  let ?c = "level_int l"
  define a where "a = (if ?c \<noteq> p then (if ph < 32768 then ph + 819 else ph - 819) else ph)"
  have a: "1 \<le> a" "a < 65536" "if ?c = p then a = ph else 819 \<le> a" using assms by (auto simp: a_def)
  have five: "replicate 5 l = l # replicate 4 l" "replicate 4 l = l # replicate 3 l" "replicate 3 l = l # replicate 2 l"
      "replicate 2 l = l # replicate 1 l" by (simp_all add: numeral_eq_Suc)
  have st: "phase_step l p ph = a + 13107" by (simp add: phase_step.simps a_def level_int_def)
  have c: "(if l then 1 else 0) = ?c" by (simp add: level_int_def)
  have step: "slice (l # ss) (?c, x, lb) = (if x + 13107 > 65535
      then ((if ?c = lb then 1 else 0) # fst (slice ss (?c, x + 13107 - 65536, ?c)), snd (slice ss (?c, x + 13107 - 65536, ?c)))
      else slice ss (?c, x + 13107, lb))" for ss x
    by (simp add: phase_step.simps Let_def level_int_def split_beta)
  have first: "slice (l # ss) (p, ph, lb) = (if a + 13107 > 65535
      then ((if ?c = lb then 1 else 0) # fst (slice ss (?c, a + 13107 - 65536, ?c)), snd (slice ss (?c, a + 13107 - 65536, ?c)))
      else slice ss (?c, a + 13107, lb))" for ss
    by (simp add: st c Let_def split_beta)
  have "slice (replicate 5 l) (p, ph, lb) = ([if ?c = lb then 1 else 0], (?c, a - 1, ?c))"
  proof -
    consider "a + 13107 > 65535" | "a + 13107 \<le> 65535" "a + 26214 > 65535" | "a + 26214 \<le> 65535" "a + 39321 > 65535"
      | "a + 39321 \<le> 65535" "a + 52428 > 65535" | "a + 52428 \<le> 65535" by linarith
    then show ?thesis
    proof cases
      case 1
      then show ?thesis using a(1,2) slice_constant [of "a + 13107 - 65536" 4 l ?c]
        by (simp only: five(1) first) (simp del: slice.simps(2))
    next
      case 2
      then show ?thesis using a(1,2) slice_constant [of "a + 26214 - 65536" 3 l ?c]
        by (simp only: five(1,2) first) (simp add: step del: slice.simps(2))
    next
      case 3
      then show ?thesis using a(1,2) slice_constant [of "a + 39321 - 65536" 2 l ?c]
        by (simp only: five(1-3) first) (simp add: step del: slice.simps(2))
    next
      case 4
      then show ?thesis using a(1,2) slice_constant [of "a + 52428 - 65536" 1 l ?c]
        by (simp only: five(1-4) first step) (simp add: step del: slice.simps(2))
    next
      case 5
      then show ?thesis using a(1,2) by (simp only: five(1-4) first step) (simp add: step del: slice.simps(2))
    qed
  qed
  then show ?thesis using a by (intro exI [of _ "a - 1"]) (auto split: if_splits)
qed

text \<open>
  Bits that begin with a zero, soon or at once, and have never more than 818 ones in a row: a zero moves the phase at least 818 units away
  from the end of the bit, and a one moves it one unit back.
\<close>

fun calm :: "nat \<Rightarrow> u8 list \<Rightarrow> bool" where
  "calm k [] = True"
| "calm k (b # bs) = (if b = 1 then 0 < k \<and> calm (k - 1) bs else calm 818 bs)"

lemma calm_mono: "calm k bs \<Longrightarrow> k \<le> n \<Longrightarrow> calm n bs"
  by (induction bs arbitrary: k n) (auto split: if_splits)

lemma calm_stuff: "j \<le> 4 \<Longrightarrow> 5 \<le> k + j \<Longrightarrow> calm 0 rest \<Longrightarrow> calm k (stuff j bs @ rest)"
proof (induction j bs arbitrary: k rule: stuff.induct)
  case (1 j)
  then show ?case using calm_mono [of 0 rest k] by simp
qed (simp; linarith?)

lemma calm_frame: "calm 818 rest \<Longrightarrow> calm k (bit_frame bs @ rest)"
proof -
  assume r: "calm 818 rest"
  have "calm 0 (flag @ rest)" using r by (simp add: flag_def)
  then have "calm 818 (stuff 0 bs @ flag @ rest)" by (intro calm_stuff) simp_all
  then show ?thesis by (simp add: bit_frame_def training_bits flag_def)
qed

text \<open>The level after the bits.\<close>

definition end_level :: "int \<Rightarrow> u8 list \<Rightarrow> int" where
  "end_level lb bs = foldl (\<lambda>l b. if b = 1 then l else 1 - l) lb bs"

lemma end_level_01: "lb \<in> {0, 1} \<Longrightarrow> end_level lb bs \<in> {0, 1}"
  unfolding end_level_def
proof (induction bs arbitrary: lb)
  case (Cons b bs)
  have "(if b = 1 then lb else 1 - lb) \<in> {0, 1}" using Cons.prems by auto
  then show ?case unfolding foldl.simps by (rule Cons.IH)
qed simp

lemma slice_locked:
  "k \<le> ph \<Longrightarrow> ph < 65536 \<Longrightarrow> calm k bs \<Longrightarrow> bits01 bs \<Longrightarrow> lb \<in> {0, 1} \<Longrightarrow>
    \<exists>ph'. slice (concat (map (replicate 5) (nrzi_levels lb bs))) (lb, ph, lb) = (bs, (end_level lb bs, ph', end_level lb bs)) \<and> ph' < 65536"
proof (induction bs arbitrary: k ph lb)
  case (Cons b bs)
  let ?l = "if b = 1 then lb = 1 else lb \<noteq> 1"
  have b: "b = 0 \<or> b = 1" using Cons.prems(4) by simp
  have l: "level_int ?l = (if b = 1 then lb else 1 - lb)" "level_int ?l = lb \<longleftrightarrow> b = 1" using Cons.prems(5) b by (auto simp: level_int_def)
  have "level_int ?l = lb \<longrightarrow> 1 \<le> ph" using Cons.prems(1,3) l(2) by auto
  then obtain ph' where f: "slice (replicate 5 ?l) (lb, ph, lb) = ([if level_int ?l = lb then 1 else 0], (level_int ?l, ph', level_int ?l))"
      "ph' < 65536" "if level_int ?l = lb then ph' = ph - 1 else 818 \<le> ph'"
    using slice_bit [OF Cons.prems(2)] by blast
  let ?k = "if b = 1 then k - 1 else 818"
  have "?k \<le> ph'" using f(3) Cons.prems(1) unfolding l(2) by (auto split: if_splits)
  moreover have "calm ?k bs" using Cons.prems(3) by (simp split: if_splits)
  moreover have "level_int ?l \<in> {0, 1}" by (simp add: level_int_def)
  ultimately obtain q where q: "slice (concat (map (replicate 5) (nrzi_levels (level_int ?l) bs))) (level_int ?l, ph', level_int ?l)
      = (bs, (end_level (level_int ?l) bs, q, end_level (level_int ?l) bs))" "q < 65536"
    using Cons.IH [OF _ f(2), of ?k "level_int ?l"] Cons.prems(4) by auto
  have "(if level_int ?l = lb then 1 else 0 :: u8) = b" using l(2) b by auto
  moreover have "end_level lb (b # bs) = end_level (level_int ?l) bs" by (simp add: end_level_def l(1))
  ultimately show ?case using f(1) q by (simp add: Let_def slice_append)
qed (simp add: end_level_def)

text \<open>A constant level is a run of ones, however long and at whatever phase.\<close>

lemma slice_idle:
  "ph < 65536 \<Longrightarrow> \<exists>k ph'. slice (replicate n l) (level_int l, ph, level_int l) = (replicate k 1, (level_int l, ph', level_int l)) \<and> ph' < 65536"
proof (induction n arbitrary: ph)
  case 0
  then show ?case by (intro exI [of _ 0] exI [of _ ph]) simp
next
  case (Suc n)
  have st: "phase_step l (level_int l) ph = ph + 13107" by (simp add: phase_step.simps level_int_def)
  have c: "(if l then 1 else 0) = level_int l" by (simp add: level_int_def)
  show ?case
  proof (cases "ph + 13107 > 65535")
    case True
    have "ph + 13107 - 65536 < 65536" using Suc.prems by simp
    from Suc.IH [OF this] obtain k ph' where
      "slice (replicate n l) (level_int l, ph + 13107 - 65536, level_int l) = (replicate k 1, (level_int l, ph', level_int l))" "ph' < 65536"
      by blast
    then show ?thesis using True by (intro exI [of _ "Suc k"] exI [of _ ph']) (simp add: st c Let_def)
  next
    case False
    then have "ph + 13107 < 65536" by simp
    from Suc.IH [OF this] obtain k ph' where
      "slice (replicate n l) (level_int l, ph + 13107, level_int l) = (replicate k 1, (level_int l, ph', level_int l))" "ph' < 65536"
      by blast
    then show ?thesis using False by (intro exI [of _ k] exI [of _ ph']) (simp add: st c Let_def)
  qed
qed

text \<open>
  The sent signal: a number of samples of an idle line and then a frame, at five samples for each bit in the NRZI code, again and again,
  and an idle line at the end.
\<close>

fun keyed_signal :: "int \<Rightarrow> (nat \<times> u8 list) list \<Rightarrow> nat \<Rightarrow> bool list" where
  "keyed_signal lv [] rest = replicate rest (lv = 1)"
| "keyed_signal lv ((n, m) # ms) rest = replicate n (lv = 1) @ concat (map (replicate 5) (nrzi_levels lv (hdlc_frame m)))
     @ keyed_signal (end_level lv (hdlc_frame m)) ms rest"

lemma bits01_stuff: "bits01 bs \<Longrightarrow> bits01 (stuff n bs)"
  by (induction bs arbitrary: n) (auto simp: Let_def)

lemma bits01_hdlc_frame: "bits01 (hdlc_frame m)"
  by (simp add: hdlc_frame_def bits01_stuff training_bits flag_def)

lemma calm_hdlc_frame: "calm 0 (hdlc_frame m)"
  using calm_frame [of "[]"] by (simp add: hdlc_frame_bits)

lemma slice_keyed:
  "ph < 65536 \<Longrightarrow> lv \<in> {0, 1} \<Longrightarrow> \<exists>ks k z. length ks = length ms
    \<and> slice (keyed_signal lv ms rest) (lv, ph, lv) = (concat (map (\<lambda>(k, m). replicate k 1 @ hdlc_frame m) (zip ks (map snd ms))) @ replicate k 1, z)"
proof (induction ms arbitrary: ph lv)
  case Nil
  have "level_int (lv = 1) = lv" using Nil(2) by (auto simp: level_int_def)
  then obtain k z where "slice (replicate rest (lv = 1)) (lv, ph, lv) = (replicate k 1, z)" using slice_idle [OF Nil(1), of rest "lv = 1"] by metis
  then show ?case by (intro exI [of _ "[]"] exI [of _ k] exI [of _ z]) simp
next
  case (Cons f ms)
  obtain n m where f: "f = (n, m)" by (cases f)
  have "level_int (lv = 1) = lv" using Cons.prems(2) by (auto simp: level_int_def)
  then obtain k ph1 where k: "slice (replicate n (lv = 1)) (lv, ph, lv) = (replicate k 1, (lv, ph1, lv))" "ph1 < 65536"
    using slice_idle [OF Cons.prems(1), of n "lv = 1"] by metis
  let ?lv = "end_level lv (hdlc_frame m)"
  obtain ph2 where m: "slice (concat (map (replicate 5) (nrzi_levels lv (hdlc_frame m)))) (lv, ph1, lv) = (hdlc_frame m, (?lv, ph2, ?lv))" "ph2 < 65536"
    using slice_locked [OF _ k(2) calm_hdlc_frame bits01_hdlc_frame Cons.prems(2)] by blast
  obtain ks j z where r: "length ks = length ms"
      "slice (keyed_signal ?lv ms rest) (?lv, ph2, ?lv) = (concat (map (\<lambda>(k, m). replicate k 1 @ hdlc_frame m) (zip ks (map snd ms))) @ replicate j 1, z)"
    using Cons.IH [OF m(2) end_level_01 [OF Cons.prems(2)]] by blast
  show ?case using k(1) m(1) r by (intro exI [of _ "k # ks"] exI [of _ j] exI [of _ z]) (simp add: f slice_append)
qed

text \<open>The filtered signal comes in buffers, and the loop runs on one after the other.\<close>

fun receiver_loops :: "cfloat list list \<Rightarrow> receiver \<Rightarrow> world \<Rightarrow> (receiver \<times> world) option" where
  "receiver_loops [] rx w = Some (rx, w)"
| "receiver_loops (f # fs) rx w = do { (rx, w) \<leftarrow> receiver_loop f (length f) 0 rx w; receiver_loops fs rx w }"

lemma receiver_loops_eq:
  "rx_ok rx \<Longrightarrow> slice (map (\<lambda>x. x > 0) (concat fs)) (rx_state rx) = (bs, z) \<Longrightarrow>
    receiver_loops fs rx w = do { (d, w) \<leftarrow> decode_bits bs (decoder rx) w; Some (rx_set z d rx, w) }"
proof (induction fs arbitrary: rx w bs)
  case Nil
  then show ?case by (auto simp: rx_set_state)
next
  case (Cons f fs)
  obtain xs z1 where s: "slice (map (\<lambda>x. x > 0) f) (rx_state rx) = (xs, z1)" by (rule prod.exhaust)
  obtain ys where ys: "slice (map (\<lambda>x. x > 0) (concat fs)) z1 = (ys, z)" "bs = xs @ ys"
    using Cons.prems(2) s by (auto simp: slice_append Let_def split_beta prod_eq_iff)
  have z1: "slice_ok z1" using slice_ok_run [OF rx_state_ok [OF Cons.prems(1)], of "map (\<lambda>x. x > 0) f"] s by simp
  have l: "receiver_loop f (length f) 0 rx w = do { (d, w) \<leftarrow> decode_bits xs (decoder rx) w; Some (rx_set z1 d rx, w) }"
    using receiver_loop_eq [OF Cons.prems(1), of 0 "length f" f xs z1 w] s by simp
  have "receiver_loops fs (rx_set z1 d rx) v = do { (d, w) \<leftarrow> decode_bits ys d v; Some (rx_set z d rx, w) }" for d v
    using Cons.IH [of "rx_set z1 d rx" ys v] rx_set_ok [OF Cons.prems(1) z1, of d] ys(1) by simp
  then show ?case by (simp add: l ys(2) decode_bits_append split_def)
qed

text \<open>
  C4. From the filtered signal to the cache. A fresh channel hears any sequence of frames of 1 to 53 bytes in the NRZI code at five
  samples per bit, each after any number of samples of an idle line, so that it begins at any phase of the loop, and with any number of
  such samples at the end, cut in any way into the buffers on which the loop of \<^verbatim>\<open>receiver_run\<close> runs one after the other. It
  counts all the frames and none as lost, and the cache gets exactly the updates of their messages: the phase locked loop locks on the
  first change of level and stays in the middle of every bit, however long the signal and whatever the data, since stuffing never lets it
  run for long without a change.
\<close>

theorem keyed_frames_received:
  assumes "init_receiver mem nm nch ofs ser ip = Some rx" "env_ok w" "\<forall>(n, m) \<in> set ms. m \<noteq> [] \<and> length m \<le> 53"
    and "cache_positions (w_cache w) \<noteq> 0" "cache_rep (w_cache w) M"
    and "map (\<lambda>x. x > 0) (concat fs) = keyed_signal 0 ms rest"
  shows "\<exists>rx' w'. receiver_loops fs rx w = Some (rx', w')
    \<and> receivedframes (decoder rx') = wrap32 (int (length ms)) \<and> lostframes (decoder rx') = 0 \<and> lostframes2 (decoder rx') = 0
    \<and> cache_rep (w_cache w') (foldl apply_op M (stream_ops (skip_type w) (w_clock w) (w_tick w) (map snd ms)))"
proof -
  have rx: "rx_ok rx" "rx_state rx = (0, 0, 0)" "decoder rx = protodec_initialize mem ser ip nm"
    using init_receiver_ok [of mem nm nch ofs ser ip] assms(1) by (auto simp: receiver_ok_def)
  obtain ks k z where s: "length ks = length ms"
      "slice (keyed_signal 0 ms rest) (0, 0, 0) = (concat (map (\<lambda>(k, m). replicate k 1 @ hdlc_frame m) (zip ks (map snd ms))) @ replicate k 1, z)"
    using slice_keyed [of 0 0 ms rest] by auto
  let ?ms = "zip ks (map snd ms)"
  have "\<forall>(k, m) \<in> set ?ms. m \<noteq> [] \<and> length m \<le> 53" using assms(3) by (fastforce dest: set_zip_rightD)
  note decode_idle_stream [OF initialize_ready assms(2) this assms(4,5), of mem ser ip nm]
  then obtain d1 w1 where d1: "decode_bits (concat (map (\<lambda>(k, m). replicate k 1 @ hdlc_frame m) ?ms)) (decoder rx) w = Some (d1, w1)" "ready d1"
      "receivedframes d1 = counted 0 ?ms" "lostframes d1 = 0" "lostframes2 d1 = 0"
      "cache_rep (w_cache w1) (foldl apply_op M (stream_ops (skip_type w) (w_clock w) (w_tick w) (map snd ms)))"
    unfolding initialize_counts rx(3) using s(1) by auto
  obtain d2 where d2: "decode_bits (replicate k 1) d1 w1 = Some (d2, w1)" "same_session d1 d2"
    using idle_run [OF d1(2)] by blast
  have "counted 0 ?ms = wrap32 (int (length ms))" using foldl_wrap [of 0 ?ms] s(1) by simp
  moreover have "receiver_loops fs rx w = Some (rx_set z d2 rx, w1)"
    using receiver_loops_eq [OF rx(1), of fs _ z w] assms(6) rx(2) s(2) decode_bits_after [OF d1(1)] d2(1) by simp
  ultimately show ?thesis using d1(3-6) d2(2) by (auto simp: same_session_def)
qed

text \<open>Two frames with gaps, received in two buffers that are cut in the first frame.\<close>

definition keyed_sample :: "cfloat list" where
  "keyed_sample = map (\<lambda>l. if l then 1 else - 1 / 2) (keyed_signal 0 [(7, [0x20, 1, 2]), (1001, [0xff])] 12)"

theorem keyed_frames_received_witness:
  "\<exists>rx rx' w'. init_receiver (\<lambda>_ _. 9) 65 1 0 False False = Some rx
    \<and> receiver_loops [take 200 keyed_sample, drop 200 keyed_sample] rx idle_world = Some (rx', w')
    \<and> receivedframes (decoder rx') = 2 \<and> lostframes (decoder rx') = 0"
proof -
  let ?ms = "[(7, [0x20, 1, 2]), (1001, [0xff :: u8])]"
  obtain rx where rx: "init_receiver (\<lambda>_ _. 9) 65 1 0 False False = Some rx" using init_receiver_ok by blast
  have p: "cache_positions (w_cache idle_world) \<noteq> 0" by (simp add: idle_world_def cache_init_def)
  then obtain M where M: "cache_rep (w_cache idle_world) M" using idle_world_ok by (auto simp: world_ok_def)
  have ms: "\<forall>(n, m) \<in> set ?ms. m \<noteq> [] \<and> length m \<le> 53" by simp
  have "map (\<lambda>x. x > 0) (map (\<lambda>l. if l then 1 else - 1 / 2 :: cfloat) ls) = ls" for ls by (induction ls) simp_all
  then have lv: "map (\<lambda>x. x > 0) (concat [take 200 keyed_sample, drop 200 keyed_sample]) = keyed_signal 0 ?ms 12"
    by (simp add: keyed_sample_def del: map_map keyed_signal.simps)
  from keyed_frames_received [OF rx idle_env_ok ms p M lv] rx show ?thesis by (auto simp: wrap32_def)
qed

end
