(* ===== verification/Decoder_Core.thy ===== *)
theory Decoder_Core
  imports Receiver
begin

text \<open>
  What the decoder makes of its bits does not depend on the rest of the process. The state machine, the message buffers and the counters
  are the same whatever the clock, the cache and the log look like: two channels of one process do not disturb each other.
\<close>

section \<open>The decoder does not depend on the rest of the process\<close>

text \<open>
  A channel without what it only reports with: output buffers, sequence number, range. \<open>put_reports x d\<close> is \<open>d\<close> with those fields of \<open>x\<close>.
\<close>

definition core :: "demod_state \<Rightarrow> demod_state" where
  "core d = d\<lparr>nmea := [], serbuffer := [], ipcbuffer := [], seqnr := 0, best_range := 0\<rparr>"

definition put_reports :: "demod_state \<Rightarrow> demod_state \<Rightarrow> demod_state" where
  "put_reports x d = d\<lparr>nmea := nmea x, serbuffer := serbuffer x, ipcbuffer := ipcbuffer x, seqnr := seqnr x, best_range := best_range x\<rparr>"

lemma core_eq_put: "core d = core d' \<Longrightarrow> d' = put_reports d' d"
  by (cases d; cases d') (simp add: core_def put_reports_def)

lemma core_put [simp]: "core (put_reports x d) = core d"
  by (simp add: core_def put_reports_def)

lemma put_simps [simp]:
  "dstate (put_reports x d) = dstate d" "bufferpos (put_reports x d) = bufferpos d" "buffer (put_reports x d) = buffer d"
  "receivedframes (put_reports x d) = receivedframes d" "lostframes (put_reports x d) = lostframes d" "lostframes2 (put_reports x d) = lostframes2 d"
  by (simp_all add: put_reports_def Let_def)

lemma put_dlast: "(put_reports x d)\<lparr>dlast := b\<rparr> = put_reports x (d\<lparr>dlast := b\<rparr>)"
  by (simp add: put_reports_def)

lemma put_reset: "protodec_reset (put_reports x d) = put_reports x (protodec_reset d)"
  by (simp add: put_reports_def protodec_reset_def)

lemma step_skurr_put: "step_skurr b (put_reports x d) = put_reports x (step_skurr b d)"
  by (simp add: step_skurr_def Let_def put_reports_def)

lemma step_preamble_put: "step_preamble b (put_reports x d) = put_reports x (step_preamble b d)"
proof -
  have p: "nstartsign (put_reports x d) = nstartsign d" "dlast (put_reports x d) = dlast d" by (simp_all add: put_reports_def Let_def)
  have u: "(put_reports x e)\<lparr>npreamble := wrap32 (npreamble (put_reports x e) + 1)\<rparr> = put_reports x (e\<lparr>npreamble := wrap32 (npreamble e + 1)\<rparr>)" for e
    by (simp add: put_reports_def)
  consider "b \<noteq> dlast d" "nstartsign d = 0" | "b = dlast d \<or> nstartsign d \<noteq> 0" by blast
  then show ?thesis
  proof cases
    case 2
    then show ?thesis
      by (cases "b = 1"; cases "nstartsign d = 0"; cases "nstartsign d = 5")
         (simp_all add: step_preamble_def p put_reset u, simp_all add: put_reports_def Let_def)
  qed (simp add: step_preamble_def put_reports_def)
qed

lemma step_startsign_put: "step_startsign b (put_reports x d) = map_option (put_reports x) (step_startsign b d)"
  by (auto simp: step_startsign_def put_reports_def protodec_reset_def split: Option.bind_splits)

text \<open>The two halves of a data bit: the count of ones, and the store.\<close>

definition ones_counted :: "u8 \<Rightarrow> demod_state \<Rightarrow> demod_state" where
  "ones_counted b d = (if b = dlast d \<and> b = 1
     then (if wrap32 (antallenner d + 1) = 4 then d\<lparr>bitstuff := 1, antallenner := 0\<rparr> else d\<lparr>antallenner := wrap32 (antallenner d + 1)\<rparr>)
     else d\<lparr>antallenner := 0\<rparr>)"

definition bit_stored :: "u8 \<Rightarrow> demod_state \<Rightarrow> demod_state option" where
  "bit_stored b d = do {
     buf \<leftarrow> arr_set (buffer d) (bufferpos d) b;
     let d = d\<lparr>buffer := buf, bufferpos := bufferpos d + 1, ndata := wrap32 (ndata d + 1)\<rparr>;
     Some (if bufferpos d \<ge> 449 then protodec_reset d else d)
   }"

lemma step_data_halves:
  "step_data b d = (if bitstuff d \<noteq> 0 then
       Some (if b = 1 then d\<lparr>dstate := ST_STOPSIGN, ndata := 0, bitstuff := 0\<rparr> else d\<lparr>ndata := wrap32 (ndata d + 1), dlast := b, bitstuff := 0\<rparr>)
     else bit_stored b (ones_counted b d))"
proof -
  have "(if b = dlast d \<and> b = 1 then let d = d\<lparr>antallenner := wrap32 (antallenner d + 1)\<rparr>
      in if antallenner d = 4 then d\<lparr>bitstuff := 1, antallenner := 0\<rparr> else d else d\<lparr>antallenner := 0\<rparr>) = ones_counted b d"
    unfolding ones_counted_def Let_def by (intro if_cong refl) (cases d; simp)+
  then show ?thesis unfolding step_data_def bit_stored_def by (simp only: Let_def)
qed

lemma ones_counted_put: "ones_counted b (put_reports x d) = put_reports x (ones_counted b d)"
proof -
  have "dlast (put_reports x d) = dlast d" "antallenner (put_reports x d) = antallenner d" by (simp_all add: put_reports_def Let_def)
  then show ?thesis by (cases "b = dlast d \<and> b = 1") (simp_all only: ones_counted_def if_True if_False, simp_all add: put_reports_def Let_def)
qed

lemma bit_stored_put: "bit_stored b (put_reports x d) = map_option (put_reports x) (bit_stored b d)"
  by (cases "arr_set (buffer d) (bufferpos d) b") (simp_all add: bit_stored_def Let_def put_reports_def protodec_reset_def)

lemma step_data_put: "step_data b (put_reports x d) = map_option (put_reports x) (step_data b d)"
proof -
  have "bitstuff (put_reports x d) = bitstuff d" by (simp add: put_reports_def)
  then show ?thesis by (simp add: step_data_halves ones_counted_put bit_stored_put) (simp add: put_reports_def)
qed

lemma core_report: "same_but_report d d' \<Longrightarrow> core d' = core d"
  by (auto simp: same_but_report_def core_def)

lemma core_reset: "core (protodec_reset d) = protodec_reset (core d)"
  by (simp add: core_def protodec_reset_def)


lemma step_stopsign_core:
  assumes "demod_ok d" "env_ok w" "step_stopsign b d w = Some (d1, w1)"
    and "demod_ok d'" "env_ok w'" "step_stopsign b d' w' = Some (d1', w1')" "core d = core d'"
  shows "core d1 = core d1'"
proof -
  define x where "x = d'"
  have d': "d' = put_reports x d" using core_eq_put [OF assms(7)] by (simp add: x_def)
  have b: "bufferpos d' = bufferpos d" "buffer d' = buffer d" by (simp_all add: d')
  have upd: "core (d'\<lparr>rbuffer := r, receivedframes := wrap32 (receivedframes d' + 1)\<rparr>) = core (d\<lparr>rbuffer := r, receivedframes := wrap32 (receivedframes d + 1)\<rparr>)"
    "core (d'\<lparr>rbuffer := r, lostframes := wrap32 (lostframes d' + 1)\<rparr>) = core (d\<lparr>rbuffer := r, lostframes := wrap32 (lostframes d + 1)\<rparr>)"
    "core (d'\<lparr>lostframes2 := wrap32 (lostframes2 d' + 1)\<rparr>) = core (d\<lparr>lostframes2 := wrap32 (lostframes2 d + 1)\<rparr>)" for r
    by (simp_all add: d' core_def put_reports_def)
  show ?thesis
  proof (cases "b = 0 \<and> 22 < bufferpos d")
    case True
    then have p: "22 < bufferpos d" "22 < bufferpos d'" by (simp_all add: b)
    note s = stopsign_frame [OF assms(1,2) p(1)] and s' = stopsign_frame [OF assms(4,5) p(2), unfolded b]
    show ?thesis
      using s s' assms(3,6) True upd by (auto simp: core_reset dest!: core_report split: if_splits)
  next
    case False
    then have "step_stopsign b d w = Some (protodec_reset (d\<lparr>lostframes2 := wrap32 (lostframes2 d + 1)\<rparr>), w)"
        "step_stopsign b d' w' = Some (protodec_reset (d'\<lparr>lostframes2 := wrap32 (lostframes2 d' + 1)\<rparr>), w')"
      by (auto simp: step_stopsign_def Let_def b)
    then show ?thesis using assms(3,6) upd by (simp add: core_reset)
  qed
qed

lemma decode_bit_core:
  assumes "demod_ok d" "env_ok w" "decode_bit b d w = Some (d1, w1)"
    and "demod_ok d'" "env_ok w'" "decode_bit b d' w' = Some (d1', w1')" "core d = core d'"
  shows "core d1 = core d1'"
proof -
  define x where "x = d'"
  have d': "d' = put_reports x d" using core_eq_put [OF assms(7)] by (simp add: x_def)
  have dl: "core (e\<lparr>dlast := b\<rparr>) = (core e)\<lparr>dlast := b\<rparr>" for e by (simp add: core_def)
  show ?thesis
  proof (cases "dstate d = ST_STOPSIGN")
    case True
    then have "dstate d' = ST_STOPSIGN" by (simp add: d')
    then obtain e v e' v' where s: "step_stopsign b d w = Some (e, v)" "d1 = e\<lparr>dlast := b\<rparr>"
        "step_stopsign b d' w' = Some (e', v')" "d1' = e'\<lparr>dlast := b\<rparr>"
      using True assms(3,6) by (auto simp: decode_bit_def bind_eq_Some_conv)
    have "core e = core e'" by (rule step_stopsign_core [OF assms(1,2) s(1) assms(4,5) s(3) assms(7)])
    then show ?thesis by (simp add: s dl)
  next
    case False
    then show ?thesis using assms(3,6) unfolding d'
      by (cases "dstate d") (auto simp: decode_bit_def bind_eq_Some_conv step_data_put step_skurr_put step_preamble_put step_startsign_put dl)
  qed
qed

lemma decode_bits_core:
  assumes "demod_ok d" "env_ok w" "decode_bits bs d w = Some (d1, w1)"
    and "demod_ok d'" "env_ok w'" "decode_bits bs d' w' = Some (d1', w1')" "core d = core d'"
  shows "core d1 = core d1'"
  using assms
proof (induction bs arbitrary: d w d' w')
  case (Cons b bs)
  obtain e v where e: "decode_bit b d w = Some (e, v)" "demod_ok e" "env_ok v" using decode_bit_ok Cons.prems(1,2) by blast
  obtain e' v' where e': "decode_bit b d' w' = Some (e', v')" "demod_ok e'" "env_ok v'" using decode_bit_ok Cons.prems(4,5) by blast
  have "core e = core e'" using decode_bit_core [OF Cons.prems(1,2) e(1) Cons.prems(4,5) e'(1) Cons.prems(7)] .
  then show ?case using Cons.IH [OF e(2,3) _ e'(2,3)] Cons.prems(3,6) e(1) e'(1) by simp
qed simp

end
