(* ===== verification/Cfgfile.thy ===== *)
theory Cfgfile
  imports Prelude CFloat
begin

text \<open>
  cfgfile.c: the lines of a configuration file are split into arguments in place, the first argument
  selects a directive from a table, and the file is looked for in several places.

  A C string is a \<^typ>\<open>string\<close> without NUL; the line buffer, which the splitter overwrites, is the
  list of all its characters with explicit NULs, and a pointer into it is an index.
\<close>

section \<open>C characters and strings\<close>

abbreviation NUL :: char where "NUL \<equiv> CHR 0x00"

definition c_isspace :: "char \<Rightarrow> bool" where
  "c_isspace c \<longleftrightarrow> c \<in> {CHR '' '', CHR 0x09, CHR 0x0A, CHR 0x0B, CHR 0x0C, CHR 0x0D}"

definition c_isdigit :: "char \<Rightarrow> bool" where
  "c_isdigit c \<longleftrightarrow> 48 \<le> (of_char c :: nat) \<and> (of_char c :: nat) \<le> 57"

definition c_tolower :: "char \<Rightarrow> char" where
  "c_tolower c = (if 65 \<le> (of_char c :: nat) \<and> (of_char c :: nat) \<le> 90 then char_of (of_char c + 32 :: nat) else c)"

definition c_toupper :: "char \<Rightarrow> char" where
  "c_toupper c = (if 97 \<le> (of_char c :: nat) \<and> (of_char c :: nat) \<le> 122 then char_of (of_char c - 32 :: nat) else c)"

text \<open>The string at a position of a buffer; none if the buffer ends without NUL.\<close>

definition cstring :: "char list \<Rightarrow> nat \<Rightarrow> string option" where
  "cstring buf p = (if NUL \<in> set (drop p buf) then Some (takeWhile (\<lambda>c. c \<noteq> NUL) (drop p buf)) else None)"

fun strcasecmp_eq :: "string \<Rightarrow> string \<Rightarrow> bool" where
  "strcasecmp_eq s t \<longleftrightarrow> map c_tolower s = map c_tolower t"

text \<open>\<^verbatim>\<open>strncasecmp (s, t, n) == 0\<close>: at most \<open>n\<close> characters are compared, up to and including the NUL.\<close>

fun strncasecmp_eq :: "string \<Rightarrow> string \<Rightarrow> nat \<Rightarrow> bool" where
  "strncasecmp_eq s t n \<longleftrightarrow> map c_tolower (take n (s @ [NUL])) = map c_tolower (take n (t @ [NUL]))"

declare strcasecmp_eq.simps [simp del] strncasecmp_eq.simps [simp del]

definition digit_value :: "char \<Rightarrow> nat" where
  "digit_value c = (let n = of_char c :: nat in
     if 48 \<le> n \<and> n \<le> 57 then n - 48 else if 97 \<le> n \<and> n \<le> 122 then n - 87 else if 65 \<le> n \<and> n \<le> 90 then n - 55 else 36)"

text \<open>The digits of a number in the given base, read until the first character that is none.\<close>

fun scan_digits :: "nat \<Rightarrow> nat \<Rightarrow> string \<Rightarrow> nat \<times> nat" where
  "scan_digits base acc [] = (acc, 0)"
| "scan_digits base acc (c # cs) =
     (if digit_value c < base then let (v, n) = scan_digits base (acc * base + digit_value c) cs in (v, Suc n) else (acc, 0))"

text \<open>
  \<^verbatim>\<open>strtoul\<close> on a C string: the value and the number of characters that were read. White space, a sign and the
  prefix of a hexadecimal number may come before the digits; without a digit nothing is read.
  Too large numbers give \<^verbatim>\<open>ULONG_MAX\<close>, a minus sign negates modulo $2^{64}$.
\<close>

definition sign_start :: "string \<Rightarrow> nat" where
  "sign_start s = length (takeWhile c_isspace s)"

definition digits_start :: "string \<Rightarrow> nat \<Rightarrow> nat" where
  "digits_start s base =
     (let w = sign_start s;
          g = (if w < length s \<and> (s ! w = CHR ''-'' \<or> s ! w = CHR ''+'') then w + 1 else w)
      in if base = 16 \<and> g + 2 < length s \<and> s ! g = CHR ''0'' \<and> (s ! (g + 1) = CHR ''x'' \<or> s ! (g + 1) = CHR ''X'')
           \<and> digit_value (s ! (g + 2)) < 16 then g + 2 else g)"

definition strtoul :: "string \<Rightarrow> nat \<Rightarrow> nat \<times> nat" where
  "strtoul s base =
     (let x = digits_start s base; neg = (sign_start s < length s \<and> s ! sign_start s = CHR ''-'');
          (v, n) = scan_digits base 0 (drop x s)
      in if n = 0 then (0, 0)
         else (if v \<ge> 2 ^ 64 then 2 ^ 64 - 1 else if neg then (2 ^ 64 - v) mod 2 ^ 64 else v, x + n))"

text \<open>\<^verbatim>\<open>atoi\<close>; a number that is no \<^verbatim>\<open>int\<close> is undefined behaviour.\<close>

definition atoi :: "string \<Rightarrow> int option" where
  "atoi s =
     (let s = dropWhile c_isspace s;
          neg = (s \<noteq> [] \<and> List.hd s = CHR ''-'');
          ds = (if s \<noteq> [] \<and> (List.hd s = CHR ''-'' \<or> List.hd s = CHR ''+'') then tl s else s);
          v = int (fst (scan_digits 10 0 ds));
          v = (if neg then - v else v)
      in if - (2 ^ 31) \<le> v \<and> v < 2 ^ 31 then Some v else None)"

section \<open>Numbers and case\<close>

text \<open>\<^verbatim>\<open>hatoll\<close>; signed overflow is undefined.\<close>

fun hatoll_loop :: "int \<Rightarrow> string \<Rightarrow> int option" where
  "hatoll_loop res [] = Some res"
| "hatoll_loop res (c # s) =
     (if c_isdigit c then
        let res = res * 10 + (of_char c - 48) in if res < 2 ^ 63 then hatoll_loop res s else None
      else Some res)"

definition hatoll :: "string \<Rightarrow> int option" where
  "hatoll s = hatoll_loop 0 s"

text \<open>Lower case in place, from a position to the NUL.\<close>

function strlwr :: "char list \<Rightarrow> nat \<Rightarrow> char list option" where
  "strlwr buf c =
     (if c < length buf then
        if buf ! c = NUL then Some buf else strlwr (buf[c := c_tolower (buf ! c)]) (c + 1)
      else None)"
  by auto
termination by (relation "measure (\<lambda>(buf, c). length buf - c)") auto

declare strlwr.simps [simp del]

section \<open>Quoted arguments\<close>

text \<open>
  The escapes of \<^verbatim>\<open>parse_string\<close>: for the character after the backslash, what is written and whether a number is read.
\<close>

definition plain_escape :: "char \<Rightarrow> char" where
  "plain_escape c =
     (if c = CHR ''n'' then CHR 0x0A else if c = CHR ''t'' then CHR 0x09 else if c = CHR ''v'' then CHR 0x0B
      else if c = CHR ''b'' then CHR 0x08 else if c = CHR ''r'' then CHR 0x0D else if c = CHR ''f'' then CHR 0x0C
      else if c = CHR ''a'' then CHR 0x07 else c)"

definition number_base :: "char \<Rightarrow> nat option" where
  "number_base c = (if c = CHR ''x'' then Some 16 else if c \<in> set ''01234567'' then Some 8 else None)"

text \<open>
  \<^verbatim>\<open>parse_string\<close>: read position \<open>str\<close>, write position \<open>cp\<close>, both in the buffer. The result is the position
  after the closing quote, or the null pointer when the line ends after a backslash.
\<close>

function parse_string_loop :: "char list \<Rightarrow> nat \<Rightarrow> nat \<Rightarrow> (nat option \<times> char list) option" where
  "parse_string_loop buf str cp =
     (if str < length buf then
        if buf ! str \<noteq> NUL \<and> buf ! str \<noteq> CHR 0x22 then
          if buf ! str = CHR 0x5C then do {
            c \<leftarrow> arr_get buf (str + 1);
            if c = NUL then Some (None, buf)
            else case number_base c of
              Some base \<Rightarrow> do {
                s \<leftarrow> cstring buf (str + 1);
                let (num, n) = strtoul s base;
                buf \<leftarrow> arr_set buf cp (char_of num);
                parse_string_loop buf (str + 1 + n) (cp + 1)
              }
            | None \<Rightarrow> do {
                buf \<leftarrow> arr_set buf cp (plain_escape c);
                parse_string_loop buf (str + 2) (cp + 1)
              }
          } else do {
            buf \<leftarrow> arr_set buf cp (buf ! str);
            parse_string_loop buf (str + 1) (cp + 1)
          }
        else do {
          let str = (if buf ! str = CHR 0x22 then str + 1 else str);
          buf \<leftarrow> arr_set buf cp NUL;
          Some (Some str, buf)
        }
      else None)"
  by auto
termination by (relation "measure (\<lambda>(buf, str, cp). length buf - str)") (auto simp: arr_set_def split: if_splits)

declare parse_string_loop.simps [simp del]

definition parse_string :: "char list \<Rightarrow> nat \<Rightarrow> (nat option \<times> char list) option" where
  "parse_string buf str = parse_string_loop buf str str"

section \<open>Splitting a line\<close>

text \<open>The first position from \<open>cmd\<close> on that holds NUL or a (or no) space.\<close>

function skip_while :: "(char \<Rightarrow> bool) \<Rightarrow> char list \<Rightarrow> nat \<Rightarrow> nat option" where
  "skip_while P buf cmd =
     (if cmd < length buf then
        if buf ! cmd \<noteq> NUL \<and> P (buf ! cmd) then skip_while P buf (cmd + 1) else Some cmd
      else None)"
  by auto
termination by (relation "measure (\<lambda>(P, buf, cmd). length buf - cmd)") auto

declare skip_while.simps [simp del]

text \<open>
  One argument, at \<open>cmd\<close>: its position, and the position behind it, which is null when a quoted argument is
  cut off. The character that follows the argument is overwritten with NUL.
\<close>

definition one_arg :: "char list \<Rightarrow> nat \<Rightarrow> (nat \<times> nat option \<times> char list) option" where
  "one_arg buf cmd = do {
     c \<leftarrow> arr_get buf cmd;
     let quoted = (c = CHR 0x22);
     let cmd = (if quoted then cmd + 1 else cmd);
     (r, buf) \<leftarrow> (if quoted then parse_string buf cmd
                  else do { e \<leftarrow> skip_while (\<lambda>c. \<not> c_isspace c) buf cmd; Some (Some e, buf) });
     case r of
       None \<Rightarrow> Some (cmd, None, buf)
     | Some e \<Rightarrow> do {
         c \<leftarrow> arr_get buf e;
         if c \<noteq> NUL then Some (cmd, Some (e + 1), buf[e := NUL]) else Some (cmd, Some e, buf)
       }
   }"

text \<open>
  \<^verbatim>\<open>parse_args\<close>: the positions of the arguments, at most 255; the line itself now holds them as C
  strings. (The C function also writes a null pointer after the last one; the array has 256 entries.)
\<close>

function parse_args_loop :: "nat list \<Rightarrow> char list \<Rightarrow> nat \<Rightarrow> (nat list \<times> char list) option" where
  "parse_args_loop argv buf cmd =
     (if length argv < 255 then do {
        cmd \<leftarrow> skip_while c_isspace buf cmd;
        c \<leftarrow> arr_get buf cmd;
        if c = NUL then Some (argv, buf)
        else do {
          (a, r, buf) \<leftarrow> one_arg buf cmd;
          case r of
            None \<Rightarrow> Some ([], buf)
          | Some cmd \<Rightarrow> parse_args_loop (argv @ [a]) buf cmd
        }
      } else Some (argv, buf))"
  by pat_completeness auto
termination by (relation "measure (\<lambda>(argv, buf, cmd). 255 - length argv)") auto

declare parse_args_loop.simps [simp del]

definition parse_args :: "char list \<Rightarrow> (nat list \<times> char list) option" where
  "parse_args buf = parse_args_loop [] buf 0"

text \<open>\<^verbatim>\<open>argstr\<close>: the arguments from \<open>arg\<close> on, joined by spaces in a buffer of \<^verbatim>\<open>CFGLINE_LEN\<close> bytes.\<close>

definition CFGLINE_LEN :: nat where "CFGLINE_LEN = 102400"

definition strncat :: "string \<Rightarrow> string \<Rightarrow> nat \<Rightarrow> string" where
  "strncat s t n = s @ take n t"

fun argstr_loop :: "string \<Rightarrow> string list \<Rightarrow> string" where
  "argstr_loop s [] = s"
| "argstr_loop s (a # argv) =
     (let s = strncat s a (CFGLINE_LEN - length s - 1);
          s = strncat s '' '' (CFGLINE_LEN - length s - 1)
      in argstr_loop s argv)"

definition argstr :: "nat \<Rightarrow> string list \<Rightarrow> string" where
  "argstr arg argv = (let s = argstr_loop [] (drop arg argv) in if length s > 0 then butlast s else s)"

section \<open>What the splitter computes\<close>

text \<open>
  The contents of a quoted argument, up to the closing quote or the end of the line, and the rest of
  the line; none if the line ends after a backslash.
\<close>

function unquote :: "string \<Rightarrow> (string \<times> string) option" where
  "unquote [] = Some ([], [])"
| "unquote (c # s) =
     (if c = CHR 0x22 then Some ([], s)
      else if c = CHR 0x5C then
        (case s of [] \<Rightarrow> None
         | e # s' \<Rightarrow> (case number_base e of
             Some b \<Rightarrow> do { (v, r) \<leftarrow> unquote (drop (snd (strtoul s b)) s); Some (char_of (fst (strtoul s b)) # v, r) }
           | None \<Rightarrow> do { (v, r) \<leftarrow> unquote s'; Some (plain_escape e # v, r) }))
      else do { (v, r) \<leftarrow> unquote s; Some (c # v, r) })"
  by pat_completeness auto
termination by (relation "measure length") (auto simp: less_Suc_eq_le)

text \<open>The value of the first argument of a line that starts with one, and the rest of the line.\<close>

definition first_token :: "string \<Rightarrow> (string \<times> string) option" where
  "first_token s =
     (if List.hd s = CHR 0x22 then do { (v, r) \<leftarrow> unquote (tl s); Some (takeWhile (\<lambda>c. c \<noteq> NUL) v, drop 1 r) }
      else Some (takeWhile (\<lambda>c. \<not> c_isspace c) s, drop 1 (dropWhile (\<lambda>c. \<not> c_isspace c) s)))"

text \<open>At most \<open>n\<close> arguments of a line.\<close>

fun tokens :: "nat \<Rightarrow> string \<Rightarrow> string list option" where
  "tokens 0 s = Some []"
| "tokens (Suc n) s =
     (if dropWhile c_isspace s = [] then Some []
      else do { (t, r) \<leftarrow> first_token (dropWhile c_isspace s); ts \<leftarrow> tokens n r; Some (t # ts) })"

text \<open>What is left of a buffer from a position on.\<close>

definition holds :: "char list \<Rightarrow> nat \<Rightarrow> string \<Rightarrow> char list \<Rightarrow> bool" where
  "holds buf p s junk \<longleftrightarrow> drop p buf = s @ NUL # junk \<and> NUL \<notin> set s"

lemma holds_length: "holds buf p s junk \<Longrightarrow> p + length s < length buf"
proof -
  assume "holds buf p s junk"
  then have "length (drop p buf) = length (s @ NUL # junk)" by (simp add: holds_def)
  then show ?thesis by simp
qed

lemma holds_Cons:
  assumes "holds buf p (c # s) junk"
  shows "p < length buf \<and> buf ! p = c \<and> c \<noteq> NUL \<and> holds buf (p + 1) s junk"
proof -
  have p: "p < length buf" using holds_length [OF assms] by simp
  then have "buf ! p # drop (Suc p) buf = c # s @ NUL # junk"
    using assms by (simp add: holds_def Cons_nth_drop_Suc)
  then show ?thesis using p assms by (auto simp: holds_def)
qed

lemma holds_Nil: "holds buf p [] junk \<Longrightarrow> p < length buf \<and> buf ! p = NUL"
  using holds_length [of buf p "[]" junk] by (auto simp: holds_def dest: arg_cong [where f = "List.hd"] simp: hd_drop_conv_nth)

lemma holds_drop: "holds buf p s junk \<Longrightarrow> n \<le> length s \<Longrightarrow> holds buf (p + n) (drop n s) junk"
  by (auto simp: holds_def add.commute [of p] drop_drop [symmetric] simp del: drop_drop dest: in_set_dropD)

lemma holds_cstring: "holds buf p s junk \<Longrightarrow> cstring buf p = Some s"
  by (auto simp: holds_def cstring_def takeWhile_append)

lemma holds_update: "holds buf p s junk \<Longrightarrow> q < p \<Longrightarrow> holds (buf[q := x]) p s junk"
  by (simp add: holds_def)

lemma skip_while_holds:
  "holds buf p s junk \<Longrightarrow> skip_while P buf p = Some (p + length (takeWhile P s))"
proof (induction s arbitrary: p)
  case Nil
  then show ?case using holds_Nil [OF Nil] by (subst skip_while.simps) simp
next
  case (Cons c s)
  then show ?case using holds_Cons [OF Cons.prems] by (subst skip_while.simps) auto
qed

text \<open>
  The in-place unquoting. The write position never overtakes the read position, so that what is
  still to be read is intact; the value ends before the position that is returned.
\<close>

lemma take_update: "cp < length buf \<Longrightarrow> take (Suc cp) (buf[cp := x]) = take cp buf @ [x]"
  by (simp add: take_Suc_conv_app_nth)

lemma scan_digits_le: "snd (scan_digits b a s) \<le> length s"
  by (induction b a s rule: scan_digits.induct) (auto simp: split_beta)

lemma strtoul_le: "snd (strtoul s b) \<le> length s"
proof -
  obtain v n where vn: "scan_digits b 0 (drop (digits_start s b) s) = (v, n)" by (rule prod.exhaust)
  then have "n \<le> length s - digits_start s b" using scan_digits_le [of b 0 "drop (digits_start s b) s"] by simp
  moreover have "snd (strtoul s b) = (if n = 0 then 0 else digits_start s b + n)"
    by (simp only: strtoul_def Let_def vn prod.case if_distrib [of snd] snd_conv)
  ultimately show ?thesis by auto
qed

definition unquoted :: "char list \<Rightarrow> nat \<Rightarrow> (string \<times> string) option \<Rightarrow> char list \<Rightarrow> (nat option \<times> char list) option \<Rightarrow> bool" where
  "unquoted buf cp u junk r \<longleftrightarrow>
     (\<exists>q buf'. r = Some (q, buf') \<and> length buf' = length buf \<and> take cp buf' = take cp buf \<and>
       (case u of None \<Rightarrow> q = None
        | Some (v, rest) \<Rightarrow> \<exists>p. q = Some p \<and> holds buf' p rest junk \<and> cp + length v \<le> p \<and> (rest \<noteq> [] \<longrightarrow> cp + length v < p)
            \<and> take (length v + 1) (drop cp buf') = v @ [NUL]))"

lemma unquoted_push:
  assumes "unquoted (buf[cp := x]) (cp + 1) u junk r" "cp < length buf"
  shows "unquoted buf cp (u \<bind> (\<lambda>(v, rest). Some (x # v, rest))) junk r"
proof -
  obtain q buf' where r: "r = Some (q, buf')" "length buf' = length buf" "take (cp + 1) buf' = take (cp + 1) (buf[cp := x])"
    and c: "case u of None \<Rightarrow> q = None
        | Some (v, rest) \<Rightarrow> \<exists>p. q = Some p \<and> holds buf' p rest junk \<and> cp + 1 + length v \<le> p \<and> (rest \<noteq> [] \<longrightarrow> cp + 1 + length v < p)
            \<and> take (length v + 1) (drop (cp + 1) buf') = v @ [NUL]"
    using assms(1) unfolding unquoted_def by auto
  have t: "take cp buf' = take cp buf" using arg_cong [OF r(3), of "take cp"] by (simp add: min_def)
  have "buf' ! cp = x" using arg_cong [OF r(3), of "\<lambda>xs. xs ! cp"] assms(2) by simp
  then have d: "drop cp buf' = x # drop (cp + 1) buf'" using assms(2) r(2) by (simp add: Cons_nth_drop_Suc [symmetric])
  show ?thesis
  proof (cases u)
    case None
    then show ?thesis using r t c by (simp add: unquoted_def)
  next
    case (Some vr)
    then show ?thesis using r t c d by (cases vr) (auto simp: unquoted_def)
  qed
qed

lemma parse_string_loop_ok:
  "holds buf str s junk \<Longrightarrow> cp \<le> str \<Longrightarrow> unquoted buf cp (unquote s) junk (parse_string_loop buf str cp)"
proof (induction s arbitrary: buf str cp rule: unquote.induct)
  case 1
  note h = holds_Nil [OF 1(1)]
  have "holds (buf[cp := NUL]) str [] junk"
    using 1 h by (cases "cp = str") (auto simp: holds_def list_update_id [of buf str, simplified h])
  then show ?case using 1 h
    by (subst parse_string_loop.simps) (auto simp: unquoted_def take_Suc hd_drop_conv_nth)
next
  case (2 c s)
  note h = holds_Cons [OF 2(4)]
  have cp: "cp < length buf" using h 2(5) by simp
  have get: "arr_get buf (str + 1) = Some (case s of [] \<Rightarrow> NUL | e # _ \<Rightarrow> e)"
    using holds_length [OF 2(4)] h holds_Nil [of buf "str + 1" junk] holds_Cons [of buf "str + 1" _ _ junk] by (cases s) auto
  show ?case
  proof (cases "c = CHR 0x22 \<or> c \<noteq> CHR 0x5C")
    case True
    show ?thesis
    proof (cases "c = CHR 0x22")
      case True
      have "holds (buf[cp := NUL]) (str + 1) s junk" using h 2(5) by (intro holds_update) auto
      then show ?thesis using True h 2(5) cp
        by (subst parse_string_loop.simps) (auto simp: unquoted_def take_Suc hd_drop_conv_nth)
    next
      case False
      with True have c: "c \<noteq> CHR 0x22" "c \<noteq> CHR 0x5C" by auto
      have "holds (buf[cp := c]) (str + 1) s junk" using h 2(5) by (intro holds_update) auto
      then have "unquoted (buf[cp := c]) (cp + 1) (unquote s) junk (parse_string_loop (buf[cp := c]) (str + 1) (cp + 1))"
        using 2(3) [OF c] 2(5) by simp
      then show ?thesis using unquoted_push [OF _ cp] c h cp
        by (subst parse_string_loop.simps) auto
    qed
  next
    case False
    then have c: "c \<noteq> CHR 0x22" "c = CHR 0x5C" by auto
    show ?thesis
    proof (cases s)
      case Nil
      then show ?thesis using c h get cp by (subst parse_string_loop.simps) (auto simp: unquoted_def)
    next
      case (Cons e s')
      then have e: "e \<noteq> NUL" "holds buf (str + 2) s' junk" "holds buf (str + 1) s junk"
        using h holds_Cons [of buf "str + 1" e s' junk] by auto
      show ?thesis
      proof (cases "number_base e")
        case None
        have "holds (buf[cp := plain_escape e]) (str + 2) s' junk" using e(2) 2(5) by (intro holds_update) auto
        then have "unquoted (buf[cp := plain_escape e]) (cp + 1) (unquote s') junk
            (parse_string_loop (buf[cp := plain_escape e]) (str + 2) (cp + 1))"
          using 2(1) [OF _ c(2) Cons None] c 2(5) by simp
        then show ?thesis using unquoted_push [OF _ cp] c h get cp Cons None e
          by (subst parse_string_loop.simps) auto
      next
        case (Some b)
        obtain num n where st: "strtoul s b = (num, n)" by (rule prod.exhaust)
        then have n: "n \<le> length s" using strtoul_le [of s b] by simp
        have "holds (buf[cp := char_of num]) (str + 1 + n) (drop n s) junk"
          using holds_drop [OF e(3) n] 2(5) by (intro holds_update) auto
        then have "unquoted (buf[cp := char_of num]) (cp + 1) (unquote (drop n s)) junk
            (parse_string_loop (buf[cp := char_of num]) (str + 1 + n) (cp + 1))"
          using 2(2) [OF _ c(2) Cons Some] c 2(5) st by simp
        then have "unquoted buf cp (unquote (c # s)) junk (parse_string_loop (buf[cp := char_of num]) (str + 1 + n) (cp + 1))"
          using unquoted_push [OF _ cp] c Cons Some st by auto
        then show ?thesis using c h get cp Cons Some e st holds_cstring [OF e(3)]
          by (subst parse_string_loop.simps) auto
      qed
    qed
  qed
qed

lemma take_drop_update: "q < length buf \<Longrightarrow> q < p \<Longrightarrow> take q (buf[p := x]) = take q buf"
  by simp

lemma takeWhile_stop: "\<not> P y \<Longrightarrow> takeWhile P (xs @ y # ys) = takeWhile P xs"
  by (induction xs) auto

text \<open>A C string that ends before position \<open>p\<close> is there in every buffer with the same first characters.\<close>

lemma cstring_at: "take (length v + 1) (drop a buf) = v @ [NUL] \<Longrightarrow> cstring buf a = Some (takeWhile (\<lambda>c. c \<noteq> NUL) v)"
proof -
  assume a: "take (length v + 1) (drop a buf) = v @ [NUL]"
  define r where "r = drop (length v + 1) (drop a buf)"
  have "drop a buf = (v @ [NUL]) @ r" unfolding r_def a [symmetric] by (rule append_take_drop_id [symmetric])
  then show ?thesis by (simp add: cstring_def takeWhile_stop)
qed

lemma cstring_below:
  assumes "take (length v + 1) (drop a buf) = v @ [NUL]" "a + length v < p" "take p buf' = take p buf"
  shows "cstring buf' a = Some (takeWhile (\<lambda>c. c \<noteq> NUL) v)"
proof -
  have d: "take (length v + 1) (drop a xs) = take (length v + 1) (drop a (take p xs))" for xs :: string
  proof -
    have "min (length v + 1) (p - a) = length v + 1" using assms(2) by simp
    then show ?thesis by (simp only: drop_take take_take)
  qed
  show ?thesis using assms(1) unfolding d [of buf] assms(3) [symmetric] d [symmetric] by (rule cstring_at)
qed

text \<open>
  The value of an argument stays as it is: what follows overwrites nothing before the position \<open>e\<close> that the splitter has reached,
  and nothing at all at the end of the line.
\<close>

definition settled :: "char list \<Rightarrow> nat \<Rightarrow> string \<Rightarrow> char list \<Rightarrow> bool" where
  "settled buf e rest buf' \<longleftrightarrow> length buf' = length buf \<and> take e buf' = take e buf \<and> (rest = [] \<longrightarrow> buf' = buf)"

lemma holds_takeWhile:
  assumes "holds buf p s junk" "l = length (takeWhile P s)"
  shows "holds buf (p + l) (dropWhile P s) junk" "take l (drop p buf) = takeWhile P s"
proof -
  have "drop l s = dropWhile P s" unfolding assms(2) by (rule dropWhile_eq_drop [symmetric])
  then show "holds buf (p + l) (dropWhile P s) junk"
    using holds_drop [OF assms(1), of l] assms(2) by (simp add: length_takeWhile_le)
  have "takeWhile P s = take l s" unfolding assms(2) by (rule takeWhile_eq_take)
  then show "take l (drop p buf) = takeWhile P s"
    using assms by (simp add: holds_def length_takeWhile_le)
qed

text \<open>The character after the argument.\<close>

lemma cut_here:
  assumes "holds buf e rest junk"
  shows "arr_get buf e = Some (case rest of [] \<Rightarrow> NUL | c # _ \<Rightarrow> c)" "\<forall>c r. rest = c # r \<longrightarrow> c \<noteq> NUL"
    and "\<exists>junk'. holds (buf[e := NUL]) (if rest = [] then e else e + 1) (drop 1 rest) junk'"
proof -
  show "arr_get buf e = Some (case rest of [] \<Rightarrow> NUL | c # _ \<Rightarrow> c)" "\<forall>c r. rest = c # r \<longrightarrow> c \<noteq> NUL"
    using holds_Nil [of buf e junk] holds_Cons [of buf e _ _ junk] assms by (auto split: list.split)
  show "\<exists>junk'. holds (buf[e := NUL]) (if rest = [] then e else e + 1) (drop 1 rest) junk'"
  proof (cases rest)
    case Nil
    then have "buf[e := NUL] = buf" using holds_Nil [of buf e junk] assms by (metis list_update_id)
    then show ?thesis using assms Nil by auto
  next
    case (Cons c r)
    then show ?thesis using holds_Cons [of buf e c r junk] assms by (auto intro!: exI [of _ junk] simp: holds_def)
  qed
qed

lemma one_arg_ok:
  assumes "holds buf p s junk" "s \<noteq> []" "\<not> c_isspace (List.hd s)"
  shows "\<exists>a q buf'. one_arg buf p = Some (a, q, buf') \<and> length buf' = length buf \<and> take p buf' = take p buf
    \<and> (case first_token s of None \<Rightarrow> q = None
       | Some (t, rest) \<Rightarrow> \<exists>e junk'. q = Some e \<and> p \<le> e \<and> holds buf' e rest junk' \<and> p \<le> a \<and> (rest \<noteq> [] \<longrightarrow> a + length t < e)
           \<and> (\<forall>buf''. settled buf' e rest buf'' \<longrightarrow> cstring buf'' a = Some t))"
proof (cases "List.hd s = CHR 0x22")
  case True
  then obtain r where s: "s = CHR 0x22 # r" using assms(2) by (cases s) auto
  have h: "p < length buf" "buf ! p = CHR 0x22" "holds buf (p + 1) r junk"
    using holds_Cons [of buf p _ r junk] assms(1) s by auto
  obtain q buf1 where ps: "parse_string buf (p + 1) = Some (q, buf1)" "length buf1 = length buf" "take (p + 1) buf1 = take (p + 1) buf"
    and u: "case unquote r of None \<Rightarrow> q = None
        | Some (v, rest) \<Rightarrow> \<exists>e. q = Some e \<and> holds buf1 e rest junk \<and> p + 1 + length v \<le> e \<and> (rest \<noteq> [] \<longrightarrow> p + 1 + length v < e)
            \<and> take (length v + 1) (drop (p + 1) buf1) = v @ [NUL]"
    using parse_string_loop_ok [OF h(3) order_refl] unfolding parse_string_def unquoted_def by blast
  have t1: "take p buf1 = take p buf" using arg_cong [OF ps(3), of "take p"] by (simp add: min_def)
  show ?thesis
  proof (cases "unquote r")
    case None
    then show ?thesis using ps u h t1 s by (simp add: one_arg_def first_token_def)
  next
    case (Some vr)
    then obtain v rest e where e: "unquote r = Some (v, rest)" "q = Some e" "holds buf1 e rest junk" "p + 1 + length v \<le> e"
        "rest \<noteq> [] \<longrightarrow> p + 1 + length v < e" "take (length v + 1) (drop (p + 1) buf1) = v @ [NUL]"
      using u by (cases vr) auto
    note c = cut_here [OF e(3)]
    have lv: "length (takeWhile (\<lambda>c. c \<noteq> NUL) v) \<le> length v" by (rule length_takeWhile_le)
    show ?thesis
    proof (cases rest)
      case Nil
      have "cstring buf1 (p + 1) = Some (takeWhile (\<lambda>c. c \<noteq> NUL) v)" using cstring_at [OF e(6)] .
      then show ?thesis using Nil ps e h t1 s c by (auto simp: one_arg_def first_token_def settled_def intro!: exI [of _ junk])
    next
      case (Cons x y)
      have "cstring b (p + 1) = Some (takeWhile (\<lambda>c. c \<noteq> NUL) v)" if "take (e + 1) b = take (e + 1) (buf1[e := NUL])" for b
        using cstring_below [OF e(6), of e b] e(5) arg_cong [OF that, of "take e"] Cons by (simp add: min_def)
      moreover have "take p (buf1[e := NUL]) = take p buf" using t1 e(4) by simp
      ultimately show ?thesis using Cons ps e h s c lv by (auto simp: one_arg_def first_token_def settled_def)
    qed
  qed
next
  case False
  define t where "t = takeWhile (\<lambda>c. \<not> c_isspace c) s"
  define rest where "rest = dropWhile (\<lambda>c. \<not> c_isspace c) s"
  have hd: "arr_get buf p = Some (List.hd s)" using cut_here(1) [OF assms(1)] assms(2) by (cases s) auto
  note e = holds_takeWhile [OF assms(1), of "length t" "\<lambda>c. \<not> c_isspace c", folded t_def rest_def, OF refl]
  note c = cut_here [OF e(1)]
  have sk: "skip_while (\<lambda>c. \<not> c_isspace c) buf p = Some (p + length t)"
    using skip_while_holds [OF assms(1)] by (simp add: t_def)
  have ft: "first_token s = Some (t, drop 1 rest)" using False by (simp add: first_token_def t_def rest_def)
  have tn: "takeWhile (\<lambda>c. c \<noteq> NUL) t = t"
    using assms(1) by (auto simp: takeWhile_eq_all_conv holds_def t_def dest: set_takeWhileD)
  show ?thesis
  proof (cases rest)
    case Nil
    then have "t = s" using takeWhile_dropWhile_id [of "\<lambda>c. \<not> c_isspace c" s] by (simp add: t_def rest_def)
    then have "cstring buf p = Some t" using holds_cstring [OF assms(1)] by simp
    then show ?thesis using Nil hd False sk ft c e(1) by (auto simp: one_arg_def settled_def intro!: exI [of _ junk])
  next
    case (Cons x y)
    have "p + length t < length buf" using holds_length [OF e(1)] by simp
    then have "take (length t + 1) (drop p (buf[p + length t := NUL])) = t @ [NUL]"
      using e(2) by (simp add: drop_update_swap take_update)
    then have "cstring b p = Some t" if "take (p + length t + 1) b = take (p + length t + 1) (buf[p + length t := NUL])" for b
      using cstring_below [of t p "buf[p + length t := NUL]" "p + length t + 1" b] that tn by simp
    then show ?thesis using Cons hd False sk ft c by (auto simp: one_arg_def settled_def)
  qed
qed

lemma take_less_eq: "take p xs = take p ys \<Longrightarrow> q \<le> p \<Longrightarrow> take q xs = take q ys"
  by (metis min.absorb1 take_take)

lemma parse_args_loop_ok:
  "holds buf p s junk \<Longrightarrow> length argv + n = 255 \<Longrightarrow>
    \<exists>ps buf'. parse_args_loop argv buf p = Some (ps, buf') \<and> settled buf p s buf'
      \<and> (case tokens n s of None \<Rightarrow> ps = []
         | Some ts \<Rightarrow> \<exists>qs. ps = argv @ qs \<and> map (cstring buf') qs = map Some ts \<and> (\<forall>q \<in> set qs. p \<le> q)
             \<and> (qs \<noteq> [] \<longrightarrow> (\<forall>q \<in> set (tl qs). List.hd qs + length (List.hd ts) < q)))"
proof (induction n arbitrary: buf p s junk argv)
  case 0
  then show ?case by (subst parse_args_loop.simps) (simp add: settled_def)
next
  case (Suc n)
  let ?s = "dropWhile c_isspace s" and ?p = "p + length (takeWhile c_isspace s)"
  have sk: "skip_while c_isspace buf p = Some ?p" by (rule skip_while_holds [OF Suc.prems(1)])
  have h: "holds buf ?p ?s junk" using holds_takeWhile(1) [OF Suc.prems(1) refl] .
  note c = cut_here(1) [OF h]
  have ln: "length argv < 255" using Suc.prems(2) by simp
  show ?case
  proof (cases "?s = []")
    case True
    then have "arr_get buf ?p = Some NUL" using c unfolding True by simp
    then show ?thesis using sk ln True by (subst parse_args_loop.simps) (simp add: settled_def)
  next
    case False
    then have sp: "\<not> c_isspace (List.hd ?s)" "s \<noteq> []" using hd_dropWhile [of c_isspace s] by auto
    have c': "\<exists>x. arr_get buf ?p = Some x \<and> x \<noteq> NUL" using c cut_here(2) [OF h] False by (cases ?s) auto
    obtain a q buf1 where o: "one_arg buf ?p = Some (a, q, buf1)" "length buf1 = length buf" "take ?p buf1 = take ?p buf"
      and t: "case first_token ?s of None \<Rightarrow> q = None
       | Some (t, rest) \<Rightarrow> \<exists>e junk'. q = Some e \<and> ?p \<le> e \<and> holds buf1 e rest junk' \<and> ?p \<le> a \<and> (rest \<noteq> [] \<longrightarrow> a + length t < e)
           \<and> (\<forall>buf''. settled buf1 e rest buf'' \<longrightarrow> cstring buf'' a = Some t)"
      using one_arg_ok [OF h False sp(1)] by blast
    have t1: "take p buf1 = take p buf" using take_less_eq [OF o(3), of p] by simp
    show ?thesis
    proof (cases "first_token ?s")
      case None
      then have "parse_args_loop argv buf p = Some ([], buf1)" using sk c' o(1) t ln by (subst parse_args_loop.simps) auto
      then show ?thesis using None False o(2) t1 sp(2) by (auto simp: settled_def)
    next
      case (Some tr)
      then obtain t rest e junk' where e: "first_token ?s = Some (t, rest)" "q = Some e" "?p \<le> e" "holds buf1 e rest junk'"
          "\<And>b. settled buf1 e rest b \<Longrightarrow> cstring b a = Some t" "?p \<le> a" "rest \<noteq> [] \<longrightarrow> a + length t < e"
        using t by (cases tr) auto
      obtain ps buf' where r: "parse_args_loop (argv @ [a]) buf1 e = Some (ps, buf')" "settled buf1 e rest buf'"
          "case tokens n rest of None \<Rightarrow> ps = [] | Some ts \<Rightarrow> \<exists>qs. ps = (argv @ [a]) @ qs \<and> map (cstring buf') qs = map Some ts \<and> (\<forall>q \<in> set qs. e \<le> q)"
        using Suc.IH [OF e(4), of "argv @ [a]"] Suc.prems(2) by (auto split: option.splits)
      have "parse_args_loop argv buf p = Some (ps, buf')" using sk c' o(1) e(2) r(1) ln by (subst parse_args_loop.simps) auto
      moreover have "settled buf p s buf'"
        using r(2) o(2) t1 e(3) sp(2) take_less_eq [of e buf' buf1 p] by (simp add: settled_def)
      moreover have "case tokens (Suc n) s of None \<Rightarrow> ps = []
         | Some ts \<Rightarrow> \<exists>qs. ps = argv @ qs \<and> map (cstring buf') qs = map Some ts \<and> (\<forall>q \<in> set qs. p \<le> q)
             \<and> (qs \<noteq> [] \<longrightarrow> (\<forall>q \<in> set (tl qs). List.hd qs + length (List.hd ts) < q))"
      proof (cases "tokens n rest")
        case None
        then show ?thesis using r(3) e(1) False by auto
      next
        case (Some ts)
        then obtain qs where qs: "ps = argv @ a # qs" "map (cstring buf') qs = map Some ts" "\<forall>q \<in> set qs. e \<le> q"
          using r(3) by auto
        have "rest = [] \<Longrightarrow> ts = []" using Some by (cases n) auto
        then have "q \<in> set qs \<Longrightarrow> a + length t < q \<and> p \<le> q" for q using qs(2,3) e(3,7) by (cases "rest = []") auto
        then show ?thesis using qs e(1,6) e(5) [OF r(2)] False Some by auto
      qed
      ultimately show ?thesis by blast
    qed
  qed
qed

text \<open>
  C22. The in-place splitter is a tokenizer. On every line, whatever its quotes, escapes and length and whatever follows it in the
  buffer, \<^const>\<open>parse_args\<close> stays inside the buffer and leaves exactly the arguments that the
  line denotes, each a C string at its position: none of them is overwritten by those after it. A line with a quoted
  argument that ends in a backslash gives no arguments.
\<close>

theorem parse_args_tokens:
  assumes "NUL \<notin> set s"
  shows "\<exists>argv buf. parse_args (s @ NUL # junk) = Some (argv, buf) \<and> length buf = length s + 1 + length junk
    \<and> (case tokens 255 s of None \<Rightarrow> argv = [] | Some ts \<Rightarrow> map (cstring buf) argv = map Some ts)"
proof -
  have "holds (s @ NUL # junk) 0 s junk" using assms by (simp add: holds_def)
  from parse_args_loop_ok [OF this, of "[]" 255] show ?thesis
    by (auto simp: parse_args_def settled_def split: option.splits)
qed

definition sample_line :: string where
  "sample_line = ''uplink '' @ CHR 0x22 # ''my '' @ CHR 0x5C # CHR 0x22 # ''site'' @ CHR 0x22 # ''  json''"

theorem parse_args_tokens_witness:
  "\<exists>argv buf. parse_args (sample_line @ NUL # ''old'') = Some (argv, buf)
    \<and> map (cstring buf) argv = [Some ''uplink'', Some (''my '' @ CHR 0x22 # ''site''), Some ''json'']"
proof -
  have "tokens (Suc (Suc (Suc (Suc n)))) sample_line = Some [''uplink'', ''my '' @ CHR 0x22 # ''site'', ''json'']" for n
    by (simp add: sample_line_def first_token_def c_isspace_def number_base_def plain_escape_def)
  from this [of 251] have t: "tokens 255 sample_line = Some [''uplink'', ''my '' @ CHR 0x22 # ''site'', ''json'']" by simp
  have "NUL \<notin> set sample_line" by (simp add: sample_line_def)
  from parse_args_tokens [OF this, of "''old''"] show ?thesis by (auto simp: t)
qed

section \<open>Quoting\<close>

text \<open>An argument in quotes, with a backslash before each quote and backslash.\<close>

definition escape :: "string \<Rightarrow> string" where
  "escape a = concat (map (\<lambda>c. if c = CHR 0x22 \<or> c = CHR 0x5C then [CHR 0x5C, c] else [c]) a)"

definition quote_line :: "string list \<Rightarrow> string" where
  "quote_line as = concat (map (\<lambda>a. CHR 0x22 # escape a @ [CHR 0x22, CHR '' '']) as)"

lemma unquote_escape: "unquote (escape a @ CHR 0x22 # r) = Some (a, r)"
  by (induction a) (auto simp: escape_def number_base_def plain_escape_def)

lemma tokens_quote_line: "\<forall>a \<in> set as. NUL \<notin> set a \<Longrightarrow> tokens (length as + n) (quote_line as) = Some as"
proof (induction as)
  case Nil
  then show ?case by (cases n) (simp_all add: quote_line_def)
next
  case (Cons a as)
  have "takeWhile (\<lambda>c. c \<noteq> NUL) a = a" using Cons.prems by (auto simp: takeWhile_eq_all_conv)
  moreover have "\<not> c_isspace CHR 0x22" by (simp add: c_isspace_def)
  moreover have "quote_line (a # as) = CHR 0x22 # escape a @ CHR 0x22 # CHR '' '' # quote_line as" by (simp add: quote_line_def)
  ultimately show ?case using Cons by (simp add: first_token_def unquote_escape)
qed

lemma quote_line_nul: "\<forall>a \<in> set as. NUL \<notin> set a \<Longrightarrow> NUL \<notin> set (quote_line as)"
  by (auto simp: quote_line_def escape_def split: if_splits)

text \<open>
  C23. Quoted arguments are read back. Any up to 255 arguments, with any characters (spaces, quotes, backslashes, control characters)
  but NUL, that are written in quotes with quotes and backslashes escaped, are what the splitter finds.
\<close>

theorem quoted_args_roundtrip:
  assumes "\<forall>a \<in> set as. NUL \<notin> set a" "length as \<le> 255"
  shows "\<exists>argv buf. parse_args (quote_line as @ NUL # junk) = Some (argv, buf) \<and> map (cstring buf) argv = map Some as"
proof -
  have "tokens 255 (quote_line as) = Some as" using tokens_quote_line [OF assms(1), of "255 - length as"] assms(2) by simp
  moreover have "holds (quote_line as @ NUL # junk) 0 (quote_line as) junk"
    using quote_line_nul [OF assms(1)] by (simp add: holds_def)
  ultimately show ?thesis using parse_args_loop_ok [of "quote_line as @ NUL # junk" 0 "quote_line as" junk "[]" 255]
    by (auto simp: parse_args_def)
qed

theorem quoted_args_roundtrip_witness:
  "\<exists>argv buf. parse_args (quote_line [''mycall'', '' N0CALL '', [], [CHR 0x5C, CHR 0x22]] @ NUL # []) = Some (argv, buf)
    \<and> map (cstring buf) argv = map Some [''mycall'', '' N0CALL '', [], [CHR 0x5C, CHR 0x22]]"
  by (rule quoted_args_roundtrip) simp_all

lemma strtoul_x: "strtoul (CHR ''x'' # s) 16 = (0, 0)"
  by (simp add: strtoul_def digits_start_def sign_start_def c_isspace_def digit_value_def)

lemma char_of_zero: "char_of (0 :: nat) = NUL"
  by (simp add: char_of_def)

lemma unquote_hex:
  "\<forall>c \<in> set pre. c \<noteq> CHR 0x22 \<and> c \<noteq> CHR 0x5C \<Longrightarrow>
    unquote (pre @ CHR 0x5C # CHR ''x'' # post) = do { (v, r) \<leftarrow> unquote (CHR ''x'' # post); Some (pre @ NUL # v, r) }"
proof (induction pre)
  case Nil
  then show ?case by (simp add: number_base_def strtoul_x char_of_zero del: unquote.simps(2)) (simp add: number_base_def strtoul_x char_of_zero)
next
  case (Cons c pre)
  then show ?case by (simp add: split_def)
qed

text \<open>
  C40. Hexadecimal escapes cut the argument off. In a quoted argument with \<^verbatim>\<open>\x\<close> in it nothing
  of the digits is read as a number: a NUL is written instead, so that the argument, as the C string that all users see,
  ends before the escape, whatever follows.
\<close>

theorem hex_escape_cuts:
  assumes "\<forall>c \<in> set pre. c \<noteq> CHR 0x22 \<and> c \<noteq> CHR 0x5C \<and> c \<noteq> NUL" "NUL \<notin> set post"
    and "parse_args (CHR 0x22 # pre @ CHR 0x5C # CHR ''x'' # post @ NUL # junk) = Some (argv, buf)" "argv \<noteq> []"
  shows "cstring buf (argv ! 0) = Some pre"
proof -
  let ?s = "CHR 0x22 # pre @ CHR 0x5C # CHR ''x'' # post"
  have "holds (?s @ NUL # junk) 0 ?s junk" using assms(1,2) by (auto simp: holds_def)
  from parse_args_loop_ok [OF this, of "[]" 255] assms(3,4) obtain ts where
    ts: "tokens 255 ?s = Some ts" "map (cstring buf) argv = map Some ts"
    by (auto simp: parse_args_def split: option.splits)
  have "\<not> c_isspace CHR 0x22" by (simp add: c_isspace_def)
  then have "tokens (Suc n) ?s = do { (t, r) \<leftarrow> first_token ?s; ts \<leftarrow> tokens n r; Some (t # ts) }" for n by simp
  from this [of 254] ts(1) have "first_token ?s \<bind> (\<lambda>(t, r). tokens 254 r \<bind> (\<lambda>ts. Some (t # ts))) = Some ts" by simp
  then obtain t r ts' where t: "first_token ?s = Some (t, r)" "ts = t # ts'"
    by (auto simp: bind_eq_Some_conv)
  have "takeWhile (\<lambda>c. c \<noteq> NUL) pre = pre" using assms(1) by (auto simp: takeWhile_eq_all_conv)
  then have "t = pre" using t(1) unquote_hex [of pre post] assms(1)
    by (auto simp: first_token_def bind_eq_Some_conv takeWhile_stop simp del: unquote.simps(2))
  then show ?thesis using ts(2) t(2) assms(4) by (cases argv) auto
qed

theorem hex_escape_cuts_witness:
  "\<exists>argv buf. parse_args (CHR 0x22 # ''ab'' @ CHR 0x5C # CHR ''x'' # (''41c'' @ [CHR 0x22]) @ NUL # []) = Some (argv, buf)
    \<and> cstring buf (argv ! 0) = Some ''ab''"
proof -
  let ?s = "CHR 0x22 # ''ab'' @ CHR 0x5C # CHR ''x'' # ''41c'' @ [CHR 0x22]"
  have "tokens (Suc (Suc n)) ?s = Some [''ab'']" for n
    by (simp add: first_token_def c_isspace_def number_base_def strtoul_x char_of_zero)
  from this [of 253] have t: "tokens 255 ?s = Some [''ab'']" by simp
  have "holds (?s @ NUL # []) 0 ?s []" by (simp add: holds_def)
  from parse_args_loop_ok [OF this, of "[]" 255] t obtain argv buf where
    a: "parse_args (CHR 0x22 # ''ab'' @ CHR 0x5C # CHR ''x'' # (''41c'' @ [CHR 0x22]) @ NUL # []) = Some (argv, buf)" "argv \<noteq> []"
    by (auto simp: parse_args_def)
  then show ?thesis using hex_escape_cuts [OF _ _ a] by auto
qed

end
