(* ===== verification/Cfgread.thy ===== *)
theory Cfgread
  imports Cfgfile
begin

text \<open>
  The rest of cfgfile.c: the execution of a line through a table of directives, the handlers for single
  values, the copying of a file, and the search for the configuration file.
\<close>

section \<open>The operating system\<close>

text \<open>
  Regular files with their contents, directories, and where files may be created. Every \<^verbatim>\<open>read\<close>,
  \<^verbatim>\<open>write\<close> and \<^verbatim>\<open>close\<close> takes the next outcome: a number of bytes (a transfer may be
  shorter than was asked for), an interruption by a signal, or an error. What is printed or logged is recorded as
  its format, without a final newline, and its arguments.
\<close>

datatype io_result = Io_ok nat | Io_intr | Io_error

datatype carg = CStr string | CInt int

datatype cmsg = Stderr string "carg list" | Hlog_at string string "carg list"

record osenv =
  os_msgs :: "cmsg list"
  os_files :: "string \<rightharpoonup> string"
  os_dirs :: "string \<Rightarrow> bool"
  os_writable :: "string \<Rightarrow> bool"
  os_io :: "nat \<Rightarrow> io_result"
  os_tick :: nat
  os_home :: "string option"

definition say :: "cmsg \<Rightarrow> 'a osenv_scheme \<Rightarrow> 'a osenv_scheme" where
  "say m env = env\<lparr>os_msgs := os_msgs env @ [m]\<rparr>"

definition dirname :: "string \<Rightarrow> string" where
  "dirname p = rev (drop 1 (dropWhile (\<lambda>c. c \<noteq> CHR ''/'') (rev p)))"

definition may_create :: "string \<Rightarrow> 'a osenv_scheme \<Rightarrow> bool" where
  "may_create p env \<longleftrightarrow> os_files env p = None \<and> \<not> os_dirs env p \<and> os_dirs env (dirname p) \<and> os_writable env (dirname p)"

definition mkdir :: "string \<Rightarrow> 'a osenv_scheme \<Rightarrow> int \<times> 'a osenv_scheme" where
  "mkdir p env = (if may_create p env then (0, env\<lparr>os_dirs := (os_dirs env)(p := True)\<rparr>) else (-1, env))"

definition io :: "'a osenv_scheme \<Rightarrow> io_result \<times> 'a osenv_scheme" where
  "io env = (os_io env (os_tick env), env\<lparr>os_tick := Suc (os_tick env)\<rparr>)"

definition append_file :: "string \<Rightarrow> string \<Rightarrow> 'a osenv_scheme \<Rightarrow> 'a osenv_scheme" where
  "append_file p s env = env\<lparr>os_files := (os_files env)(p := map_option (\<lambda>c. c @ s) (os_files env p))\<rparr>"

section \<open>Copying a file\<close>

text \<open>
  The inner loop of \<^verbatim>\<open>cpfile\<close>: \<open>data\<close>, which is not empty, is written. The result is false after an error. A loop that
  never ends (nothing but interruptions or empty transfers) has no result.
\<close>

partial_function (option) write_loop :: "string \<Rightarrow> string \<Rightarrow> 'a osenv_scheme \<Rightarrow> (bool \<times> 'a osenv_scheme) option" where
  "write_loop dest data env =
     (let (r, env) = io env in
      case r of
        Io_ok k \<Rightarrow>
          let env = append_file dest (take k data) env; data = drop k data
          in if length data > 0 then write_loop dest data env else Some (True, env)
      | Io_intr \<Rightarrow> write_loop dest data env
      | Io_error \<Rightarrow> Some (False, env))"

text \<open>\<^verbatim>\<open>read\<close> of at most 4096 bytes: nothing at the end of the file, otherwise at least one byte.\<close>

definition read_chunk :: "string \<Rightarrow> 'a osenv_scheme \<Rightarrow> string option \<times> 'a osenv_scheme" where
  "read_chunk rest env =
     (let (r, env) = io env in
      (case r of Io_ok k \<Rightarrow> Some (take (min 4096 (max 1 k)) rest) | _ \<Rightarrow> None, env))"

partial_function (option) copy_loop :: "string \<Rightarrow> string \<Rightarrow> 'a osenv_scheme \<Rightarrow> (int \<times> 'a osenv_scheme) option" where
  "copy_loop dest rest env =
     (let (chunk, env) = read_chunk rest env in
      case chunk of
        None \<Rightarrow> Some (-1, env)
      | Some chunk \<Rightarrow>
          if length chunk > 0 then do {
            (ok, env) \<leftarrow> write_loop dest chunk env;
            if ok then copy_loop dest (drop (length chunk) rest) env else Some (-1, env)
          }
          else let (r, env) = io env in Some (if r = Io_error then -1 else 0, env))"

definition cpfile :: "string \<Rightarrow> string \<Rightarrow> 'a osenv_scheme \<Rightarrow> (int \<times> 'a osenv_scheme) option" where
  "cpfile dest src env =
     (case os_files env src of
        None \<Rightarrow> Some (-1, env)
      | Some content \<Rightarrow>
          if may_create dest env then copy_loop dest content (env\<lparr>os_files := (os_files env)(dest := Some [])\<rparr>)
          else Some (-1, env))"

section \<open>Handlers\<close>

text \<open>
  The handlers that set one value: from the old value and the arguments (the directive itself included) to the
  return code and the new value.
\<close>

definition do_string :: "string option \<Rightarrow> string list \<Rightarrow> int \<times> string option" where
  "do_string dest argv = (if length argv < 2 then (-1, dest) else (0, Some (argv ! 1)))"

definition do_int :: "int \<Rightarrow> string list \<Rightarrow> (int \<times> int) option" where
  "do_int dest argv = (if length argv < 2 then Some (-1, dest) else do { i \<leftarrow> atoi (argv ! 1); Some (0, i) })"

text \<open>\<^verbatim>\<open>atof\<close> is given.\<close>

definition do_float :: "(string \<Rightarrow> cfloat) \<Rightarrow> cfloat \<Rightarrow> string list \<Rightarrow> int \<times> cfloat" where
  "do_float atof dest argv = (if length argv < 2 then (-1, dest) else (0, f32 (atof (argv ! 1))))"

definition do_toggle :: "int \<Rightarrow> string list \<Rightarrow> int \<times> int" where
  "do_toggle dest argv =
     (if length argv < 2 then (-1, dest)
      else if strcasecmp_eq (argv ! 1) ''true'' \<or> strcasecmp_eq (argv ! 1) ''on'' \<or> strcasecmp_eq (argv ! 1) ''1''
        \<or> strcasecmp_eq (argv ! 1) ''enable'' \<or> strcasecmp_eq (argv ! 1) ''enabled'' \<or> strcasecmp_eq (argv ! 1) ''yes''
      then (1, 1)
      else (0, 0))"

section \<open>Executing a line\<close>

text \<open>A directive: its name and its handler, which gets the arguments and may change the configuration.\<close>

record 'a cfgcmd =
  c_name :: string
  c_function :: "string list \<Rightarrow> 'a osenv_scheme \<Rightarrow> (int \<times> 'a osenv_scheme) option"

text \<open>\<^verbatim>\<open>cmdparse\<close> on a line buffer; the buffer is changed.\<close>

definition find_cmd :: "'a cfgcmd list \<Rightarrow> string \<Rightarrow> 'a cfgcmd option" where
  "find_cmd cmds a = List.find (\<lambda>c. strncasecmp_eq (c_name c) a (length a)) cmds"

definition run_cmd :: "'a cfgcmd list \<Rightarrow> string list \<Rightarrow> 'a osenv_scheme \<Rightarrow> (int \<times> 'a osenv_scheme) option" where
  "run_cmd cmds argv env =
     (case find_cmd cmds (argv ! 0) of
        None \<Rightarrow> Some (-1, say (Stderr ''No such configuration file directive: %s'' [CStr (argv ! 0)]) env)
      | Some c \<Rightarrow> c_function c argv env)"

definition cmdparse :: "'a cfgcmd list \<Rightarrow> char list \<Rightarrow> 'a osenv_scheme \<Rightarrow> (int \<times> char list \<times> 'a osenv_scheme) option" where
  "cmdparse cmds cmdline env = do {
     (argv, buf) \<leftarrow> parse_args cmdline;
     if argv = [] then Some (0, buf, env)
     else do {
       c \<leftarrow> arr_get buf (argv ! 0);
       if c = CHR ''#'' then Some (0, buf, env)
       else do {
         buf \<leftarrow> strlwr buf (argv ! 0);
         args \<leftarrow> those (map (cstring buf) argv);
         (r, env) \<leftarrow> run_cmd cmds args env;
         Some (r, buf, env)
       }
     }
   }"

section \<open>Reading the file\<close>

text \<open>\<^verbatim>\<open>fgets\<close>: at most \<open>n\<close> characters, up to and including a newline.\<close>

fun take_line :: "nat \<Rightarrow> string \<Rightarrow> string" where
  "take_line 0 s = []"
| "take_line (Suc n) [] = []"
| "take_line (Suc n) (c # s) = (if c = CHR 0x0A then [c] else c # take_line n s)"

lemma take_line_Nil [simp]: "take_line n [] = []"
  by (cases n) simp_all

text \<open>The lines of a stream are executed; \<open>line\<close> is the buffer, which keeps what earlier lines left in it.\<close>

function read_lines :: "string \<Rightarrow> 'a cfgcmd list \<Rightarrow> string \<Rightarrow> char list \<Rightarrow> int \<Rightarrow> 'a osenv_scheme \<Rightarrow> (int \<times> 'a osenv_scheme) option" where
  "read_lines f cmds content line n env =
     (let l = take_line (CFGLINE_LEN - 1) content in
      if l = [] then Some (0, env)
      else do {
        let line = l @ NUL # drop (length l + 1) line;
        let n = n + 1;
        (ret, line, env) \<leftarrow> cmdparse cmds line env;
        if ret < 0 then do {
          s \<leftarrow> cstring line 0;
          Some (2, say (Stderr ''Problem in %s at line %d: %s'' [CStr f, CInt n, CStr s]) env)
        } else read_lines f cmds (drop (length l) content) line n env
      })"
  by auto
termination
proof (relation "measure (\<lambda>(f, cmds, content, line, n, env). length content)", goal_cases)
  case (2 f cmds content line n env l)
  then have "l \<noteq> []" "content \<noteq> []" by auto
  then show ?case by simp
qed simp

declare read_lines.simps [simp del]

text \<open>
  The search for a configuration file. A missing home directory is a null pointer that is
  copied. \<open>copy_config\<close> makes the first configuration of a user from what is installed.
\<close>

definition copy_from :: "string \<Rightarrow> string \<Rightarrow> cmsg \<Rightarrow> cmsg \<Rightarrow> 'a osenv_scheme \<Rightarrow> (int \<times> 'a osenv_scheme) option" where
  "copy_from conf src failed fine env = do {
     (ret, env) \<leftarrow> cpfile conf src env;
     Some (ret, say (if ret = -1 then failed else fine) env)
   }"

definition example_local :: string where "example_local = ''/usr/local/share/doc/gnuais/gnuais.conf-example''"
definition example_share :: string where "example_share = ''/usr/share/doc/gnuais/gnuais.conf-example''"

definition copy_config :: "string \<Rightarrow> 'a osenv_scheme \<Rightarrow> (int \<times> 'a osenv_scheme) option" where
  "copy_config conf env =
     (let starting = Hlog_at ''LOG_NOTICE'' ''Using gnuais.conf-example as a starting point for ~/.config/gnuais/config...'' [];
          failed = Hlog_at ''LOG_ERR'' ''Could not copy configuration file to the home folder'' [];
          fine = Hlog_at ''LOG_NOTICE'' ''DONE creating configuration file (~/.config/gnuais/config). You should edit this file manually!'' []
      in
      if os_files env ''/etc/gnuais.conf'' = None then
        if os_files env example_local = None then
          if os_files env example_share = None then
            Some (0, say (Hlog_at ''LOG_ERR'' ''No gnuais.conf-example found to be copied to ~/.config/gnuais/config'' []) env)
          else copy_from conf example_share failed fine (say starting env)
        else copy_from conf example_local failed fine (say starting env)
      else copy_from conf ''/etc/gnuais.conf''
        (Hlog_at ''LOG_ERR'' ''Could not copy configuration file from /etc/gnuais.conf to your home directory'' [])
        (Hlog_at ''LOG_NOTICE'' ''DONE'' [])
        (say (Hlog_at ''LOG_WARNING'' ''It will be copied to your home directory (~/.config/gnuais/config)...'' [])
          (say (Hlog_at ''LOG_WARNING'' ''/etc/gnuais.conf found, but no ~/.config/gnuais/config found.'' []) env)))"

definition find_config :: "'a osenv_scheme \<Rightarrow> (string option \<times> 'a osenv_scheme) option" where
  "find_config env = do {
     home \<leftarrow> os_home env;
     let name = home @ ''/.config'';
     let (ret, env) = mkdir name env;
     let name = name @ ''/gnuais'';
     let conf = name @ ''/config'';
     case os_files env conf of
       Some content \<Rightarrow> Some (Some content, env)
     | None \<Rightarrow> do {
         let env = say (Hlog_at ''LOG_INFO'' ''Creating directory: ~/.config/gnuais/'' []) env;
         let (ret, env) = mkdir name env;
         let env = (if ret \<noteq> 0 then say (Hlog_at ''LOG_INFO'' ''~/.config/gnuais/ already exists'' []) env else env);
         (ret, env) \<leftarrow> copy_config conf env;
         if ret \<noteq> -1 then
           case os_files env conf of
             None \<Rightarrow> Some (None, say (Hlog_at ''LOG_ERR'' ''Could not open configuration file after copying it to the home directory'' []) env)
           | Some content \<Rightarrow> Some (Some content, env)
         else Some (None, env)
       }
   }"

definition read_cfgfile :: "char list \<Rightarrow> string \<Rightarrow> 'a cfgcmd list \<Rightarrow> 'a osenv_scheme \<Rightarrow> (int \<times> 'a osenv_scheme) option" where
  "read_cfgfile stack f cmds env = do {
     (fp, env) \<leftarrow> (case os_files env f of Some content \<Rightarrow> Some (Some content, env) | None \<Rightarrow> find_config env);
     case fp of
       None \<Rightarrow> Some (0, say (Hlog_at ''LOG_ERR'' ''No configuration file found! Running with the default configuration. You should create a file ~/.config/gnuais/config. There should be an example to use in the source archive called gnuais.conf-example'' []) env)
     | Some content \<Rightarrow> read_lines f cmds content stack 0 env
   }"

section \<open>Copying is exact and ends\<close>

lemma io_simps [simp]: "io env = (os_io env (os_tick env), env\<lparr>os_tick := Suc (os_tick env)\<rparr>)"
  by (simp add: io_def)

text \<open>Everything but one file and the outcomes that were used up.\<close>

definition only_file :: "string \<Rightarrow> 'a osenv_scheme \<Rightarrow> 'a osenv_scheme \<Rightarrow> bool" where
  "only_file dest env env' \<longleftrightarrow> env'\<lparr>os_files := os_files env, os_tick := os_tick env\<rparr> = env
     \<and> (\<forall>f. f \<noteq> dest \<longrightarrow> os_files env' f = os_files env f)"

lemma only_file_refl: "only_file dest env env"
  by (simp add: only_file_def)

lemma only_file_io: "only_file dest (env\<lparr>os_tick := t\<rparr>) env' \<longleftrightarrow> only_file dest env env'"
proof -
  have "env'\<lparr>os_files := os_files env, os_tick := t\<rparr> = env\<lparr>os_tick := t\<rparr> \<longleftrightarrow>
      env'\<lparr>os_files := os_files env, os_tick := os_tick env\<rparr> = env"
    by (cases env; cases env') simp
  then show ?thesis by (simp add: only_file_def)
qed

lemma only_file_file: "only_file dest (env\<lparr>os_files := (os_files env)(dest := c)\<rparr>) env' \<longleftrightarrow> only_file dest env env'"
  by (cases env; cases env') (auto simp: only_file_def)

lemma only_file_append: "only_file dest (append_file dest s env) env' \<longleftrightarrow> only_file dest env env'"
  by (simp add: append_file_def only_file_file)

lemma only_file_append_refl: "only_file dest env (append_file dest s (env\<lparr>os_tick := t\<rparr>))"
  by (cases env) (simp add: only_file_def append_file_def)

lemma only_file_tick: "only_file dest env (env\<lparr>os_tick := t\<rparr>)"
  by (simp add: only_file_def)

lemma append_file_at: "os_files env dest = Some c \<Longrightarrow> os_files (append_file dest s env) dest = Some (c @ s)"
  by (simp add: append_file_def)

lemma append_file_tick: "os_tick (append_file dest s env) = os_tick env" "os_io (append_file dest s env) = os_io env"
  by (simp_all add: append_file_def)

lemma only_file_trans: "only_file dest env env' \<Longrightarrow> only_file dest env' env'' \<Longrightarrow> only_file dest env env''"
  by (cases env; cases env'; cases env'') (auto simp: only_file_def)

definition write_ok :: "string \<Rightarrow> string \<Rightarrow> 'a osenv_scheme \<Rightarrow> bool \<times> 'a osenv_scheme \<Rightarrow> bool" where
  "write_ok dest data env y \<longleftrightarrow> (\<forall>c. os_files env dest = Some c \<longrightarrow>
    only_file dest env (snd y) \<and> (\<exists>n. os_files (snd y) dest = Some (c @ take n data)) \<and> (fst y \<longrightarrow> os_files (snd y) dest = Some (c @ data)))"

lemma write_loop_ok:
  assumes "write_loop dest data env = Some y"
  shows "write_ok dest data env y"
  using _ assms
proof (rule write_loop.raw_induct)
  fix wl :: "string \<Rightarrow> string \<Rightarrow> 'a osenv_scheme \<Rightarrow> (bool \<times> 'a osenv_scheme) option" and dest data env y
  assume IH: "\<And>dest data env y. wl dest data env = Some y \<Longrightarrow> write_ok dest data env y"
    and 1: "(let (r, env) = io env in
      case r of
        Io_ok k \<Rightarrow>
          let env = append_file dest (take k data) env; data = drop k data
          in if length data > 0 then wl dest data env else Some (True, env)
      | Io_intr \<Rightarrow> wl dest data env
      | Io_error \<Rightarrow> Some (False, env)) = Some y"
  show "write_ok dest data env y"
  proof (cases "os_io env (os_tick env)")
    case (Io_ok k)
    let ?env = "append_file dest (take k data) (env\<lparr>os_tick := Suc (os_tick env)\<rparr>)"
    show ?thesis
    proof (cases "length (drop k data) > 0")
      case True
      then have "wl dest (drop k data) ?env = Some y" using 1 Io_ok by (simp add: Let_def)
      from IH [OF this] have *: "\<forall>c. os_files ?env dest = Some c \<longrightarrow> only_file dest ?env (snd y)
          \<and> (\<exists>n. os_files (snd y) dest = Some (c @ take n (drop k data))) \<and> (fst y \<longrightarrow> os_files (snd y) dest = Some (c @ drop k data))"
        by (simp add: write_ok_def)
      show ?thesis unfolding write_ok_def
      proof (intro allI impI)
        fix c
        assume c: "os_files env dest = Some c"
        then have "os_files ?env dest = Some (c @ take k data)" by (simp add: append_file_at)
        with * obtain n where n: "only_file dest ?env (snd y)" "os_files (snd y) dest = Some (c @ take k data @ take n (drop k data))"
            "fst y \<longrightarrow> os_files (snd y) dest = Some (c @ data)"
          by auto
        have "take k data @ take n (drop k data) = take (k + n) data" by (simp add: take_add)
        then show "only_file dest env (snd y) \<and> (\<exists>n. os_files (snd y) dest = Some (c @ take n data))
            \<and> (fst y \<longrightarrow> os_files (snd y) dest = Some (c @ data))"
          using n by (auto simp: only_file_append only_file_io)
      qed
    next
      case False
      then have "y = (True, ?env)" "take k data = data" using 1 Io_ok by (auto simp: Let_def)
      then show ?thesis by (auto simp: write_ok_def append_file_at only_file_append_refl intro!: exI [of _ k])
    qed
  next
    case Io_intr
    then have "wl dest data (env\<lparr>os_tick := Suc (os_tick env)\<rparr>) = Some y" using 1 by simp
    from IH [OF this] show ?thesis by (simp add: write_ok_def only_file_io)
  next
    case Io_error
    then have "y = (False, env\<lparr>os_tick := Suc (os_tick env)\<rparr>)" using 1 by simp
    then show ?thesis by (auto simp: write_ok_def only_file_tick intro!: exI [of _ 0])
  qed
qed

definition copy_ok :: "string \<Rightarrow> string \<Rightarrow> 'a osenv_scheme \<Rightarrow> int \<times> 'a osenv_scheme \<Rightarrow> bool" where
  "copy_ok dest rest env y \<longleftrightarrow> (\<forall>c. os_files env dest = Some c \<longrightarrow>
    only_file dest env (snd y) \<and> (\<exists>n. os_files (snd y) dest = Some (c @ take n rest))
    \<and> (fst y = 0 \<and> os_files (snd y) dest = Some (c @ rest) \<or> fst y = -1))"

lemma copy_loop_ok:
  assumes "copy_loop dest rest env = Some y"
  shows "copy_ok dest rest env y"
  using _ assms
proof (rule copy_loop.raw_induct)
  fix cl :: "string \<Rightarrow> string \<Rightarrow> 'a osenv_scheme \<Rightarrow> (int \<times> 'a osenv_scheme) option" and dest rest env y
  assume IH: "\<And>dest rest env y. cl dest rest env = Some y \<Longrightarrow> copy_ok dest rest env y"
    and 1: "(let (chunk, env) = read_chunk rest env in
      case chunk of
        None \<Rightarrow> Some (-1, env)
      | Some chunk \<Rightarrow>
          if length chunk > 0 then do {
            (ok, env) \<leftarrow> write_loop dest chunk env;
            if ok then cl dest (drop (length chunk) rest) env else Some (-1, env)
          }
          else let (r, env) = io env in Some (if r = Io_error then -1 else 0, env)) = Some y"
  let ?env = "env\<lparr>os_tick := Suc (os_tick env)\<rparr>"
  have f: "os_files ?env = os_files env" by simp
  show "copy_ok dest rest env y"
  proof (cases "os_io env (os_tick env)")
    case (Io_ok k)
    define chunk where "chunk = take (min 4096 (max 1 k)) rest"
    have r: "read_chunk rest env = (Some chunk, ?env)" by (simp add: read_chunk_def Io_ok chunk_def)
    show ?thesis
    proof (cases "length chunk > 0")
      case True
      with 1 r obtain ok env1 where w: "write_loop dest chunk ?env = Some (ok, env1)"
          "(if ok then cl dest (drop (length chunk) rest) env1 else Some (-1, env1)) = Some y"
        by (auto simp: bind_eq_Some_conv)
      have split: "rest = chunk @ drop (length chunk) rest" by (auto simp: chunk_def min_def)
      show ?thesis unfolding copy_ok_def
      proof (intro allI impI)
        fix c
        assume c: "os_files env dest = Some c"
        have "os_files ?env dest = Some c" using c by simp
        with write_loop_ok [OF w(1), unfolded write_ok_def only_file_io fst_conv snd_conv] obtain n where n: "only_file dest env env1"
            "os_files env1 dest = Some (c @ take n chunk)" "ok \<longrightarrow> os_files env1 dest = Some (c @ chunk)"
          by blast
        have pre: "take n chunk = take (min n (min 4096 (max 1 k))) rest" by (simp add: chunk_def)
        show "only_file dest env (snd y) \<and> (\<exists>n. os_files (snd y) dest = Some (c @ take n rest))
            \<and> (fst y = 0 \<and> os_files (snd y) dest = Some (c @ rest) \<or> fst y = -1)"
        proof (cases ok)
          case True
          then have "cl dest (drop (length chunk) rest) env1 = Some y" "os_files env1 dest = Some (c @ chunk)" using w(2) n(3) by simp_all
          with IH [OF this(1), unfolded copy_ok_def] obtain m where m: "only_file dest env1 (snd y)" "os_files (snd y) dest = Some ((c @ chunk) @ take m (drop (length chunk) rest))"
              "fst y = 0 \<and> os_files (snd y) dest = Some ((c @ chunk) @ drop (length chunk) rest) \<or> fst y = -1"
            by blast
          have "chunk @ take m (drop (length chunk) rest) = take (length chunk + m) rest" by (subst (2) split) simp
          then show ?thesis using m only_file_trans [OF n(1) m(1)] split by auto
        next
          case False
          then show ?thesis using w(2) n pre by auto
        qed
      qed
    next
      case False
      then have "rest = []" by (auto simp: chunk_def)
      then show ?thesis using 1 r False by (auto simp: copy_ok_def only_file_io only_file_refl chunk_def Let_def only_file_def)
    qed
  next
    case Io_intr
    then have "y = (-1, ?env)" using 1 by (simp add: read_chunk_def)
    then show ?thesis by (auto simp: copy_ok_def only_file_def intro!: exI [of _ 0])
  next
    case Io_error
    then have "y = (-1, ?env)" using 1 by (simp add: read_chunk_def)
    then show ?thesis by (auto simp: copy_ok_def only_file_def intro!: exI [of _ 0])
  qed
qed

text \<open>Whatever happened, sooner or later a transfer makes progress or fails.\<close>

definition progress :: "(nat \<Rightarrow> io_result) \<Rightarrow> bool" where
  "progress f \<longleftrightarrow> (\<forall>t. \<exists>t' \<ge> t. f t' \<noteq> Io_intr \<and> f t' \<noteq> Io_ok 0)"

lemma write_loop_ends:
  "progress (os_io env) \<Longrightarrow> data \<noteq> [] \<Longrightarrow> \<exists>ok env'. write_loop dest data env = Some (ok, env') \<and> os_io env' = os_io env"
  for env :: "'a osenv_scheme"
proof (induction "length data" arbitrary: data env rule: less_induct)
  case less
  from less(2) obtain t where t: "t \<ge> os_tick env" "os_io env t \<noteq> Io_intr" "os_io env t \<noteq> Io_ok 0"
    unfolding progress_def by blast
  have "os_tick e \<le> t \<Longrightarrow> os_io e = os_io env \<Longrightarrow> \<exists>ok env'. write_loop dest data e = Some (ok, env') \<and> os_io env' = os_io env" for e :: "'a osenv_scheme"
  proof (induction "t - os_tick e" arbitrary: e rule: less_induct)
    case inner: less
    let ?e = "e\<lparr>os_tick := Suc (os_tick e)\<rparr>"
    note step = write_loop.simps [of dest data e, simplified Let_def io_simps prod.case]
    have again: "\<exists>ok env'. write_loop dest data e' = Some (ok, env') \<and> os_io env' = os_io env"
      if "os_io e (os_tick e) = Io_intr \<or> os_io e (os_tick e) = Io_ok 0" "os_tick e' = Suc (os_tick e)" "os_io e' = os_io e" for e' :: "'a osenv_scheme"
    proof -
      have "os_tick e < t" using that(1) t(2,3) inner(2,3) by (cases "os_tick e = t") auto
      then show ?thesis using inner(1) [of e'] inner(3) that(2,3) by simp
    qed
    show ?case
    proof (cases "os_io e (os_tick e)")
      case (Io_ok k)
      let ?a = "append_file dest (take k data) ?e"
      have a: "os_tick ?a = Suc (os_tick e)" "os_io ?a = os_io e" by (simp_all add: append_file_tick)
      consider "k = 0" | "0 < k" "k < length data" | "length data \<le> k" by linarith
      then show ?thesis
      proof cases
        case 1
        then have "write_loop dest data e = write_loop dest data ?a" using step Io_ok less(3) by simp
        then show ?thesis using again [of ?a] a Io_ok 1 by simp
      next
        case 2
        then have "write_loop dest data e = write_loop dest (drop k data) ?a" using step Io_ok by simp
        moreover have "\<exists>ok env'. write_loop dest (drop k data) ?a = Some (ok, env') \<and> os_io env' = os_io ?a"
          using 2 less(2) a(2) inner(3) by (intro less(1)) auto
        ultimately show ?thesis using a(2) inner(3) by simp
      next
        case 3
        then show ?thesis using step Io_ok a(2) inner(3) by auto
      qed
    next
      case Io_intr
      then show ?thesis using step again [of ?e] by simp
    next
      case Io_error
      then show ?thesis using step inner(3) by auto
    qed
  qed
  then show ?case using t(1) by blast
qed

lemma copy_loop_ends:
  "progress (os_io env) \<Longrightarrow> \<exists>y. copy_loop dest rest env = Some y"
  for env :: "'a osenv_scheme"
proof (induction "length rest" arbitrary: rest env rule: less_induct)
  case less
  let ?env = "env\<lparr>os_tick := Suc (os_tick env)\<rparr>"
  note step = copy_loop.simps [of dest rest env]
  show ?case
  proof (cases "os_io env (os_tick env)")
    case (Io_ok k)
    define chunk where "chunk = take (min 4096 (max 1 k)) rest"
    have r: "read_chunk rest env = (Some chunk, ?env)" by (simp add: read_chunk_def Io_ok chunk_def)
    show ?thesis
    proof (cases "chunk = []")
      case True
      then show ?thesis by (subst step) (simp add: r)
    next
      case False
      then obtain ok env1 where w: "write_loop dest chunk ?env = Some (ok, env1)" "os_io env1 = os_io env"
        using write_loop_ends [of ?env chunk dest] less(2) by auto
      have "length (drop (length chunk) rest) < length rest" using False by (cases rest) (auto simp: chunk_def)
      then have "\<exists>y. copy_loop dest (drop (length chunk) rest) env1 = Some y" using less(1) w(2) less(2) by metis
      then show ?thesis using False by (subst step) (simp add: r w)
    qed
  qed (subst step, simp add: read_chunk_def)+
qed

text \<open>
  C28. Copying ends. However the system cuts the transfers into pieces and whenever it interrupts them, as long as there is always a later
  call that transfers something or fails, \<^const>\<open>cpfile\<close> returns.
\<close>

theorem cpfile_terminates:
  assumes "progress (os_io env)"
  shows "\<exists>r env'. cpfile dest src env = Some (r, env')"
  using copy_loop_ends [of "env\<lparr>os_files := (os_files env)(dest := Some [])\<rparr>" dest] assms
  by (auto simp: cpfile_def split: option.split)

text \<open>A small system with an installed configuration, whose transfers stutter.\<close>

definition fresh_home :: osenv where
  "fresh_home = \<lparr>os_msgs = [], os_files = [''/etc/gnuais.conf'' \<mapsto> ''# x'' @ CHR 0x0A # ''mycall K''],
     os_dirs = (\<lambda>d. d \<in> {[], ''/h''}), os_writable = (\<lambda>d. take 2 d = ''/h''),
     os_io = (\<lambda>t. if t mod 3 = 1 then Io_intr else Io_ok (t mod 3)), os_tick = 0, os_home = Some ''/h''\<rparr>"

lemma fresh_home_progress: "progress (os_io fresh_home)"
  unfolding progress_def
proof
  fix t :: nat
  have "(3 * t + 2) mod 3 = 2" by presburger
  then show "\<exists>t' \<ge> t. os_io fresh_home t' \<noteq> Io_intr \<and> os_io fresh_home t' \<noteq> Io_ok 0"
    by (intro exI [of _ "3 * t + 2"]) (simp add: fresh_home_def)
qed

theorem cpfile_terminates_witness: "\<exists>r env'. cpfile ''/h/c'' ''/etc/gnuais.conf'' fresh_home = Some (r, env')"
  by (rule cpfile_terminates) (rule fresh_home_progress)

text \<open>
  C27. A copy is exact. If \<^const>\<open>cpfile\<close> reports success, the new file has the contents of the old one, byte for byte,
  however the transfers were cut and interrupted. It never overwrites a file, and whatever happens no other file is
  touched: a failed copy leaves nothing or the beginning of the contents under the new name.
\<close>

theorem cpfile_copies:
  assumes "cpfile dest src env = Some (r, env')"
  shows "(r = 0 \<and> os_files env src \<noteq> None \<and> os_files env dest = None \<and> os_files env' dest = os_files env src
      \<or> r = -1 \<and> (os_files env' dest = os_files env dest
          \<or> (\<exists>c n. os_files env src = Some c \<and> os_files env dest = None \<and> os_files env' dest = Some (take n c))))
    \<and> (\<forall>f. f \<noteq> dest \<longrightarrow> os_files env' f = os_files env f)"
proof (cases "os_files env src")
  case (Some c)
  show ?thesis
  proof (cases "may_create dest env")
    case True
    let ?env = "env\<lparr>os_files := (os_files env)(dest := Some [])\<rparr>"
    have "copy_loop dest c ?env = Some (r, env')" using assms Some True by (simp add: cpfile_def)
    from copy_loop_ok [OF this, unfolded copy_ok_def only_file_file fst_conv snd_conv, THEN spec, of "[]"]
    have "only_file dest env env' \<and> (\<exists>n. os_files env' dest = Some (take n c)) \<and> (r = 0 \<and> os_files env' dest = Some c \<or> r = -1)"
      by simp
    then obtain n where "only_file dest env env'" "os_files env' dest = Some (take n c)" "r = 0 \<and> os_files env' dest = Some c \<or> r = -1"
      by blast
    moreover have "os_files env dest = None" using True by (simp add: may_create_def)
    ultimately show ?thesis using Some by (auto simp: only_file_def)
  qed (use assms Some in \<open>simp add: cpfile_def\<close>)
qed (use assms in \<open>simp add: cpfile_def\<close>)

section \<open>Executing lines\<close>

lemma cstring_drop: "drop q buf' = drop q buf \<Longrightarrow> cstring buf' q = cstring buf q"
  by (simp add: cstring_def)

lemma tolower_nul: "c_tolower c = NUL \<longleftrightarrow> c = NUL"
proof -
  have "c_tolower c \<noteq> NUL" if "65 \<le> (of_char c :: nat)" "(of_char c :: nat) \<le> 90"
  proof
    assume "c_tolower c = NUL"
    then have "of_char (char_of (of_char c + 32 :: nat) :: char) = (0 :: nat)" using that by (simp add: c_tolower_def)
    then show False using that by (simp add: of_char_of)
  qed
  then show ?thesis by (cases "65 \<le> (of_char c :: nat) \<and> (of_char c :: nat) \<le> 90") (auto simp: c_tolower_def)
qed

lemma cstring_Cons:
  assumes "cstring buf p = Some t"
  shows "p < length buf \<and> (t = [] \<and> buf ! p = NUL \<or> t \<noteq> [] \<and> buf ! p \<noteq> NUL \<and> buf ! p = List.hd t \<and> cstring buf (p + 1) = Some (tl t))"
proof -
  have "drop p buf \<noteq> []" using assms by (auto simp: cstring_def split: if_splits)
  then have "p < length buf" by simp
  moreover from this have "drop p buf = buf ! p # drop (p + 1) buf" by (simp add: Cons_nth_drop_Suc)
  ultimately show ?thesis using assms by (cases "buf ! p = NUL") (auto simp: cstring_def split: if_splits)
qed

lemma cstring_ConsI: "p < length buf \<Longrightarrow> buf ! p \<noteq> NUL \<Longrightarrow> cstring buf (p + 1) = Some t \<Longrightarrow> cstring buf p = Some (buf ! p # t)"
proof -
  assume p: "p < length buf" "buf ! p \<noteq> NUL" "cstring buf (p + 1) = Some t"
  then have d: "drop p buf = buf ! p # drop (p + 1) buf" by (simp add: Cons_nth_drop_Suc)
  have "NUL \<in> set (drop (p + 1) buf)" "t = takeWhile (\<lambda>c. c \<noteq> NUL) (drop (p + 1) buf)"
    using p(3) unfolding cstring_def by (simp_all split: if_splits)
  then show ?thesis unfolding cstring_def d using p(2) by simp
qed

lemma strlwr_ok:
  "cstring buf p = Some t \<Longrightarrow> \<exists>buf'. strlwr buf p = Some buf' \<and> length buf' = length buf \<and> (\<forall>i < p. buf' ! i = buf ! i)
    \<and> cstring buf' p = Some (map c_tolower t) \<and> drop (p + length t) buf' = drop (p + length t) buf"
proof (induction t arbitrary: buf p)
  case Nil
  then show ?case using cstring_Cons [OF Nil] by (subst strlwr.simps) auto
next
  case (Cons c t)
  note c = cstring_Cons [OF Cons.prems, simplified]
  let ?b = "buf[p := c_tolower c]"
  have "drop (p + 1) ?b = drop (p + 1) buf" by simp
  from cstring_drop [OF this] have "cstring ?b (p + 1) = Some t" using c by simp
  from Cons.IH [OF this] obtain buf' where b: "strlwr ?b (p + 1) = Some buf'" "length buf' = length ?b"
      "\<forall>i < p + 1. buf' ! i = ?b ! i" "cstring buf' (p + 1) = Some (map c_tolower t)"
      "drop (p + 1 + length t) buf' = drop (p + 1 + length t) ?b"
    by blast
  have "buf' ! p = c_tolower c" using b(3) c by simp
  moreover have "p < length buf'" using b(2) c by simp
  ultimately have "cstring buf' p = Some (map c_tolower (c # t))"
    using cstring_ConsI [of p buf' "map c_tolower t"] b(4) c tolower_nul by auto
  moreover have "strlwr buf p = Some buf'" using c b(1) by (subst strlwr.simps) auto
  moreover have "drop (p + length (c # t)) buf' = drop (p + length (c # t)) buf" using b(5) by simp
  moreover have "\<forall>i < p. buf' ! i = buf ! i" using b(3) by simp
  ultimately show ?case using b(2) by simp
qed

text \<open>A line, given by its characters.\<close>

definition exec_line :: "'a cfgcmd list \<Rightarrow> string \<Rightarrow> 'a osenv_scheme \<Rightarrow> (int \<times> 'a osenv_scheme) option" where
  "exec_line cmds s env =
     (case tokens 255 s of
        Some (a # args) \<Rightarrow> if take 1 a = ''#'' then Some (0, env) else run_cmd cmds (map c_tolower a # args) env
      | _ \<Rightarrow> Some (0, env))"

lemma those_map_Some: "map f xs = map Some ys \<Longrightarrow> those (map f xs) = Some ys"
proof -
  assume m: "map f xs = map Some ys"
  have "those (map Some ys) = Some ys" by (induction ys) simp_all
  then show ?thesis unfolding m .
qed

lemma cstring_zero: "cstring buf p = Some t \<Longrightarrow> \<exists>t. cstring buf 0 = Some t"
  by (auto simp: cstring_def dest: in_set_dropD split: if_splits)

lemma cmdparse_exec:
  assumes "NUL \<notin> set s"
  shows "\<exists>buf'. length buf' = length (s @ NUL # junk) \<and> ((\<exists>r e. exec_line cmds s env = Some (r, e) \<and> r < 0) \<longrightarrow> (\<exists>t. cstring buf' 0 = Some t))
    \<and> cmdparse cmds (s @ NUL # junk) env = map_option (\<lambda>(r, env). (r, buf', env)) (exec_line cmds s env)"
proof -
  have "holds (s @ NUL # junk) 0 s junk" using assms by (simp add: holds_def)
  from parse_args_loop_ok [OF this, of "[]" 255] obtain ps buf' where p: "parse_args (s @ NUL # junk) = Some (ps, buf')"
      "length buf' = length (s @ NUL # junk)"
    and t: "case tokens 255 s of None \<Rightarrow> ps = [] | Some ts \<Rightarrow> map (cstring buf') ps = map Some ts
             \<and> (ps \<noteq> [] \<longrightarrow> (\<forall>q \<in> set (tl ps). List.hd ps + length (List.hd ts) < q))"
    by (auto simp: parse_args_def settled_def split: option.splits)
  show ?thesis
  proof (cases "ps = []")
    case True
    then have "exec_line cmds s env = Some (0, env)" using t by (auto simp: exec_line_def split: option.splits)
    then show ?thesis using p True by (intro exI [of _ buf']) (simp add: cmdparse_def)
  next
    case False
    then obtain q qs a ts where ps: "ps = q # qs" and ts: "tokens 255 s = Some (a # ts)" "cstring buf' q = Some a"
        "map (cstring buf') qs = map Some ts" "\<forall>i \<in> set qs. q + length a < i"
      using t by (cases ps; cases "tokens 255 s") auto
    note a = cstring_Cons [OF ts(2)]
    have hash: "buf' ! q = CHR ''#'' \<longleftrightarrow> take 1 a = ''#''" using a by (cases a) auto
    show ?thesis
    proof (cases "take 1 a = ''#''")
      case True
      then have "exec_line cmds s env = Some (0, env)" using ts(1) by (simp add: exec_line_def)
      then show ?thesis using p ps a hash True by (intro exI [of _ buf']) (simp add: cmdparse_def)
    next
      case False
      obtain buf2 where b: "strlwr buf' q = Some buf2" "length buf2 = length buf'" "cstring buf2 q = Some (map c_tolower a)"
          "drop (q + length a) buf2 = drop (q + length a) buf'"
        using strlwr_ok [OF ts(2)] by blast
      have "cstring buf2 i = cstring buf' i" if "i \<in> set qs" for i
      proof -
        have "i = q + length a + (i - (q + length a))" using ts(4) that by auto
        then have "drop i xs = drop (i - (q + length a)) (drop (q + length a) xs)" for xs :: string by simp
        then show ?thesis using b(4) cstring_drop by metis
      qed
      then have "map (cstring buf2) qs = map Some ts" using ts(3) by (metis (no_types, lifting) map_cong)
      then have "those (map (cstring buf2) ps) = Some (map c_tolower a # ts)"
        unfolding ps using b(3) those_map_Some [of "cstring buf2" "q # qs" "map c_tolower a # ts"] by simp
      moreover have "exec_line cmds s env = run_cmd cmds (map c_tolower a # ts) env" using False ts(1) by (simp add: exec_line_def)
      ultimately show ?thesis using p ps a hash False b cstring_zero [OF b(3)]
        by (intro exI [of _ buf2]) (auto simp: cmdparse_def map_option_case split: option.split)
    qed
  qed
qed

text \<open>The lines of a text, none longer than the line buffer, and their execution up to the first failing one.\<close>

function text_lines :: "string \<Rightarrow> string list" where
  "text_lines s = (let l = take_line (CFGLINE_LEN - 1) s in if l = [] then [] else l # text_lines (drop (length l) s))"
  by auto
termination
proof (relation "measure length", goal_cases)
  case (2 s l)
  then have "l \<noteq> []" "s \<noteq> []" by auto
  then show ?case by simp
qed simp

declare text_lines.simps [simp del]

fun exec_lines :: "'a cfgcmd list \<Rightarrow> int \<Rightarrow> string list \<Rightarrow> 'a osenv_scheme \<Rightarrow> (int option \<times> 'a osenv_scheme) option" where
  "exec_lines cmds n [] env = Some (None, env)"
| "exec_lines cmds n (l # ls) env = do {
     (r, env) \<leftarrow> exec_line cmds l env;
     if r < 0 then Some (Some (n + 1), env) else exec_lines cmds (n + 1) ls env
   }"

lemma take_line_prefix: "\<exists>r. s = take_line n s @ r"
  by (induction n s rule: take_line.induct) auto

lemma length_take_line: "length (take_line n s) \<le> n"
  by (induction n s rule: take_line.induct) auto

lemma read_lines_exec:
  "NUL \<notin> set content \<Longrightarrow> length line = CFGLINE_LEN \<Longrightarrow>
    \<exists>t. read_lines f cmds content line n env = (case exec_lines cmds n (text_lines content) env of
        None \<Rightarrow> None
      | Some (None, env) \<Rightarrow> Some (0, env)
      | Some (Some n, env) \<Rightarrow> Some (2, say (Stderr ''Problem in %s at line %d: %s'' [CStr f, CInt n, CStr t]) env))"
proof (induction content arbitrary: line n env rule: text_lines.induct)
  case (1 content)
  let ?l = "take_line (CFGLINE_LEN - 1) content"
  show ?case
  proof (cases "?l = []")
    case True
    then show ?thesis by (simp add: read_lines.simps text_lines.simps [of content])
  next
    case False
    obtain r where r: "content = ?l @ r" using take_line_prefix by blast
    then have nul: "NUL \<notin> set ?l" "NUL \<notin> set (drop (length ?l) content)" using 1(2) by (metis Un_iff set_append, metis in_set_dropD)
    let ?junk = "drop (length ?l + 1) line"
    have len: "length (?l @ NUL # ?junk) = CFGLINE_LEN"
      using length_take_line [of "CFGLINE_LEN - 1" content] 1(3) by (simp add: CFGLINE_LEN_def)
    obtain buf where b: "length buf = CFGLINE_LEN"
        "(\<exists>r e. exec_line cmds ?l env = Some (r, e) \<and> r < 0) \<longrightarrow> (\<exists>t. cstring buf 0 = Some t)"
        "cmdparse cmds (?l @ NUL # ?junk) env = map_option (\<lambda>(r, env). (r, buf, env)) (exec_line cmds ?l env)"
      using cmdparse_exec [OF nul(1), of ?junk cmds env] unfolding len by blast
    have tl: "text_lines content = ?l # text_lines (drop (length ?l) content)"
      using False by (subst text_lines.simps) (simp add: Let_def)
    show ?thesis
    proof (cases "exec_line cmds ?l env")
      case None
      then show ?thesis using False b(3) by (subst read_lines.simps) (simp add: tl Let_def)
    next
      case (Some re)
      obtain ret env1 where re: "re = (ret, env1)" by (rule prod.exhaust)
      show ?thesis
      proof (cases "ret < 0")
        case True
        then show ?thesis using False b Some re by (subst read_lines.simps) (auto simp: tl Let_def)
      next
        case neg: False
        then show ?thesis using 1(1) [OF refl False nul(2) b(1), of "n + 1" env1] False b(3) Some re
          by (subst read_lines.simps) (simp add: tl Let_def)
      qed
    qed
  qed
qed

text \<open>
  C29. A configuration file is the sequence of its lines. Reading a file executes its lines in order, each as the splitter and the
  table of directives say, up to the first one whose handler fails; then the result is 2 and the
  number of that line is reported. What earlier lines left in the buffer does not matter.
\<close>

theorem read_cfgfile_lines:
  assumes "os_files env f = Some content" "NUL \<notin> set content" "length stack = CFGLINE_LEN"
  shows "\<exists>t. read_cfgfile stack f cmds env = (case exec_lines cmds 0 (text_lines content) env of
        None \<Rightarrow> None
      | Some (None, env) \<Rightarrow> Some (0, env)
      | Some (Some n, env) \<Rightarrow> Some (2, say (Stderr ''Problem in %s at line %d: %s'' [CStr f, CInt n, CStr t]) env))"
  using read_lines_exec [OF assms(2,3), of f cmds 0 env] assms(1) by (simp add: read_cfgfile_def)

lemma text_lines_step:
  "NUL \<notin> set l \<Longrightarrow> CHR 0x0A \<notin> set l \<Longrightarrow> length l < CFGLINE_LEN - 1 \<Longrightarrow> text_lines (l @ CHR 0x0A # r) = (l @ [CHR 0x0A]) # text_lines r"
  "CHR 0x0A \<notin> set l \<Longrightarrow> length l < CFGLINE_LEN \<Longrightarrow> l \<noteq> [] \<Longrightarrow> text_lines l = [l]"
proof -
  have t: "CHR 0x0A \<notin> set l \<Longrightarrow> length l < n \<Longrightarrow> take_line n (l @ CHR 0x0A # r) = l @ [CHR 0x0A]" for n
    by (induction l arbitrary: n) (auto simp: less_Suc_eq_0_disj gr0_conv_Suc Suc_less_eq2)
  show "CHR 0x0A \<notin> set l \<Longrightarrow> length l < CFGLINE_LEN - 1 \<Longrightarrow> text_lines (l @ CHR 0x0A # r) = (l @ [CHR 0x0A]) # text_lines r"
    using t [of "CFGLINE_LEN - 1"] by (subst text_lines.simps) simp
  have u: "CHR 0x0A \<notin> set l \<Longrightarrow> length l \<le> n \<Longrightarrow> take_line n l = l" for n
  proof (induction l arbitrary: n)
    case (Cons c l)
    then show ?case by (cases n) auto
  qed simp
  show "CHR 0x0A \<notin> set l \<Longrightarrow> length l < CFGLINE_LEN \<Longrightarrow> l \<noteq> [] \<Longrightarrow> text_lines l = [l]"
    using u [of "CFGLINE_LEN - 1"] by (subst text_lines.simps, subst text_lines.simps) simp
qed

lemma write_loop_fails:
  assumes "write_loop dest data env = Some y"
  shows "os_io (snd y) = os_io env \<and> (\<not> fst y \<longrightarrow> (\<exists>t. os_io env t = Io_error))"
  using _ assms
proof (rule write_loop.raw_induct)
  fix wl :: "string \<Rightarrow> string \<Rightarrow> 'a osenv_scheme \<Rightarrow> (bool \<times> 'a osenv_scheme) option" and dest data env y
  assume IH: "\<And>dest data env y. wl dest data env = Some y \<Longrightarrow> os_io (snd y) = os_io env \<and> (\<not> fst y \<longrightarrow> (\<exists>t. os_io env t = Io_error))"
    and 1: "(let (r, env) = io env in
      case r of
        Io_ok k \<Rightarrow>
          let env = append_file dest (take k data) env; data = drop k data
          in if length data > 0 then wl dest data env else Some (True, env)
      | Io_intr \<Rightarrow> wl dest data env
      | Io_error \<Rightarrow> Some (False, env)) = Some y"
  show "os_io (snd y) = os_io env \<and> (\<not> fst y \<longrightarrow> (\<exists>t. os_io env t = Io_error))"
    using 1 IH [of dest data "env\<lparr>os_tick := Suc (os_tick env)\<rparr>" y]
      IH [of dest _ "append_file dest _ (env\<lparr>os_tick := Suc (os_tick env)\<rparr>)" y]
    by (cases "os_io env (os_tick env)") (auto simp: Let_def append_file_tick split: if_splits)
qed

lemma copy_loop_fails:
  assumes "copy_loop dest rest env = Some y"
  shows "fst y = -1 \<longrightarrow> (\<exists>t. os_io env t = Io_error \<or> os_io env t = Io_intr)"
  using _ assms
proof (rule copy_loop.raw_induct)
  fix cl :: "string \<Rightarrow> string \<Rightarrow> 'a osenv_scheme \<Rightarrow> (int \<times> 'a osenv_scheme) option" and dest rest env y
  assume IH: "\<And>dest rest env y. cl dest rest env = Some y \<Longrightarrow> fst y = -1 \<longrightarrow> (\<exists>t. os_io env t = Io_error \<or> os_io env t = Io_intr)"
    and 1: "(let (chunk, env) = read_chunk rest env in
      case chunk of
        None \<Rightarrow> Some (-1, env)
      | Some chunk \<Rightarrow>
          if length chunk > 0 then do {
            (ok, env) \<leftarrow> write_loop dest chunk env;
            if ok then cl dest (drop (length chunk) rest) env else Some (-1, env)
          }
          else let (r, env) = io env in Some (if r = Io_error then -1 else 0, env)) = Some y"
  let ?env = "env\<lparr>os_tick := Suc (os_tick env)\<rparr>"
  show "fst y = -1 \<longrightarrow> (\<exists>t. os_io env t = Io_error \<or> os_io env t = Io_intr)"
  proof (cases "os_io env (os_tick env)")
    case (Io_ok k)
    define chunk where "chunk = take (min 4096 (max 1 k)) rest"
    have r: "read_chunk rest env = (Some chunk, ?env)" by (simp add: read_chunk_def Io_ok chunk_def)
    show ?thesis
    proof (cases "length chunk > 0")
      case True
      with 1 r obtain ok env1 where w: "write_loop dest chunk ?env = Some (ok, env1)"
          "(if ok then cl dest (drop (length chunk) rest) env1 else Some (-1, env1)) = Some y"
        by (auto simp: bind_eq_Some_conv)
      have "os_io env1 = os_io env" "\<not> ok \<longrightarrow> (\<exists>t. os_io env t = Io_error)" using write_loop_fails [OF w(1)] by simp_all
      then show ?thesis using w(2) IH [of dest "drop (length chunk) rest" env1 y] by (cases ok) auto
    next
      case False
      then show ?thesis using 1 r by (auto split: if_splits)
    qed
  qed auto
qed

lemma cpfile_succeeds:
  assumes "os_files env src = Some c" "may_create dest env" "\<forall>t. \<exists>k. os_io env t = Io_ok (Suc k)"
  shows "\<exists>env'. cpfile dest src env = Some (0, env') \<and> os_files env' = (os_files env)(dest \<mapsto> c)"
proof -
  let ?env = "env\<lparr>os_files := (os_files env)(dest := Some [])\<rparr>"
  have io: "os_io env t \<noteq> Io_error" "os_io env t \<noteq> Io_intr" "os_io env t \<noteq> Io_ok 0" for t
    using assms(3) by (metis io_result.distinct(3), metis io_result.distinct(1), metis io_result.inject nat.distinct(1))
  have "progress (os_io ?env)" using io by (auto simp: progress_def)
  from copy_loop_ends [OF this] obtain r env' where cl: "copy_loop dest c ?env = Some (r, env')" by (metis surj_pair)
  from copy_loop_ok [OF this, unfolded copy_ok_def only_file_file fst_conv snd_conv, THEN spec, of "[]"]
  have "only_file dest env env'" "r = 0 \<and> os_files env' dest = Some c \<or> r = -1" by simp_all
  moreover have "r \<noteq> -1" using copy_loop_fails [OF cl] io by auto
  ultimately have "os_files env' = (os_files env)(dest \<mapsto> c)" "r = 0" by (auto simp: only_file_def)
  then show ?thesis using cl assms(1,2) by (simp add: cpfile_def)
qed

lemma mkdir_ok:
  assumes "os_files env p = None" "os_dirs env (dirname p)" "os_writable env (dirname p)"
  shows "\<exists>r. mkdir p env = (r, env\<lparr>os_dirs := (os_dirs env)(p := True)\<rparr>)"
proof (cases "os_dirs env p")
  case True
  then have "(os_dirs env)(p := True) = os_dirs env" by (simp add: fun_upd_idem)
  then show ?thesis using True by (simp add: mkdir_def may_create_def)
qed (use assms in \<open>simp add: mkdir_def may_create_def\<close>)

lemma say_simps [simp]:
  "os_files (say m env) = os_files env" "os_dirs (say m env) = os_dirs env" "os_writable (say m env) = os_writable env"
  "os_io (say m env) = os_io env" "os_tick (say m env) = os_tick env" "os_home (say m env) = os_home env"
  by (simp_all add: say_def)

lemma may_create_say [simp]: "may_create p (say m env) = may_create p env"
  by (simp add: may_create_def)

lemma dirname_config:
  "dirname (h @ ''/.config'') = h" "dirname (h @ ''/.config/gnuais'') = h @ ''/.config''"
  "dirname (h @ ''/.config/gnuais/config'') = h @ ''/.config/gnuais''"
  by (simp_all add: dirname_def)

text \<open>
  C30. The first start. A user without a configuration, on a system that has \<^verbatim>\<open>/etc/gnuais.conf\<close>, gets an exact copy of
  it in the home directory, and the lines of the copy are executed, if the system does its part: the home directory exists and the user
  may write in it and in the two directories \<^verbatim>\<open>.config\<close> and \<^verbatim>\<open>.config/gnuais\<close> below it, which are created where they are
  missing, and each transfer moves at least a byte. Nothing is asked of any other directory.
\<close>

theorem first_start:
  assumes "os_files env f = None" "os_home env = Some h" "os_files env (h @ ''/.config/gnuais/config'') = None"
    and "os_files env ''/etc/gnuais.conf'' = Some content" "NUL \<notin> set content" "length stack = CFGLINE_LEN"
    and "os_dirs env h" "\<forall>d \<in> {h, h @ ''/.config'', h @ ''/.config/gnuais''}. os_writable env d"
    and "os_files env (h @ ''/.config'') = None" "os_files env (h @ ''/.config/gnuais'') = None"
    and "\<not> os_dirs env (h @ ''/.config/gnuais/config'')" "\<forall>t. \<exists>k. os_io env t = Io_ok (Suc k)"
  shows "\<exists>env' t. os_files env' = (os_files env)(h @ ''/.config/gnuais/config'' \<mapsto> content)
    \<and> read_cfgfile stack f cmds env = (case exec_lines cmds 0 (text_lines content) env' of
        None \<Rightarrow> None
      | Some (None, env) \<Rightarrow> Some (0, env)
      | Some (Some n, env) \<Rightarrow> Some (2, say (Stderr ''Problem in %s at line %d: %s'' [CStr f, CInt n, CStr t]) env))"
proof -
  let ?conf = "h @ ''/.config/gnuais/config''"
  let ?e1 = "env\<lparr>os_dirs := (os_dirs env)(h @ ''/.config'' := True)\<rparr>"
  obtain r1 where m1: "mkdir (h @ ''/.config'') env = (r1, ?e1)"
    using mkdir_ok [of env "h @ ''/.config''"] assms(7-9) unfolding dirname_config by blast
  define e2 where "e2 = say (Hlog_at ''LOG_INFO'' ''Creating directory: ~/.config/gnuais/'' []) ?e1"
  let ?e3 = "e2\<lparr>os_dirs := (os_dirs e2)(h @ ''/.config/gnuais'' := True)\<rparr>"
  obtain r2 where m2: "mkdir (h @ ''/.config/gnuais'') e2 = (r2, ?e3)"
    using mkdir_ok [of e2 "h @ ''/.config/gnuais''"] assms(8,10) unfolding dirname_config by (auto simp: e2_def)
  define e4 where "e4 = (if r2 \<noteq> 0 then say (Hlog_at ''LOG_INFO'' ''~/.config/gnuais/ already exists'' []) ?e3 else ?e3)"
  have e4: "os_files e4 = os_files env" "may_create ?conf e4" "os_io e4 = os_io env"
    using assms(3,8,11) by (simp_all add: e4_def e2_def may_create_def dirname_config)
  define e5 where "e5 = say (Hlog_at ''LOG_WARNING'' ''It will be copied to your home directory (~/.config/gnuais/config)...'' [])
          (say (Hlog_at ''LOG_WARNING'' ''/etc/gnuais.conf found, but no ~/.config/gnuais/config found.'' []) e4)"
  obtain e6 where e6: "cpfile ?conf ''/etc/gnuais.conf'' e5 = Some (0, e6)" "os_files e6 = (os_files env)(?conf \<mapsto> content)"
    using cpfile_succeeds [of e5 "''/etc/gnuais.conf''" content ?conf] e4 assms(4,12) by (auto simp: e5_def)
  have "copy_config ?conf e4 = Some (0, say (Hlog_at ''LOG_NOTICE'' ''DONE'' []) e6)"
    using e4(1) assms(4) e6(1) by (simp add: copy_config_def copy_from_def e5_def)
  then have "find_config env = Some (Some content, say (Hlog_at ''LOG_NOTICE'' ''DONE'' []) e6)"
    using assms(2,3) m1 m2 e6(2) by (simp add: find_config_def e2_def [symmetric] e4_def [symmetric])
  then have r: "read_cfgfile stack f cmds env = read_lines f cmds content stack 0 (say (Hlog_at ''LOG_NOTICE'' ''DONE'' []) e6)"
    using assms(1) by (simp add: read_cfgfile_def)
  show ?thesis unfolding r using e6(2) read_lines_exec [OF assms(5,6), of f cmds 0 "say (Hlog_at ''LOG_NOTICE'' ''DONE'' []) e6"]
    by (intro exI [of _ "say (Hlog_at ''LOG_NOTICE'' ''DONE'' []) e6"]) simp
qed

text \<open>A freshly installed system with a well-behaved disk; only the home directory is writable.\<close>

definition fresh_disk :: osenv where
  "fresh_disk = fresh_home\<lparr>os_io := (\<lambda>t. Io_ok (Suc (t mod 7)))\<rparr>"

definition sample_config :: string where
  "sample_config = ''# x'' @ CHR 0x0A # ''mycall K''"

lemma sample_config_lines: "text_lines sample_config = [''# x'' @ [CHR 0x0A], ''mycall K'']"
  by (simp add: sample_config_def text_lines_step [where l = "''# x''", simplified] text_lines_step(2) CFGLINE_LEN_def)

lemma sample_config_exec: "exec_lines [] 0 (text_lines sample_config) env
    = Some (Some 2, say (Stderr ''No such configuration file directive: %s'' [CStr ''mycall'']) env)"
proof -
  have "tokens (Suc (Suc (Suc n))) (''# x'' @ [CHR 0x0A]) = Some [''#'', ''x'']" "tokens (Suc (Suc (Suc n))) ''mycall K'' = Some [''mycall'', ''K'']" for n
    by (simp_all add: first_token_def c_isspace_def)
  from this [of 252] have t: "tokens 255 (''# x'' @ [CHR 0x0A]) = Some [''#'', ''x'']" "tokens 255 ''mycall K'' = Some [''mycall'', ''K'']"
    by simp_all
  show ?thesis unfolding sample_config_lines using t
    by (simp add: exec_line_def run_cmd_def find_cmd_def c_tolower_def)
qed

theorem read_cfgfile_lines_witness:
  "\<exists>t env'. read_cfgfile (replicate CFGLINE_LEN CHR ''?'') ''/etc/gnuais.conf'' [] fresh_home = Some (2, env')
    \<and> last (os_msgs env') = Stderr ''Problem in %s at line %d: %s'' [CStr ''/etc/gnuais.conf'', CInt 2, CStr t]"
proof -
  have "os_files fresh_home ''/etc/gnuais.conf'' = Some sample_config" by (simp add: fresh_home_def sample_config_def)
  moreover have "NUL \<notin> set sample_config" by (simp add: sample_config_def)
  ultimately show ?thesis using read_cfgfile_lines [of fresh_home "''/etc/gnuais.conf''" sample_config "replicate CFGLINE_LEN CHR ''?''" "[]"]
    by (auto simp: sample_config_exec say_def)
qed

theorem first_start_witness:
  "\<exists>env'. read_cfgfile (replicate CFGLINE_LEN CHR ''?'') ''gnuais.conf'' [] fresh_disk = Some (2, env')
    \<and> os_files env' ''/h/.config/gnuais/config'' = Some sample_config"
proof -
  have "os_files fresh_disk ''/etc/gnuais.conf'' = Some sample_config" by (simp add: fresh_disk_def fresh_home_def sample_config_def)
  moreover have "NUL \<notin> set sample_config" by (simp add: sample_config_def)
  ultimately show ?thesis
    using first_start [of fresh_disk "''gnuais.conf''" "''/h''" sample_config "replicate CFGLINE_LEN CHR ''?''" "[]"]
    by (auto simp: sample_config_exec fresh_disk_def fresh_home_def)
qed

theorem cpfile_copies_witness:
  "\<exists>env'. cpfile ''/h/c'' ''/etc/gnuais.conf'' fresh_disk = Some (0, env') \<and> os_files env' ''/h/c'' = Some sample_config"
proof -
  have f: "os_files fresh_disk ''/etc/gnuais.conf'' = Some sample_config" "may_create ''/h/c'' fresh_disk"
    "\<forall>t. \<exists>k. os_io fresh_disk t = Io_ok (Suc k)"
    by (simp_all add: fresh_disk_def fresh_home_def sample_config_def may_create_def dirname_def)
  from cpfile_succeeds [OF f] obtain env' where c: "cpfile ''/h/c'' ''/etc/gnuais.conf'' fresh_disk = Some (0, env')" by blast
  from cpfile_copies [OF this] c f(1) show ?thesis by auto
qed

section \<open>What the table keeps, the reader keeps\<close>

text \<open>A property of the whole state that neither messages nor the file system matter for, and that every handler keeps.\<close>

definition cmds_keep :: "('a osenv_scheme \<Rightarrow> bool) \<Rightarrow> 'a cfgcmd list \<Rightarrow> bool" where
  "cmds_keep P cmds \<longleftrightarrow> (\<forall>env env'. osenv.more env' = osenv.more env \<longrightarrow> P env \<longrightarrow> P env')
     \<and> (\<forall>c \<in> set cmds. \<forall>argv env r env'. P env \<longrightarrow> c_function c argv env = Some (r, env') \<longrightarrow> P env')"

lemma more_simps [simp]:
  "osenv.more (say m env) = osenv.more env" "osenv.more (append_file p s env) = osenv.more env"
  by (simp_all add: say_def append_file_def)

lemma cmds_keep_say: "cmds_keep P cmds \<Longrightarrow> P env \<Longrightarrow> P (say m env)"
  unfolding cmds_keep_def using more_simps(1) by blast

lemma run_cmd_keeps:
  assumes "cmds_keep P cmds" "P env" "run_cmd cmds argv env = Some (r, env')"
  shows "P env'"
proof (cases "find_cmd cmds (argv ! 0)")
  case None
  then show ?thesis using assms cmds_keep_say [OF assms(1,2)] by (auto simp: run_cmd_def)
next
  case (Some c)
  then have "c \<in> set cmds" unfolding find_cmd_def by (auto dest: find_SomeD)
  moreover have "c_function c argv env = Some (r, env')" using Some assms(3) by (simp add: run_cmd_def)
  ultimately show ?thesis using assms(1,2) unfolding cmds_keep_def by blast
qed

lemma exec_line_keeps: "cmds_keep P cmds \<Longrightarrow> P env \<Longrightarrow> exec_line cmds s env = Some (r, env') \<Longrightarrow> P env'"
  using run_cmd_keeps [of P cmds env] by (auto simp: exec_line_def split: option.splits list.splits if_splits)

lemma cmdparse_keeps: "cmds_keep P cmds \<Longrightarrow> P env \<Longrightarrow> cmdparse cmds buf env = Some (r, buf', env') \<Longrightarrow> P env'"
  using run_cmd_keeps [of P cmds env] by (auto simp: cmdparse_def bind_eq_Some_conv split: if_splits)

lemma read_lines_keeps:
  "cmds_keep P cmds \<Longrightarrow> P env \<Longrightarrow> read_lines f cmds content line n env = Some (r, env') \<Longrightarrow> P env'"
proof (induction content arbitrary: line n env rule: text_lines.induct)
  case (1 content)
  let ?l = "take_line (CFGLINE_LEN - 1) content"
  show ?case
  proof (cases "?l = []")
    case True
    then show ?thesis using 1(3,4) by (simp add: read_lines.simps)
  next
    case False
    let ?line = "?l @ NUL # drop (length ?l + 1) line"
    have step: "read_lines f cmds content line n env = do {
        (ret, line, env) \<leftarrow> cmdparse cmds ?line env;
        if ret < 0 then do {
          s \<leftarrow> cstring line 0;
          Some (2, say (Stderr ''Problem in %s at line %d: %s'' [CStr f, CInt (n + 1), CStr s]) env)
        } else read_lines f cmds (drop (length ?l) content) line (n + 1) env }"
      using False unfolding read_lines.simps [of f cmds content line n env] Let_def by (simp only: if_False)
    obtain ret buf e where c: "cmdparse cmds ?line env = Some (ret, buf, e)"
      using 1(4) unfolding step by (cases "cmdparse cmds ?line env") auto
    have k: "(if ret < 0 then do {
          s \<leftarrow> cstring buf 0;
          Some (2, say (Stderr ''Problem in %s at line %d: %s'' [CStr f, CInt (n + 1), CStr s]) e)
        } else read_lines f cmds (drop (length ?l) content) buf (n + 1) e) = Some (r, env')"
      using 1(4) unfolding step c by simp
    have e: "P e" using cmdparse_keeps [OF 1(2,3) c] .
    have say: "P (say m e)" for m using cmds_keep_say [OF 1(2) e] .
    show ?thesis using k 1(1) [OF refl False 1(2) e] say by (auto simp: bind_eq_Some_conv split: if_splits)
  qed
qed

lemma mkdir_more: "mkdir p env = (r, env') \<Longrightarrow> osenv.more env' = osenv.more env"
  by (auto simp: mkdir_def split: if_splits)

lemma cpfile_more: "cpfile dest src env = Some (r, env') \<Longrightarrow> osenv.more env' = osenv.more env"
proof -
  assume c: "cpfile dest src env = Some (r, env')"
  have o: "osenv.more e' = osenv.more e" if "only_file dest e e'" for e e' :: "'a osenv_scheme"
    using that by (cases e; cases e') (simp add: only_file_def)
  show ?thesis
  proof (cases "\<exists>c. os_files env src = Some c \<and> may_create dest env")
    case True
    then obtain content where co: "os_files env src = Some content" "may_create dest env" by blast
    let ?env = "env\<lparr>os_files := (os_files env)(dest := Some [])\<rparr>"
    have "copy_loop dest content ?env = Some (r, env')" using c co by (simp add: cpfile_def)
    from copy_loop_ok [OF this, unfolded copy_ok_def only_file_file fst_conv snd_conv, THEN spec, of "[]"]
    show ?thesis using o by simp
  qed (use c in \<open>auto simp: cpfile_def split: option.splits if_splits\<close>)
qed

lemma find_config_more: "find_config env = Some (fp, env') \<Longrightarrow> osenv.more env' = osenv.more env"
proof -
  assume f: "find_config env = Some (fp, env')"
  obtain h where h: "os_home env = Some h" using f by (auto simp: find_config_def bind_eq_Some_conv)
  obtain r1 e1 where m1: "mkdir (h @ ''/.config'') env = (r1, e1)" by (rule prod.exhaust)
  define e2 where "e2 = say (Hlog_at ''LOG_INFO'' ''Creating directory: ~/.config/gnuais/'' []) e1"
  obtain r2 e3 where m2: "mkdir (h @ ''/.config/gnuais'') e2 = (r2, e3)" by (rule prod.exhaust)
  have cc: "copy_config conf e = Some (r, e') \<Longrightarrow> osenv.more e' = osenv.more e" for conf r and e e' :: "'a osenv_scheme"
    by (auto simp: copy_config_def copy_from_def Let_def bind_eq_Some_conv dest!: cpfile_more split: if_splits)
  have e3: "osenv.more e3 = osenv.more env" using mkdir_more [OF m1] mkdir_more [OF m2] by (simp add: e2_def)
  show ?thesis using f h m1 m2 mkdir_more [OF m1] e3
    by (auto simp: find_config_def Let_def e2_def [symmetric] bind_eq_Some_conv dest!: cc split: option.splits if_splits)
qed

lemma read_cfgfile_keeps:
  assumes "cmds_keep P cmds" "P env" "read_cfgfile stack f cmds env = Some (r, env')"
  shows "P env'"
proof -
  obtain fp e where e: "(case os_files env f of Some content \<Rightarrow> Some (Some content, env) | None \<Rightarrow> find_config env) = Some (fp, e)"
    using assms(3) by (auto simp: read_cfgfile_def bind_eq_Some_conv)
  then have "osenv.more e = osenv.more env" by (auto dest: find_config_more split: option.splits)
  then have pe: "P e" using assms(1,2) unfolding cmds_keep_def by blast
  show ?thesis using assms(3) e pe read_lines_keeps [OF assms(1) pe] cmds_keep_say [OF assms(1) pe]
    by (auto simp: read_cfgfile_def split: option.splits)
qed

end
