(* ===== verification/Config.thy ===== *)
theory Config
  imports Cfgread Ais_World "HOL-Library.Sublist"
begin

text \<open>
  cfg.c: the configuration of the program, its directives and its command line; from hlog.c the names of the
  log levels and destinations. Pointers to C strings that may be null are options.
\<close>

section \<open>The configuration\<close>

definition SOUND_CHANNELS_MONO :: int where "SOUND_CHANNELS_MONO = 1"
definition SOUND_CHANNELS_BOTH :: int where "SOUND_CHANNELS_BOTH = 2"
definition SOUND_CHANNELS_LEFT :: int where "SOUND_CHANNELS_LEFT = 3"
definition SOUND_CHANNELS_RIGHT :: int where "SOUND_CHANNELS_RIGHT = 4"
definition UPLINK_JSON :: int where "UPLINK_JSON = 1"
definition L_STDERR :: int where "L_STDERR = 1"
definition L_SYSLOG :: int where "L_SYSLOG = 2"
definition L_FILE :: int where "L_FILE = 3"

record uplink_config_t =
  up_proto :: int
  up_name :: string
  up_url :: string

record config = osenv +
  g_cfgfile :: string
  g_pidfile :: "string option"
  g_logdir :: "string option"
  g_logname :: string
  g_mycall :: "string option"
  g_myemail :: "string option"
  g_mylat :: cfloat
  g_mylng :: cfloat
  g_have_my_loc :: bool
  g_sound_device :: "string option"
  g_sound_in_file :: "string option"
  g_sound_out_file :: "string option"
  g_sound_channels :: int
  g_sound_levellog :: int
  g_mysql_host :: "string option"
  g_mysql_db :: "string option"
  g_mysql_user :: "string option"
  g_mysql_password :: "string option"
  g_mysql_keepsmall :: int
  g_mysql_oldlimit :: int
  g_serial_port :: "string option"
  g_uplink_config :: "uplink_config_t list"
  g_new_uplink_config :: "uplink_config_t list"
  g_fork_a_daemon :: int
  g_stats_interval :: int
  g_expiry_interval :: int
  g_skip_type :: "int list"
  g_log_dest :: int
  g_log_level :: int
  g_log_dir :: "string option"
  g_atof :: "string \<Rightarrow> cfloat"

text \<open>The initial values of the global variables, in an environment that is given.\<close>

definition config0 :: "osenv \<Rightarrow> (string \<Rightarrow> cfloat) \<Rightarrow> config" where
  "config0 env atof = osenv.extend env
     \<lparr>g_cfgfile = ''gnuais.conf'', g_pidfile = None, g_logdir = None, g_logname = ''gnuais'', g_mycall = None, g_myemail = None,
      g_mylat = -200, g_mylng = -200, g_have_my_loc = False, g_sound_device = None, g_sound_in_file = None, g_sound_out_file = None,
      g_sound_channels = SOUND_CHANNELS_MONO, g_sound_levellog = 0, g_mysql_host = None, g_mysql_db = None, g_mysql_user = None,
      g_mysql_password = None, g_mysql_keepsmall = 0, g_mysql_oldlimit = 0, g_serial_port = None, g_uplink_config = [],
      g_new_uplink_config = [], g_fork_a_daemon = 0, g_stats_interval = 0, g_expiry_interval = 0,
      g_skip_type = replicate (MAX_AIS_PACKET_TYPE + 1) 0, g_log_dest = L_STDERR, g_log_level = 6, g_log_dir = None, g_atof = atof\<rparr>"

section \<open>Handlers\<close>

text \<open>
  An interval like \<^verbatim>\<open>1h30m\<close>: the digits before each letter count in its unit. \<open>np\<close> holds the characters since
  the last letter. An \<^verbatim>\<open>int\<close> product out of range is undefined.
\<close>

definition mult_int :: "int \<Rightarrow> int \<Rightarrow> int option" where
  "mult_int m i = (if - (2 ^ 31) \<le> m * i \<and> m * i < 2 ^ 31 then Some (m * i) else None)"

definition unit_seconds :: "char \<Rightarrow> int" where
  "unit_seconds c = (if c = CHR ''s'' then 1 else if c = CHR ''m'' then 60 else if c = CHR ''h'' then 60 * 60
     else if c = CHR ''d'' then 24 * 60 * 60 else 0)"

fun interval_loop :: "int \<Rightarrow> string \<Rightarrow> string \<Rightarrow> int option" where
  "interval_loop t np [] = (if np \<noteq> [] then do { i \<leftarrow> atoi np; Some (t + i) } else Some t)"
| "interval_loop t np (p # s) =
     (if \<not> c_isdigit p then do {
        i \<leftarrow> atoi np;
        x \<leftarrow> mult_int (unit_seconds (c_tolower p)) i;
        interval_loop (t + x) [] s
      } else interval_loop t (np @ [p]) s)"

definition parse_interval :: "string \<Rightarrow> int option" where
  "parse_interval origs = interval_loop 0 [] origs"

definition do_interval :: "int \<Rightarrow> string list \<Rightarrow> (int \<times> int) option" where
  "do_interval dest argv =
     (if length argv < 2 then Some (-1, dest) else do { t \<leftarrow> parse_interval (argv ! 1); Some (0, wrap32 t) })"

definition do_skip_type :: "string list \<Rightarrow> config \<Rightarrow> (int \<times> config) option" where
  "do_skip_type argv cfg =
     (if length argv < 2 then Some (-1, cfg)
      else do {
        i \<leftarrow> atoi (argv ! 1);
        if i > 0 \<and> i \<le> int MAX_AIS_PACKET_TYPE then do {
          sk \<leftarrow> arr_set (g_skip_type cfg) (nat i) 1;
          Some (0, cfg\<lparr>g_skip_type := sk\<rparr>)
        }
        else Some (-1, say (Hlog_at ''LOG_CRIT'' ''skip_type value out of range: %d'' [CInt i]) cfg)
      })"

definition do_sound_ch :: "string list \<Rightarrow> config \<Rightarrow> int \<times> config" where
  "do_sound_ch argv cfg =
     (if length argv < 2 then (-1, cfg)
      else if strcasecmp_eq (argv ! 1) ''mono'' then (0, cfg\<lparr>g_sound_channels := SOUND_CHANNELS_MONO\<rparr>)
      else if strcasecmp_eq (argv ! 1) ''both'' then (0, cfg\<lparr>g_sound_channels := SOUND_CHANNELS_BOTH\<rparr>)
      else if strcasecmp_eq (argv ! 1) ''left'' then (0, cfg\<lparr>g_sound_channels := SOUND_CHANNELS_LEFT\<rparr>)
      else if strcasecmp_eq (argv ! 1) ''right'' then (0, cfg\<lparr>g_sound_channels := SOUND_CHANNELS_RIGHT\<rparr>)
      else (-1, say (Hlog_at ''LOG_CRIT'' ''SoundChannels value unknown: %s'' [CStr (argv ! 1)]) cfg))"

text \<open>With only three arguments the fourth entry of the vector is the null pointer, which is copied as a string.\<close>

definition do_uplink :: "string list \<Rightarrow> config \<Rightarrow> (int \<times> config) option" where
  "do_uplink argv cfg =
     (if length argv < 3 then Some (-1, cfg)
      else if strcasecmp_eq (argv ! 2) ''json'' then do {
        url \<leftarrow> arr_get argv 3;
        let l = \<lparr>up_proto = UPLINK_JSON, up_name = argv ! 1, up_url = url\<rparr>;
        Some (0, cfg\<lparr>g_new_uplink_config := l # g_new_uplink_config cfg\<rparr>)
      }
      else Some (-2, say (Hlog_at ''LOG_ERR'' (''Uplink: Unsupported uplink protocol '' @ CHR 0x27 # ''%s'' @ [CHR 0x27]) [CStr (argv ! 2)]) cfg))"

fun free_uplink_config :: "uplink_config_t list \<Rightarrow> uplink_config_t list" where
  "free_uplink_config [] = []"
| "free_uplink_config (this # lc) = free_uplink_config lc"

section \<open>The table of directives\<close>

definition set_string :: "string \<Rightarrow> (config \<Rightarrow> string option) \<Rightarrow> (string option \<Rightarrow> config \<Rightarrow> config) \<Rightarrow> unit config_ext cfgcmd" where
  "set_string n get upd = \<lparr>c_name = n, c_function = \<lambda>argv cfg. let (r, v) = do_string (get cfg) argv in Some (r, upd v cfg)\<rparr>"

definition set_int :: "string \<Rightarrow> (config \<Rightarrow> int) \<Rightarrow> (int \<Rightarrow> config \<Rightarrow> config) \<Rightarrow> unit config_ext cfgcmd" where
  "set_int n get upd = \<lparr>c_name = n, c_function = \<lambda>argv cfg. do { (r, v) \<leftarrow> do_int (get cfg) argv; Some (r, upd v cfg) }\<rparr>"

definition set_interval :: "string \<Rightarrow> (config \<Rightarrow> int) \<Rightarrow> (int \<Rightarrow> config \<Rightarrow> config) \<Rightarrow> unit config_ext cfgcmd" where
  "set_interval n get upd = \<lparr>c_name = n, c_function = \<lambda>argv cfg. do { (r, v) \<leftarrow> do_interval (get cfg) argv; Some (r, upd v cfg) }\<rparr>"

definition set_float :: "string \<Rightarrow> (config \<Rightarrow> cfloat) \<Rightarrow> (cfloat \<Rightarrow> config \<Rightarrow> config) \<Rightarrow> unit config_ext cfgcmd" where
  "set_float n get upd = \<lparr>c_name = n, c_function = \<lambda>argv cfg. let (r, v) = do_float (g_atof cfg) (get cfg) argv in Some (r, upd v cfg)\<rparr>"

definition set_toggle :: "string \<Rightarrow> (config \<Rightarrow> int) \<Rightarrow> (int \<Rightarrow> config \<Rightarrow> config) \<Rightarrow> unit config_ext cfgcmd" where
  "set_toggle n get upd = \<lparr>c_name = n, c_function = \<lambda>argv cfg. let (r, v) = do_toggle (get cfg) argv in Some (r, upd v cfg)\<rparr>"

definition cfg_cmds :: "unit config_ext cfgcmd list" where
  "cfg_cmds =
    [set_string ''logdir'' g_logdir (\<lambda>v cfg. cfg\<lparr>g_logdir := v\<rparr>),
     set_string ''mycall'' g_mycall (\<lambda>v cfg. cfg\<lparr>g_mycall := v\<rparr>),
     set_string ''myemail'' g_myemail (\<lambda>v cfg. cfg\<lparr>g_myemail := v\<rparr>),
     set_float ''latitude'' g_mylat (\<lambda>v cfg. cfg\<lparr>g_mylat := v\<rparr>),
     set_float ''longitude'' g_mylng (\<lambda>v cfg. cfg\<lparr>g_mylng := v\<rparr>),
     set_interval ''statsinterval'' g_stats_interval (\<lambda>v cfg. cfg\<lparr>g_stats_interval := v\<rparr>),
     set_interval ''expiryinterval'' g_expiry_interval (\<lambda>v cfg. cfg\<lparr>g_expiry_interval := v\<rparr>),
     \<lparr>c_name = ''uplink'', c_function = do_uplink\<rparr>,
     set_string ''mysql_host'' g_mysql_host (\<lambda>v cfg. cfg\<lparr>g_mysql_host := v\<rparr>),
     set_string ''mysql_db'' g_mysql_db (\<lambda>v cfg. cfg\<lparr>g_mysql_db := v\<rparr>),
     set_string ''mysql_user'' g_mysql_user (\<lambda>v cfg. cfg\<lparr>g_mysql_user := v\<rparr>),
     set_string ''mysql_password'' g_mysql_password (\<lambda>v cfg. cfg\<lparr>g_mysql_password := v\<rparr>),
     set_toggle ''mysql_keepsmall'' g_mysql_keepsmall (\<lambda>v cfg. cfg\<lparr>g_mysql_keepsmall := v\<rparr>),
     set_int ''mysql_oldlimit'' g_mysql_oldlimit (\<lambda>v cfg. cfg\<lparr>g_mysql_oldlimit := v\<rparr>),
     set_string ''sounddevice'' g_sound_device (\<lambda>v cfg. cfg\<lparr>g_sound_device := v\<rparr>),
     set_string ''soundinfile'' g_sound_in_file (\<lambda>v cfg. cfg\<lparr>g_sound_in_file := v\<rparr>),
     set_string ''soundoutfile'' g_sound_out_file (\<lambda>v cfg. cfg\<lparr>g_sound_out_file := v\<rparr>),
     \<lparr>c_name = ''soundchannels'', c_function = \<lambda>argv cfg. Some (do_sound_ch argv cfg)\<rparr>,
     set_int ''soundlevellog'' g_sound_levellog (\<lambda>v cfg. cfg\<lparr>g_sound_levellog := v\<rparr>),
     set_string ''serialport'' g_serial_port (\<lambda>v cfg. cfg\<lparr>g_serial_port := v\<rparr>),
     set_string ''serial_port'' g_serial_port (\<lambda>v cfg. cfg\<lparr>g_serial_port := v\<rparr>),
     \<lparr>c_name = ''skip_type'', c_function = do_skip_type\<rparr>]"

section \<open>Reading the configuration\<close>

definition valid_aprsis_call :: "string \<Rightarrow> bool" where
  "valid_aprsis_call s \<longleftrightarrow> \<not> length s > 12 \<and> \<not> length s < 3"

fun strupr :: "string \<Rightarrow> string" where
  "strupr [] = []"
| "strupr (p # s) = c_toupper p # strupr s"

text \<open>
  \<open>complete\<close> is what \<^verbatim>\<open>read_config\<close> does after the file has been read: defaults, checks, and the change to the new uplinks.
\<close>

definition check_mycall :: "config \<Rightarrow> bool \<times> config" where
  "check_mycall cfg =
     (case g_mycall cfg of
        None \<Rightarrow> (False, say (Hlog_at ''LOG_WARNING'' ''Config: mycall is not defined - using: %s.'' [CStr ''NOCALLDEFINED''])
                  (cfg\<lparr>g_mycall := Some ''NOCALLDEFINED''\<rparr>))
      | Some c \<Rightarrow> if \<not> valid_aprsis_call c
          then (True, say (Hlog_at ''LOG_CRIT'' ''Config: mycall '%s' is not valid.'' [CStr c]) cfg)
          else (False, cfg))"

definition default_logdir :: "config \<Rightarrow> config" where
  "default_logdir cfg =
     (case g_log_dir cfg of
        Some d \<Rightarrow> cfg\<lparr>g_logdir := Some d\<rparr>
      | None \<Rightarrow>
          if g_logdir cfg = None then
            (if g_log_dest cfg = L_FILE
             then say (Hlog_at ''LOG_WARNING'' ''Config: logdir not defined. Using . as log directory'' []) cfg else cfg)
              \<lparr>g_logdir := Some ''.''\<rparr>
          else cfg)"

definition default_myemail :: "config \<Rightarrow> config" where
  "default_myemail cfg =
     (if g_myemail cfg = None then
        say (Hlog_at ''LOG_WARNING'' ''Config: myemail is not defined - using: %s.'' [CStr ''notdefined@notdefined''])
          (cfg\<lparr>g_myemail := Some ''notdefined@notdefined''\<rparr>)
      else cfg)"

definition choose_sound :: "config \<Rightarrow> config" where
  "choose_sound cfg =
     (let cfg = (if g_sound_in_file cfg = None \<and> g_sound_device cfg = None then
                   say (Hlog_at ''LOG_WARNING'' ''Config: SoundDevice is not defined - using: %s'' [CStr ''default''])
                     (cfg\<lparr>g_sound_device := Some ''default''\<rparr>)
                 else cfg)
      in if g_sound_in_file cfg \<noteq> None \<and> g_sound_device cfg \<noteq> None then cfg\<lparr>g_sound_device := None\<rparr> else cfg)"

definition my_location :: "config \<Rightarrow> config" where
  "my_location cfg =
     (let cfg = cfg\<lparr>g_have_my_loc := g_mylat cfg > -90 \<and> g_mylat cfg < 90 \<and> g_mylng cfg > -180 \<and> g_mylng cfg < 180\<rparr>
      in if g_have_my_loc cfg then cfg\<lparr>g_mylat := lat2rad (g_mylat cfg), g_mylng := lon2rad (g_mylng cfg)\<rparr> else cfg)"

definition install_uplinks :: "config \<Rightarrow> config" where
  "install_uplinks cfg =
     (let cfg = cfg\<lparr>g_uplink_config := free_uplink_config (g_uplink_config cfg)\<rparr>
      in cfg\<lparr>g_uplink_config := g_new_uplink_config cfg, g_new_uplink_config := []\<rparr>)"

definition default_pidfile :: "config \<Rightarrow> config" where
  "default_pidfile cfg =
     (if g_pidfile cfg = None then cfg\<lparr>g_pidfile := Some (the (g_logdir cfg) @ ''/'' @ g_logname cfg @ ''.pid'')\<rparr> else cfg)"

definition complete :: "config \<Rightarrow> int \<times> config" where
  "complete cfg =
     (let (failed, cfg) = check_mycall (default_logdir cfg);
          cfg = install_uplinks (my_location (choose_sound (default_myemail cfg)))
      in if failed then (-1, cfg) else (0, default_pidfile cfg))"

definition read_config :: "char list \<Rightarrow> config \<Rightarrow> (int \<times> config) option" where
  "read_config stack cfg = do {
     (r, cfg) \<leftarrow> read_cfgfile stack (g_cfgfile cfg) cfg_cmds cfg;
     Some (if r \<noteq> 0 then (-1, cfg) else complete cfg)
   }"

section \<open>The command line\<close>

definition log_levelnames :: "string list" where
  "log_levelnames = [''EMERG'', ''ALERT'', ''CRIT'', ''ERR'', ''WARNING'', ''NOTICE'', ''INFO'', ''DEBUG'']"

definition log_destnames :: "string list" where
  "log_destnames = [''none'', ''stderr'', ''syslog'', ''file'']"

fun pick_loglevel_loop :: "int \<Rightarrow> string \<Rightarrow> string list \<Rightarrow> int" where
  "pick_loglevel_loop i s [] = -1"
| "pick_loglevel_loop i s (n # ns) = (if strcasecmp_eq s n then i else pick_loglevel_loop (i + 1) s ns)"

definition pick_loglevel :: "string \<Rightarrow> string list \<Rightarrow> int" where
  "pick_loglevel s names = pick_loglevel_loop 0 s names"

text \<open>
  The options are given as \<^verbatim>\<open>getopt\<close> returns them for \<^verbatim>\<open>"c:fn:r:e:o:l:s:?h"\<close>: a character and its argument.
\<close>

definition cmdline_option :: "char \<times> string \<Rightarrow> bool \<times> config \<Rightarrow> bool \<times> config" where
  "cmdline_option = (\<lambda>(s, optarg) (failed, cfg).
     if s = CHR ''c'' then (failed, cfg\<lparr>g_cfgfile := optarg\<rparr>)
     else if s = CHR ''f'' then (failed, cfg\<lparr>g_fork_a_daemon := 1\<rparr>)
     else if s = CHR ''n'' then (failed, cfg\<lparr>g_logname := optarg\<rparr>)
     else if s = CHR ''r'' then (failed, cfg\<lparr>g_log_dir := Some optarg\<rparr>)
     else if s = CHR ''e'' then
       (if pick_loglevel optarg log_levelnames > -1 then (failed, cfg\<lparr>g_log_level := pick_loglevel optarg log_levelnames\<rparr>)
        else (True, say (Stderr (''Log level unknown: '' @ CHR 0x22 # ''%s'' @ [CHR 0x22]) [CStr optarg]) cfg))
     else if s = CHR ''o'' then
       (if pick_loglevel optarg log_destnames > -1 then (failed, cfg\<lparr>g_log_dest := pick_loglevel optarg log_destnames\<rparr>)
        else (True, say (Stderr (''Log destination unknown: '' @ CHR 0x22 # ''%s'' @ [CHR 0x22]) [CStr optarg]) cfg))
     else if s = CHR ''l'' then (failed, cfg\<lparr>g_sound_in_file := Some optarg\<rparr>)
     else if s = CHR ''s'' then (failed, cfg\<lparr>g_sound_out_file := Some optarg\<rparr>)
     else if s = CHR ''?'' \<or> s = CHR ''h'' then (True, say (Stderr ''%s'' [CStr ''gnuais v0.3.3'']) cfg)
     else (failed, cfg))"

text \<open>The result is the exit status or the configuration to go on with.\<close>

definition parse_cmdline :: "(char \<times> string) list \<Rightarrow> config \<Rightarrow> int + config" where
  "parse_cmdline opts cfg =
     (let (failed, cfg) = foldl (\<lambda>st opt. cmdline_option opt st) (False, cfg) opts;
          (failed, cfg) = (if g_log_dest cfg = L_FILE \<and> g_log_dir cfg = None
            then (True, say (Stderr ''Log destination set to 'file' but no log directory specified!'' []) cfg) else (failed, cfg))
      in if failed then Inl 1 else Inr cfg)"

section \<open>Finding a directive\<close>

lemma take_prefix: "take (length a) s = a \<longleftrightarrow> prefix a s"
  by (metis append_eq_conv_conj prefix_def take_is_prefix)

text \<open>Among lower case words the comparison of the table search is the prefix order.\<close>

definition lower :: "string \<Rightarrow> bool" where
  "lower s \<longleftrightarrow> map c_tolower s = s"

lemma strncasecmp_prefix:
  assumes "lower n" "lower a" "NUL \<notin> set a"
  shows "strncasecmp_eq n a (length a) \<longleftrightarrow> prefix a n"
proof -
  have "map c_tolower (take (length a) (n @ [NUL])) = take (length a) (n @ [NUL])"
    using assms(1) by (simp add: lower_def take_map [symmetric] c_tolower_def)
  then have "strncasecmp_eq n a (length a) \<longleftrightarrow> take (length a) (n @ [NUL]) = a"
    using assms(2) by (simp add: strncasecmp_eq.simps lower_def)
  also have "\<dots> \<longleftrightarrow> prefix a (n @ [NUL])" by (rule take_prefix)
  also have "\<dots> \<longleftrightarrow> prefix a n" using assms(3) by (auto simp: prefix_snoc)
  finally show ?thesis .
qed

lemma lower_letters: "set s \<subseteq> set ''abcdefghijklmnopqrstuvwxyz_'' \<Longrightarrow> lower s"
  unfolding lower_def by (rule map_idI) (auto simp: c_tolower_def)

definition directives :: "string list" where
  "directives = [''logdir'', ''mycall'', ''myemail'', ''latitude'', ''longitude'', ''statsinterval'', ''expiryinterval'', ''uplink'',
     ''mysql_host'', ''mysql_db'', ''mysql_user'', ''mysql_password'', ''mysql_keepsmall'', ''mysql_oldlimit'',
     ''sounddevice'', ''soundinfile'', ''soundoutfile'', ''soundchannels'', ''soundlevellog'', ''serialport'', ''serial_port'', ''skip_type'']"

lemma cfg_cmds_names: "map c_name cfg_cmds = directives"
  by (simp add: cfg_cmds_def directives_def set_string_def set_int_def set_interval_def set_float_def set_toggle_def)

lemma directives_lower: "n \<in> set directives \<Longrightarrow> lower n \<and> NUL \<notin> set n"
  by (auto simp: directives_def intro!: lower_letters)

lemma find_prefix:
  assumes "lower a" "NUL \<notin> set a"
  shows "find_cmd cfg_cmds a = List.find (\<lambda>c. prefix a (c_name c)) cfg_cmds"
proof -
  have "c_name c \<in> set directives" if "c \<in> set cfg_cmds" for c using that unfolding cfg_cmds_names [symmetric] by simp
  then have "strncasecmp_eq (c_name c) a (length a) \<longleftrightarrow> prefix a (c_name c)" if "c \<in> set cfg_cmds" for c
    using directives_lower strncasecmp_prefix [OF _ assms] that by blast
  then show ?thesis unfolding find_cmd_def by (rule find_cong [OF refl])
qed

text \<open>No directive is the beginning of an earlier one.\<close>

lemma directives_found: "list_all (\<lambda>n. List.find (prefix n) directives = Some n) directives"
  by code_simp

lemma directives_find: "n \<in> set directives \<Longrightarrow> List.find (prefix n) directives = Some n"
  using directives_found by (simp add: list_all_iff)

lemma find_by_name:
  assumes "c \<in> set cmds" "distinct (map c_name cmds)" "List.find (prefix (c_name c)) (map c_name cmds) = Some (c_name c)"
  shows "List.find (\<lambda>d. prefix (c_name c) (c_name d)) cmds = Some c"
  using assms
proof (induction cmds)
  case (Cons d cmds)
  show ?case
  proof (cases "prefix (c_name c) (c_name d)")
    case True
    then have "c_name d = c_name c" using Cons.prems(3) by simp
    then have "d = c" using Cons.prems(1,2) by (auto dest: image_eqI [where f = c_name])
    then show ?thesis by simp
  next
    case False
    then show ?thesis using Cons by auto
  qed
qed simp

lemma find_directive: "c \<in> set cfg_cmds \<Longrightarrow> find_cmd cfg_cmds (c_name c) = Some c"
proof -
  assume c: "c \<in> set cfg_cmds"
  then have n: "c_name c \<in> set directives" unfolding cfg_cmds_names [symmetric] by simp
  have "distinct directives" by (simp add: directives_def)
  then show ?thesis using find_prefix directives_lower [OF n] find_by_name [OF c] directives_find [OF n] cfg_cmds_names by simp
qed

lemma dispatch:
  assumes "tokens 255 s = Some (a # args)" "c \<in> set cfg_cmds" "strcasecmp_eq a (c_name c)"
  shows "exec_line cfg_cmds s cfg = c_function c (c_name c # args) cfg"
proof -
  have n: "c_name c \<in> set directives" using assms(2) unfolding cfg_cmds_names [symmetric] by simp
  then have l: "map c_tolower a = c_name c" using assms(3) directives_lower by (simp add: strcasecmp_eq.simps lower_def)
  have "take 1 a \<noteq> ''#''"
  proof
    assume "take 1 a = ''#''"
    then have "take 1 (map c_tolower a) = ''#''" by (simp add: take_map c_tolower_def)
    then show False using n unfolding l directives_def by auto
  qed
  then show ?thesis using assms(1) l find_directive [OF assms(2)] by (simp add: exec_line_def run_cmd_def)
qed

text \<open>
  C24. Every directive finds its handler. A line whose first argument is the name of a directive of the table, in any mixture of
  upper and lower case, runs the handler of that directive on its arguments, although the table is searched for the first
  name that merely begins with it.
\<close>

theorem directive_dispatch:
  assumes "tokens 255 s = Some (a # args)" "c \<in> set cfg_cmds" "strcasecmp_eq a (c_name c)"
  shows "exec_line cfg_cmds s cfg = c_function c (c_name c # args) cfg"
  using assms by (rule dispatch)

text \<open>A configuration file of one line.\<close>

definition config_idle :: config where
  "config_idle = config0 (fresh_disk\<lparr>os_files := [''gnuais.conf'' \<mapsto> ''MyCall K7Z'']\<rparr>) (\<lambda>_. 60)"

lemma two_tokens: "tokens (Suc (Suc (Suc n))) ''MyCall K7Z'' = Some [''MyCall'', ''K7Z'']"
  by (simp add: first_token_def c_isspace_def)

lemma sample_mycall:
  "tokens 255 ''MyCall K7Z'' = Some [''MyCall'', ''K7Z'']" "strcasecmp_eq ''MyCall'' ''mycall''"
  "set_string ''mycall'' g_mycall (\<lambda>v cfg. cfg\<lparr>g_mycall := v\<rparr>) \<in> set cfg_cmds"
  using two_tokens [of 252] by (simp, code_simp, simp add: cfg_cmds_def)

theorem directive_dispatch_witness:
  "exec_line cfg_cmds ''MyCall K7Z'' config_idle = Some (0, config_idle\<lparr>g_mycall := Some ''K7Z''\<rparr>)"
  using directive_dispatch [OF sample_mycall(1,3), of config_idle] sample_mycall(2) by (simp add: set_string_def do_string_def)

section \<open>Directives that do something else\<close>

lemma find_empty: "find_cmd cfg_cmds [] = Some (set_string ''logdir'' g_logdir (\<lambda>v cfg. cfg\<lparr>g_logdir := v\<rparr>))"
  by (simp add: find_cmd_def strncasecmp_eq.simps cfg_cmds_def)

text \<open>
  The empty directive. A line that begins with an empty quoted argument is not refused: the table search compares no
  characters at all, finds the first directive, and the second argument becomes the log directory.
\<close>

theorem empty_directive_sets_logdir:
  assumes "tokens 255 s = Some ([] # d # args)"
  shows "exec_line cfg_cmds s cfg = Some (0, cfg\<lparr>g_logdir := Some d\<rparr>)"
  using assms find_empty by (simp add: exec_line_def run_cmd_def set_string_def do_string_def)

theorem empty_directive_sets_logdir_witness:
  "exec_line cfg_cmds (CHR 0x22 # CHR 0x22 # '' /tmp'') config_idle = Some (0, config_idle\<lparr>g_logdir := Some ''/tmp''\<rparr>)"
proof -
  have "tokens (Suc (Suc (Suc n))) (CHR 0x22 # CHR 0x22 # '' /tmp'') = Some [[], ''/tmp'']" for n
    by (simp add: first_token_def c_isspace_def)
  from this [of 252] have "tokens 255 (CHR 0x22 # CHR 0x22 # '' /tmp'') = Some [[], ''/tmp'']" by simp
  then show ?thesis by (rule empty_directive_sets_logdir)
qed

text \<open>
  C39. An uplink without an address. The directive \<^verbatim>\<open>uplink name json\<close> with its address left out is not refused like
  other incomplete directives: the program copies a null pointer, which is undefined. With an address it adds the uplink in front of
  the ones read before.
\<close>

theorem uplink_directive:
  assumes "tokens 255 s = Some (a # label # proto # args)" "strcasecmp_eq a ''uplink''" "strcasecmp_eq proto ''json''"
  shows "exec_line cfg_cmds s cfg =
    (case args of [] \<Rightarrow> None
     | url # _ \<Rightarrow> Some (0, cfg\<lparr>g_new_uplink_config := \<lparr>up_proto = 1, up_name = label, up_url = url\<rparr> # g_new_uplink_config cfg\<rparr>))"
proof -
  have a: "map c_tolower a = ''uplink''" using assms(2) by (simp add: strcasecmp_eq.simps c_tolower_def)
  have "take 1 a \<noteq> ''#''" using a by (cases a) (auto simp: c_tolower_def)
  moreover have "find_cmd cfg_cmds ''uplink'' = Some \<lparr>c_name = ''uplink'', c_function = do_uplink\<rparr>"
    using find_directive [of "\<lparr>c_name = ''uplink'', c_function = do_uplink\<rparr>"] by (simp add: cfg_cmds_def)
  ultimately show ?thesis using assms(1,3) a
    by (cases args) (simp_all add: exec_line_def run_cmd_def do_uplink_def UPLINK_JSON_def)
qed

theorem uplink_directive_witness:
  "exec_line cfg_cmds ''Uplink x json'' config_idle = None"
proof -
  have "tokens (Suc (Suc (Suc (Suc n)))) ''Uplink x json'' = Some [''Uplink'', ''x'', ''json'']" for n
    by (simp add: first_token_def c_isspace_def)
  from this [of 251] have "tokens 255 ''Uplink x json'' = Some [''Uplink'', ''x'', ''json'']" by simp
  moreover have "strcasecmp_eq ''Uplink'' ''uplink''" "strcasecmp_eq ''json'' ''json''" by code_simp+
  ultimately show ?thesis using uplink_directive [of "''Uplink x json''" "''Uplink''" "''x''" "''json''" "[]" config_idle] by simp
qed

section \<open>The invariant of the configuration\<close>

definition int32 :: "int \<Rightarrow> bool" where
  "int32 i \<longleftrightarrow> - (2 ^ 31) \<le> i \<and> i < 2 ^ 31"

definition config_ok :: "config \<Rightarrow> bool" where
  "config_ok cfg \<longleftrightarrow> length (g_skip_type cfg) = 25 \<and> set (g_skip_type cfg) \<subseteq> {0, 1}
     \<and> g_sound_channels cfg \<in> {1, 2, 3, 4} \<and> g_mysql_keepsmall cfg \<in> {0, 1}
     \<and> (\<forall>u \<in> set (g_uplink_config cfg) \<union> set (g_new_uplink_config cfg). up_proto u = UPLINK_JSON)
     \<and> int32 (g_sound_levellog cfg) \<and> int32 (g_mysql_oldlimit cfg) \<and> int32 (g_stats_interval cfg) \<and> int32 (g_expiry_interval cfg)"

lemma config0_ok: "config_ok (config0 env atof)"
  by (simp add: config_ok_def config0_def osenv.defs MAX_AIS_PACKET_TYPE_def SOUND_CHANNELS_MONO_def int32_def)

lemma do_int_range: "do_int d argv = Some (r, v) \<Longrightarrow> int32 d \<Longrightarrow> int32 v"
  by (auto simp: do_int_def atoi_def int32_def Let_def bind_eq_Some_conv split: if_splits)

lemma do_interval_range: "do_interval d argv = Some (r, v) \<Longrightarrow> int32 d \<Longrightarrow> int32 v"
  using wrap32_range by (auto simp: do_interval_def int32_def bind_eq_Some_conv split: if_splits)

lemma do_toggle_range: "do_toggle d argv = (r, v) \<Longrightarrow> d \<in> {0, 1} \<Longrightarrow> v \<in> {0, 1}"
  by (auto simp: do_toggle_def split: if_splits)

lemma more_ok: "osenv.more cfg' = osenv.more cfg \<Longrightarrow> config_ok cfg = config_ok cfg'"
  by (cases cfg; cases cfg') (simp add: config_ok_def)

definition keeps_ok :: "unit config_ext cfgcmd \<Rightarrow> bool" where
  "keeps_ok c \<longleftrightarrow> (\<forall>argv cfg r cfg'. config_ok cfg \<longrightarrow> c_function c argv cfg = Some (r, cfg') \<longrightarrow> config_ok cfg')"

lemma keeps_string: "(\<And>v cfg. config_ok (upd v cfg) = config_ok cfg) \<Longrightarrow> keeps_ok (set_string n get upd)"
  by (simp add: keeps_ok_def set_string_def split: prod.split)

lemma keeps_float: "(\<And>v cfg. config_ok (upd v cfg) = config_ok cfg) \<Longrightarrow> keeps_ok (set_float n get upd)"
  by (simp add: keeps_ok_def set_float_def split: prod.split)

lemma keeps_int:
  assumes "\<And>v cfg. config_ok cfg \<Longrightarrow> int32 v \<Longrightarrow> config_ok (upd v cfg)" "\<And>cfg. config_ok cfg \<Longrightarrow> int32 (get cfg)"
  shows "keeps_ok (set_int n get upd)" "keeps_ok (set_interval n get upd)"
  using assms do_int_range do_interval_range
  by (fastforce simp: keeps_ok_def set_int_def set_interval_def bind_eq_Some_conv)+

lemma keeps_toggle:
  assumes "\<And>v cfg. config_ok cfg \<Longrightarrow> v \<in> {0, 1} \<Longrightarrow> config_ok (upd v cfg)" "\<And>cfg. config_ok cfg \<Longrightarrow> get cfg \<in> {0, 1}"
  shows "keeps_ok (set_toggle n get upd)"
  unfolding keeps_ok_def
proof (intro allI impI)
  fix argv cfg r cfg'
  assume a: "config_ok cfg" "c_function (set_toggle n get upd) argv cfg = Some (r, cfg')"
  obtain r' v where v: "do_toggle (get cfg) argv = (r', v)" by (rule prod.exhaust)
  then have "v \<in> {0, 1}" using do_toggle_range assms(2) a(1) by blast
  with assms(1) [OF a(1)] have "config_ok (upd v cfg)" by blast
  then show "config_ok cfg'" using a(2) v by (auto simp: set_toggle_def)
qed

lemma config_ok_say [simp]: "config_ok (say m cfg) = config_ok cfg"
  by (rule more_ok) simp

lemma keeps_sound_ch: "keeps_ok \<lparr>c_name = n, c_function = \<lambda>argv cfg. Some (do_sound_ch argv cfg)\<rparr>"
proof -
  have "config_ok (cfg\<lparr>g_sound_channels := n\<rparr>)" if "config_ok cfg" "n \<in> {1, 2, 3, 4}" for cfg n using that by (simp add: config_ok_def)
  then have "config_ok (snd (do_sound_ch argv cfg))" if "config_ok cfg" for argv cfg
    using that by (simp add: do_sound_ch_def SOUND_CHANNELS_MONO_def SOUND_CHANNELS_BOTH_def SOUND_CHANNELS_LEFT_def SOUND_CHANNELS_RIGHT_def)
  then show ?thesis by (metis (no_types, lifting) cfgcmd.select_convs(2) keeps_ok_def option.inject snd_conv)
qed

lemma keeps_uplink: "keeps_ok \<lparr>c_name = n, c_function = do_uplink\<rparr>"
proof -
  have "config_ok (cfg\<lparr>g_new_uplink_config := u # g_new_uplink_config cfg\<rparr>)" if "config_ok cfg" "up_proto u = UPLINK_JSON" for cfg u
    using that by (auto simp: config_ok_def)
  then show ?thesis by (auto simp: keeps_ok_def do_uplink_def bind_eq_Some_conv split: if_splits)
qed

lemma keeps_skip_type: "keeps_ok \<lparr>c_name = n, c_function = do_skip_type\<rparr>"
proof -
  have "config_ok (cfg\<lparr>g_skip_type := (g_skip_type cfg)[i := 1]\<rparr>)" if "config_ok cfg" for cfg i
    using that set_update_subset_insert [of "g_skip_type cfg" i 1] by (auto simp: config_ok_def)
  then show ?thesis by (auto simp: keeps_ok_def do_skip_type_def arr_set_def bind_eq_Some_conv split: if_splits)
qed

lemma config_ok_updates [simp]:
  "config_ok (cfg\<lparr>g_logdir := v\<rparr>) = config_ok cfg" "config_ok (cfg\<lparr>g_mycall := v\<rparr>) = config_ok cfg"
  "config_ok (cfg\<lparr>g_myemail := v\<rparr>) = config_ok cfg" "config_ok (cfg\<lparr>g_sound_device := v\<rparr>) = config_ok cfg"
  "config_ok (cfg\<lparr>g_have_my_loc := b\<rparr>) = config_ok cfg" "config_ok (cfg\<lparr>g_mylat := la, g_mylng := lo\<rparr>) = config_ok cfg"
  "config_ok (cfg\<lparr>g_pidfile := v\<rparr>) = config_ok cfg"
  by (simp_all add: config_ok_def)

lemma cmds_keep_ok: "cmds_keep config_ok cfg_cmds"
proof -
  have "list_all keeps_ok cfg_cmds"
    unfolding cfg_cmds_def list.pred_inject
    by (intro conjI TrueI keeps_string keeps_float keeps_int keeps_toggle keeps_sound_ch keeps_uplink keeps_skip_type)
      (simp_all add: config_ok_def)
  then show ?thesis using more_ok unfolding cmds_keep_def keeps_ok_def list_all_iff by blast
qed

lemma complete_ok: "config_ok cfg \<Longrightarrow> complete cfg = (r, cfg') \<Longrightarrow> config_ok cfg'"
proof -
  assume ok: "config_ok cfg" and c: "complete cfg = (r, cfg')"
  obtain failed b where b: "check_mycall (default_logdir cfg) = (failed, b)" by (rule prod.exhaust)
  have "config_ok (default_logdir cfg)" using ok by (simp add: default_logdir_def split: option.split)
  then have "config_ok b" using b by (auto simp: check_mycall_def split: option.splits if_splits)
  then have "config_ok (default_myemail b)" by (simp add: default_myemail_def)
  then have "config_ok (choose_sound (default_myemail b))" by (simp add: choose_sound_def Let_def)
  then have "config_ok (my_location (choose_sound (default_myemail b)))" by (simp add: my_location_def Let_def)
  then have i: "config_ok (install_uplinks (my_location (choose_sound (default_myemail b))))"
    by (simp add: install_uplinks_def Let_def config_ok_def)
  then have "config_ok (default_pidfile (install_uplinks (my_location (choose_sound (default_myemail b)))))"
    by (simp add: default_pidfile_def)
  then show ?thesis using c b i by (auto simp: complete_def Let_def split: if_splits)
qed

text \<open>So reading keeps the invariant, wherever the file is found, when its effect is defined.\<close>

lemma read_config_keeps:
  assumes "config_ok cfg" "read_config stack cfg = Some (r, cfg')"
  shows "config_ok cfg'"
proof -
  obtain r1 cfg1 where "read_cfgfile stack (g_cfgfile cfg) cfg_cmds cfg = Some (r1, cfg1)"
      "(if r1 \<noteq> 0 then (-1, cfg1) else complete cfg1) = (r, cfg')"
    using assms(2) by (auto simp: read_config_def bind_eq_Some_conv)
  moreover from this(1) have "config_ok cfg1" by (rule read_cfgfile_keeps [OF cmds_keep_ok assms(1)])
  ultimately show ?thesis using complete_ok [of cfg1 r cfg'] by (auto split: if_splits)
qed

section \<open>What a file says\<close>

text \<open>
  The directive that a line runs, with its arguments; the uplink it adds, the message type it asks to skip, and the
  channels it selects.
\<close>

definition line_cmd :: "string \<Rightarrow> (string \<times> string list) option" where
  "line_cmd s =
     (case tokens 255 s of
        Some (a # args) \<Rightarrow> if take 1 a = ''#'' then None else map_option (\<lambda>c. (c_name c, args)) (find_cmd cfg_cmds (map c_tolower a))
      | _ \<Rightarrow> None)"

definition line_uplinks :: "string \<Rightarrow> uplink_config_t list" where
  "line_uplinks s =
     (case line_cmd s of
        Some (d, label # proto # url # _) \<Rightarrow>
          if d = ''uplink'' \<and> strcasecmp_eq proto ''json'' then [\<lparr>up_proto = UPLINK_JSON, up_name = label, up_url = url\<rparr>] else []
      | _ \<Rightarrow> [])"

definition line_skips :: "string \<Rightarrow> int set" where
  "line_skips s =
     (case line_cmd s of
        Some (d, v # _) \<Rightarrow> if d = ''skip_type'' then {i. atoi v = Some i} else {}
      | _ \<Rightarrow> {})"

definition channel_named :: "string \<Rightarrow> int option" where
  "channel_named v = map_of [(''mono'', 1), (''both'', 2), (''left'', 3), (''right'', 4)] (map c_tolower v)"

definition line_channels :: "string \<Rightarrow> int \<Rightarrow> int" where
  "line_channels s ch =
     (case line_cmd s of
        Some (d, v # _) \<Rightarrow> if d = ''soundchannels'' then (case channel_named v of Some n \<Rightarrow> n | None \<Rightarrow> ch) else ch
      | _ \<Rightarrow> ch)"

text \<open>
  The lines whose effect the language defines: a number is an \<^verbatim>\<open>int\<close>, the parts of an interval are, and an uplink with the
  known protocol has an address.
\<close>

definition defined_args :: "string \<Rightarrow> string list \<Rightarrow> bool" where
  "defined_args d args \<longleftrightarrow>
     (d \<in> {''mysql_oldlimit'', ''soundlevellog'', ''skip_type''} \<longrightarrow> args \<noteq> [] \<longrightarrow> atoi (args ! 0) \<noteq> None)
     \<and> (d \<in> {''statsinterval'', ''expiryinterval''} \<longrightarrow> args \<noteq> [] \<longrightarrow> parse_interval (args ! 0) \<noteq> None)
     \<and> (d = ''uplink'' \<longrightarrow> \<not> (length args = 2 \<and> strcasecmp_eq (args ! 1) ''json''))"

lemma defined_argsD:
  "defined_args ''uplink'' args \<Longrightarrow> \<not> (length args = 2 \<and> strcasecmp_eq (args ! 1) ''json'')"
  "defined_args ''skip_type'' args \<Longrightarrow> args \<noteq> [] \<longrightarrow> atoi (args ! 0) \<noteq> None"
  by (simp_all add: defined_args_def del: strcasecmp_eq.simps)

definition defined_line :: "string \<Rightarrow> bool" where
  "defined_line s \<longleftrightarrow> (case line_cmd s of Some (d, args) \<Rightarrow> defined_args d args | None \<Rightarrow> True)"

text \<open>Most directives do not touch the tables.\<close>

definition tables :: "config \<Rightarrow> uplink_config_t list \<times> int list \<times> int" where
  "tables cfg = (g_new_uplink_config cfg, g_skip_type cfg, g_sound_channels cfg)"

lemma tables_more: "osenv.more cfg' = osenv.more cfg \<Longrightarrow> tables cfg' = tables cfg"
  by (cases cfg; cases cfg') (simp add: tables_def)

lemma tables_say [simp]: "tables (say m cfg) = tables cfg"
  by (rule tables_more) simp

definition plain_cmd :: "unit config_ext cfgcmd \<Rightarrow> bool" where
  "plain_cmd c \<longleftrightarrow> c_name c \<in> {''uplink'', ''skip_type'', ''soundchannels''}
     \<or> ((\<forall>argv cfg r cfg'. c_function c argv cfg = Some (r, cfg') \<longrightarrow> tables cfg' = tables cfg)
       \<and> (\<forall>a args cfg. defined_args (c_name c) args \<longrightarrow> c_function c (a # args) cfg \<noteq> None))"

lemma plain_special: "n \<in> {''uplink'', ''skip_type'', ''soundchannels''} \<Longrightarrow> plain_cmd \<lparr>c_name = n, c_function = f\<rparr>"
  by (simp add: plain_cmd_def)

lemma plain_string:
  "(\<And>v cfg. tables (upd v cfg) = tables cfg) \<Longrightarrow> plain_cmd (set_string n get upd)"
  "(\<And>v cfg. tables (updf v cfg) = tables cfg) \<Longrightarrow> plain_cmd (set_float n getf updf)"
  "(\<And>v cfg. tables (updi v cfg) = tables cfg) \<Longrightarrow> plain_cmd (set_toggle n geti updi)"
  by (simp_all add: plain_cmd_def set_string_def set_float_def set_toggle_def split: prod.split)

lemma plain_int:
  assumes n: "n \<in> {''mysql_oldlimit'', ''soundlevellog''}" and t: "\<And>v cfg. tables (upd v cfg) = tables cfg"
  shows "plain_cmd (set_int n get upd)"
proof -
  have d: "\<exists>r v. do_int d (a # args) = Some (r, v)" if "defined_args n args" for d a args
  proof (cases args)
    case (Cons b bs)
    then have "atoi b \<noteq> None" using that n unfolding defined_args_def by (metis insertCI list.distinct(1) nth_Cons_0 insertE singletonD)
    then show ?thesis using Cons by (auto simp: do_int_def)
  qed (simp add: do_int_def)
  have "\<exists>y. c_function (set_int n get upd) (a # args) cfg = Some y" if "defined_args n args" for a args cfg
    using d [OF that, of "get cfg" a] by (auto simp: set_int_def)
  moreover have "tables cfg' = tables cfg" if "c_function (set_int n get upd) argv cfg = Some (r, cfg')" for argv cfg r cfg'
    using that by (auto simp: set_int_def bind_eq_Some_conv t)
  moreover have "c_name (set_int n get upd) = n" by (simp add: set_int_def)
  ultimately show ?thesis unfolding plain_cmd_def by (metis option.distinct(1))
qed

lemma plain_interval:
  assumes n: "n \<in> {''statsinterval'', ''expiryinterval''}" and t: "\<And>v cfg. tables (upd v cfg) = tables cfg"
  shows "plain_cmd (set_interval n get upd)"
proof -
  have d: "\<exists>r v. do_interval d (a # args) = Some (r, v)" if "defined_args n args" for d a args
  proof (cases args)
    case (Cons b bs)
    then have "parse_interval b \<noteq> None" using that n unfolding defined_args_def by (metis insertCI list.distinct(1) nth_Cons_0 insertE singletonD)
    then show ?thesis using Cons by (auto simp: do_interval_def)
  qed (simp add: do_interval_def)
  have "\<exists>y. c_function (set_interval n get upd) (a # args) cfg = Some y" if "defined_args n args" for a args cfg
    using d [OF that, of "get cfg" a] by (auto simp: set_interval_def)
  moreover have "tables cfg' = tables cfg" if "c_function (set_interval n get upd) argv cfg = Some (r, cfg')" for argv cfg r cfg'
    using that by (auto simp: set_interval_def bind_eq_Some_conv t)
  moreover have "c_name (set_interval n get upd) = n" by (simp add: set_interval_def)
  ultimately show ?thesis unfolding plain_cmd_def by (metis option.distinct(1))
qed

lemma plain_cmds: "list_all plain_cmd cfg_cmds"
  unfolding cfg_cmds_def list.pred_inject
  by (intro conjI TrueI plain_special plain_string plain_int plain_interval) (simp_all add: tables_def)

lemma special_cmds:
  assumes "c \<in> set cfg_cmds"
  shows "c_name c = ''uplink'' \<Longrightarrow> c_function c = do_uplink" "c_name c = ''skip_type'' \<Longrightarrow> c_function c = do_skip_type"
    "c_name c = ''soundchannels'' \<Longrightarrow> c_function c = (\<lambda>argv cfg. Some (do_sound_ch argv cfg))"
  using assms unfolding cfg_cmds_def set_string_def set_int_def set_interval_def set_float_def set_toggle_def by auto

definition set_skips :: "int set \<Rightarrow> int list \<Rightarrow> int list" where
  "set_skips S sk = map (\<lambda>i. if int i \<in> S then 1 else sk ! i) [0..<length sk]"

lemma set_skips_empty: "set_skips {} sk = sk"
  by (simp add: set_skips_def map_nth)

lemma set_skips_one: "0 \<le> i \<Longrightarrow> set_skips {i} sk = sk[nat i := 1]"
  by (rule nth_equalityI) (auto simp: set_skips_def nth_list_update)

lemma set_skips_Un: "set_skips T (set_skips S sk) = set_skips (S \<union> T) sk"
  by (rule nth_equalityI) (auto simp: set_skips_def)

lemma uplink_tables:
  assumes "do_uplink (d # args) cfg = Some (r, cfg')" "r \<ge> 0"
  shows "\<exists>label proto url rest. args = label # proto # url # rest \<and> strcasecmp_eq proto ''json''
    \<and> tables cfg' = (\<lparr>up_proto = UPLINK_JSON, up_name = label, up_url = url\<rparr> # g_new_uplink_config cfg, g_skip_type cfg, g_sound_channels cfg)"
proof (cases "length args < 3")
  case True
  then show ?thesis using assms by (auto simp: do_uplink_def arr_get_def split: if_splits)
next
  case False
  then obtain label proto url rest where a: "args = label # proto # url # rest"
    by (cases args; cases "tl args"; cases "tl (tl args)") auto
  show ?thesis using assms unfolding a by (auto simp: do_uplink_def arr_get_def tables_def split: if_splits)
qed

lemma skip_type_tables:
  assumes "do_skip_type (d # args) cfg = Some (r, cfg')" "r \<ge> 0"
  shows "\<exists>v rest i. args = v # rest \<and> atoi v = Some i \<and> 1 \<le> i \<and> i \<le> 24
    \<and> tables cfg' = (g_new_uplink_config cfg, (g_skip_type cfg)[nat i := 1], g_sound_channels cfg)"
  using assms by (cases args) (auto simp: do_skip_type_def arr_set_def tables_def MAX_AIS_PACKET_TYPE_def bind_eq_Some_conv split: if_splits)

lemma sound_ch_tables:
  assumes "do_sound_ch (d # args) cfg = (r, cfg')" "r \<ge> 0"
  shows "\<exists>v rest ch. args = v # rest \<and> channel_named v = Some ch \<and> tables cfg' = (g_new_uplink_config cfg, g_skip_type cfg, ch)"
proof (cases args)
  case (Cons v rest)
  have l: "map c_tolower ''mono'' = ''mono''" "map c_tolower ''both'' = ''both''" "map c_tolower ''left'' = ''left''" "map c_tolower ''right'' = ''right''"
    by (simp_all add: c_tolower_def)
  have "(if x = ''mono'' then (0, c1) else if x = ''both'' then (0, c2) else if x = ''left'' then (0, c3) else if x = ''right'' then (0, c4) else (-1, e)) = (r, cfg')
    \<Longrightarrow> r \<ge> (0 :: int) \<Longrightarrow> x = ''mono'' \<and> cfg' = c1 \<or> x = ''both'' \<and> cfg' = c2 \<or> x = ''left'' \<and> cfg' = c3 \<or> x = ''right'' \<and> cfg' = c4"
    for x and c1 c2 c3 c4 e :: config
    by (simp split: if_splits)
  from this [OF assms(1) [unfolded Cons do_sound_ch_def strcasecmp_eq.simps l, simplified list.size nth_Cons_Suc nth_Cons_0 One_nat_def, simplified] assms(2)]
  show ?thesis unfolding Cons channel_named_def
    by (elim disjE) (simp_all add: tables_def SOUND_CHANNELS_MONO_def SOUND_CHANNELS_BOTH_def SOUND_CHANNELS_LEFT_def SOUND_CHANNELS_RIGHT_def)
qed (use assms in \<open>simp add: do_sound_ch_def\<close>)

lemmas line_defs = line_uplinks_def line_skips_def line_channels_def

lemma exec_line_cmd:
  assumes "line_cmd s = None" "exec_line cfg_cmds s cfg = Some (r, cfg')" "r \<ge> 0"
  shows "cfg' = cfg"
  using assms by (auto simp: line_cmd_def exec_line_def run_cmd_def split: option.splits list.splits if_splits)

lemma exec_line_run:
  assumes "line_cmd s = Some (d, args)"
  obtains c a where "c \<in> set cfg_cmds" "c_name c = d" "\<And>cfg. exec_line cfg_cmds s cfg = c_function c (a # args) cfg"
proof -
  obtain a0 where t: "tokens 255 s = Some (a0 # args)" "take 1 a0 \<noteq> ''#''" and f: "map_option c_name (find_cmd cfg_cmds (map c_tolower a0)) = Some d"
    using assms by (auto simp: line_cmd_def split: option.splits list.splits if_splits)
  then obtain c where c: "find_cmd cfg_cmds (map c_tolower a0) = Some c" "c_name c = d" by auto
  then have "c \<in> set cfg_cmds" unfolding find_cmd_def by (auto dest: find_SomeD)
  moreover have "exec_line cfg_cmds s cfg = c_function c (map c_tolower a0 # args) cfg" for cfg
    using t c by (simp add: exec_line_def run_cmd_def)
  ultimately show thesis using that c(2) by blast
qed

lemma exec_line_tables:
  assumes e: "exec_line cfg_cmds s cfg = Some (r, cfg')" and r: "r \<ge> 0"
  shows "tables cfg' = (line_uplinks s @ g_new_uplink_config cfg, set_skips (line_skips s) (g_skip_type cfg), line_channels s (g_sound_channels cfg))
    \<and> line_skips s \<subseteq> {1..24}"
proof (cases "line_cmd s")
  case None
  then have "cfg' = cfg" using exec_line_cmd e r by blast
  then show ?thesis using None by (simp add: line_defs tables_def set_skips_empty)
next
  case (Some da)
  obtain d args where da: "line_cmd s = Some (d, args)" using Some by (cases da) simp
  obtain c a where c: "c \<in> set cfg_cmds" "c_name c = d" "c_function c (a # args) cfg = Some (r, cfg')"
    using exec_line_run [OF da] e by metis
  consider (u) "d = ''uplink''" | (k) "d = ''skip_type''" | (ch) "d = ''soundchannels''" | (p) "d \<notin> {''uplink'', ''skip_type'', ''soundchannels''}"
    by blast
  then show ?thesis
  proof cases
    case u
    then show ?thesis using uplink_tables [of a args cfg r cfg'] special_cmds(1) [OF c(1)] c r
      by (auto simp: line_defs da set_skips_empty)
  next
    case k
    then show ?thesis using skip_type_tables [of a args cfg r cfg'] special_cmds(2) [OF c(1)] c r
      by (auto simp: line_defs da set_skips_one split: list.split)
  next
    case ch
    then have "do_sound_ch (a # args) cfg = (r, cfg')" using special_cmds(3) [OF c(1)] c by simp
    then show ?thesis using sound_ch_tables [of a args cfg r cfg'] ch r by (auto simp: line_defs da set_skips_empty split: list.split)
  next
    case p
    have "plain_cmd c" using plain_cmds c(1) by (simp add: list_all_iff)
    then have "tables cfg' = tables cfg" using c p unfolding plain_cmd_def by blast
    moreover have "line_uplinks s = []" "line_skips s = {}" "line_channels s = id"
      using p by (auto simp: line_defs da fun_eq_iff split: list.splits)
    ultimately show ?thesis by (simp add: tables_def set_skips_empty)
  qed
qed

lemma exec_lines_tables:
  "exec_lines cfg_cmds n ls cfg = Some (None, cfg') \<Longrightarrow>
    g_new_uplink_config cfg' = concat (map line_uplinks (rev ls)) @ g_new_uplink_config cfg
    \<and> g_skip_type cfg' = set_skips (\<Union>l \<in> set ls. line_skips l) (g_skip_type cfg)
    \<and> g_sound_channels cfg' = fold line_channels ls (g_sound_channels cfg) \<and> (\<Union>l \<in> set ls. line_skips l) \<subseteq> {1..24}"
proof (induction ls arbitrary: n cfg)
  case Nil
  then show ?case by (simp add: set_skips_empty)
next
  case (Cons l ls)
  obtain r cfg1 where r: "exec_line cfg_cmds l cfg = Some (r, cfg1)" "\<not> r < 0" "exec_lines cfg_cmds (n + 1) ls cfg1 = Some (None, cfg')"
    using Cons.prems by (auto simp: bind_eq_Some_conv split: if_splits)
  then show ?case using exec_line_tables [OF r(1)] Cons.IH [OF r(3)] by (simp add: tables_def set_skips_Un)
qed

text \<open>A line whose effect is defined is executed.\<close>

lemma exec_line_defined:
  assumes "defined_line s" "length (g_skip_type cfg) = 25"
  shows "exec_line cfg_cmds s cfg \<noteq> None"
proof (cases "line_cmd s")
  case None
  then show ?thesis by (auto simp: line_cmd_def exec_line_def run_cmd_def split: option.splits list.splits if_splits)
next
  case (Some da)
  obtain d args where da: "line_cmd s = Some (d, args)" using Some by (cases da) simp
  then have f: "defined_args d args" using assms(1) by (simp add: defined_line_def)
  obtain c a where c: "c \<in> set cfg_cmds" "c_name c = d" "exec_line cfg_cmds s cfg = c_function c (a # args) cfg"
    using exec_line_run [OF da] by metis
  consider (u) "d = ''uplink''" | (k) "d = ''skip_type''" | (ch) "d = ''soundchannels''" | (p) "d \<notin> {''uplink'', ''skip_type'', ''soundchannels''}"
    by blast
  then show ?thesis
  proof cases
    case u
    have n: "\<not> (length args = 2 \<and> strcasecmp_eq (args ! 1) ''json'')" using defined_argsD(1) f unfolding u .
    have "length args < 2 \<or> length args = 2 \<or> 2 < length args" by (rule less_linear)
    then have "do_uplink (a # args) cfg \<noteq> None"
    proof (elim disjE)
      assume "length args = 2"
      moreover from this have "\<not> strcasecmp_eq ((a # args) ! 2) ''json''" using n by (simp add: numeral_2_eq_2 del: strcasecmp_eq.simps)
      ultimately show ?thesis unfolding do_uplink_def by (simp del: strcasecmp_eq.simps)
    qed (simp_all add: do_uplink_def del: strcasecmp_eq.simps)
    then show ?thesis using special_cmds(1) [OF c(1)] c u by simp
  next
    case k
    have "args \<noteq> [] \<longrightarrow> atoi (args ! 0) \<noteq> None" using defined_argsD(2) f unfolding k .
    then have "do_skip_type (a # args) cfg \<noteq> None"
      using assms(2) by (cases args) (auto simp: do_skip_type_def MAX_AIS_PACKET_TYPE_def)
    then show ?thesis using special_cmds(2) [OF c(1)] c k by simp
  next
    case ch
    then show ?thesis using special_cmds(3) [OF c(1)] c by simp
  next
    case p
    have "plain_cmd c" using plain_cmds c(1) by (simp add: list_all_iff)
    then show ?thesis using c f p unfolding plain_cmd_def by metis
  qed
qed

lemma exec_lines_defined:
  "\<forall>l \<in> set ls. defined_line l \<Longrightarrow> config_ok cfg \<Longrightarrow> \<exists>y cfg'. exec_lines cfg_cmds n ls cfg = Some (y, cfg')"
proof (induction ls arbitrary: n cfg)
  case (Cons l ls)
  then have "length (g_skip_type cfg) = 25" by (simp add: config_ok_def)
  then obtain r cfg1 where r: "exec_line cfg_cmds l cfg = Some (r, cfg1)" using exec_line_defined [of l cfg] Cons.prems(1) by auto
  have "config_ok cfg1" by (rule exec_line_keeps [OF cmds_keep_ok Cons.prems(2) r])
  then show ?case using r Cons.IH [of cfg1 "n + 1"] Cons.prems(1) by simp
qed simp

lemma read_cfgfile_exec:
  assumes "os_files cfg f = Some body" "NUL \<notin> set body" "length stack = CFGLINE_LEN"
  shows "\<exists>t. read_cfgfile stack f cmds cfg = (case exec_lines cmds 0 (text_lines body) cfg of
        None \<Rightarrow> None
      | Some (None, cfg) \<Rightarrow> Some (0, cfg)
      | Some (Some n, cfg) \<Rightarrow> Some (2, say (Stderr ''Problem in %s at line %d: %s'' [CStr f, CInt n, CStr t]) cfg))"
  using read_lines_exec [OF assms(2,3), of f cmds 0 cfg] assms(1) by (simp add: read_cfgfile_def)

lemma complete_tables:
  assumes "complete cfg = (r, cfg')"
  shows "g_skip_type cfg' = g_skip_type cfg \<and> g_sound_channels cfg' = g_sound_channels cfg
    \<and> g_uplink_config cfg' = g_new_uplink_config cfg \<and> g_new_uplink_config cfg' = []"
proof -
  obtain failed b where b: "check_mycall (default_logdir cfg) = (failed, b)" by (rule prod.exhaust)
  have t: "tables (default_logdir cfg) = tables cfg"
    by (simp add: default_logdir_def tables_def say_def split: option.split)
  then have "tables b = tables cfg"
    using b by (auto simp: check_mycall_def tables_def say_def split: option.splits if_splits)
  then have "tables (default_myemail b) = tables cfg" by (simp add: default_myemail_def tables_def say_def)
  then have "tables (choose_sound (default_myemail b)) = tables cfg" by (simp add: choose_sound_def tables_def say_def Let_def)
  then have "tables (my_location (choose_sound (default_myemail b))) = tables cfg" by (simp add: my_location_def tables_def Let_def)
  then show ?thesis using assms b
    by (auto simp: complete_def Let_def install_uplinks_def default_pidfile_def tables_def split: if_splits)
qed

text \<open>A file of three lines.\<close>

definition three_lines :: string where
  "three_lines = ''skip_type 5'' @ CHR 0x0A # ''Uplink x json u'' @ CHR 0x0A # ''SoundChannels left''"

definition config_three :: config where
  "config_three = config0 (fresh_disk\<lparr>os_files := [''gnuais.conf'' \<mapsto> three_lines]\<rparr>) (\<lambda>_. 60)"

lemma three_lines_split:
  "text_lines three_lines = [''skip_type 5'' @ [CHR 0x0A], ''Uplink x json u'' @ [CHR 0x0A], ''SoundChannels left'']"
  by (simp add: three_lines_def text_lines_step [where l = "''skip_type 5''", simplified] text_lines_step [where l = "''Uplink x json u''", simplified]
      text_lines_step(2) CFGLINE_LEN_def)

lemma three_tokens:
  "tokens 255 (''skip_type 5'' @ [CHR 0x0A]) = Some [''skip_type'', ''5'']"
  "tokens 255 (''Uplink x json u'' @ [CHR 0x0A]) = Some [''Uplink'', ''x'', ''json'', ''u'']"
  "tokens 255 ''SoundChannels left'' = Some [''SoundChannels'', ''left'']"
proof -
  have "tokens (Suc (Suc (Suc (Suc (Suc n))))) (''skip_type 5'' @ [CHR 0x0A]) = Some [''skip_type'', ''5'']"
    "tokens (Suc (Suc (Suc (Suc (Suc n))))) (''Uplink x json u'' @ [CHR 0x0A]) = Some [''Uplink'', ''x'', ''json'', ''u'']"
    "tokens (Suc (Suc (Suc (Suc (Suc n))))) ''SoundChannels left'' = Some [''SoundChannels'', ''left'']" for n
    by (simp_all add: first_token_def c_isspace_def)
  from this [of 250] show "tokens 255 (''skip_type 5'' @ [CHR 0x0A]) = Some [''skip_type'', ''5'']"
    "tokens 255 (''Uplink x json u'' @ [CHR 0x0A]) = Some [''Uplink'', ''x'', ''json'', ''u'']"
    "tokens 255 ''SoundChannels left'' = Some [''SoundChannels'', ''left'']"
    by simp_all
qed

lemma lower_words: "map c_tolower ''skip_type'' = ''skip_type''" "map c_tolower ''Uplink'' = ''uplink''" "map c_tolower ''SoundChannels'' = ''soundchannels''"
  by code_simp+

lemma three_cmds:
  "line_cmd (''skip_type 5'' @ [CHR 0x0A]) = Some (''skip_type'', [''5''])"
  "line_cmd (''Uplink x json u'' @ [CHR 0x0A]) = Some (''uplink'', [''x'', ''json'', ''u''])"
  "line_cmd ''SoundChannels left'' = Some (''soundchannels'', [''left''])"
proof -
  have c: "\<lparr>c_name = ''uplink'', c_function = do_uplink\<rparr> \<in> set cfg_cmds" "\<lparr>c_name = ''skip_type'', c_function = do_skip_type\<rparr> \<in> set cfg_cmds"
    "\<lparr>c_name = ''soundchannels'', c_function = \<lambda>argv cfg. Some (do_sound_ch argv cfg)\<rparr> \<in> set cfg_cmds"
    by (simp_all add: cfg_cmds_def)
  note f = c [THEN find_directive, unfolded cfgcmd.select_convs]
  show "line_cmd (''skip_type 5'' @ [CHR 0x0A]) = Some (''skip_type'', [''5''])"
    "line_cmd (''Uplink x json u'' @ [CHR 0x0A]) = Some (''uplink'', [''x'', ''json'', ''u''])"
    "line_cmd ''SoundChannels left'' = Some (''soundchannels'', [''left''])"
    unfolding line_cmd_def three_tokens option.case list.case lower_words f by simp_all
qed

lemma three_effects:
  "line_skips (''skip_type 5'' @ [CHR 0x0A]) = {5}" "line_skips (''Uplink x json u'' @ [CHR 0x0A]) = {}" "line_skips ''SoundChannels left'' = {}"
  "line_uplinks (''skip_type 5'' @ [CHR 0x0A]) = []"
  "line_uplinks (''Uplink x json u'' @ [CHR 0x0A]) = [\<lparr>up_proto = 1, up_name = ''x'', up_url = ''u''\<rparr>]" "line_uplinks ''SoundChannels left'' = []"
  "line_channels (''skip_type 5'' @ [CHR 0x0A]) ch = ch" "line_channels (''Uplink x json u'' @ [CHR 0x0A]) ch = ch" "line_channels ''SoundChannels left'' ch = 3"
  "\<forall>l \<in> set (text_lines three_lines). defined_line l"
proof -
  have a: "atoi ''5'' = Some 5" by code_simp
  have j: "strcasecmp_eq ''json'' ''json''" by code_simp
  have n: "channel_named ''left'' = Some 3" by code_simp
  show "line_skips (''skip_type 5'' @ [CHR 0x0A]) = {5}" "line_skips (''Uplink x json u'' @ [CHR 0x0A]) = {}" "line_skips ''SoundChannels left'' = {}"
    "line_uplinks (''skip_type 5'' @ [CHR 0x0A]) = []"
    "line_uplinks (''Uplink x json u'' @ [CHR 0x0A]) = [\<lparr>up_proto = 1, up_name = ''x'', up_url = ''u''\<rparr>]" "line_uplinks ''SoundChannels left'' = []"
    "line_channels (''skip_type 5'' @ [CHR 0x0A]) ch = ch" "line_channels (''Uplink x json u'' @ [CHR 0x0A]) ch = ch" "line_channels ''SoundChannels left'' ch = 3"
    unfolding line_defs three_cmds by (simp_all add: a j n UPLINK_JSON_def del: strcasecmp_eq.simps)
  show "\<forall>l \<in> set (text_lines three_lines). defined_line l"
    unfolding three_lines_split list.set ball_simps defined_line_def three_cmds by (simp add: defined_args_def a)
qed

lemma complete_no_call: "g_mycall cfg = None \<Longrightarrow> fst (complete cfg) = 0"
  by (simp add: complete_def check_mycall_def default_logdir_def say_def Let_def split: option.split)

lemma three_run:
  obtains cfg1 where "read_cfgfile (replicate CFGLINE_LEN CHR ''?'') ''gnuais.conf'' cfg_cmds config_three = Some (0, cfg1)" "g_mycall cfg1 = None"
proof -
  have a: "atoi ''5'' = Some 5" by code_simp
  have j: "strcasecmp_eq ''json'' ''json''" "\<not> strcasecmp_eq ''left'' ''mono''" "\<not> strcasecmp_eq ''left'' ''both''" "strcasecmp_eq ''left'' ''left''" by code_simp+
  have w: "strcasecmp_eq ''skip_type'' ''skip_type''" "strcasecmp_eq ''Uplink'' ''uplink''" "strcasecmp_eq ''SoundChannels'' ''soundchannels''"
    by code_simp+
  have c: "\<lparr>c_name = ''skip_type'', c_function = do_skip_type\<rparr> \<in> set cfg_cmds" "\<lparr>c_name = ''uplink'', c_function = do_uplink\<rparr> \<in> set cfg_cmds"
    "\<lparr>c_name = ''soundchannels'', c_function = \<lambda>argv cfg. Some (do_sound_ch argv cfg)\<rparr> \<in> set cfg_cmds"
    by (simp_all add: cfg_cmds_def)
  note d = dispatch [OF three_tokens(1) c(1), unfolded cfgcmd.select_convs, OF w(1)] dispatch [OF three_tokens(2) c(2), unfolded cfgcmd.select_convs, OF w(2)]
    dispatch [OF three_tokens(3) c(3), unfolded cfgcmd.select_convs, OF w(3)]
  have s: "length (g_skip_type config_three) = 25" "g_mycall config_three = None"
    by (simp_all add: config_three_def config0_def osenv.defs MAX_AIS_PACKET_TYPE_def)
  obtain cfg1 where e: "exec_lines cfg_cmds 0 (text_lines three_lines) config_three = Some (None, cfg1)" "g_mycall cfg1 = None"
    using s unfolding three_lines_split exec_lines.simps d
    by (simp add: do_skip_type_def do_uplink_def do_sound_ch_def a j MAX_AIS_PACKET_TYPE_def numeral_eq_Suc del: strcasecmp_eq.simps)
  have f: "os_files config_three ''gnuais.conf'' = Some three_lines" by (simp add: config_three_def config0_def osenv.defs)
  have "NUL \<notin> set three_lines" by (simp add: three_lines_def)
  then have "read_cfgfile (replicate CFGLINE_LEN CHR ''?'') ''gnuais.conf'' cfg_cmds config_three = Some (0, cfg1)"
    using read_cfgfile_exec [where cmds = cfg_cmds and stack = "replicate CFGLINE_LEN CHR ''?''", OF f] e by simp
  then show thesis using that e(2) by blast
qed

lemma three_start: "g_cfgfile config_three = ''gnuais.conf''" "os_files config_three (g_cfgfile config_three) = Some three_lines"
  "NUL \<notin> set three_lines" "config_ok config_three" "g_new_uplink_config config_three = []" "g_skip_type config_three ! 6 = 0"
  unfolding config_three_def by (simp_all add: config0_ok) (simp_all add: config0_def osenv.defs three_lines_def MAX_AIS_PACKET_TYPE_def)

lemma three_read:
  obtains cfg' where "read_config (replicate CFGLINE_LEN CHR ''?'') config_three = Some (0, cfg')"
proof -
  obtain cfg1 where "read_cfgfile (replicate CFGLINE_LEN CHR ''?'') ''gnuais.conf'' cfg_cmds config_three = Some (0, cfg1)" "g_mycall cfg1 = None"
    by (rule three_run)
  then show thesis using that [of "snd (complete cfg1)"] complete_no_call [of cfg1] by (simp add: read_config_def three_start prod_eq_iff)
qed

text \<open>
  C25. The configuration stays well formed. Reading a file in which the effect of every line is defined (each number is an
  \<^verbatim>\<open>int\<close>, and an uplink has its address) is defined, whatever else the file contains: no write leaves the table of
  skipped message types. It keeps the invariant: this table has its 25 entries of zeros and ones, the channel selection is one of the
  four, every uplink has the one known protocol, and the numbers are \<^verbatim>\<open>int\<close>s. When the file is accepted, every
  message type that its \<^verbatim>\<open>skip_type\<close> lines name is between 1 and 24, exactly these have been marked besides those marked
  before, and the channels are those that the last \<^verbatim>\<open>soundchannels\<close> line names.
\<close>

theorem config_invariant:
  assumes "config_ok cfg" and "os_files cfg (g_cfgfile cfg) = Some body" "NUL \<notin> set body" "length stack = CFGLINE_LEN"
    and "\<forall>l \<in> set (text_lines body). defined_line l"
  shows "\<exists>r cfg'. read_config stack cfg = Some (r, cfg') \<and> config_ok cfg'
    \<and> (r = 0 \<longrightarrow> (\<Union>l \<in> set (text_lines body). line_skips l) \<subseteq> {1..24}
        \<and> (\<forall>i < 25. g_skip_type cfg' ! i = (if int i \<in> (\<Union>l \<in> set (text_lines body). line_skips l) then 1 else g_skip_type cfg ! i))
        \<and> g_sound_channels cfg' = fold line_channels (text_lines body) (g_sound_channels cfg))"
proof -
  obtain y cfg1 where y: "exec_lines cfg_cmds 0 (text_lines body) cfg = Some (y, cfg1)"
    using exec_lines_defined [OF assms(5,1)] by blast
  obtain t where t: "read_cfgfile stack (g_cfgfile cfg) cfg_cmds cfg = (case y of
        None \<Rightarrow> Some (0, cfg1)
      | Some n \<Rightarrow> Some (2, say (Stderr ''Problem in %s at line %d: %s'' [CStr (g_cfgfile cfg), CInt n, CStr t]) cfg1))"
    using read_cfgfile_exec [OF assms(2-4), of cfg_cmds] unfolding y by auto
  show ?thesis
  proof (cases y)
    case (Some n)
    let ?cfg2 = "say (Stderr ''Problem in %s at line %d: %s'' [CStr (g_cfgfile cfg), CInt n, CStr t]) cfg1"
    have "read_cfgfile stack (g_cfgfile cfg) cfg_cmds cfg = Some (2, ?cfg2)" using t Some by simp
    then have "read_config stack cfg = Some (-1, ?cfg2)" by (simp add: read_config_def)
    moreover from this have "config_ok ?cfg2" by (rule read_config_keeps [OF assms(1)])
    ultimately show ?thesis by (intro exI [of _ "-1"] exI [of _ ?cfg2]) simp
  next
    case None
    then have f: "read_cfgfile stack (g_cfgfile cfg) cfg_cmds cfg = Some (0, cfg1)" using t by simp
    obtain r cfg' where c: "complete cfg1 = (r, cfg')" by (rule prod.exhaust)
    have rc: "read_config stack cfg = Some (r, cfg')" using f c by (simp add: read_config_def)
    moreover have "length (g_skip_type cfg) = 25" using assms(1) by (simp add: config_ok_def)
    ultimately show ?thesis
      using exec_lines_tables [OF y [unfolded None]] complete_tables [OF c] read_config_keeps [OF assms(1) rc]
      by (intro exI [of _ r] exI [of _ cfg']) (simp add: set_skips_def)
  qed
qed

theorem config_invariant_witness:
  "\<exists>cfg'. read_config (replicate CFGLINE_LEN CHR ''?'') config_three = Some (0, cfg') \<and> config_ok cfg'
    \<and> g_skip_type cfg' ! 5 = 1 \<and> g_skip_type cfg' ! 6 = 0 \<and> g_sound_channels cfg' = SOUND_CHANNELS_LEFT"
proof -
  obtain c where c: "read_config (replicate CFGLINE_LEN CHR ''?'') config_three = Some (0, c)" by (rule three_read)
  from config_invariant [OF three_start(4,2,3) length_replicate three_effects(10), of "CHR ''?''"]
  show ?thesis unfolding c three_lines_split
    by (simp add: three_effects(1-9) [simplified] three_start(6) SOUND_CHANNELS_LEFT_def)
qed

text \<open>
  C26. A configuration that is accepted is complete. When \<^const>\<open>read_config\<close> succeeds, then reading the file has, and in what
  it has left the log directory (of the command line first, then of the file), the mail address, the process file, the call sign and the
  sound device are filled in where they are missing, the call sign of the file has a legal length, and there is no device when the sound
  comes from a file. The uplinks in force are the new ones: for a file that is found at once they are exactly the uplinks of its
  \<^verbatim>\<open>uplink\<close> lines, the last line first, before any that an earlier reading that failed has left; and no uplink waits any more.
\<close>

theorem read_config_complete:
  assumes "read_config stack cfg = Some (0, cfg')"
  shows "\<exists>cfg1. read_cfgfile stack (g_cfgfile cfg) cfg_cmds cfg = Some (0, cfg1)
    \<and> g_logdir cfg' = Some (case g_log_dir cfg1 of Some d \<Rightarrow> d | None \<Rightarrow> (case g_logdir cfg1 of Some d \<Rightarrow> d | None \<Rightarrow> ''.''))
    \<and> g_myemail cfg' = Some (case g_myemail cfg1 of Some e \<Rightarrow> e | None \<Rightarrow> ''notdefined@notdefined'')
    \<and> g_pidfile cfg' = Some (case g_pidfile cfg1 of Some p \<Rightarrow> p | None \<Rightarrow> the (g_logdir cfg') @ ''/'' @ g_logname cfg1 @ ''.pid'')
    \<and> g_mycall cfg' = Some (case g_mycall cfg1 of Some c \<Rightarrow> c | None \<Rightarrow> ''NOCALLDEFINED'')
    \<and> (\<forall>c. g_mycall cfg1 = Some c \<longrightarrow> 3 \<le> length c \<and> length c \<le> 12)
    \<and> g_sound_in_file cfg' = g_sound_in_file cfg1
    \<and> g_sound_device cfg' = (if g_sound_in_file cfg1 \<noteq> None then None
        else Some (case g_sound_device cfg1 of Some d \<Rightarrow> d | None \<Rightarrow> ''default''))
    \<and> g_uplink_config cfg' = g_new_uplink_config cfg1 \<and> g_new_uplink_config cfg' = []
    \<and> (\<forall>body. os_files cfg (g_cfgfile cfg) = Some body \<longrightarrow> NUL \<notin> set body \<longrightarrow> length stack = CFGLINE_LEN \<longrightarrow>
        g_uplink_config cfg' = concat (map line_uplinks (rev (text_lines body))) @ g_new_uplink_config cfg)"
proof -
  obtain cfg1 where f: "read_cfgfile stack (g_cfgfile cfg) cfg_cmds cfg = Some (0, cfg1)" and c: "complete cfg1 = (0, cfg')"
    using assms by (auto simp: read_config_def bind_eq_Some_conv split: if_splits)
  obtain failed b where b: "check_mycall (default_logdir cfg1) = (failed, b)" by (rule prod.exhaust)
  define d where "d = choose_sound (default_myemail b)"
  have nf: "\<not> failed" and cfg': "cfg' = default_pidfile (install_uplinks (my_location d))"
    using c b by (auto simp: complete_def Let_def d_def split: if_splits)
  have l: "g_logdir (default_logdir cfg1) = Some (case g_log_dir cfg1 of Some d \<Rightarrow> d | None \<Rightarrow> (case g_logdir cfg1 of Some d \<Rightarrow> d | None \<Rightarrow> ''.''))"
      "g_mycall (default_logdir cfg1) = g_mycall cfg1" "g_myemail (default_logdir cfg1) = g_myemail cfg1"
      "g_sound_in_file (default_logdir cfg1) = g_sound_in_file cfg1" "g_sound_device (default_logdir cfg1) = g_sound_device cfg1"
      "g_pidfile (default_logdir cfg1) = g_pidfile cfg1" "g_logname (default_logdir cfg1) = g_logname cfg1"
    by (auto simp: default_logdir_def say_def split: option.splits)
  have b': "g_logdir b = g_logdir (default_logdir cfg1)" "g_myemail b = g_myemail cfg1" "g_pidfile b = g_pidfile cfg1" "g_logname b = g_logname cfg1"
      "g_sound_in_file b = g_sound_in_file cfg1" "g_sound_device b = g_sound_device cfg1"
      "g_mycall b = Some (case g_mycall cfg1 of Some c \<Rightarrow> c | None \<Rightarrow> ''NOCALLDEFINED'')"
      "\<forall>c. g_mycall cfg1 = Some c \<longrightarrow> 3 \<le> length c \<and> length c \<le> 12"
    using b nf l by (auto simp: check_mycall_def valid_aprsis_call_def say_def split: option.splits if_splits)
  have d': "g_logdir d = g_logdir (default_logdir cfg1)" "g_myemail d = Some (case g_myemail cfg1 of Some e \<Rightarrow> e | None \<Rightarrow> ''notdefined@notdefined'')"
      "g_pidfile d = g_pidfile cfg1" "g_logname d = g_logname cfg1" "g_sound_in_file d = g_sound_in_file cfg1" "g_mycall d = g_mycall b"
      "g_sound_device d = (if g_sound_in_file cfg1 \<noteq> None then None else Some (case g_sound_device cfg1 of Some d \<Rightarrow> d | None \<Rightarrow> ''default''))"
    using b' by (auto simp: d_def choose_sound_def default_myemail_def Let_def say_def split: option.splits)
  have k: "g_logdir cfg' = g_logdir d" "g_myemail cfg' = g_myemail d" "g_mycall cfg' = g_mycall d" "g_sound_in_file cfg' = g_sound_in_file d"
      "g_sound_device cfg' = g_sound_device d"
      "g_pidfile cfg' = Some (case g_pidfile d of Some p \<Rightarrow> p | None \<Rightarrow> the (g_logdir d) @ ''/'' @ g_logname d @ ''.pid'')"
    by (auto simp: cfg' default_pidfile_def install_uplinks_def my_location_def Let_def split: option.splits)
  have u: "g_uplink_config cfg' = g_new_uplink_config cfg1" "g_new_uplink_config cfg' = []" using complete_tables [OF c] by simp_all
  have "g_new_uplink_config cfg1 = concat (map line_uplinks (rev (text_lines body))) @ g_new_uplink_config cfg"
    if h: "os_files cfg (g_cfgfile cfg) = Some body" "NUL \<notin> set body" "length stack = CFGLINE_LEN" for body
  proof -
    have "exec_lines cfg_cmds 0 (text_lines body) cfg = Some (None, cfg1)"
      using read_cfgfile_exec [OF h, of cfg_cmds] unfolding f by (auto split: option.splits)
    then show ?thesis using exec_lines_tables by blast
  qed
  moreover have "g_pidfile cfg' = Some (case g_pidfile cfg1 of Some p \<Rightarrow> p | None \<Rightarrow> the (g_logdir cfg') @ ''/'' @ g_logname cfg1 @ ''.pid'')"
    by (simp only: k d'(3,4))
  moreover have "g_logdir cfg' = Some (case g_log_dir cfg1 of Some d \<Rightarrow> d | None \<Rightarrow> (case g_logdir cfg1 of Some d \<Rightarrow> d | None \<Rightarrow> ''.''))"
      "g_mycall cfg' = Some (case g_mycall cfg1 of Some c \<Rightarrow> c | None \<Rightarrow> ''NOCALLDEFINED'')"
    by (simp_all only: k d' b' l(1))
  moreover note f u(2) u(1) k(2,4,5) [unfolded d'(2,5,7)] b'(8)
  ultimately show ?thesis by (intro exI [of _ cfg1] conjI) (assumption, assumption, assumption, assumption, assumption, assumption, assumption, assumption, assumption, assumption, simp)
qed

theorem read_config_complete_witness:
  "\<exists>cfg'. read_config (replicate CFGLINE_LEN CHR ''?'') config_three = Some (0, cfg') \<and> g_pidfile cfg' \<noteq> None
    \<and> g_uplink_config cfg' = [\<lparr>up_proto = 1, up_name = ''x'', up_url = ''u''\<rparr>]"
proof -
  obtain c where c: "read_config (replicate CFGLINE_LEN CHR ''?'') config_three = Some (0, c)" by (rule three_read)
  from read_config_complete [OF c] have "g_pidfile c \<noteq> None"
      "g_uplink_config c = concat (map line_uplinks (rev (text_lines three_lines))) @ g_new_uplink_config config_three"
    using three_start(2,3) by auto
  then show ?thesis using c unfolding three_lines_split by (simp add: three_effects(4-6) [simplified] three_start(5))
qed

section \<open>Intervals\<close>

text \<open>The decimal digits of a number.\<close>

fun dec :: "nat \<Rightarrow> string" where
  "dec n = (if n < 10 then [char_of (48 + n)] else dec (n div 10) @ [char_of (48 + n mod 10)])"

declare dec.simps [simp del]

lemma dec_digit_char: "n < 10 \<Longrightarrow> of_char (char_of (48 + n) :: char) = 48 + (n :: nat)"
  by (simp add: of_char_of)

lemma dec_digits: "c \<in> set (dec n) \<Longrightarrow> c_isdigit c" "dec n \<noteq> []"
proof -
  have d: "c_isdigit (char_of (48 + n :: nat))" if "n < 10" for n using dec_digit_char [OF that] that by (simp add: c_isdigit_def)
  show "c \<in> set (dec n) \<Longrightarrow> c_isdigit c"
    by (induction n rule: dec.induct) (subst (asm) dec.simps, auto simp: d split: if_splits)
  show "dec n \<noteq> []" by (subst dec.simps) simp
qed

lemma scan_digits_append:
  "\<forall>c \<in> set ds. c_isdigit c \<Longrightarrow> scan_digits 10 a (ds @ [c]) = (let (v, n) = scan_digits 10 a ds in
    if digit_value c < 10 then (v * 10 + digit_value c, Suc n) else (v, n))"
proof (induction ds arbitrary: a)
  case (Cons d ds)
  then have "digit_value d < 10" by (auto simp: digit_value_def c_isdigit_def)
  then show ?case using Cons by (simp add: split_def Let_def)
qed simp

lemma scan_dec: "fst (scan_digits 10 0 (dec n)) = n"
proof (induction n rule: dec.induct)
  case (1 n)
  have v: "digit_value (char_of (48 + k :: nat)) = k" if "k < 10" for k
    using dec_digit_char [OF that] that by (simp add: digit_value_def Let_def)
  show ?case
  proof (cases "n < 10")
    case True
    then show ?thesis using v [OF True] by (subst dec.simps) simp
  next
    case False
    have "scan_digits 10 0 (dec n) = scan_digits 10 0 (dec (n div 10) @ [char_of (48 + n mod 10)])" using False by (subst dec.simps) simp
    then show ?thesis using 1 [OF False] scan_digits_append [of "dec (n div 10)" 0 "char_of (48 + n mod 10)"] dec_digits(1) v [of "n mod 10"]
      by (simp add: Let_def split_def)
  qed
qed

lemma atoi_dec: "n < 2 ^ 31 \<Longrightarrow> atoi (dec n) = Some (int n)"
proof -
  assume n: "n < 2 ^ 31"
  obtain c s where s: "dec n = c # s" using dec_digits(2) by (cases "dec n") auto
  then have "c_isdigit c" using dec_digits(1) [of c n] by simp
  then have c: "\<not> c_isspace c" "c \<noteq> CHR ''-''" "c \<noteq> CHR ''+''" by (auto simp: c_isdigit_def c_isspace_def)
  then show ?thesis using n scan_dec [of n] by (simp add: atoi_def s Let_def)
qed

lemma interval_digits:
  "\<forall>c \<in> set ds. c_isdigit c \<Longrightarrow> interval_loop t np (ds @ s) = interval_loop t (np @ ds) s"
  by (induction ds arbitrary: np) simp_all

lemma interval_unit:
  assumes "n < 2 ^ 31" "unit_seconds (c_tolower u) * int n < 2 ^ 31" "\<not> c_isdigit u"
  shows "interval_loop t [] (dec n @ u # s) = interval_loop (t + unit_seconds (c_tolower u) * int n) [] s"
proof -
  have "0 \<le> unit_seconds (c_tolower u) * int n" by (simp add: unit_seconds_def)
  then have "mult_int (unit_seconds (c_tolower u)) (int n) = Some (unit_seconds (c_tolower u) * int n)"
    using assms(2) by (simp add: mult_int_def)
  then show ?thesis using interval_digits [of "dec n" t "[]" "u # s"] dec_digits(1) atoi_dec [OF assms(1)] assms(3) by simp
qed

text \<open>
  Intervals. Days, hours, minutes and seconds, in this order, written in decimal with their letters, and a last number
  without a letter that also counts in seconds, give the sum in seconds.
\<close>

theorem parse_interval_units:
  assumes "86400 * d < 2 ^ 31" "3600 * h < 2 ^ 31" "60 * m < 2 ^ 31" "n < 2 ^ 31" "k < 2 ^ 31"
  shows "parse_interval (dec d @ ''d'' @ dec h @ ''h'' @ dec m @ ''m'' @ dec n @ ''s'' @ dec k)
    = Some (int (86400 * d + 3600 * h + 60 * m + n + k))"
proof -
  have u: "unit_seconds (c_tolower CHR ''d'') = 86400" "unit_seconds (c_tolower CHR ''h'') = 3600"
    "unit_seconds (c_tolower CHR ''m'') = 60" "unit_seconds (c_tolower CHR ''s'') = 1"
    by (simp_all add: unit_seconds_def c_tolower_def)
  have nd: "\<not> c_isdigit CHR ''d''" "\<not> c_isdigit CHR ''h''" "\<not> c_isdigit CHR ''m''" "\<not> c_isdigit CHR ''s''"
    by (simp_all add: c_isdigit_def)
  have "interval_loop t [] (dec k) = Some (t + int k)" for t
    using interval_digits [of "dec k" t "[]" "[]"] dec_digits atoi_dec [OF assms(5)] by simp
  moreover have "d < 2 ^ 31" "h < 2 ^ 31" "m < 2 ^ 31" using assms(1-3) by simp_all
  ultimately show ?thesis
    using assms(1-4) by (simp add: parse_interval_def interval_unit u nd)
qed

theorem parse_interval_units_witness:
  "parse_interval (dec 1 @ ''d'' @ dec 0 @ ''h'' @ dec 30 @ ''m'' @ dec 5 @ ''s'' @ dec 0) = Some 88205"
  using parse_interval_units [of 1 0 30 5 0] by simp

end
