(* ===== verification/Station.thy ===== *)
theory Station
  imports Decoder_Core Config
begin

text \<open>
  ais.c, input.c, pulseaudio.c: the main program after its configuration has been read. It sets up the receivers of the channels and the source of
  the sound, feeds every buffer of sound to the receivers until it is stopped or the sound ends, and closes down. The
  sound devices, the other threads and the opening of files and ports are parameters.
\<close>

section \<open>Sound input\<close>

text \<open>
  \<^verbatim>\<open>input_initialize\<close>: the settings of the device in the order of the calls, with the messages of each when it fails.
\<close>

definition alsa_calls :: "string list list" where
  "alsa_calls = [[''Sound device: Error initializing hwparams''],
     [''Sound device: Error setting acecss mode (SND_PCM_ACCESS_RW_INTERLEAVED): %s''],
     [''Sound device: Error setting format (SND_PCM_FORMAT_S16_LE): %s''],
     [''Sound device: Error setting channels %d: %s'',
      ''Sound device: Maybe your sound card does not support this SoundChannels setting (mono-only or stereo-only card).''],
     [''Sound device: Error setting sample rate (%d): %s''], [''Sound device: Error setting buffer size (%d): %s''],
     [''Sound device: Error writing hwparams: %s'']]"

record alsa =
  alsa_results :: "int list"
  alsa_period :: nat
  alsa_reads :: "nat \<Rightarrow> int \<times> s16 list"

fun alsa_steps :: "string list list \<Rightarrow> int list \<Rightarrow> world \<Rightarrow> bool \<times> world" where
  "alsa_steps (ms # mss) (e # es) w =
     (if e < 0 then (False, foldl (\<lambda>w m. emit (Hlog m [PInt e]) w) w ms) else alsa_steps mss es w)"
| "alsa_steps mss es w = (True, w)"

definition num_channels :: "config \<Rightarrow> nat" where
  "num_channels cfg = (if g_sound_channels cfg = SOUND_CHANNELS_MONO then 1 else 2)"

definition input_initialize :: "config \<Rightarrow> alsa \<Rightarrow> world \<Rightarrow> (s16 list \<times> nat) option \<times> world" where
  "input_initialize cfg dev w =
     (let (fine, w) = alsa_steps alsa_calls (alsa_results dev) w; n = alsa_period dev
      in if fine
         then (Some (replicate (n * num_channels cfg) 0, n),
               emit (Hlog ''Sound device: Using sound buffer size: %d frames of %d channels: %d bytes''
                 [PInt (int n), PInt (int (num_channels cfg)), PInt (int (n * 2 * num_channels cfg))]) w)
         else (None, w))"

definition EPIPE :: int where "EPIPE = 32"

definition input_read :: "int \<times> s16 list \<Rightarrow> nat \<Rightarrow> world \<Rightarrow> int \<times> s16 list \<times> world" where
  "input_read r n w =
     (let (err, buf) = r
      in (err, buf, if err = - EPIPE then emit (Hlog ''Sound device: Overrun'' []) w
                    else if err < 0 then emit (Hlog ''Sound device: Read error'' []) w
                    else if err \<noteq> int n then emit (Hlog ''Sound device: Short read, read %d frames'' [PInt err]) w
                    else w))"

definition pulseaudio_read :: "int \<times> s16 list \<Rightarrow> nat \<Rightarrow> int \<times> s16 list" where
  "pulseaudio_read r n = (let (number_read, buf) = r in (if number_read < 0 then -1 else int n, buf))"

section \<open>The main loop\<close>

text \<open>
  A sound file is the rest of its samples; of a device, the result of each read and the buffer that it leaves.
\<close>

datatype sound_source = Sound_file "s16 list" | Pulse "nat \<Rightarrow> int \<times> s16 list" | Alsa "nat \<Rightarrow> int \<times> s16 list"

record station =
  st_source :: sound_source
  st_reads :: nat
  st_buffer :: "s16 list"
  st_buffer_l :: nat
  st_done :: bool
  last_stats :: int
  rx_a :: "receiver option"
  rx_b :: "receiver option"
  sound_out :: "s16 list option"
  st_world :: world

text \<open>One read. \<^verbatim>\<open>fread\<close> counts whole frames; samples of a last incomplete frame are copied too.\<close>

definition read_sound :: "nat \<Rightarrow> station \<Rightarrow> int \<times> station" where
  "read_sound chans s =
     (let n = st_buffer_l s; s = s\<lparr>st_reads := st_reads s + 1\<rparr>
      in case st_source s of
        Sound_file ss \<Rightarrow>
          let got = take (n * chans) ss; k = length got div chans
          in (int k, s\<lparr>st_source := Sound_file (drop (n * chans) ss), st_buffer := got @ drop (length got) (st_buffer s),
                       st_done := st_done s \<or> k = 0\<rparr>)
      | Pulse dev \<Rightarrow> let (r, buf) = pulseaudio_read (dev (st_reads s - 1)) n in (r, s\<lparr>st_buffer := buf\<rparr>)
      | Alsa dev \<Rightarrow> let (r, buf, w) = input_read (dev (st_reads s - 1)) n (st_world s) in (r, s\<lparr>st_buffer := buf, st_world := w\<rparr>))"

text \<open>A receiver that does not exist is a null pointer.\<close>

definition run_rx :: "config \<Rightarrow> cfloat list \<Rightarrow> nat \<Rightarrow> s16 list \<Rightarrow> receiver option \<Rightarrow> world \<Rightarrow> (receiver option \<times> world) option" where
  "run_rx cfg stack n buf p w = do {
     rx \<leftarrow> p;
     (rx, w) \<leftarrow> receiver_run (g_sound_levellog cfg) stack rx buf n w;
     Some (Some rx, w)
   }"

definition run_a :: "config \<Rightarrow> cfloat list \<Rightarrow> nat \<Rightarrow> station \<Rightarrow> station option" where
  "run_a cfg stack n s = do { (p, w) \<leftarrow> run_rx cfg stack n (st_buffer s) (rx_a s) (st_world s); Some (s\<lparr>rx_a := p, st_world := w\<rparr>) }"

definition run_b :: "config \<Rightarrow> cfloat list \<Rightarrow> nat \<Rightarrow> station \<Rightarrow> station option" where
  "run_b cfg stack n s = do { (p, w) \<leftarrow> run_rx cfg stack n (st_buffer s) (rx_b s) (st_world s); Some (s\<lparr>rx_b := p, st_world := w\<rparr>) }"

definition range_of_rx :: "receiver option \<Rightarrow> world \<Rightarrow> receiver option \<times> world" where
  "range_of_rx p w = (case p of None \<Rightarrow> (None, w)
     | Some rx \<Rightarrow> let (d, w) = log_range (decoder rx) w in (Some (rx\<lparr>decoder := d\<rparr>), w))"

definition statistics :: "config \<Rightarrow> station \<Rightarrow> station" where
  "statistics cfg s =
     (if g_stats_interval cfg \<noteq> 0 then
        let (now, w) = time_now (st_world s); s = s\<lparr>st_world := w\<rparr>
        in if last_stats s > now then s\<lparr>last_stats := now\<rparr>
           else if now - last_stats s \<ge> g_stats_interval cfg then
             let (a, w) = range_of_rx (rx_a s) (st_world s); (b, w) = range_of_rx (rx_b s) w
             in s\<lparr>last_stats := now, rx_a := a, rx_b := b, st_world := w\<rparr>
           else s
      else s)"

definition main_round :: "config \<Rightarrow> cfloat list \<Rightarrow> station \<Rightarrow> station option" where
  "main_round cfg stack s =
     (let (r, s) = read_sound (num_channels cfg) s; n = nat r; mode = g_sound_channels cfg
      in if r \<le> 0 then Some s
         else do {
           let s = (case sound_out s of None \<Rightarrow> s | Some f \<Rightarrow> s\<lparr>sound_out := Some (f @ take (n * num_channels cfg) (st_buffer s))\<rparr>);
           s \<leftarrow> (if mode = SOUND_CHANNELS_MONO then run_a cfg stack n s else Some s);
           s \<leftarrow> (if mode = SOUND_CHANNELS_BOTH \<or> mode = SOUND_CHANNELS_RIGHT then run_a cfg stack n s else Some s);
           s \<leftarrow> (if mode = SOUND_CHANNELS_BOTH \<or> mode = SOUND_CHANNELS_LEFT then run_b cfg stack n s else Some s);
           Some (statistics cfg s)
         })"

text \<open>\<open>stop n\<close>: the interrupt signal has arrived when the loop looks after \<open>n\<close> reads.\<close>

partial_function (option) main_loop :: "config \<Rightarrow> cfloat list \<Rightarrow> (nat \<Rightarrow> bool) \<Rightarrow> station \<Rightarrow> station option" where
  "main_loop cfg stack stop s =
     (if st_done s \<or> stop (st_reads s) then Some s
      else do { s \<leftarrow> main_round cfg stack s; main_loop cfg stack stop s })"

section \<open>Setting up and closing down\<close>

text \<open>
  What the rest of the machine answers: the contents of fresh memory, whether the serial port, the socket, the export thread, the database and the
  recording could be opened, and the sound devices and files.
\<close>

record machine =
  mem_a :: "nat \<Rightarrow> nat \<Rightarrow> u8"
  mem_b :: "nat \<Rightarrow> nat \<Rightarrow> u8"
  fresh_sound :: "nat \<Rightarrow> s16"
  serial_opens :: bool
  ipc_opens :: bool
  export_starts :: bool
  mysql_opens :: bool
  out_opens :: bool
  pulse_dev :: "(nat \<Rightarrow> int \<times> s16 list) option"
  alsa_dev :: "alsa option"
  sound_file :: "string \<Rightarrow> s16 list option"

text \<open>The global variables that the decoder shares with the configuration.\<close>

definition set_globals :: "config \<Rightarrow> world \<Rightarrow> world" where
  "set_globals cfg w = w\<lparr>have_my_loc := g_have_my_loc cfg, mylat := g_mylat cfg, mylng := g_mylng cfg, skip_type := g_skip_type cfg, w_my := False\<rparr>"

definition start_receivers :: "machine \<Rightarrow> config \<Rightarrow> world \<Rightarrow> (receiver option \<times> receiver option \<times> world) option" where
  "start_receivers mc cfg w =
     (let ser = g_serial_port cfg \<noteq> None \<and> serial_opens mc; ip = ipc_opens mc;
          w = emit (Hlog ''Initializing demodulator A'' []) w
      in if g_sound_channels cfg \<noteq> SOUND_CHANNELS_MONO then do {
           a \<leftarrow> init_receiver (mem_a mc) 65 2 0 ser ip;
           let w = emit (Hlog ''Initializing demodulator B'' []) w;
           b \<leftarrow> init_receiver (mem_b mc) 66 2 1 ser ip;
           Some (Some a, Some b, w)
         } else do {
           a \<leftarrow> init_receiver (mem_a mc) 65 1 0 ser ip;
           Some (Some a, None, w)
         })"

definition sound_buffer :: "machine \<Rightarrow> config \<Rightarrow> s16 list \<times> nat" where
  "sound_buffer mc cfg = (let n = 1024; n = n - n mod 5 in (map (fresh_sound mc) [0..<n * num_channels cfg], n))"

definition open_sound :: "machine \<Rightarrow> config \<Rightarrow> world \<Rightarrow> (sound_source \<times> s16 list \<times> nat) option \<times> world" where
  "open_sound mc cfg w =
     (case g_sound_device cfg of
        Some dev \<Rightarrow>
          if dev = ''pulse'' \<or> dev = ''pulseaudio'' then
            (case pulse_dev mc of
               None \<Rightarrow> (None, emit (Hlog ''Error opening pulseaudio device'' []) w)
             | Some p \<Rightarrow> (Some (Pulse p, sound_buffer mc cfg), w))
          else (case alsa_dev mc of
              None \<Rightarrow> (None, emit (Hlog ''Error opening sound device (%s)'' [PLit dev]) w)
            | Some d \<Rightarrow> let (r, w) = input_initialize cfg d w
                in (case r of None \<Rightarrow> (None, w) | Some (buf, n) \<Rightarrow> (Some (Alsa (alsa_reads d), buf, n), w)))
      | None \<Rightarrow> (case g_sound_in_file cfg of
          Some f \<Rightarrow> (case sound_file mc f of
              None \<Rightarrow> (None, emit (Hlog ''Could not open sound file %s: %s'' [PLit f]) w)
            | Some ss \<Rightarrow> (Some (Sound_file ss, sound_buffer mc cfg), emit (Hlog ''Reading audio from file: %s'' [PLit f]) w))
        | None \<Rightarrow> (None, emit (Hlog ''Neither sound device or sound file configured.'' []) w)))"

text \<open>The recording and the database; the result says whether the program goes on.\<close>

definition open_outputs :: "machine \<Rightarrow> config \<Rightarrow> world \<Rightarrow> bool \<times> s16 list option \<times> world" where
  "open_outputs mc cfg w =
     (case g_sound_out_file cfg of
        Some f \<Rightarrow> if out_opens mc then (True, Some [], emit (Hlog ''Recording audio to file: %s'' [PLit f]) w)
                  else (False, None, emit (Hlog ''Could not open sound output file %s: %s'' [PLit f]) w)
      | None \<Rightarrow> (True, None, w))"

definition open_mysql :: "machine \<Rightarrow> config \<Rightarrow> world \<Rightarrow> bool \<times> world" where
  "open_mysql mc cfg w =
     (case g_mysql_db cfg of None \<Rightarrow> (True, w)
      | Some db \<Rightarrow>
          let w = emit (Hlog (''Saving to MySQL database '' @ CHR 0x22 # ''%s'' @ [CHR 0x22]) [PLit db]) w
          in if \<not> mysql_opens mc then (False, w)
             else let w = w\<lparr>w_my := True\<rparr>;
                      w = emit (Hlog (if g_mysql_keepsmall cfg \<noteq> 0 then ''Updating database rows only.'' else ''Inserting data to database.'') []) w;
                      w = (if g_mysql_oldlimit cfg \<noteq> 0 then emit (Hlog ''Deleting data older than %d seconds'' [PInt (g_mysql_oldlimit cfg)]) w else w)
                  in (True, w))"

definition log_counts :: "string \<Rightarrow> receiver option \<Rightarrow> world \<Rightarrow> world" where
  "log_counts fmt p w = (case p of None \<Rightarrow> w
     | Some rx \<Rightarrow> let d = decoder rx in emit (Hlog fmt [PInt (receivedframes d), PInt (lostframes d), PInt (lostframes2 d)]) w)"

text \<open>Closing down. Without a socket there is no listener thread to wait for.\<close>

definition close_down :: "machine \<Rightarrow> station \<Rightarrow> world option" where
  "close_down mc s = do {
     let w = emit (Hlog ''Closing down...'' []) (st_world s);
     _ \<leftarrow> (if ipc_opens mc then Some () else None);
     c \<leftarrow> (if cache_positions (w_cache w) \<noteq> 0 then cache_deinit (w_cache w) else Some (w_cache w));
     let w = w\<lparr>w_cache := c\<rparr>;
     let w = log_counts ''A: Received correctly: %d packets, wrong CRC: %d packets, wrong size: %d packets'' (rx_a s) w;
     Some (log_counts ''B: Received correctly: %d packets, wrong CRC: %d packets, wrong size: %d packets'' (rx_b s) w)
   }"

text \<open>The exit code, the station when the loop was entered, and the world.\<close>

definition run_station :: "machine \<Rightarrow> config \<Rightarrow> cfloat list \<Rightarrow> (nat \<Rightarrow> bool) \<Rightarrow> world \<Rightarrow> (int \<times> station option \<times> world) option" where
  "run_station mc cfg stack stop w =
     (let (start, w) = time_now (set_globals cfg w);
          w = (if g_uplink_config cfg \<noteq> [] then
                 emit (Hlog ''Initializing jsonout...'' [])
                   ((emit (Hlog ''Initializing cache...'' []) w)\<lparr>w_cache := cache_init (w_cache w)\<rparr>)
               else w)
      in if g_uplink_config cfg \<noteq> [] \<and> \<not> export_starts mc then Some (1, None, w)
         else do {
           let w = (if ipc_opens mc then w else emit (Hlog ''Could not open Unix Domain Socket'' []) w);
           (a, b, w) \<leftarrow> start_receivers mc cfg w;
           let (src, w) = open_sound mc cfg w;
           case src of None \<Rightarrow> Some (-1, None, w)
           | Some (source, buf, n) \<Rightarrow>
               let (fine, out, w) = open_outputs mc cfg w
               in if \<not> fine then Some (-1, None, w)
                  else let (fine, w) = open_mysql mc cfg w
                    in if \<not> fine then Some (-1, None, w)
                       else do {
                         s \<leftarrow> main_loop cfg stack stop
                           \<lparr>st_source = source, st_reads = 0, st_buffer = buf, st_buffer_l = n, st_done = False, last_stats = start,
                            rx_a = a, rx_b = b, sound_out = out, st_world = emit (Hlog ''Started'' []) w\<rparr>;
                         w \<leftarrow> close_down mc s;
                         Some (0, Some s, w)
                       }
         })"


section \<open>What a channel hears\<close>

text \<open>
  The samples of a channel in a recording of \<open>nch\<close> interleaved channels, and what a receiver that
  started as \<open>d0\<close> has made of them, whatever else has happened in the process.
\<close>

definition channel_of :: "nat \<Rightarrow> nat \<Rightarrow> s16 list \<Rightarrow> cfloat list" where
  "channel_of ofs nch ss = map (\<lambda>k. sample (ss ! (ofs + k * nch))) [0..<length ss div nch]"

definition deaf :: "cfloat list \<times> (int \<times> nat \<times> int)" where
  "deaf = (replicate 36 0, 0, 0, 0)"

definition listens :: "demod_state \<Rightarrow> nat \<Rightarrow> nat \<Rightarrow> s16 list \<Rightarrow> receiver \<Rightarrow> bool" where
  "listens d0 ofs nch ss rx \<longleftrightarrow> receiver_ok rx \<and> num_ch rx = nch \<and> ch_ofs rx = ofs \<and> f_taps (rx_filter rx) = coeffs
     \<and> (\<exists>bs d w. hear coeffs deaf (channel_of ofs nch ss) = (bs, ear rx)
         \<and> decode_bits bs d0 idle_world = Some (d, w) \<and> core d = core (decoder rx))"

lemma channel_of_append:
  assumes "nch dvd length xs" "0 < nch" "ofs < nch"
  shows "channel_of ofs nch (xs @ ys) = channel_of ofs nch xs @ channel_of ofs nch ys"
proof -
  obtain q where q: "length xs = nch * q" using assms(1) by auto
  have l: "length (xs @ ys) div nch = q + length ys div nch" using assms(2) by (simp add: q)
  have "ofs + k * nch < length xs" if "k < q" for k
  proof -
    have "ofs + k * nch < nch + k * nch" using assms(3) by simp
    also have "\<dots> = Suc k * nch" by simp
    also have "\<dots> \<le> q * nch" using that by (intro mult_le_mono1) simp
    finally show ?thesis by (simp add: q mult.commute)
  qed
  then have a: "map (\<lambda>k. sample ((xs @ ys) ! (ofs + k * nch))) [0..<q] = channel_of ofs nch xs"
    using assms(2) by (simp add: channel_of_def q nth_append)
  have "(xs @ ys) ! (ofs + (q + k) * nch) = ys ! (ofs + k * nch)" for k
    by (simp add: nth_append q algebra_simps)
  then have "map (\<lambda>k. sample ((xs @ ys) ! (ofs + k * nch))) [q..<q + length ys div nch] = channel_of ofs nch ys"
    unfolding channel_of_def by (intro nth_equalityI) (simp_all)
  then show ?thesis using a unfolding channel_of_def l by (subst upt_add_eq_append) simp_all
qed

lemma channel_of_short: "length ss < nch \<Longrightarrow> channel_of ofs nch ss = []"
  by (simp add: channel_of_def)

text \<open>The frames that were read are at the beginning of the buffer.\<close>

lemma channel_samples_read:
  assumes "0 < nch" "ofs < nch" "length got \<le> length buf"
  shows "map sample (channel_samples (drop ofs (got @ drop (length got) buf)) nch (length got div nch)) = channel_of ofs nch got"
proof -
  have "ofs + k * nch < length got" if "k < length got div nch" for k
  proof -
    have "ofs + k * nch < Suc k * nch" using assms(2) by simp
    also have "\<dots> \<le> length got div nch * nch" using that by (intro mult_le_mono1) simp
    also have "\<dots> \<le> length got" by simp
    finally show ?thesis .
  qed
  then have "drop ofs (got @ drop (length got) buf) ! (k * nch) = got ! (ofs + k * nch)" if "k < length got div nch" for k
    using that by (subst nth_drop) (fastforce simp: nth_append)+
  then show ?thesis by (simp add: channel_samples_def channel_of_def)
qed

lemma decoder_ok: "receiver_ok rx \<Longrightarrow> demod_ok (decoder rx)"
  by (simp add: receiver_ok_def)

lemma listens_run:
  assumes l: "listens d0 ofs nch ss rx" and d0: "demod_ok d0" and w: "env_ok w" and stack: "length stack = 4096"
    and got: "length got \<le> length buf" "length got div nch \<le> 4096" and nch: "nch dvd length ss" "0 < nch" "ofs < nch"
  shows "\<exists>rx' w'. receiver_run sl stack rx (got @ drop (length got) buf) (length got div nch) w = Some (rx', w')
    \<and> env_ok w' \<and> listens d0 ofs nch (ss @ got) rx'"
proof -
  let ?n = "length got div nch" and ?buf = "got @ drop (length got) buf"
  have rx: "receiver_ok rx" "num_ch rx = nch" "ch_ofs rx = ofs" "f_taps (rx_filter rx) = coeffs" using l by (simp_all add: listens_def)
  obtain bs d v where h: "hear coeffs deaf (channel_of ofs nch ss) = (bs, ear rx)" "decode_bits bs d0 idle_world = Some (d, v)"
      "core d = core (decoder rx)" using l by (auto simp: listens_def)
  obtain cs e where c: "hear coeffs (ear rx) (channel_of ofs nch got) = (cs, e)" by (rule prod.exhaust)
  have "0 < ?n \<longrightarrow> ofs + (?n - 1) * nch < length ?buf"
  proof
    assume "0 < ?n"
    then have "(?n - 1) * nch + nch = ?n * nch" by (simp add: mult_eq_if)
    moreover have "?n * nch \<le> length got" by simp
    ultimately show "ofs + (?n - 1) * nch < length ?buf" using nch(3) by (simp del: div_times_less_eq_dividend)
  qed
  then obtain rx' w' w1 where r: "receiver_run sl stack rx ?buf ?n w = Some (rx', w')" "receiver_ok rx'" "env_ok w'"
      "decode_bits cs (decoder rx) w = Some (decoder rx', w1)" "ear rx' = e"
      "f_taps (rx_filter rx') = coeffs" "num_ch rx' = nch" "ch_ofs rx' = ofs"
    using receiver_run_hears [OF rx(1) w got(2) stack, of ?buf cs e sl] c channel_samples_read [OF nch(2,3) got(1)]
    unfolding rx(2-4) by (elim exE conjE meta_impE) (simp_all add: that)
  obtain d1 v0 where d1: "decode_bits bs d0 idle_world = Some (d1, v0)" "demod_ok d1" "env_ok v0"
    using decode_bits_ok [OF d0 idle_env_ok] by blast
  then have d: "demod_ok d" "env_ok v" using h(2) by simp_all
  obtain d' v' where d': "decode_bits cs d v = Some (d', v')" using decode_bits_ok [OF d] by blast
  have "core d' = core (decoder rx')" by (rule decode_bits_core [OF d d' decoder_ok [OF rx(1)] w r(4) h(3)])
  moreover have "decode_bits (bs @ cs) d0 idle_world = Some (d', v')" using h(2) d' by (simp add: decode_bits_append)
  moreover have "hear coeffs deaf (channel_of ofs nch (ss @ got)) = (bs @ cs, ear rx')"
    unfolding channel_of_append [OF nch] using hear_append [OF h(1) c] r(5) by simp
  ultimately show ?thesis using r by (auto simp: listens_def)
qed

lemma listens_start:
  assumes "init_receiver mem nm nch ofs ser ip = Some rx"
  shows "listens (protodec_initialize mem ser ip nm) ofs nch [] rx"
proof -
  obtain f where f: "filter_init COEFFS_L coeffs = Some f" "f_taps f = coeffs" "history f = replicate 36 0"
    using filter_init_ok [of COEFFS_L coeffs] coeffs_length by (auto simp: BufferLen_def COEFFS_L_def)
  have "rx_filter rx = f" using assms f(1) by (auto simp: init_receiver_def)
  then show ?thesis using init_receiver_ok [of mem nm nch ofs ser ip] assms f(2,3)
    by (auto simp: listens_def channel_of_def hear_def deaf_def ear_def shift_in_def)
qed

lemma listens_range:
  assumes "listens d0 ofs nch ss rx" "env_ok w" "log_range (decoder rx) w = (d, w')"
  shows "listens d0 ofs nch ss (rx\<lparr>decoder := d\<rparr>) \<and> env_ok w'"
proof -
  have d: "d = (decoder rx)\<lparr>best_range := 0\<rparr>" using assms(3) by (simp add: log_range_def)
  then have "core d = core (decoder rx)" by (simp add: core_def)
  moreover have "demod_ok d = demod_ok (decoder rx)" by (simp add: d demod_ok_def buffers_ok_def)
  then have "receiver_ok (rx\<lparr>decoder := d\<rparr>)" using assms(1) by (simp add: listens_def receiver_ok_def rx_ok_def)
  moreover have "ear (rx\<lparr>decoder := d\<rparr>) = ear rx" by (simp add: ear_def rx_state_def)
  moreover have "env_ok w'" using assms(2,3) by (auto simp: log_range_def env_ok_def world_ok_def emit_def split: if_splits)
  ultimately show ?thesis using assms(1) by (simp add: listens_def)
qed

lemma listens_silent: "listens d0 ofs nch ss rx \<Longrightarrow> length ys < nch \<Longrightarrow> nch dvd length ss \<Longrightarrow> ofs < nch \<Longrightarrow> listens d0 ofs nch (ss @ ys) rx"
  by (simp add: listens_def channel_of_append channel_of_short)


section \<open>The main loop over a sound file\<close>

definition uses_a :: "config \<Rightarrow> bool" where
  "uses_a cfg \<longleftrightarrow> g_sound_channels cfg \<in> {SOUND_CHANNELS_MONO, SOUND_CHANNELS_BOTH, SOUND_CHANNELS_RIGHT}"

definition uses_b :: "config \<Rightarrow> bool" where
  "uses_b cfg \<longleftrightarrow> g_sound_channels cfg \<in> {SOUND_CHANNELS_BOTH, SOUND_CHANNELS_LEFT}"

definition whole_frames :: "nat \<Rightarrow> s16 list \<Rightarrow> s16 list" where
  "whole_frames nch ss = take (length ss div nch * nch) ss"

text \<open>
  The station after the samples \<open>xs\<close>: each receiver in use has heard its channel of them, the other one nothing, and the
  recording, if there is one, holds them.
\<close>

definition a_ok :: "config \<Rightarrow> demod_state \<Rightarrow> s16 list \<Rightarrow> receiver option \<Rightarrow> bool" where
  "a_ok cfg da xs p \<longleftrightarrow> (\<exists>rx. p = Some rx \<and> listens da 0 (num_channels cfg) (if uses_a cfg then xs else []) rx)"

definition b_ok :: "config \<Rightarrow> demod_state \<Rightarrow> s16 list \<Rightarrow> receiver option \<Rightarrow> bool" where
  "b_ok cfg db xs p \<longleftrightarrow>
     (if num_channels cfg = 2 then \<exists>rx. p = Some rx \<and> listens db 1 2 (if uses_b cfg then xs else []) rx else p = None)"

definition station_ok :: "config \<Rightarrow> demod_state \<Rightarrow> demod_state \<Rightarrow> bool \<Rightarrow> s16 list \<Rightarrow> station \<Rightarrow> bool" where
  "station_ok cfg da db rec xs s \<longleftrightarrow> env_ok (st_world s) \<and> st_buffer_l s = 1020 \<and> length (st_buffer s) = 1020 * num_channels cfg
     \<and> a_ok cfg da xs (rx_a s) \<and> b_ok cfg db xs (rx_b s)
     \<and> sound_out s = (if rec then Some (whole_frames (num_channels cfg) xs) else None)"

lemma run_rx_listens:
  assumes "listens d0 ofs nch ss rx" "demod_ok d0" "env_ok w" "length stack = 4096"
    and "length got \<le> length buf" "length got div nch \<le> 4096" "nch dvd length ss" "0 < nch" "ofs < nch"
  shows "\<exists>rx' w'. run_rx cfg stack (length got div nch) (got @ drop (length got) buf) (Some rx) w = Some (Some rx', w')
    \<and> env_ok w' \<and> listens d0 ofs nch (ss @ got) rx'"
  using listens_run [OF assms, of "g_sound_levellog cfg"] by (auto simp: run_rx_def)

lemma range_of_rx_listens:
  assumes "listens d0 ofs nch ss rx" "env_ok w"
  shows "\<exists>rx' w'. range_of_rx (Some rx) w = (Some rx', w') \<and> listens d0 ofs nch ss rx' \<and> env_ok w'"
  using listens_range [OF assms] by (auto simp: range_of_rx_def split: prod.splits)

lemma range_of_a: "a_ok cfg da xs p \<Longrightarrow> env_ok w \<Longrightarrow> range_of_rx p w = (p', w') \<Longrightarrow> a_ok cfg da xs p' \<and> env_ok w'"
  using range_of_rx_listens by (fastforce simp: a_ok_def)

lemma range_of_b: "b_ok cfg db xs p \<Longrightarrow> env_ok w \<Longrightarrow> range_of_rx p w = (p', w') \<Longrightarrow> b_ok cfg db xs p' \<and> env_ok w'"
  by (cases p) (auto simp: b_ok_def range_of_rx_def split: if_splits prod.splits dest: listens_range)

lemma statistics_ok:
  assumes "station_ok cfg da db rec xs s"
  shows "station_ok cfg da db rec xs (statistics cfg s)"
    "st_source (statistics cfg s) = st_source s" "st_done (statistics cfg s) = st_done s" "st_reads (statistics cfg s) = st_reads s"
proof -
  let ?w = "(st_world s)\<lparr>w_tick := Suc (w_tick (st_world s))\<rparr>"
  let ?now = "w_clock (st_world s) (w_tick (st_world s))"
  have s: "a_ok cfg da xs (rx_a s)" "b_ok cfg db xs (rx_b s)" using assms by (simp_all add: station_ok_def)
  have w: "env_ok ?w" using assms by (simp add: station_ok_def env_ok_def world_ok_def)
  obtain a w1 where a: "range_of_rx (rx_a s) ?w = (a, w1)" by (rule prod.exhaust)
  obtain b w2 where b: "range_of_rx (rx_b s) w1 = (b, w2)" by (rule prod.exhaust)
  note a' = range_of_a [OF s(1) w a]
  note b' = range_of_b [OF s(2) conjunct2 [OF a'] b]
  have "statistics cfg s \<in> {s, s\<lparr>st_world := ?w, last_stats := ?now\<rparr>, s\<lparr>st_world := w2, last_stats := ?now, rx_a := a, rx_b := b\<rparr>, s\<lparr>st_world := ?w\<rparr>}"
    using a b by (simp add: statistics_def time_now_def Let_def)
  then show "station_ok cfg da db rec xs (statistics cfg s)"
    "st_source (statistics cfg s) = st_source s" "st_done (statistics cfg s) = st_done s" "st_reads (statistics cfg s) = st_reads s"
    using assms w a' b' unfolding station_ok_def by auto
qed


lemma run_a_ok:
  assumes "a_ok cfg da xs (rx_a s)" "demod_ok da" "env_ok (st_world s)" "length stack = 4096"
    and "st_buffer s = got @ drop (length got) buf" "length got \<le> length buf" "length got div num_channels cfg \<le> 4096"
    and "num_channels cfg dvd length xs"
  shows "\<exists>p w. (if uses_a cfg then run_a cfg stack (length got div num_channels cfg) s else Some s) = Some (s\<lparr>rx_a := p, st_world := w\<rparr>)
    \<and> a_ok cfg da (xs @ got) p \<and> env_ok w"
proof (cases "uses_a cfg")
  case True
  then obtain rx where rx: "rx_a s = Some rx" "listens da 0 (num_channels cfg) xs rx" using assms(1) by (auto simp: a_ok_def)
  have "0 < num_channels cfg" by (simp add: num_channels_def)
  from run_rx_listens [OF rx(2) assms(2-4,6-8) this this, of cfg]
  obtain rx' w' where r: "run_rx cfg stack (length got div num_channels cfg) (st_buffer s) (rx_a s) (st_world s) = Some (Some rx', w')"
      "env_ok w'" "listens da 0 (num_channels cfg) (xs @ got) rx'"
    unfolding rx(1) assms(5) by blast
  then show ?thesis using True
    by (intro exI [of _ "Some rx'"] exI [of _ w']) (simp add: run_a_def a_ok_def)
next
  case False
  then show ?thesis using assms(1,3) by (intro exI [of _ "rx_a s"] exI [of _ "st_world s"]) (simp add: a_ok_def)
qed

lemma uses_b_channels: "uses_b cfg \<Longrightarrow> num_channels cfg = 2"
  by (auto simp: uses_b_def num_channels_def SOUND_CHANNELS_BOTH_def SOUND_CHANNELS_LEFT_def SOUND_CHANNELS_MONO_def)

lemma run_b_ok:
  assumes "b_ok cfg db xs (rx_b s)" "demod_ok db" "env_ok (st_world s)" "length stack = 4096"
    and "st_buffer s = got @ drop (length got) buf" "length got \<le> length buf" "length got div num_channels cfg \<le> 4096"
    and "num_channels cfg dvd length xs"
  shows "\<exists>p w. (if uses_b cfg then run_b cfg stack (length got div num_channels cfg) s else Some s) = Some (s\<lparr>rx_b := p, st_world := w\<rparr>)
    \<and> b_ok cfg db (xs @ got) p \<and> env_ok w"
proof (cases "uses_b cfg")
  case True
  note two = uses_b_channels [OF True]
  then obtain rx where rx: "rx_b s = Some rx" "listens db 1 2 xs rx" using assms(1) True by (auto simp: b_ok_def)
  have "0 < (2 :: nat)" "1 < (2 :: nat)" by simp_all
  from run_rx_listens [OF rx(2) assms(2-4,6) assms(7,8) [unfolded two] this, of cfg]
  obtain rx' w' where r: "run_rx cfg stack (length got div num_channels cfg) (st_buffer s) (rx_b s) (st_world s) = Some (Some rx', w')"
      "env_ok w'" "listens db 1 2 (xs @ got) rx'"
    unfolding rx(1) assms(5) two by blast
  then show ?thesis using True two
    by (intro exI [of _ "Some rx'"] exI [of _ w']) (simp add: run_b_def b_ok_def)
next
  case False
  then have "b_ok cfg db (xs @ got) (rx_b s)" using assms(1) by (auto simp: b_ok_def split: if_splits)
  then show ?thesis using False assms(3) by (intro exI [of _ "rx_b s"] exI [of _ "st_world s"]) simp
qed

text \<open>One round, in terms of which receivers are in use.\<close>

lemma main_round_eq:
  "main_round cfg stack s =
     (let (r, s) = read_sound (num_channels cfg) s; n = nat r
      in if r \<le> 0 then Some s
         else do {
           let s = (case sound_out s of None \<Rightarrow> s | Some f \<Rightarrow> s\<lparr>sound_out := Some (f @ take (n * num_channels cfg) (st_buffer s))\<rparr>);
           s \<leftarrow> (if uses_a cfg then run_a cfg stack n s else Some s);
           s \<leftarrow> (if uses_b cfg then run_b cfg stack n s else Some s);
           Some (statistics cfg s)
         })"
proof -
  have a: "do { s \<leftarrow> (if g_sound_channels cfg = SOUND_CHANNELS_MONO then run_a cfg stack n s else Some s);
      s \<leftarrow> (if g_sound_channels cfg = SOUND_CHANNELS_BOTH \<or> g_sound_channels cfg = SOUND_CHANNELS_RIGHT then run_a cfg stack n s else Some s);
      f s } = do { s \<leftarrow> (if uses_a cfg then run_a cfg stack n s else Some s); f s }" for n s and f :: "station \<Rightarrow> station option"
    by (auto simp: uses_a_def SOUND_CHANNELS_MONO_def SOUND_CHANNELS_BOTH_def SOUND_CHANNELS_RIGHT_def)
  have b: "(g_sound_channels cfg = SOUND_CHANNELS_BOTH \<or> g_sound_channels cfg = SOUND_CHANNELS_LEFT) = uses_b cfg"
    by (simp add: uses_b_def)
  show ?thesis unfolding main_round_def Let_def a b ..
qed

lemma whole_frames_append:
  "0 < nch \<Longrightarrow> nch dvd length xs \<Longrightarrow> whole_frames nch (xs @ ys) = whole_frames nch xs @ whole_frames nch ys"
  by (auto simp: whole_frames_def algebra_simps elim!: dvdE)

lemma whole_frames_short: "length ys < nch \<Longrightarrow> whole_frames nch ys = []"
  by (simp add: whole_frames_def)


lemma main_round_ok:
  assumes ok: "station_ok cfg da db rec xs s" and d: "demod_ok da" "demod_ok db" and stack: "length stack = 4096"
    and src: "st_source s = Sound_file ss" and xs: "num_channels cfg dvd length xs"
  defines "got \<equiv> take (1020 * num_channels cfg) ss"
  shows "\<exists>s'. main_round cfg stack s = Some s' \<and> station_ok cfg da db rec (xs @ got) s' \<and> st_reads s' = Suc (st_reads s)
    \<and> st_source s' = Sound_file (drop (1020 * num_channels cfg) ss) \<and> st_done s' = (st_done s \<or> length ss < num_channels cfg)"
proof -
  let ?nch = "num_channels cfg" and ?k = "length got div num_channels cfg"
  let ?buf = "got @ drop (length got) (st_buffer s)"
  have nch: "0 < ?nch" "?nch \<le> 2" by (simp_all add: num_channels_def)
  have sok: "env_ok (st_world s)" "st_buffer_l s = 1020" "length (st_buffer s) = 1020 * ?nch" "a_ok cfg da xs (rx_a s)" "b_ok cfg db xs (rx_b s)"
      "sound_out s = (if rec then Some (whole_frames ?nch xs) else None)" using ok by (simp_all add: station_ok_def)
  have lg: "length got \<le> length (st_buffer s)" using sok(3) by (simp add: got_def)
  have "?k \<le> (1020 * ?nch) div ?nch" by (rule div_le_mono) (simp add: got_def)
  then have k: "?k \<le> 4096" "?k = 0 \<longleftrightarrow> length ss < ?nch" using nch by (simp, auto simp: got_def div_eq_0_iff)
  let ?s1 = "s\<lparr>st_reads := Suc (st_reads s), st_source := Sound_file (drop (1020 * ?nch) ss), st_buffer := ?buf, st_done := st_done s \<or> ?k = 0\<rparr>"
  have rd: "read_sound ?nch s = (int ?k, ?s1)" using src sok(2) by (simp add: read_sound_def got_def Let_def)
  show ?thesis
  proof (cases "?k = 0")
    case True
    then have sh: "length got < ?nch" using k(2) by (simp add: got_def)
    have a: "a_ok cfg da (xs @ got) (rx_a s)" using sok(4) listens_silent [OF _ sh xs, of da 0] nch(1) by (auto simp: a_ok_def)
    have b: "b_ok cfg db (xs @ got) (rx_b s)"
      using sok(5) listens_silent [OF _ sh xs, of db 1] by (auto simp: b_ok_def split: if_splits)
    have "station_ok cfg da db rec (xs @ got) ?s1"
      using sok a b lg whole_frames_append [OF nch(1) xs] whole_frames_short [OF sh] by (simp add: station_ok_def)
    then show ?thesis using True k(2) by (simp add: main_round_eq rd)
  next
    case False
    define s2 where "s2 = (case sound_out ?s1 of None \<Rightarrow> ?s1 | Some f \<Rightarrow> ?s1\<lparr>sound_out := Some (f @ take (?k * ?nch) (st_buffer ?s1))\<rparr>)"
    have tk: "take (?k * ?nch) ?buf = whole_frames ?nch got" by (simp add: whole_frames_def)
    have s2: "st_world s2 = st_world s" "rx_a s2 = rx_a s" "rx_b s2 = rx_b s" "st_buffer s2 = ?buf" "st_buffer_l s2 = 1020"
        "st_source s2 = Sound_file (drop (1020 * ?nch) ss)" "st_reads s2 = Suc (st_reads s)" "st_done s2 = st_done s"
        "sound_out s2 = (if rec then Some (whole_frames ?nch (xs @ got)) else None)"
      using sok(2,6) tk False whole_frames_append [OF nch(1) xs, of got] by (simp_all add: s2_def split: option.split)
    obtain p w where a: "(if uses_a cfg then run_a cfg stack ?k s2 else Some s2) = Some (s2\<lparr>rx_a := p, st_world := w\<rparr>)"
        "a_ok cfg da (xs @ got) p" "env_ok w"
      using run_a_ok [of cfg da xs s2 stack got "st_buffer s"] sok(1,4) d(1) stack s2(1,2,4) lg k(1) xs by auto
    let ?s3 = "s2\<lparr>rx_a := p, st_world := w\<rparr>"
    obtain q v where b: "(if uses_b cfg then run_b cfg stack ?k ?s3 else Some ?s3) = Some (?s3\<lparr>rx_b := q, st_world := v\<rparr>)"
        "b_ok cfg db (xs @ got) q" "env_ok v"
      using run_b_ok [of cfg db xs ?s3 stack got "st_buffer s"] sok(5) d(2) stack s2(3,4) lg k(1) xs a(3) by auto
    let ?s4 = "?s3\<lparr>rx_b := q, st_world := v\<rparr>"
    have "station_ok cfg da db rec (xs @ got) ?s4"
      using a(2) b(2,3) s2(4,5,9) sok(3) lg by (simp add: station_ok_def)
    note st = statistics_ok [OF this]
    have "main_round cfg stack s = do {
        s \<leftarrow> (if uses_a cfg then run_a cfg stack ?k s2 else Some s2);
        s \<leftarrow> (if uses_b cfg then run_b cfg stack ?k s else Some s);
        Some (statistics cfg s) }"
      unfolding main_round_eq rd Let_def prod.case s2_def nat_int using False by simp
    then have "main_round cfg stack s = Some (statistics cfg ?s4)" unfolding a(1) by (simp add: b(1))
    then show ?thesis using st s2 False k(2) by simp
  qed
qed


lemma main_round_eof:
  assumes "station_ok cfg da db rec xs s" "st_source s = Sound_file []"
  shows "\<exists>s'. main_round cfg stack s = Some s' \<and> station_ok cfg da db rec xs s' \<and> st_done s'"
  using assms by (simp add: main_round_eq read_sound_def station_ok_def)

text \<open>The loop over a file returns, whenever it is interrupted, and has then handled a part of the file, all of it when it was not interrupted.\<close>

lemma main_loop_ok:
  assumes d: "demod_ok da" "demod_ok db" and stack: "length stack = 4096"
  shows "\<lbrakk>station_ok cfg da db rec xs s; st_source s = Sound_file ss; num_channels cfg dvd length xs; \<not> st_done s\<rbrakk> \<Longrightarrow>
    \<exists>s' n. main_loop cfg stack stop s = Some s' \<and> station_ok cfg da db rec (xs @ take n ss) s' \<and> ((\<forall>k. \<not> stop k) \<longrightarrow> length ss \<le> n)"
proof (induction "length ss" arbitrary: xs s ss rule: less_induct)
  case less
  let ?nch = "num_channels cfg"
  have nch: "0 < ?nch" "?nch \<le> 2" by (simp_all add: num_channels_def)
  show ?case
  proof (cases "stop (st_reads s)")
    case True
    then have "main_loop cfg stack stop s = Some s" by (subst main_loop.simps) simp
    then show ?thesis using True less.prems(1) by (intro exI [of _ s] exI [of _ 0]) auto
  next
    case False
    obtain s1 where s1: "main_round cfg stack s = Some s1" "station_ok cfg da db rec (xs @ take (1020 * ?nch) ss) s1"
        "st_source s1 = Sound_file (drop (1020 * ?nch) ss)" "st_done s1 = (st_done s \<or> length ss < ?nch)"
      using main_round_ok [OF less.prems(1) d stack less.prems(2,3)] by blast
    have run: "main_loop cfg stack stop s = main_loop cfg stack stop s1"
      using False less.prems(4) s1(1) by (subst main_loop.simps) simp
    show ?thesis
    proof (cases "length ss < ?nch")
      case True
      then have "main_loop cfg stack stop s1 = Some s1" using s1(4) by (subst main_loop.simps) simp
      then show ?thesis using run s1(2) True by (intro exI [of _ s1] exI [of _ "1020 * ?nch"]) simp
    next
      case ge: False
      then have dec: "length (drop (1020 * ?nch) ss) < length ss" using nch by simp
      show ?thesis
      proof (cases "1020 * ?nch \<le> length ss")
        case True
        then have "?nch dvd length (xs @ take (1020 * ?nch) ss)" using less.prems(3) by simp
        from less.hyps [OF dec s1(2,3) this] s1(4) less.prems(4) ge
        obtain s' n where r: "main_loop cfg stack stop s1 = Some s'"
            "station_ok cfg da db rec ((xs @ take (1020 * ?nch) ss) @ take n (drop (1020 * ?nch) ss)) s'"
            "(\<forall>k. \<not> stop k) \<longrightarrow> length (drop (1020 * ?nch) ss) \<le> n" by auto
        have "take (1020 * ?nch) ss @ take n (drop (1020 * ?nch) ss) = take (1020 * ?nch + n) ss" by (simp add: take_add)
        then show ?thesis using run r True by (intro exI [of _ s'] exI [of _ "1020 * ?nch + n"]) auto
      next
        case short: False
        then have all: "take (1020 * ?nch) ss = ss" "st_source s1 = Sound_file []" using s1(3) by simp_all
        have ok: "station_ok cfg da db rec (xs @ ss) s1" using s1(2) all(1) by simp
        obtain s2 where s2: "main_round cfg stack s1 = Some s2" "station_ok cfg da db rec (xs @ ss) s2" "st_done s2"
          using main_round_eof [OF ok all(2)] by blast
        have "main_loop cfg stack stop s2 = Some s2" using s2(3) by (subst main_loop.simps) simp
        then have "main_loop cfg stack stop s1 = Some (if st_done s1 \<or> stop (st_reads s1) then s1 else s2)"
          using s2(1) by (subst main_loop.simps) simp
        then show ?thesis using run ok s2(2)
          by (intro exI [of _ "if st_done s1 \<or> stop (st_reads s1) then s1 else s2"] exI [of _ "length ss"]) simp
      qed
    qed
  qed
qed


section \<open>From start to end\<close>

lemma free_freelist_ok:
  "isfree (cells m) p fl \<Longrightarrow> distinct fl \<Longrightarrow> \<exists>m'. free_freelist_loop p m = Some m'"
proof (induction fl arbitrary: p m)
  case Nil
  then show ?case by (subst free_freelist_loop.simps) simp
next
  case (Cons a fl)
  then obtain b where b: "p = a" "a \<noteq> 0" "cells m a = Some b" "isfree (cells m) (uplink b) fl" by auto
  define m1 where "m1 = m\<lparr>cells := (cells m)(a := None), sp_entries := sp_entries m - 1\<rparr>"
  have "isfree (cells m1) (uplink b) fl" using b(4) by (rule isfree_frame) (use Cons.prems(2) in \<open>auto simp: m1_def\<close>)
  then obtain m' where "free_freelist_loop (uplink b) m1 = Some m'" using Cons.IH Cons.prems(2) by auto
  then show ?case using b by (subst free_freelist_loop.simps) (simp add: ld_simp m1_def)
qed

lemma cache_deinit_ok:
  assumes "cache_rep c M"
  shows "\<exists>c'. cache_deinit c = Some c'"
proof -
  obtain q fl t where s: "cache_spt c = Some q" "sp_ok (cache_mem c) fl q t" "\<forall>x \<in> set_tree t. snd (the (kd (cells (cache_mem c)) x)) \<noteq> None"
    using assms by (auto simp: cache_rep_def sp_rep_def)
  obtain es q' m' fl' where f: "cache_free q (cache_mem c) = Some (es, q', m')" "sp_ok m' fl' q' Leaf"
    using cache_free_ok [OF s(2,3)] by blast
  have "isfree (cells m') (sp_free_list m') fl'" "distinct fl'" using f(2) by (simp_all add: sp_ok_def heap_ok_def)
  from free_freelist_ok [OF this] show ?thesis using s(1) f(1) by (auto simp: cache_deinit_def sp_free_freelist_def)
qed

text \<open>The statistics that a decoder has after it has been fed with bits, in a process of its own.\<close>

definition channel_bits :: "nat \<Rightarrow> nat \<Rightarrow> s16 list \<Rightarrow> u8 list" where
  "channel_bits ofs nch ss = fst (hear coeffs deaf (channel_of ofs nch ss))"

definition frame_counts :: "demod_state \<Rightarrow> u8 list \<Rightarrow> parg list option" where
  "frame_counts d bs = do {
     (d, w) \<leftarrow> protodec_decode bs (length bs) d idle_world;
     Some [PInt (receivedframes d), PInt (lostframes d), PInt (lostframes2 d)]
   }"

lemma listens_counts:
  assumes "listens d0 ofs nch ss rx"
  shows "frame_counts d0 (channel_bits ofs nch ss) = Some [PInt (receivedframes (decoder rx)), PInt (lostframes (decoder rx)), PInt (lostframes2 (decoder rx))]"
proof -
  have c: "receivedframes d = receivedframes (core d)" "lostframes d = lostframes (core d)" "lostframes2 d = lostframes2 (core d)" for d
    by (simp_all add: core_def)
  obtain bs d w where "hear coeffs deaf (channel_of ofs nch ss) = (bs, ear rx)" "decode_bits bs d0 idle_world = Some (d, w)" "core d = core (decoder rx)"
    using assms by (auto simp: listens_def)
  then show ?thesis unfolding c [of "decoder rx"] by (simp add: frame_counts_def channel_bits_def protodec_decode_bits c [of d])
qed

lemma log_counts_out:
  "p = Some rx \<Longrightarrow> w_out (log_counts fmt p w) = w_out w @ [Hlog fmt [PInt (receivedframes (decoder rx)), PInt (lostframes (decoder rx)), PInt (lostframes2 (decoder rx))]]"
  by (simp add: log_counts_def emit_def Let_def)

lemma env_ok_emit [simp]: "env_ok (emit e w) = env_ok w"
  by (simp add: env_ok_def world_ok_def emit_def)

text \<open>Starting up: the channels are fresh.\<close>

lemma start_receivers_ok:
  "\<exists>a b w'. start_receivers mc cfg w = Some (a, b, w') \<and> (env_ok w \<longrightarrow> env_ok w')
    \<and> a_ok cfg (protodec_initialize (mem_a mc) (g_serial_port cfg \<noteq> None \<and> serial_opens mc) (ipc_opens mc) 65) [] a
    \<and> b_ok cfg (protodec_initialize (mem_b mc) (g_serial_port cfg \<noteq> None \<and> serial_opens mc) (ipc_opens mc) 66) [] b"
proof -
  let ?ser = "g_serial_port cfg \<noteq> None \<and> serial_opens mc"
  obtain a where a: "init_receiver (mem_a mc) 65 (num_channels cfg) 0 ?ser (ipc_opens mc) = Some a" using init_receiver_ok by blast
  obtain b where b: "init_receiver (mem_b mc) 66 2 1 ?ser (ipc_opens mc) = Some b" using init_receiver_ok by blast
  show ?thesis using a b listens_start [OF a] listens_start [OF b]
    by (auto simp: start_receivers_def num_channels_def a_ok_def b_ok_def Let_def)
qed

lemma open_outputs_ok:
  "out_opens mc \<Longrightarrow> \<exists>w'. open_outputs mc cfg w = (True, if g_sound_out_file cfg \<noteq> None then Some [] else None, w') \<and> env_ok w' = env_ok w"
  by (auto simp: open_outputs_def split: option.split)

lemma open_mysql_ok:
  "mysql_opens mc \<Longrightarrow> \<exists>w'. open_mysql mc cfg w = (True, w') \<and> env_ok w' = env_ok w"
proof -
  have "env_ok (v\<lparr>w_my := b\<rparr>) = env_ok v" for v b by (simp add: env_ok_def world_ok_def)
  then show "mysql_opens mc \<Longrightarrow> ?thesis" by (auto simp: open_mysql_def Let_def split: option.split)
qed


text \<open>
  C3. From the sound file to the closing statistics. A station that is configured for a sound file and whose other equipment can be opened runs without
  undefined behaviour and exits with 0, whenever it is interrupted; when it is not, it stops after all samples of the
  file. The frame counts that it reports for a channel are those of a decoder in a process of its own that is fed, in one go, with
  the bits which the slicer makes of the filtered signal of that channel: they do not depend on the buffers in which the sound is
  read, the other channel, the clock, the statistics in between or the contents of fresh memory. The recording, if one is
  made, holds exactly the frames that were read.
\<close>

theorem station_reports_channels:
  assumes "g_sound_device cfg = None" "g_sound_in_file cfg = Some f" "sound_file mc f = Some ss" "length (g_skip_type cfg) = 25"
    and "ipc_opens mc" "g_uplink_config cfg \<noteq> [] \<longrightarrow> export_starts mc" "out_opens mc" "mysql_opens mc"
    and "length stack = 4096" "heap_ok (cache_mem (w_cache w)) fl" "cache_positions (w_cache w) = 0"
  defines "nch \<equiv> num_channels cfg" and "ser \<equiv> g_serial_port cfg \<noteq> None \<and> serial_opens mc"
  shows "\<exists>s w' n ca cb. run_station mc cfg stack stop w = Some (0, Some s, w') \<and> ((\<forall>k. \<not> stop k) \<longrightarrow> length ss \<le> n)
    \<and> frame_counts (protodec_initialize (mem_a mc) ser True 65) (channel_bits 0 nch (if uses_a cfg then take n ss else [])) = Some ca
    \<and> Hlog ''A: Received correctly: %d packets, wrong CRC: %d packets, wrong size: %d packets'' ca \<in> set (w_out w')
    \<and> (nch = 2 \<longrightarrow>
         frame_counts (protodec_initialize (mem_b mc) ser True 66) (channel_bits 1 2 (if uses_b cfg then take n ss else [])) = Some cb
         \<and> Hlog ''B: Received correctly: %d packets, wrong CRC: %d packets, wrong size: %d packets'' cb \<in> set (w_out w'))
    \<and> sound_out s = (if g_sound_out_file cfg = None then None else Some (whole_frames nch (take n ss)))"
proof -
  let ?da = "protodec_initialize (mem_a mc) ser True 65" and ?db = "protodec_initialize (mem_b mc) ser True 66"
  obtain start w0 where w0: "time_now (set_globals cfg w) = (start, w0)" by (rule prod.exhaust)
  have e0: "env_ok w0" "w_cache w0 = w_cache w" using w0 assms(4,11) by (auto simp: time_now_def set_globals_def env_ok_def world_ok_def)
  define w1 where "w1 = (if g_uplink_config cfg \<noteq> [] then emit (Hlog ''Initializing jsonout...'' [])
      ((emit (Hlog ''Initializing cache...'' []) w0)\<lparr>w_cache := cache_init (w_cache w0)\<rparr>) else w0)"
  have "env_ok (v\<lparr>w_cache := cache_init (w_cache w)\<rparr>)" if "env_ok v" for v
    using that cache_init_rep [OF assms(10)] by (auto simp: env_ok_def world_ok_def)
  moreover have em: "w_cache (emit x v) = w_cache v" for x v by (simp add: emit_def)
  ultimately have e1: "env_ok w1" using e0 by (simp add: w1_def)
  obtain a b w2 where st: "start_receivers mc cfg w1 = Some (a, b, w2)" "env_ok w2" "a_ok cfg ?da [] a" "b_ok cfg ?db [] b"
    using start_receivers_ok [of mc cfg w1] e1 assms(5) by (auto simp: ser_def)
  obtain buf where buf: "sound_buffer mc cfg = (buf, 1020)" "length buf = 1020 * nch" by (simp add: sound_buffer_def nch_def)
  let ?w3 = "emit (Hlog ''Reading audio from file: %s'' [PLit f]) w2"
  have op: "open_sound mc cfg w2 = (Some (Sound_file ss, buf, 1020), ?w3)" using assms(1-3) buf(1) by (simp add: open_sound_def)
  define out where "out = (if g_sound_out_file cfg \<noteq> None then Some ([] :: s16 list) else None)"
  obtain w4 where o: "open_outputs mc cfg ?w3 = (True, out, w4)" "env_ok w4" using open_outputs_ok [OF assms(7)] st(2) out_def by fastforce
  obtain w5 where my: "open_mysql mc cfg w4 = (True, w5)" "env_ok w5" using open_mysql_ok [OF assms(8)] o(2) by blast
  define s0 where "s0 = \<lparr>st_source = Sound_file ss, st_reads = 0, st_buffer = buf, st_buffer_l = 1020, st_done = False, last_stats = start,
      rx_a = a, rx_b = b, sound_out = out, st_world = emit (Hlog ''Started'' []) w5\<rparr>"
  have s0: "station_ok cfg ?da ?db (g_sound_out_file cfg \<noteq> None) [] s0"
    using st(3,4) my(2) buf(2) by (simp add: station_ok_def s0_def out_def whole_frames_def nch_def)
  obtain s n where l: "main_loop cfg stack stop s0 = Some s" "station_ok cfg ?da ?db (g_sound_out_file cfg \<noteq> None) (take n ss) s"
      "(\<forall>k. \<not> stop k) \<longrightarrow> length ss \<le> n"
    using main_loop_ok [OF initialize_ok initialize_ok assms(9) s0, of ss stop] by (auto simp: s0_def)
  have "\<exists>c. (if cache_positions (w_cache (st_world s)) \<noteq> 0 then cache_deinit (w_cache (st_world s)) else Some (w_cache (st_world s))) = Some c"
    using l(2) cache_deinit_ok by (auto simp: station_ok_def env_ok_def world_ok_def)
  then obtain c where c: "(if cache_positions (w_cache (st_world s)) \<noteq> 0 then cache_deinit (w_cache (st_world s)) else Some (w_cache (st_world s))) = Some c"
    by blast
  let ?fa = "''A: Received correctly: %d packets, wrong CRC: %d packets, wrong size: %d packets''"
  let ?fb = "''B: Received correctly: %d packets, wrong CRC: %d packets, wrong size: %d packets''"
  define w6 where "w6 = log_counts ?fa (rx_a s) ((emit (Hlog ''Closing down...'' []) (st_world s))\<lparr>w_cache := c\<rparr>)"
  have cl: "close_down mc s = Some (log_counts ?fb (rx_b s) w6)"
    unfolding close_down_def Let_def em if_P [OF assms(5)] bind.bind_lunit c w6_def ..
  have starts: "\<not> (g_uplink_config cfg \<noteq> [] \<and> \<not> export_starts mc)" using assms(6) by blast
  have run: "run_station mc cfg stack stop w = Some (0, Some s, log_counts ?fb (rx_b s) w6)"
    unfolding run_station_def w0 Let_def prod.case w1_def [symmetric] if_not_P [OF starts] using assms(5) st(1) op o(1) my(1) l(1) cl
    by (simp add: s0_def)
  obtain ra where ra: "rx_a s = Some ra" "listens ?da 0 nch (if uses_a cfg then take n ss else []) ra" using l(2) by (auto simp: station_ok_def a_ok_def nch_def)
  have mono: "set (w_out w6) \<subseteq> set (w_out (log_counts ?fb (rx_b s) w6))" by (cases "rx_b s") (auto simp: log_counts_def emit_def Let_def)
  note ca = listens_counts [OF ra(2)]
  have outa: "Hlog ?fa [PInt (receivedframes (decoder ra)), PInt (lostframes (decoder ra)), PInt (lostframes2 (decoder ra))] \<in> set (w_out w6)"
    by (simp add: w6_def log_counts_out [OF ra(1)])
  have so: "sound_out s = (if g_sound_out_file cfg = None then None else Some (whole_frames nch (take n ss)))"
    using l(2) by (simp add: station_ok_def nch_def)
  have cb: "\<exists>cb. nch = 2 \<longrightarrow> frame_counts ?db (channel_bits 1 2 (if uses_b cfg then take n ss else [])) = Some cb
      \<and> Hlog ?fb cb \<in> set (w_out (log_counts ?fb (rx_b s) w6))"
  proof (cases "nch = 2")
    case True
    then obtain rb where rb: "rx_b s = Some rb" "listens ?db 1 2 (if uses_b cfg then take n ss else []) rb"
      using l(2) by (auto simp: station_ok_def b_ok_def nch_def)
    then show ?thesis using listens_counts [OF rb(2)] log_counts_out [OF rb(1)] by auto
  qed simp
  then show ?thesis using run l(3) ca outa mono so by (meson subsetD)
qed


text \<open>A stereo file of two and a half silent frames.\<close>

definition silent_machine :: machine where
  "silent_machine = \<lparr>mem_a = (\<lambda>_ _. 1), mem_b = (\<lambda>_ _. 2), fresh_sound = (\<lambda>_. 3), serial_opens = True, ipc_opens = True, export_starts = True,
     mysql_opens = True, out_opens = True, pulse_dev = None, alsa_dev = None, sound_file = (\<lambda>f. Some [0, 0, 0, 0, 0])\<rparr>"

definition file_config :: config where
  "file_config = (config0 fresh_disk (\<lambda>_. 0))\<lparr>g_sound_in_file := Some ''in'', g_sound_out_file := Some ''out'', g_sound_channels := SOUND_CHANNELS_BOTH\<rparr>"

lemma silent_counts: "frame_counts (protodec_initialize (\<lambda>_ _. 1) False True 65) (channel_bits 0 2 [0, 0, 0, 0, 0]) = Some [PInt 0, PInt 0, PInt 0]"
proof -
  have "length [0, 0, 0, 0, 0 :: s16] div 2 = 2" by simp
  then have c: "channel_of 0 2 [0, 0, 0, 0, 0] = [0, 0]" unfolding channel_of_def by (simp only:) (simp add: upt_rec sample_def)
  have "fst (slice [x, y] (0, 0, 0)) = []" for x y by (simp add: phase_step.simps Let_def)
  then have "channel_bits 0 2 [0, 0, 0, 0, 0] = []"
    unfolding channel_bits_def c hear_def deaf_def by (simp add: split_beta)
  then show ?thesis by (simp add: frame_counts_def protodec_decode_def decode_loop.simps initialize_counts)
qed

theorem station_reports_channels_witness:
  "\<exists>s w'. run_station silent_machine file_config (replicate 4096 9) (\<lambda>_. False) (idle_world\<lparr>w_cache := cache0\<rparr>) = Some (0, Some s, w')
    \<and> Hlog ''A: Received correctly: %d packets, wrong CRC: %d packets, wrong size: %d packets'' [PInt 0, PInt 0, PInt 0] \<in> set (w_out w')
    \<and> sound_out s = Some [0, 0, 0, 0]"
proof -
  have c: "g_sound_device file_config = None" "g_sound_in_file file_config = Some ''in''" "length (g_skip_type file_config) = 25"
      "g_uplink_config file_config = []" "num_channels file_config = 2" "uses_a file_config" "g_serial_port file_config = None"
      "g_sound_out_file file_config = Some ''out''"
    by (simp_all add: file_config_def config0_def osenv.defs MAX_AIS_PACKET_TYPE_def num_channels_def uses_a_def
        SOUND_CHANNELS_BOTH_def SOUND_CHANNELS_MONO_def)
  have m: "sound_file silent_machine ''in'' = Some [0, 0, 0, 0, 0]" "ipc_opens silent_machine" "out_opens silent_machine" "mysql_opens silent_machine"
      "mem_a silent_machine = (\<lambda>_ _. 1)"
    by (simp_all add: silent_machine_def)
  have h: "heap_ok (cache_mem (w_cache (idle_world\<lparr>w_cache := cache0\<rparr>))) []" "cache_positions (w_cache (idle_world\<lparr>w_cache := cache0\<rparr>)) = 0"
    by (simp_all add: heap_ok_def cache0_def)
  have st: "length (replicate 4096 9 :: cfloat list) = 4096" by simp
  have up: "g_uplink_config file_config \<noteq> [] \<longrightarrow> export_starts silent_machine" by (simp add: c(4))
  obtain s w' n ca where r: "run_station silent_machine file_config (replicate 4096 9) (\<lambda>_. False) (idle_world\<lparr>w_cache := cache0\<rparr>) = Some (0, Some s, w')"
      "(\<forall>k :: nat. \<not> False) \<longrightarrow> length [0, 0, 0, 0, 0 :: s16] \<le> n"
      "frame_counts (protodec_initialize (mem_a silent_machine) (g_serial_port file_config \<noteq> None \<and> serial_opens silent_machine) True 65)
        (channel_bits 0 (num_channels file_config) (if uses_a file_config then take n [0, 0, 0, 0, 0] else [])) = Some ca"
      "Hlog ''A: Received correctly: %d packets, wrong CRC: %d packets, wrong size: %d packets'' ca \<in> set (w_out w')"
      "sound_out s = (if g_sound_out_file file_config = None then None
        else Some (whole_frames (num_channels file_config) (take n [0, 0, 0, 0, 0])))"
    using station_reports_channels [OF c(1,2) m(1) c(3) m(2) up m(3,4) st h, of "\<lambda>_. False"]
    by (elim exE conjE) (rule that)
  have t: "take n [0, 0, 0, 0, 0 :: s16] = [0, 0, 0, 0, 0]" using r(2) by simp
  have "ca = [PInt 0, PInt 0, PInt 0]" using r(3) silent_counts t by (simp add: c m)
  then show ?thesis using r(1,4,5) t by (simp add: c whole_frames_def)
qed

end
