(* ===== verification/Jsonout.thy ===== *)
theory Jsonout
  imports Config Cache
begin

text \<open>
  out_json.c: once a minute the export thread takes the cache of ships, empties it ship by ship into one JSON text, and posts the text
  to all uplinks. Formatted printing, the calendar and the HTTP library are parameters.
\<close>

section \<open>Time stamps\<close>

record tm =
  tm_sec :: int
  tm_min :: int
  tm_hour :: int
  tm_mday :: int
  tm_mon :: int
  tm_year :: int

text \<open>\<^verbatim>\<open>%0nd\<close>\<close>

definition zero_pad :: "nat \<Rightarrow> string \<Rightarrow> string" where
  "zero_pad n s = replicate (n - length s) (CHR ''0'') @ s"

definition fmt_0d :: "nat \<Rightarrow> int \<Rightarrow> string" where
  "fmt_0d n i = (if i < 0 then CHR ''-'' # zero_pad (n - 1) (dec (nat (- i))) else zero_pad n (dec (nat i)))"

text \<open>
  The result is the length of what would be printed, or -1; the buffer is changed only when a time is printed, and at most
  \<open>buflen - 1\<close> characters are.
\<close>

definition time_jsonais :: "(int \<Rightarrow> tm option) \<Rightarrow> int \<Rightarrow> string \<Rightarrow> nat \<Rightarrow> world \<Rightarrow> int \<times> string \<times> world" where
  "time_jsonais gmtime_r t buf buflen w =
     (if buflen < 15 then (-1, buf, emit (Hlog ''time_jsonais: not enough space to produce JSON AIS timestamp'' []) w)
      else case gmtime_r t of
        None \<Rightarrow> (-1, buf, emit (Hlog ''time_jsonais: gmtime_r failed'' []) w)
      | Some dt \<Rightarrow>
          let s = fmt_0d 4 (tm_year dt + 1900) @ fmt_0d 2 (tm_mon dt + 1) @ fmt_0d 2 (tm_mday dt)
                @ fmt_0d 2 (tm_hour dt) @ fmt_0d 2 (tm_min dt) @ fmt_0d 2 (tm_sec dt)
          in (int (length s), take (buflen - 1) s, w))"

section \<open>Posting\<close>

text \<open>
  One upload. The HTTP library: whether a handle and a header list could be made, the results of the six settings, of the
  transfer and of the question for the response code, in the order of the calls, and the response code. The result is
  none when it is an uninitialised variable.
\<close>

definition curl_calls :: "string list" where
  "curl_calls = [''curl_easy_setopt(CURLOPT_HTTPPOST) failed: %s'', ''curl_easy_setopt(CURLOPT_URL) failed: %s (%s)'',
     ''curl_easy_setopt(CURLOPT_HEADER) failed: %s (%s)'', ''curl_easy_setopt(CURLOPT_WRITEFUNCTION) failed: %s'',
     ''curl_easy_setopt(CURLOPT_NOPROGRESS) failed: %s'', ''curl_easy_setopt(CURLOPT_VERBOSE) failed: %s'',
     ''curl_easy_perform() failed: %s (%s)'', ''curl_easy_getinfo(CURLINFO_RESPONSE_CODE) failed: %s (%s)'']"

record curl_outcome =
  curl_init :: bool
  curl_headers :: bool
  curl_results :: "int list"
  curl_retcode :: int

fun curl_steps :: "string list \<Rightarrow> int list \<Rightarrow> int option \<Rightarrow> world \<Rightarrow> bool \<times> int option \<times> world" where
  "curl_steps (c # cs) (s # ss) r w =
     (if s \<noteq> 0 then (False, Some s, emit (Hlog c [PInt s]) w) else curl_steps cs ss (Some s) w)"
| "curl_steps cs ss r w = (True, r, w)"

definition jsonout_post_single :: "curl_outcome \<Rightarrow> string \<Rightarrow> world \<Rightarrow> int option \<times> world" where
  "jsonout_post_single o1 url w =
     (if \<not> curl_init o1 then (Some 1, emit (Hlog ''curl_easy_init() returned NULL'' []) w)
      else
        let retcode = 200;
            (finished, r, w) = (if \<not> curl_headers o1
              then (False, None, emit (Hlog ''curl_slist_append for Expect header failed'' []) w)
              else curl_steps curl_calls (curl_results o1) None w);
            retcode = (if finished then curl_retcode o1 else retcode)
        in if retcode \<noteq> 200 then
             (Some (-1), emit (Hlog (''JSON AIS export: server for %s returned %ld'' @ [CHR 0x0A]) [PLit url, PInt retcode]) w)
           else (r, w))"

text \<open>What is sent: address and text; \<open>net\<close> gives the outcome for each address.\<close>

fun jsonout_post_all :: "(string \<Rightarrow> curl_outcome) \<Rightarrow> string \<Rightarrow> uplink_config_t list \<Rightarrow> world \<Rightarrow> (string \<times> string) list \<times> world" where
  "jsonout_post_all net json [] w = ([], w)"
| "jsonout_post_all net json (u # us) w =
     (if up_proto u = UPLINK_JSON then
        let (r, w) = jsonout_post_single (net (up_url u)) (up_url u) w;
            (ps, w) = jsonout_post_all net json us w
        in ((up_url u, json) # ps, w)
      else jsonout_post_all net json us w)"

section \<open>Exporting\<close>

definition LOG_LEN :: nat where "LOG_LEN = 8192"
definition TBUF_LEN :: nat where "TBUF_LEN = 15"

text \<open>\<^verbatim>\<open>str_append\<close> of hlog.c: what is appended is cut off at the length of a log line.\<close>

definition str_append :: "(string \<Rightarrow> parg list \<Rightarrow> string) \<Rightarrow> string \<Rightarrow> string \<Rightarrow> parg list \<Rightarrow> string" where
  "str_append render s fmt args = s @ take (LOG_LEN - 1) (render fmt args)"

record jstate =
  j_text :: string
  j_exported :: nat
  j_tbuf :: string
  j_world :: world

record jenv =
  render :: "string \<Rightarrow> parg list \<Rightarrow> string"
  gmtime :: "int \<Rightarrow> tm option"

definition j_append :: "jenv \<Rightarrow> string \<Rightarrow> parg list \<Rightarrow> jstate \<Rightarrow> jstate" where
  "j_append env fmt args js = js\<lparr>j_text := str_append (render env) (j_text js) fmt args\<rparr>"

definition j_time :: "jenv \<Rightarrow> int \<Rightarrow> jstate \<Rightarrow> jstate" where
  "j_time env t js =
     (let (r, tbuf, w) = time_jsonais (gmtime env) t (j_tbuf js) TBUF_LEN (j_world js) in js\<lparr>j_tbuf := tbuf, j_world := w\<rparr>)"

definition j_hlog :: "string \<Rightarrow> parg list \<Rightarrow> jstate \<Rightarrow> jstate" where
  "j_hlog fmt args js = js\<lparr>j_world := emit (Hlog fmt args) (j_world js)\<rparr>"

definition j_count :: "jstate \<Rightarrow> jstate" where
  "j_count js = js\<lparr>j_exported := j_exported js + 1\<rparr>"

text \<open>The separator before a message, an argument of its format.\<close>

definition j_sep :: "jstate \<Rightarrow> parg" where
  "j_sep js = PLit (if j_exported js = 0 then '''' else '','' @ [CHR 0x0A])"

definition got_pos :: "cache_ent \<Rightarrow> bool" where
  "got_pos e \<longleftrightarrow> (lat e > f64 (1 / 10000) \<or> lat e < - f64 (1 / 10000)) \<and> (lon e > f64 (1 / 10000) \<or> lon e < - f64 (1 / 10000))"

definition export_position :: "jenv \<Rightarrow> cache_ent \<Rightarrow> jstate \<Rightarrow> jstate" where
  \<open>export_position env e js =
     (let js = j_hlog ''jsonout: exporting MMSI %d position'' [PInt (ce_mmsi e)] js;
          js = j_time env (received_pos e) js;
          js = j_append env ''%s{"msgtype": 3, "mmsi": %d, "rxtime": "%s"'' [j_sep js, PInt (ce_mmsi e), PLit (j_tbuf js)] js;
          js = j_append env '', "lat": %.7f, "lon": %.7f'' [PDouble (lat e), PDouble (lon e)] js;
          js = (if course e \<ge> 0 then j_append env '', "course": %.1f'' [PDouble (course e)] js else js);
          js = (if hdg e \<ge> 0 then j_append env '', "heading": %d'' [PInt (hdg e)] js else js);
          js = (if sog e \<ge> 0 then j_append env '', "speed": %.1f'' [PDouble (sog e)] js else js);
          js = (if navstat e \<ge> 0 then j_append env '', "status": %d'' [PInt (navstat e)] js else js);
          js = j_append env ''}'' [] js
      in j_count js)\<close>

definition export_data :: "jenv \<Rightarrow> cache_ent \<Rightarrow> jstate \<Rightarrow> jstate" where
  \<open>export_data env e js =
     (let js = j_hlog ''jsonout: exporting MMSI %d data'' [PInt (ce_mmsi e)] js;
          js = j_time env (received_data e) js;
          js = j_append env ''%s{"msgtype": 5, "mmsi": %d, "rxtime": "%s"'' [j_sep js, PInt (ce_mmsi e), PLit (j_tbuf js)] js;
          js = (if imo e \<ge> 0 then j_append env '', "imo": %d'' [PInt (imo e)] js else js);
          js = (if shiptype e \<ge> 0 then j_append env '', "shiptype": %d'' [PInt (shiptype e)] js else js);
          js = (case callsign e of Some s \<Rightarrow> j_append env '', "callsign": "%s"'' [PStr s] js | None \<Rightarrow> js);
          js = (case name e of Some s \<Rightarrow> j_append env '', "shipname": "%s"'' [PStr s] js | None \<Rightarrow> js);
          js = (case destination e of Some s \<Rightarrow> j_append env '', "destination": "%s"'' [PStr s] js | None \<Rightarrow> js);
          js = (if dim_A e \<ge> 0 \<and> dim_B e \<ge> 0 then
                  j_append env '', "ref_front": %d'' [PInt (dim_A e)] (j_append env '', "length": %d'' [PInt (dim_A e + dim_B e)] js)
                else js);
          js = (if draught e \<ge> 0 then j_append env '', "draught": %.1f'' [PDouble (draught e)] js else js);
          js = (if dim_C e \<ge> 0 \<and> dim_D e \<ge> 0 then
                  j_append env '', "ref_left": %d'' [PInt (dim_C e)] (j_append env '', "width": %d'' [PInt (dim_C e + dim_D e)] js)
                else js);
          js = j_append env ''}'' [] js
      in j_count js)\<close>

definition export_persons :: "jenv \<Rightarrow> cache_ent \<Rightarrow> jstate \<Rightarrow> jstate" where
  \<open>export_persons env e js =
     (let js = j_hlog ''jsonout: exporting MMSI %d persons_on_board %d'' [PInt (ce_mmsi e), PInt (persons_on_board e)] js;
          js = j_time env (received_persons_on_board e) js;
          js = j_append env ''%s{"msgtype": 8, "mmsi": %d, "persons_on_board": %d, "rxtime": "%s"}''
                 [j_sep js, PInt (ce_mmsi e), PInt (persons_on_board e), PLit (j_tbuf js)] js
      in j_count js)\<close>

definition export_entry :: "jenv \<Rightarrow> jstate \<Rightarrow> cache_ent \<Rightarrow> jstate" where
  "export_entry env js e =
     (let js = (if ce_mmsi e \<noteq> 0 \<and> got_pos e then export_position env e js else js);
          js = (if ce_mmsi e \<noteq> 0 \<and> name e \<noteq> None then export_data env e js else js)
      in if persons_on_board e \<ge> 0 then export_persons env e js else js)"

text \<open>The loop over the tree that was taken out of the cache, which deletes each node after it has been exported.\<close>

partial_function (option) export_loop ::
    "jenv \<Rightarrow> nat \<Rightarrow> sptree \<Rightarrow> cache_ent spmem \<Rightarrow> jstate \<Rightarrow> (jstate \<times> sptree \<times> cache_ent spmem) option" where
  "export_loop env x q m js =
     (if x = 0 then Some (js, q, m)
      else do {
        nextx \<leftarrow> sp_fnext x (cells m);
        e \<leftarrow> ld data (cells m) x;
        e \<leftarrow> e;
        let js = export_entry env js e;
        (e', m) \<leftarrow> cache_free_entry x m;
        (q, m) \<leftarrow> sp_delete x q m;
        export_loop env nextx q m js
      })"

definition json_head :: string where
  \<open>json_head =
     ''{'' @ CHR 0x0A # CHR 0x09 # ''"protocol": "jsonais",'' @ CHR 0x0A # CHR 0x09 # ''"encodetime": "%s",''
     @ CHR 0x0A # CHR 0x09 # ''"groups": ['' @ CHR 0x0A # CHR 0x09 # CHR 0x09 # ''{''
     @ CHR 0x0A # CHR 0x09 # CHR 0x09 # CHR 0x09 # ''"path": [ { "name": "%s" } ],''
     @ CHR 0x0A # CHR 0x09 # CHR 0x09 # CHR 0x09 # ''"msgs": ['' @ [CHR 0x0A]\<close>

definition json_tail :: string where
  "json_tail = [CHR 0x0A, CHR 0x0A, CHR 0x09, CHR 0x09, CHR 0x09, CHR '']'', CHR 0x0A, CHR 0x09, CHR 0x09, CHR ''}'', CHR 0x0A,
     CHR 0x09, CHR '']'', CHR 0x0A, CHR ''}'', CHR 0x0A]"

text \<open>The result: what was posted. \<open>tbuf\<close> is the uninitialised time buffer.\<close>

definition jsonout_export ::
    "jenv \<Rightarrow> (string \<Rightarrow> curl_outcome) \<Rightarrow> string \<Rightarrow> uplink_config_t list \<Rightarrow> string \<Rightarrow> world \<Rightarrow> ((string \<times> string) list \<times> world) option" where
  "jsonout_export env net mycall uplinks tbuf w = do {
     let (now, w) = time_now w;
     let js = j_time env now \<lparr>j_text = [], j_exported = 0, j_tbuf = tbuf, j_world = w\<rparr>;
     let js = j_append env json_head [PLit (j_tbuf js), PLit mycall] js;
     let (sp, c) = cache_rotate (w_cache (j_world js));
     q \<leftarrow> sp;
     x \<leftarrow> sp_fhead q (cells (cache_mem c));
     (js, q, m) \<leftarrow> export_loop env x q (cache_mem c) js;
     let js = j_append env json_tail [] js;
     (q, m) \<leftarrow> sp_null q m;
     let w = emit (Hlog ''jsonout: %s'' [PLit (j_text js)]) ((j_world js)\<lparr>w_cache := c\<lparr>cache_mem := m\<rparr>\<rparr>);
     Some (if j_exported js > 0 then jsonout_post_all net (j_text js) uplinks w else ([], w))
   }"

text \<open>
  The thread: \<open>die n\<close> tells whether it has been told to stop when it looks for the \<open>n\<close>-th time, and
  \<open>others\<close> what the rest of the process does to the world in the minute before an export. The result is none
  when it never returns, and otherwise what each export posted, in order.
\<close>

fun sleep_minute :: "(nat \<Rightarrow> bool) \<Rightarrow> nat \<Rightarrow> nat \<Rightarrow> bool \<times> nat" where
  "sleep_minute die n 0 = (False, n)"
| "sleep_minute die n (Suc i) = (if die n then (True, n) else sleep_minute die (n + 1) i)"

partial_function (option) jsonout_thread_loop ::
    "(string \<Rightarrow> world \<Rightarrow> ((string \<times> string) list \<times> world) option) \<Rightarrow> (nat \<Rightarrow> bool) \<Rightarrow> (nat \<Rightarrow> world \<Rightarrow> world) \<Rightarrow> nat \<Rightarrow> world
     \<Rightarrow> ((string \<times> string) list list \<times> world) option" where
  "jsonout_thread_loop export die others n w =
     (let (stop, n') = sleep_minute die n 60
      in if stop then Some ([], w)
         else do {
           let w = emit (Hlog ''jsonout: exporting'' []) (others n w);
           (p, w) \<leftarrow> export (map (\<lambda>b. char_of (unat b)) (local_array TBUF_LEN w)) w;
           (ps, w) \<leftarrow> jsonout_thread_loop export die others n' w;
           Some (p # ps, w)
         })"

definition jsonout_thread ::
    "jenv \<Rightarrow> (string \<Rightarrow> curl_outcome) \<Rightarrow> string \<Rightarrow> uplink_config_t list \<Rightarrow> (nat \<Rightarrow> bool) \<Rightarrow> (nat \<Rightarrow> world \<Rightarrow> world) \<Rightarrow> world
     \<Rightarrow> ((string \<times> string) list list \<times> world) option" where
  "jsonout_thread env net mycall uplinks die others w =
     jsonout_thread_loop (jsonout_export env net mycall uplinks) die others 0 (emit (Hlog ''jsonout: thread started'' []) w)"

section \<open>What is exported\<close>

definition loops_like :: "jenv \<Rightarrow> nat \<Rightarrow> sptree \<Rightarrow> cache_ent spmem \<Rightarrow> cache_ent list \<times> sptree \<times> cache_ent spmem \<Rightarrow> bool" where
  "loops_like env x q m y \<longleftrightarrow> (\<forall>js. export_loop env x q m js = Some (foldl (export_entry env) js (fst y), snd y))"

text \<open>The export loop visits and deletes exactly what \<^const>\<open>cache_free_loop\<close> does.\<close>

lemma export_loop_free:
  assumes "cache_free_loop x q m = Some y"
  shows "loops_like env x q m y"
  using _ assms
proof (rule cache_free_loop.raw_induct [where P = "loops_like env" and xa = "((x, q), m)" and y = y, unfolded prod.case])
  fix fl x q m y
  assume IH: "\<And>x q m y. fl x q m = Some y \<Longrightarrow> loops_like env x q m y"
    and 1: "(if x = 0 then Some ([], q, m)
      else do {
        nextx \<leftarrow> sp_fnext x (cells m);
        (e, m) \<leftarrow> cache_free_entry x m;
        (q, m) \<leftarrow> sp_delete x q m;
        (es, q, m) \<leftarrow> fl nextx q m;
        Some (e # es, q, m)
      }) = Some y"
  show "loops_like env x q m y"
  proof (cases "x = 0")
    case True
    then show ?thesis using 1 by (auto simp: loops_like_def export_loop.simps)
  next
    case False
    with 1 obtain nextx e m1 q2 m2 es q3 m3 where s: "sp_fnext x (cells m) = Some nextx" "cache_free_entry x m = Some (e, m1)"
        "sp_delete x q m1 = Some (q2, m2)" "fl nextx q2 m2 = Some (es, q3, m3)" "y = (e # es, q3, m3)"
      by (auto simp: bind_eq_Some_conv)
    from s(2) have "ld data (cells m) x = Some (Some e)" by (auto simp: cache_free_entry_def bind_eq_Some_conv)
    then show ?thesis using False s IH [OF s(4)] unfolding loops_like_def by (subst export_loop.simps) simp
  qed
qed

lemma j_append_simps [simp]:
  "j_world (j_append env f a js) = j_world js" "j_exported (j_append env f a js) = j_exported js" "j_tbuf (j_append env f a js) = j_tbuf js"
  by (simp_all add: j_append_def)

lemma j_other_simps [simp]:
  "j_exported (j_time env t js) = j_exported js" "j_text (j_time env t js) = j_text js"
  "j_exported (j_hlog f a js) = j_exported js" "j_text (j_hlog f a js) = j_text js"
  "j_exported (j_count js) = Suc (j_exported js)" "j_world (j_count js) = j_world js" "j_text (j_count js) = j_text js"
  by (simp_all add: j_time_def j_hlog_def j_count_def split_beta)

text \<open>The messages of an entry: its position, its static data, the persons on board.\<close>

definition messages :: "cache_ent \<Rightarrow> nat" where
  "messages e = (if ce_mmsi e \<noteq> 0 \<and> got_pos e then 1 else 0) + (if ce_mmsi e \<noteq> 0 \<and> name e \<noteq> None then 1 else 0)
     + (if persons_on_board e \<ge> 0 then 1 else 0)"

text \<open>The blocks that print a message are chains of local bindings.\<close>

lemma let_step:
  "j_exported x = j_exported k \<Longrightarrow> (\<And>js. j_exported js = j_exported k \<Longrightarrow> j_exported (f js) = n) \<Longrightarrow> j_exported (let js = x in f js) = n"
  "only_log w (j_world x) \<Longrightarrow> (\<And>js. only_log w (j_world js) \<Longrightarrow> only_log w (j_world (f js))) \<Longrightarrow> only_log w (j_world (let js = x in f js))"
  by simp_all

lemma export_counts:
  "j_exported (export_position env e js) = Suc (j_exported js)" "j_exported (export_data env e js) = Suc (j_exported js)"
  "j_exported (export_persons env e js) = Suc (j_exported js)"
  unfolding export_position_def export_data_def export_persons_def
  by (intro let_step (1) [where k = js]; simp split: option.split)+

lemma export_entry_count: "j_exported (export_entry env js e) = j_exported js + messages e"
  by (simp add: export_entry_def messages_def Let_def export_counts)

lemma export_entries_count: "j_exported (foldl (export_entry env) js es) = j_exported js + sum_list (map messages es)"
  by (induction es arbitrary: js) (simp_all add: export_entry_count)

text \<open>Printing a line, the time and the log leave the rest of the process alone.\<close>

definition only_log :: "world \<Rightarrow> world \<Rightarrow> bool" where
  "only_log w w' \<longleftrightarrow> w'\<lparr>w_out := w_out w\<rparr> = w"

lemma only_log_refl [simp]: "only_log w w"
  by (simp add: only_log_def)

lemma only_log_emit: "only_log w w' \<Longrightarrow> only_log w (emit e w')"
  by (simp add: only_log_def emit_def)

lemma only_log_trans: "only_log w w' \<Longrightarrow> only_log w' w'' \<Longrightarrow> only_log w w''"
  by (cases w; cases w'; cases w'') (simp add: only_log_def)

lemma time_only_log: "only_log w (snd (snd (time_jsonais g t b n w)))"
  by (auto simp: time_jsonais_def Let_def intro: only_log_emit split: option.split)

definition logs :: "world \<Rightarrow> jstate \<Rightarrow> bool" where
  "logs w js \<longleftrightarrow> only_log w (j_world js)"

lemma logs_append: "logs w js \<Longrightarrow> logs w (j_append env f a js)"
  by (simp add: logs_def)

lemma logs_count: "logs w js \<Longrightarrow> logs w (j_count js)"
  by (simp add: logs_def)

lemma logs_time: "logs w js \<Longrightarrow> logs w (j_time env t js)"
  using time_only_log [of "j_world js" "gmtime env" t "j_tbuf js" TBUF_LEN] only_log_trans by (auto simp: logs_def j_time_def split_beta)

lemma logs_hlog: "logs w js \<Longrightarrow> logs w (j_hlog f a js)"
  by (simp add: logs_def j_hlog_def only_log_emit)

lemma logs_let: "logs w x \<Longrightarrow> (\<And>js. logs w js \<Longrightarrow> logs w (f js)) \<Longrightarrow> logs w (let js = x in f js)"
  by simp

lemma logs_if: "logs w x \<Longrightarrow> logs w y \<Longrightarrow> logs w (if b then x else y)"
  by simp

lemma logs_option: "logs w x \<Longrightarrow> (\<And>v. logs w (f v)) \<Longrightarrow> logs w (case p of None \<Rightarrow> x | Some v \<Rightarrow> f v)"
  by (cases p) simp_all

lemmas logs_rules = logs_append logs_count logs_time logs_hlog logs_let logs_if logs_option

lemma export_parts_log:
  assumes "logs w js"
  shows "logs w (export_position env e js)" "logs w (export_data env e js)" "logs w (export_persons env e js)"
  unfolding export_position_def export_data_def export_persons_def by (intro logs_rules assms; assumption)+

lemma export_entry_log: "logs w js \<Longrightarrow> logs w (export_entry env js e)"
  unfolding export_entry_def by (intro logs_rules export_parts_log)

lemma export_entries_log: "logs w js \<Longrightarrow> logs w (foldl (export_entry env) js es)"
  by (induction es arbitrary: js) (simp_all add: export_entry_log)

lemma post_single_log: "only_log w (snd (jsonout_post_single o1 url w))"
proof -
  have c: "only_log w (snd (snd (curl_steps cs ss r w)))" for cs ss r and w :: world
    by (induction cs ss r w rule: curl_steps.induct) (simp_all add: only_log_emit)
  show ?thesis using c [of w curl_calls "curl_results o1" None]
    by (auto simp: jsonout_post_single_def Let_def split_beta intro!: only_log_emit)
qed

lemma post_all:
  "fst (jsonout_post_all net json us w) = map (\<lambda>u. (up_url u, json)) (filter (\<lambda>u. up_proto u = UPLINK_JSON) us)
    \<and> only_log w (snd (jsonout_post_all net json us w))"
proof (induction us arbitrary: w)
  case (Cons u us)
  have "only_log w (snd (jsonout_post_all net json us (snd (jsonout_post_single (net (up_url u)) (up_url u) w))))"
    using Cons.IH post_single_log only_log_trans by blast
  then show ?case using Cons.IH by (simp add: split_beta)
qed simp


lemma cache_rotate_free:
  assumes "cache_rep c M"
  shows "\<exists>q c2 q' m' ks. cache_rotate c = (Some q, c2) \<and> cache_free q (cache_mem c2) = Some (map (the \<circ> M) ks, q', m')
    \<and> sp_root q' = 0 \<and> sorted_wrt (<) ks \<and> set ks = dom M \<and> cache_rep (c2\<lparr>cache_mem := m'\<rparr>) Map.empty"
proof -
  obtain q c2 kvs where c2: "cache_rotate c = (Some q, c2)" "cache_rep2 q kvs c2 Map.empty"
      "sorted_wrt (<) (map fst kvs)" "set (map fst kvs) = dom M" "map snd kvs = map (the \<circ> M) (map fst kvs)"
    using cache_rotate_rep [OF assms] by blast
  obtain q3 fl3 t t0 where s: "cache_spt c2 = Some q3" "sp_ok (cache_mem c2) fl3 q3 t"
      "\<forall>x \<in> set_tree t. snd (the (kd (cells (cache_mem c2)) x)) \<noteq> None"
      "content (cells (cache_mem c2)) t = Map.empty"
      "sp_ok (cache_mem c2) fl3 q t0" "set_tree t0 \<inter> set_tree t = {}"
      "\<forall>x \<in> set_tree t0. snd (the (kd (cells (cache_mem c2)) x)) \<noteq> None"
      "tree_kvs (cells (cache_mem c2)) t0 = kvs"
    using c2(2) unfolding cache_rep2_def by (elim exE conjE) (rule that)
  obtain q' m' fl' where f: "cache_free q (cache_mem c2) = Some (tree_ents (cells (cache_mem c2)) t0, q', m')"
      "sp_ok m' fl' q' Leaf" "others_kept (cache_mem c2) fl3 t0 m' fl' Leaf"
    using cache_free_ok [OF s(5,7)] by blast
  have hk: "heap_ok m' fl'" "sp_root q' = 0" using f(2) by (auto simp: sp_ok_def)
  have dj: "set_tree t \<inter> set_tree t0 = {}" using s(6) by blast
  note k = sp_ok_others [OF s(2) f(3) dj hk(1)]
  have kd: "kd (cells m') x = kd (cells (cache_mem c2)) x" if "x \<in> set_tree t" for x
    using k(3) [OF that] by (simp add: kd_def)
  have "content (cells m') t = Map.empty"
    using content_same [of "cells (cache_mem c2)" t "cells m'" t] s(2,4) k(1) kd by (simp add: sp_ok_def)
  then have "cache_rep (c2\<lparr>cache_mem := m'\<rparr>) Map.empty"
    unfolding cache_rep_def sp_rep_def using s(1,3) k(1) kd
    by (intro exI [of _ q3] conjI exI [of _ fl'] exI [of _ t]) simp_all
  moreover have "tree_ents (cells (cache_mem c2)) t0 = map snd kvs"
    unfolding s(8) [symmetric] by (simp add: tree_ents_def tree_kvs_def comp_def)
  ultimately show ?thesis using c2 f(1) hk(2)
    by (intro exI [of _ q] exI [of _ c2] exI [of _ q'] exI [of _ m'] exI [of _ "map fst kvs"]) simp
qed

lemma only_log_cache: "only_log w w' \<Longrightarrow> w_cache w' = w_cache w"
  by (cases w; cases w') (simp add: only_log_def)

lemma only_log_set_cache: "only_log w w' \<Longrightarrow> only_log (w\<lparr>w_cache := c\<rparr>) (w'\<lparr>w_cache := c\<rparr>)"
  by (cases w; cases w') (simp add: only_log_def)

text \<open>The text of an export: the head with the time and the call of the receiver, the messages of the ships, the tail.\<close>

definition export_start :: "jenv \<Rightarrow> string \<Rightarrow> string \<Rightarrow> world \<Rightarrow> jstate" where
  "export_start env mycall tbuf w =
     (let (now, w) = time_now w;
          js = j_time env now \<lparr>j_text = [], j_exported = 0, j_tbuf = tbuf, j_world = w\<rparr>
      in j_append env json_head [PLit (j_tbuf js), PLit mycall] js)"

definition export_text :: "jenv \<Rightarrow> string \<Rightarrow> string \<Rightarrow> world \<Rightarrow> cache_ent list \<Rightarrow> string" where
  "export_text env mycall tbuf w es = j_text (j_append env json_tail [] (foldl (export_entry env) (export_start env mycall tbuf w) es))"

lemma export_start_simps:
  "j_exported (export_start env mycall tbuf w) = 0" "w_cache (j_world (export_start env mycall tbuf w)) = w_cache w"
  "logs (w\<lparr>w_tick := Suc (w_tick w)\<rparr>) (export_start env mycall tbuf w)"
proof -
  show "j_exported (export_start env mycall tbuf w) = 0" by (simp add: export_start_def time_now_def Let_def)
  show "logs (w\<lparr>w_tick := Suc (w_tick w)\<rparr>) (export_start env mycall tbuf w)"
    using logs_time [of "w\<lparr>w_tick := Suc (w_tick w)\<rparr>"] by (simp add: logs_def export_start_def time_now_def Let_def)
  then have "w_cache (j_world (export_start env mycall tbuf w)) = w_cache (w\<lparr>w_tick := Suc (w_tick w)\<rparr>)"
    unfolding logs_def by (rule only_log_cache)
  then show "w_cache (j_world (export_start env mycall tbuf w)) = w_cache w" by simp
qed


lemma jsonout_export_eq:
  assumes "cache_rotate (w_cache w) = (Some q, c2)" "cache_free q (cache_mem c2) = Some (es, q', m')" "sp_root q' = 0"
  shows "\<exists>w1. jsonout_export env net mycall uplinks tbuf w = Some
      (if sum_list (map messages es) > 0 then jsonout_post_all net (export_text env mycall tbuf w es) uplinks w1 else ([], w1))
    \<and> w_cache w1 = c2\<lparr>cache_mem := m'\<rparr> \<and> only_log (w\<lparr>w_tick := Suc (w_tick w), w_cache := w_cache w1\<rparr>) w1"
proof -
  let ?js = "export_start env mycall tbuf w"
  obtain x where x: "sp_fhead q (cells (cache_mem c2)) = Some x" "cache_free_loop x q (cache_mem c2) = Some (es, q', m')"
    using assms(2) by (auto simp: cache_free_def bind_eq_Some_conv)
  have l: "export_loop env x q (cache_mem c2) js = Some (foldl (export_entry env) js es, q', m')" for js
    using export_loop_free [OF x(2)] by (simp add: loops_like_def)
  have st: "jsonout_export env net mycall uplinks tbuf w = do {
     let (sp, c) = cache_rotate (w_cache (j_world ?js));
     q \<leftarrow> sp;
     x \<leftarrow> sp_fhead q (cells (cache_mem c));
     (js, q, m) \<leftarrow> export_loop env x q (cache_mem c) ?js;
     let js = j_append env json_tail [] js;
     (q, m) \<leftarrow> sp_null q m;
     let w = emit (Hlog ''jsonout: %s'' [PLit (j_text js)]) ((j_world js)\<lparr>w_cache := c\<lparr>cache_mem := m\<rparr>\<rparr>);
     Some (if j_exported js > 0 then jsonout_post_all net (j_text js) uplinks w else ([], w))
   }"
    by (simp add: jsonout_export_def export_start_def time_now_def Let_def)
  let ?w1 = "emit (Hlog ''jsonout: %s'' [PLit (export_text env mycall tbuf w es)])
    ((j_world (foldl (export_entry env) ?js es))\<lparr>w_cache := c2\<lparr>cache_mem := m'\<rparr>\<rparr>)"
  define n where "n = sum_list (map messages es)"
  have "j_exported (foldl (export_entry env) ?js es) = n" by (simp add: export_entries_count export_start_simps n_def)
  moreover have "only_log (w\<lparr>w_tick := Suc (w_tick w), w_cache := w_cache ?w1\<rparr>) ?w1"
  proof -
    have "w_cache ?w1 = c2\<lparr>cache_mem := m'\<rparr>" by (simp add: emit_def)
    moreover have "logs (w\<lparr>w_tick := Suc (w_tick w)\<rparr>) (foldl (export_entry env) ?js es)"
      by (rule export_entries_log [OF export_start_simps(3)])
    ultimately show ?thesis using only_log_emit [OF only_log_set_cache] by (simp add: logs_def)
  qed
  ultimately show ?thesis
    unfolding st n_def [symmetric] using assms(1,3) x(1)
    by (intro exI [of _ ?w1]) (simp add: export_start_simps l sp_null_def export_text_def Let_def, simp add: emit_def)
qed

text \<open>
  C31. One export. Whatever the cache holds, the export thread's pass over it is defined (no freed or null pointer is
  followed, both loops end). It leaves the new cache empty and posts, to each JSON uplink in the order of
  the configuration and to no other, one and the same text, which is the head, the messages of every ship once in strictly
  ascending order of the MMSI, and the tail. Nothing is posted exactly when no ship has a position, a name or persons on
  board to report. Beyond that the pass only reads the clock and writes to the log. The outcome of one post does not keep the next from being made.
\<close>

theorem jsonout_export_posts:
  assumes "cache_rep (w_cache w) M"
  shows "\<exists>ks w' posts. sorted_wrt (<) ks \<and> set ks = dom M
    \<and> jsonout_export env net mycall uplinks tbuf w = Some (posts, w') \<and> cache_rep (w_cache w') Map.empty
    \<and> only_log (w\<lparr>w_tick := Suc (w_tick w), w_cache := w_cache w'\<rparr>) w'
    \<and> posts = (if \<forall>k \<in> dom M. messages (the (M k)) = 0 then []
        else map (\<lambda>u. (up_url u, export_text env mycall tbuf w (map (the \<circ> M) ks)))
               (filter (\<lambda>u. up_proto u = UPLINK_JSON) uplinks))"
proof -
  obtain q c2 q' m' ks where r: "cache_rotate (w_cache w) = (Some q, c2)"
      "cache_free q (cache_mem c2) = Some (map (the \<circ> M) ks, q', m')" "sp_root q' = 0" "sorted_wrt (<) ks" "set ks = dom M"
      "cache_rep (c2\<lparr>cache_mem := m'\<rparr>) Map.empty"
    using cache_rotate_free [OF assms] by blast
  let ?es = "map (the \<circ> M) ks" and ?text = "export_text env mycall tbuf w (map (the \<circ> M) ks)"
  obtain w1 where w1: "jsonout_export env net mycall uplinks tbuf w = Some
      (if sum_list (map messages ?es) > 0 then jsonout_post_all net ?text uplinks w1 else ([], w1))"
      "w_cache w1 = c2\<lparr>cache_mem := m'\<rparr>" "only_log (w\<lparr>w_tick := Suc (w_tick w), w_cache := w_cache w1\<rparr>) w1"
    using jsonout_export_eq [OF r(1-3)] by blast
  have none: "(sum_list (map messages ?es) = 0) = (\<forall>k \<in> dom M. messages (the (M k)) = 0)"
    unfolding r(5) [symmetric] by (induction ks) auto
  let ?p = "jsonout_post_all net ?text uplinks w1"
  have cp: "w_cache (snd ?p) = w_cache w1"
    using post_all [of net ?text uplinks w1] by (simp add: only_log_cache)
  define quiet where "quiet \<longleftrightarrow> (\<forall>k \<in> dom M. messages (the (M k)) = 0)"
  have some: "sum_list (map messages ?es) > 0 \<longleftrightarrow> \<not> quiet" unfolding quiet_def none [symmetric] by (rule neq0_conv [symmetric])
  have eq: "jsonout_export env net mycall uplinks tbuf w = Some
      (if quiet then [] else map (\<lambda>u. (up_url u, ?text)) (filter (\<lambda>u. up_proto u = UPLINK_JSON) uplinks), if quiet then w1 else snd ?p)"
    unfolding w1(1) some using post_all [of net ?text uplinks w1] by (cases quiet) (simp_all add: prod_eq_iff)
  define w' where "w' = (if quiet then w1 else snd ?p)"
  have "w_cache w' = w_cache w1" using cp by (simp add: w'_def)
  moreover have "only_log (w\<lparr>w_tick := Suc (w_tick w), w_cache := w_cache w1\<rparr>) w'"
    using w1(3) only_log_trans [OF w1(3)] post_all [of net ?text uplinks w1] by (simp add: w'_def)
  moreover have "cache_rep (w_cache w1) Map.empty" using r(6) w1(2) by simp
  ultimately show ?thesis unfolding quiet_def [symmetric] using r(4,5) eq [folded w'_def]
    by (intro exI [of _ ks] exI [of _ w']) simp
qed


theorem jsonout_export_posts_witness:
  "\<exists>c1 M ks w' posts. run_ops junk0 [Vessel_persons 5 219000001 7, Vessel_persons 6 211000002 3] (cache_init cache0) = Some c1
    \<and> cache_rep c1 M \<and> sorted_wrt (<) ks \<and> set ks = {211000002, 219000001 :: u32}
    \<and> jsonout_export \<lparr>render = (\<lambda>f a. f), gmtime = (\<lambda>_. None)\<rparr> (\<lambda>_. \<lparr>curl_init = True, curl_headers = True, curl_results = [0, 3], curl_retcode = 0\<rparr>)
        ''OH2'' [\<lparr>up_proto = UPLINK_JSON, up_name = ''x'', up_url = ''http://x/''\<rparr>] ''?'' (idle_world\<lparr>w_cache := c1\<rparr>) = Some (posts, w')
    \<and> cache_rep (w_cache w') Map.empty \<and> map fst posts = [''http://x/'']"
proof -
  let ?b = "[Vessel_persons 5 219000001 7, Vessel_persons 6 211000002 3]" and ?env = "\<lparr>render = (\<lambda>f a. f), gmtime = (\<lambda>_. None)\<rparr>"
    and ?ups = "[\<lparr>up_proto = UPLINK_JSON, up_name = ''x'', up_url = ''http://x/''\<rparr>]"
    and ?net = "\<lambda>_ :: string. \<lparr>curl_init = True, curl_headers = True, curl_results = [0, 3], curl_retcode = 0\<rparr>"
  have h: "heap_ok (cache_mem cache0) []" by (simp add: heap_ok_def cache0_def)
  obtain c1 where c1: "run_ops junk0 ?b (cache_init cache0) = Some c1" "cache_rep c1 (ship_ent ?b)"
    using run_ops_rep [OF cachemap.record_store_axioms cache_init_rep [OF h]] by blast
  have rep: "cache_rep (w_cache (idle_world\<lparr>w_cache := c1\<rparr>)) (ship_ent ?b)" using c1(2) by simp
  obtain ks w' posts where r: "sorted_wrt (<) ks" "set ks = dom (ship_ent ?b)"
      "jsonout_export ?env ?net ''OH2'' ?ups ''?'' (idle_world\<lparr>w_cache := c1\<rparr>) = Some (posts, w')" "cache_rep (w_cache w') Map.empty"
      "posts = (if \<forall>k \<in> dom (ship_ent ?b). messages (the (ship_ent ?b k)) = 0 then []
        else map (\<lambda>u. (up_url u, export_text ?env ''OH2'' ''?'' (idle_world\<lparr>w_cache := c1\<rparr>) (map (the \<circ> ship_ent ?b) ks)))
               (filter (\<lambda>u. up_proto u = UPLINK_JSON) ?ups))"
    using jsonout_export_posts [OF rep] by blast
  have dom: "dom (ship_ent ?b) = {211000002, 219000001}" by (auto simp: ship_ent_def ship_ops_def op_key_def dom_def split: if_splits)
  have "messages (the (ship_ent ?b 211000002)) \<noteq> 0"
    by (simp add: ship_ent_def ship_ops_def op_key_def messages_def)
  then have "map fst posts = [''http://x/'']" using r(5) dom by auto
  then show ?thesis using c1 r(1-4) r(2) [unfolded dom]
    by (intro exI [of _ c1] exI [of _ "ship_ent ?b"] exI [of _ ks] exI [of _ w'] exI [of _ posts] conjI) assumption+
qed


text \<open>How long the thread sleeps when it is told to stop at look \<open>T\<close>.\<close>

lemma sleep_minute_ok:
  assumes "\<forall>k. die k \<longleftrightarrow> T \<le> k" "n \<le> T"
  shows "sleep_minute die n i = (if T - n < i then (True, T) else (False, n + i))"
  using assms(2)
proof (induction i arbitrary: n)
  case (Suc i)
  show ?case
  proof (cases "n = T")
    case False
    then have "sleep_minute die (n + 1) i = (if T - (n + 1) < i then (True, T) else (False, n + 1 + i))"
      using Suc by (intro Suc.IH) simp
    moreover have "\<not> die n" using assms(1) Suc.prems False by simp
    ultimately show ?thesis using Suc.prems False by (simp; linarith)
  qed (use assms(1) in simp)
qed simp

definition cache_good :: "world \<Rightarrow> bool" where
  "cache_good w \<longleftrightarrow> (\<exists>M. cache_rep (w_cache w) M)"

lemma jsonout_export_good:
  assumes "cache_good w"
  shows "\<exists>p w'. jsonout_export env net mycall uplinks tbuf w = Some (p, w') \<and> cache_good w'"
proof -
  obtain M where "cache_rep (w_cache w) M" using assms by (auto simp: cache_good_def)
  from cache_rotate_free [OF this] obtain q c2 q' m' ks where r: "cache_rotate (w_cache w) = (Some q, c2)"
      "cache_free q (cache_mem c2) = Some (map (the \<circ> M) ks, q', m')" "sp_root q' = 0"
      "cache_rep (c2\<lparr>cache_mem := m'\<rparr>) Map.empty" by blast
  let ?es = "map (the \<circ> M) ks" and ?text = "export_text env mycall tbuf w (map (the \<circ> M) ks)"
  obtain w1 where w1: "jsonout_export env net mycall uplinks tbuf w = Some
      (if sum_list (map messages ?es) > 0 then jsonout_post_all net ?text uplinks w1 else ([], w1))"
      "w_cache w1 = c2\<lparr>cache_mem := m'\<rparr>"
    using jsonout_export_eq [OF r(1-3)] by blast
  let ?r = "if sum_list (map messages ?es) > 0 then jsonout_post_all net ?text uplinks w1 else ([], w1)"
  have "w_cache (snd ?r) = w_cache w1"
    using post_all [of net ?text uplinks w1] by (simp add: only_log_cache)
  then have "cache_good (snd ?r)" using r(4) w1(2) unfolding cache_good_def by auto
  then show ?thesis using w1(1) by (metis prod.collapse)
qed

lemma thread_loop_ok:
  assumes "\<forall>k. die k \<longleftrightarrow> T \<le> k" "\<And>k w. cache_good w \<Longrightarrow> cache_good (others k w)"
    "\<And>b w. cache_good w \<Longrightarrow> \<exists>p w'. export b w = Some (p, w') \<and> cache_good w'"
    "n \<le> T" "cache_good w"
  shows "\<exists>ps w'. jsonout_thread_loop export die others n w = Some (ps, w') \<and> length ps = (T - n) div 60 \<and> cache_good w'"
  using assms(4,5)
proof (induction "T - n" arbitrary: n w rule: less_induct)
  case less
  have s: "sleep_minute die n 60 = (if T - n < 60 then (True, T) else (False, n + 60))"
    using sleep_minute_ok [OF assms(1) less.prems(1), of 60] by simp
  show ?case
  proof (cases "T - n < 60")
    case True
    then show ?thesis using s less.prems by (subst jsonout_thread_loop.simps) simp
  next
    case False
    let ?w = "emit (Hlog ''jsonout: exporting'' []) (others n w)"
    have "cache_good ?w" using assms(2) [OF less.prems(2)] by (simp add: cache_good_def emit_def)
    then obtain p w1 where e: "export (map (\<lambda>b. char_of (unat b)) (local_array TBUF_LEN ?w)) ?w = Some (p, w1)" "cache_good w1"
      using assms(3) by blast
    obtain ps w' where r: "jsonout_thread_loop export die others (n + 60) w1 = Some (ps, w')"
        "length ps = (T - (n + 60)) div 60" "cache_good w'"
    proof -
      have "T - (n + 60) < T - n" "n + 60 \<le> T" using False by simp_all
      from less.hyps [OF this e(2)] show thesis by (elim exE conjE) (rule that)
    qed
    have "(T - n) div 60 = Suc ((T - (n + 60)) div 60)" using False by (simp add: le_div_geq)
    then show ?thesis using s False e r
      by (subst jsonout_thread_loop.simps) (auto simp: Let_def)
  qed
qed

text \<open>
  C32. The export thread stops. If the thread is told to stop at its \<open>T\<close>-th look, one second apart, it returns, after exactly
  one export for each full minute before, and it leaves the cache well formed. The other threads may do anything
  in between that keeps the cache well formed.
\<close>

theorem jsonout_thread_stops:
  assumes "\<forall>k. die k \<longleftrightarrow> T \<le> k" "\<And>k w. cache_good w \<Longrightarrow> cache_good (others k w)" "cache_good w"
  shows "\<exists>ps w'. jsonout_thread env net mycall uplinks die others w = Some (ps, w') \<and> length ps = T div 60 \<and> cache_good w'"
proof -
  have "cache_good (emit e w)" for e using assms(3) by (simp add: cache_good_def emit_def)
  then show ?thesis unfolding jsonout_thread_def
    using thread_loop_ok [OF assms(1,2) jsonout_export_good, where n = 0] by simp
qed

theorem jsonout_thread_stops_witness:
  "\<exists>ps w'. jsonout_thread \<lparr>render = (\<lambda>f a. f), gmtime = (\<lambda>_. None)\<rparr>
      (\<lambda>_. \<lparr>curl_init = True, curl_headers = True, curl_results = [], curl_retcode = 200\<rparr>) ''OH2'' [] (\<lambda>k. 150 \<le> k)
      (\<lambda>_ w. w) idle_world = Some (ps, w') \<and> length ps = 2"
proof -
  have "heap_ok (cache_mem cache0) []" by (simp add: heap_ok_def cache0_def)
  from cache_init_rep [OF this] have "cache_good idle_world" by (auto simp: cache_good_def idle_world_def)
  from jsonout_thread_stops [where die = "\<lambda>k. 150 \<le> k" and T = 150 and others = "\<lambda>_ w. w", OF _ _ this]
  show ?thesis by fastforce
qed

end
