(* ===== verification/Rwlock.thy ===== *)
theory Rwlock
  imports Main "HOL-Library.Multiset"
begin

text \<open>
  rwlock.c: a lock for many readers or one writer, made of a mutex and two condition variables. Each function is
  what it does while it holds the mutex; a function that may wait is cut at the wait: its part up to the first
  \<^verbatim>\<open>pthread_cond_wait\<close>, and its part after each return of it. The return codes of the thread library are arguments.
  Threads interleave at these cuts.
\<close>

section \<open>The lock\<close>

record rwlock =
  mutex_init :: bool
  read_init :: bool
  write_init :: bool
  valid :: int
  r_active :: int
  w_active :: int
  r_wait :: int
  w_wait :: int

definition RWLOCK_VALID :: int where "RWLOCK_VALID = 0xfacade"
definition EINVAL :: int where "EINVAL = 22"
definition EBUSY :: int where "EBUSY = 16"

definition RWL_INITIALIZER :: rwlock where
  "RWL_INITIALIZER = \<lparr>mutex_init = True, read_init = True, write_init = True, valid = RWLOCK_VALID,
     r_active = 0, w_active = 0, r_wait = 0, w_wait = 0\<rparr>"

text \<open>A call that holds the mutex to its end returns, or it waits.\<close>

datatype outcome = Done int | Wait

text \<open>What a call does to the threads that wait.\<close>

datatype wake = No_wake | Signal_write | Broadcast_read

definition rwl_init :: "int \<Rightarrow> int \<Rightarrow> int \<Rightarrow> rwlock \<Rightarrow> int \<times> rwlock" where
  "rwl_init st_mutex st_read st_write rwl =
     (let rwl = rwl\<lparr>r_active := 0, r_wait := 0, w_wait := 0, w_active := 0\<rparr> in
      if st_mutex \<noteq> 0 then (st_mutex, rwl)
      else let rwl = rwl\<lparr>mutex_init := True\<rparr> in
      if st_read \<noteq> 0 then (st_read, rwl\<lparr>mutex_init := False\<rparr>)
      else let rwl = rwl\<lparr>read_init := True\<rparr> in
      if st_write \<noteq> 0 then (st_write, rwl\<lparr>read_init := False, mutex_init := False\<rparr>)
      else let rwl = rwl\<lparr>write_init := True\<rparr> in
      (0, rwl\<lparr>valid := RWLOCK_VALID\<rparr>))"

text \<open>Each of the three objects is destroyed, unless its own call fails.\<close>

definition rwl_destroy :: "int \<Rightarrow> int \<Rightarrow> int \<Rightarrow> int \<Rightarrow> int \<Rightarrow> rwlock \<Rightarrow> int \<times> rwlock" where
  "rwl_destroy st_lock st_unlock st_mutex st_read st_write rwl =
     (if valid rwl \<noteq> RWLOCK_VALID then (EINVAL, rwl)
      else if st_lock \<noteq> 0 then (st_lock, rwl)
      else if r_active rwl > 0 \<or> w_active rwl \<noteq> 0 then (EBUSY, rwl)
      else if r_wait rwl \<noteq> 0 \<or> w_wait rwl \<noteq> 0 then (EBUSY, rwl)
      else
        let rwl = rwl\<lparr>valid := 0\<rparr> in
        if st_unlock \<noteq> 0 then (st_unlock, rwl)
        else
          let status = st_mutex; status1 = st_read; status2 = st_write
          in (if status = 0 then status else if status1 = 0 then status1 else status2,
              rwl\<lparr>mutex_init := mutex_init rwl \<and> status \<noteq> 0, read_init := read_init rwl \<and> status1 \<noteq> 0,
                write_init := write_init rwl \<and> status2 \<noteq> 0\<rparr>))"

section \<open>Reading\<close>

definition rwl_readcleanup :: "rwlock \<Rightarrow> rwlock" where
  "rwl_readcleanup rwl = rwl\<lparr>r_wait := r_wait rwl - 1\<rparr>"

text \<open>\<^verbatim>\<open>rwl_rdlock\<close> up to the wait, and after a wait that returned \<open>status\<close>.\<close>

definition rwl_rdlock :: "int \<Rightarrow> rwlock \<Rightarrow> outcome \<times> rwlock" where
  "rwl_rdlock st_lock rwl =
     (if valid rwl \<noteq> RWLOCK_VALID then (Done EINVAL, rwl)
      else if st_lock \<noteq> 0 then (Done st_lock, rwl)
      else if w_active rwl \<noteq> 0 then (Wait, rwl\<lparr>r_wait := r_wait rwl + 1\<rparr>)
      else (Done 0, rwl\<lparr>r_active := r_active rwl + 1\<rparr>))"

definition rdlock_woken :: "int \<Rightarrow> rwlock \<Rightarrow> outcome \<times> rwlock" where
  "rdlock_woken status rwl =
     (if status = 0 \<and> w_active rwl \<noteq> 0 then (Wait, rwl)
      else
        let rwl = rwl\<lparr>r_wait := r_wait rwl - 1\<rparr>;
            rwl = (if status = 0 then rwl\<lparr>r_active := r_active rwl + 1\<rparr> else rwl)
        in (Done status, rwl))"

definition rwl_tryrdlock :: "int \<Rightarrow> int \<Rightarrow> rwlock \<Rightarrow> int \<times> rwlock" where
  "rwl_tryrdlock st_lock st_unlock rwl =
     (if valid rwl \<noteq> RWLOCK_VALID then (EINVAL, rwl)
      else if st_lock \<noteq> 0 then (st_lock, rwl)
      else
        let (status, rwl) = (if w_active rwl \<noteq> 0 then (EBUSY, rwl) else (0, rwl\<lparr>r_active := r_active rwl + 1\<rparr>))
        in (if st_unlock \<noteq> 0 then st_unlock else status, rwl))"

definition rwl_rdunlock :: "int \<Rightarrow> int \<Rightarrow> int \<Rightarrow> rwlock \<Rightarrow> int \<times> wake \<times> rwlock" where
  "rwl_rdunlock st_lock st_signal st_unlock rwl =
     (if valid rwl \<noteq> RWLOCK_VALID then (EINVAL, No_wake, rwl)
      else if st_lock \<noteq> 0 then (st_lock, No_wake, rwl)
      else
        let rwl = rwl\<lparr>r_active := r_active rwl - 1\<rparr>;
            (status, w) = (if r_active rwl = 0 \<and> w_wait rwl > 0 then (st_signal, Signal_write) else (0, No_wake))
        in (if st_unlock = 0 then status else st_unlock, w, rwl))"

section \<open>Writing\<close>

definition rwl_writecleanup :: "rwlock \<Rightarrow> rwlock" where
  "rwl_writecleanup rwl = rwl\<lparr>w_wait := w_wait rwl - 1\<rparr>"

definition rwl_wrlock :: "int \<Rightarrow> rwlock \<Rightarrow> outcome \<times> rwlock" where
  "rwl_wrlock st_lock rwl =
     (if valid rwl \<noteq> RWLOCK_VALID then (Done EINVAL, rwl)
      else if st_lock \<noteq> 0 then (Done st_lock, rwl)
      else if w_active rwl \<noteq> 0 \<or> r_active rwl > 0 then (Wait, rwl\<lparr>w_wait := w_wait rwl + 1\<rparr>)
      else (Done 0, rwl\<lparr>w_active := 1\<rparr>))"

definition wrlock_woken :: "int \<Rightarrow> rwlock \<Rightarrow> outcome \<times> rwlock" where
  "wrlock_woken status rwl =
     (if status = 0 \<and> (w_active rwl \<noteq> 0 \<or> r_active rwl > 0) then (Wait, rwl)
      else
        let rwl = rwl\<lparr>w_wait := w_wait rwl - 1\<rparr>;
            rwl = (if status = 0 then rwl\<lparr>w_active := 1\<rparr> else rwl)
        in (Done status, rwl))"

definition rwl_trywrlock :: "int \<Rightarrow> int \<Rightarrow> rwlock \<Rightarrow> int \<times> rwlock" where
  "rwl_trywrlock st_lock st_unlock rwl =
     (if valid rwl \<noteq> RWLOCK_VALID then (EINVAL, rwl)
      else if st_lock \<noteq> 0 then (st_lock, rwl)
      else
        let (status, rwl) = (if w_active rwl \<noteq> 0 \<or> r_active rwl > 0 then (EBUSY, rwl) else (0, rwl\<lparr>w_active := 1\<rparr>))
        in (if status \<noteq> 0 then status else st_unlock, rwl))"

definition rwl_wrunlock :: "int \<Rightarrow> int \<Rightarrow> int \<Rightarrow> rwlock \<Rightarrow> int \<times> wake \<times> rwlock" where
  "rwl_wrunlock st_lock st_signal st_unlock rwl =
     (if valid rwl \<noteq> RWLOCK_VALID then (EINVAL, No_wake, rwl)
      else if st_lock \<noteq> 0 then (st_lock, No_wake, rwl)
      else
        let rwl = rwl\<lparr>w_active := 0\<rparr> in
        if r_wait rwl > 0 then (if st_signal \<noteq> 0 then st_signal else st_unlock, Broadcast_read, rwl)
        else if w_wait rwl > 0 then (if st_signal \<noteq> 0 then st_signal else st_unlock, Signal_write, rwl)
        else (st_unlock, No_wake, rwl))"

section \<open>Threads\<close>

text \<open>
  A thread that does not use the lock, that is blocked in a wait, that has been woken but does not have the mutex yet, or that holds
  the lock. The threads of the program are a multiset of these states: who they are does not matter.
\<close>

datatype thread = Idle | Read_wait | Read_woken | Reading | Write_wait | Write_woken | Writing

definition after_read :: "outcome \<Rightarrow> thread" where
  "after_read r = (case r of Done s \<Rightarrow> if s = 0 then Reading else Idle | Wait \<Rightarrow> Read_wait)"

definition after_write :: "outcome \<Rightarrow> thread" where
  "after_write r = (case r of Done s \<Rightarrow> if s = 0 then Writing else Idle | Wait \<Rightarrow> Write_wait)"

text \<open>A signal wakes one of the blocked writers, whichever the system chooses, if there is one; a broadcast wakes all blocked readers.\<close>

inductive wakes :: "wake \<Rightarrow> thread multiset \<Rightarrow> thread multiset \<Rightarrow> bool" where
  wakes_none: "wakes No_wake M M"
| wakes_writer: "wakes Signal_write (add_mset Write_wait M) (add_mset Write_woken M)"
| wakes_nobody: "Write_wait \<notin># M \<Longrightarrow> wakes Signal_write M M"
| wakes_readers: "wakes Broadcast_read M (filter_mset (\<lambda>t. t \<noteq> Read_wait) M + replicate_mset (count M Read_wait) Read_woken)"

text \<open>
  The steps, with thread library calls that succeed. A blocked thread may wake without reason, and it may be cancelled.
\<close>

inductive rstep :: "rwlock \<times> thread multiset \<Rightarrow> rwlock \<times> thread multiset \<Rightarrow> bool" where
  new_thread: "rstep (l, M) (l, add_mset Idle M)"
| rdlock: "rwl_rdlock 0 l = (r, l') \<Longrightarrow> rstep (l, add_mset Idle M) (l', add_mset (after_read r) M)"
| rdwake: "rdlock_woken 0 l = (r, l') \<Longrightarrow> rstep (l, add_mset Read_woken M) (l', add_mset (after_read r) M)"
| tryrdlock: "rwl_tryrdlock 0 0 l = (s, l') \<Longrightarrow> rstep (l, add_mset Idle M) (l', add_mset (after_read (Done s)) M)"
| rdunlock: "rwl_rdunlock 0 0 0 l = (s, w, l') \<Longrightarrow> wakes w M M' \<Longrightarrow> rstep (l, add_mset Reading M) (l', add_mset Idle M')"
| wrlock: "rwl_wrlock 0 l = (r, l') \<Longrightarrow> rstep (l, add_mset Idle M) (l', add_mset (after_write r) M)"
| wrwake: "wrlock_woken 0 l = (r, l') \<Longrightarrow> rstep (l, add_mset Write_woken M) (l', add_mset (after_write r) M)"
| trywrlock: "rwl_trywrlock 0 0 l = (s, l') \<Longrightarrow> rstep (l, add_mset Idle M) (l', add_mset (after_write (Done s)) M)"
| wrunlock: "rwl_wrunlock 0 0 0 l = (s, w, l') \<Longrightarrow> wakes w M M' \<Longrightarrow> rstep (l, add_mset Writing M) (l', add_mset Idle M')"
| read_spurious: "rstep (l, add_mset Read_wait M) (l, add_mset Read_woken M)"
| write_spurious: "rstep (l, add_mset Write_wait M) (l, add_mset Write_woken M)"
| read_cancel: "rstep (l, add_mset Read_wait M) (rwl_readcleanup l, M)"
| write_cancel: "rstep (l, add_mset Write_wait M) (rwl_writecleanup l, M)"

inductive reached :: "rwlock \<Rightarrow> thread multiset \<Rightarrow> bool" where
  reached_init: "reached RWL_INITIALIZER {#}"
| reached_step: "reached l M \<Longrightarrow> rstep (l, M) (l', M') \<Longrightarrow> reached l' M'"

section \<open>The invariant\<close>

text \<open>
  The counters count the threads; a writer is alone; readers are blocked only while a writer is active; and when the lock is free
  while writers are blocked, a woken thread is on its way.
\<close>

definition lock_inv :: "rwlock \<Rightarrow> thread multiset \<Rightarrow> bool" where
  "lock_inv l M \<longleftrightarrow> valid l = RWLOCK_VALID \<and> r_active l = int (count M Reading) \<and> w_active l = int (count M Writing)
     \<and> r_wait l = int (count M Read_wait + count M Read_woken) \<and> w_wait l = int (count M Write_wait + count M Write_woken)
     \<and> count M Writing \<le> 1 \<and> (count M Writing = 0 \<or> count M Reading = 0) \<and> (count M Read_wait > 0 \<longrightarrow> count M Writing = 1)
     \<and> (count M Write_wait > 0 \<longrightarrow> count M Writing > 0 \<or> count M Reading > 0 \<or> count M Read_woken > 0 \<or> count M Write_woken > 0)"

inductive_cases wakes_No: "wakes No_wake M M'"
inductive_cases wakes_Signal: "wakes Signal_write M M'"
inductive_cases wakes_Broadcast: "wakes Broadcast_read M M'"

lemma count_filter: "count (filter_mset P M) x = (if P x then count M x else 0)"
  by simp

lemma lock_inv_step:
  assumes "rstep (l, M) (l', M')" "lock_inv l M"
  shows "lock_inv l' M'"
  using assms(1)
proof (cases rule: rstep.cases)
  case (rdunlock s w N N')
  then show ?thesis using assms(2)
    by (auto simp: lock_inv_def rwl_rdunlock_def not_in_iff simp del: count_greater_zero_iff elim!: wakes_No wakes_Signal split: if_splits)
next
  case (wrunlock s w N N')
  then show ?thesis using assms(2)
    by (auto simp: lock_inv_def rwl_wrunlock_def not_in_iff Let_def simp del: count_greater_zero_iff elim!: wakes_No wakes_Signal wakes_Broadcast split: if_splits)
qed (use assms(2) in \<open>auto simp: lock_inv_def rwl_rdlock_def rdlock_woken_def rwl_tryrdlock_def rwl_wrlock_def wrlock_woken_def
    rwl_trywrlock_def rwl_readcleanup_def rwl_writecleanup_def after_read_def after_write_def EBUSY_def Let_def simp del: count_greater_zero_iff split: if_splits\<close>)

lemma reached_inv: "reached l M \<Longrightarrow> lock_inv l M"
proof (induction rule: reached.induct)
  case reached_init
  then show ?case by (simp add: lock_inv_def RWL_INITIALIZER_def)
next
  case (reached_step l M l' M')
  then show ?case using lock_inv_step by blast
qed

text \<open>
  C33. Exclusion. Whatever the threads do, in any order, with spurious wake-ups, failed attempts and cancelled waits, at most one
  thread holds the lock for writing, and then none holds it for reading; the counters of the lock are the numbers of
  threads that hold it and that wait for it.
\<close>

theorem rwlock_exclusion:
  assumes "reached l M"
  shows "count M Writing \<le> 1 \<and> (Writing \<in># M \<longrightarrow> Reading \<notin># M) \<and> r_active l = int (count M Reading) \<and> w_active l = int (count M Writing)
    \<and> r_wait l = int (count M Read_wait + count M Read_woken) \<and> w_wait l = int (count M Write_wait + count M Write_woken)"
  using reached_inv [OF assms] by (auto simp: lock_inv_def count_greater_zero_iff [symmetric] simp del: count_greater_zero_iff)

text \<open>
  C34. No wake-up is lost. Whenever a thread is blocked in a wait, either a thread holds the lock, or a woken
  thread is on its way that gets the lock as soon as it runs: the program never hangs on a free lock.
\<close>

theorem rwlock_no_lost_wakeup:
  assumes "reached l M" "Read_wait \<in># M \<or> Write_wait \<in># M"
  shows "Reading \<in># M \<or> Writing \<in># M
    \<or> Read_woken \<in># M \<and> (\<exists>l'. rdlock_woken 0 l = (Done 0, l'))
    \<or> Write_woken \<in># M \<and> (\<exists>l'. wrlock_woken 0 l = (Done 0, l'))"
proof (cases "Reading \<in># M \<or> Writing \<in># M")
  case False
  have i: "lock_inv l M" by (rule reached_inv [OF assms(1)])
  with False have "w_active l = 0" "r_active l = 0" by (simp_all add: lock_inv_def not_in_iff)
  then have "fst (rdlock_woken 0 l) = Done 0" "fst (wrlock_woken 0 l) = Done 0"
    by (simp_all add: rdlock_woken_def wrlock_woken_def Let_def)
  moreover have "Read_woken \<in># M \<or> Write_woken \<in># M" using i False assms(2)
    by (auto simp: lock_inv_def count_greater_zero_iff [symmetric] simp del: count_greater_zero_iff)
  ultimately show ?thesis by (metis prod.exhaust_sel)
qed blast

text \<open>A writer holds the lock, a second one is blocked.\<close>

lemma two_writers: "\<exists>l. reached l {#Write_wait, Writing#}"
proof -
  have s1: "reached RWL_INITIALIZER {#Idle#}" using reached_step [OF reached_init new_thread] .
  have "rwl_wrlock 0 RWL_INITIALIZER = (Done 0, RWL_INITIALIZER\<lparr>w_active := 1\<rparr>)" by (simp add: rwl_wrlock_def RWL_INITIALIZER_def)
  from reached_step [OF s1 wrlock [OF this]] have "reached (RWL_INITIALIZER\<lparr>w_active := 1\<rparr>) {#Writing#}" by (simp add: after_write_def)
  then have s2: "reached (RWL_INITIALIZER\<lparr>w_active := 1\<rparr>) {#Idle, Writing#}" using reached_step new_thread by blast
  have "rwl_wrlock 0 (RWL_INITIALIZER\<lparr>w_active := 1\<rparr>) = (Wait, RWL_INITIALIZER\<lparr>w_active := 1, w_wait := 1\<rparr>)"
    by (simp add: rwl_wrlock_def RWL_INITIALIZER_def)
  from reached_step [OF s2 wrlock [OF this]] show ?thesis by (auto simp: after_write_def)
qed

theorem rwlock_exclusion_witness:
  "\<exists>l. reached l {#Write_wait, Writing#} \<and> w_active l = 1 \<and> w_wait l = 1 \<and> r_active l = 0"
proof -
  obtain l where l: "reached l {#Write_wait, Writing#}" using two_writers by blast
  from rwlock_exclusion [OF l] l show ?thesis by auto
qed

text \<open>The first writer has released the lock: the second one has been woken.\<close>

theorem rwlock_no_lost_wakeup_witness:
  "\<exists>l M. reached l M \<and> Write_wait \<in># M \<and> (Reading \<in># M \<or> Writing \<in># M
    \<or> Read_woken \<in># M \<and> (\<exists>l'. rdlock_woken 0 l = (Done 0, l'))
    \<or> Write_woken \<in># M \<and> (\<exists>l'. wrlock_woken 0 l = (Done 0, l')))"
proof -
  obtain l where l: "reached l {#Write_wait, Writing#}" using two_writers by blast
  have "Read_wait \<in># {#Write_wait, Writing#} \<or> Write_wait \<in># {#Write_wait, Writing#}" by simp
  from rwlock_no_lost_wakeup [OF l this] l show ?thesis by (intro exI [of _ l] exI [of _ "{#Write_wait, Writing#}"]) simp
qed

text \<open>
  Destroying hides failures. When the mutex of an unused lock is destroyed, \<^const>\<open>rwl_destroy\<close> reports success although
  a condition variable could not be destroyed and is still there.
\<close>

theorem rwl_destroy_hides_failure:
  assumes "reached l M" "\<forall>t. t \<in># M \<longrightarrow> t = Idle" "read_init l" "st_read \<noteq> 0"
  shows "fst (rwl_destroy 0 0 0 st_read st_write l) = 0 \<and> read_init (snd (rwl_destroy 0 0 0 st_read st_write l))"
proof -
  have "count M t = 0" if "t \<noteq> Idle" for t using assms(2) that by (auto simp: not_in_iff [symmetric])
  then have "r_active l = 0" "w_active l = 0" "r_wait l = 0" "w_wait l = 0" "valid l = RWLOCK_VALID"
    using reached_inv [OF assms(1)] by (simp_all add: lock_inv_def)
  then show ?thesis using assms(3,4) by (simp add: rwl_destroy_def)
qed

theorem rwl_destroy_hides_failure_witness:
  "fst (rwl_destroy 0 0 0 16 0 RWL_INITIALIZER) = 0 \<and> read_init (snd (rwl_destroy 0 0 0 16 0 RWL_INITIALIZER))"
  by (rule rwl_destroy_hides_failure [OF reached_init]) (simp_all add: RWL_INITIALIZER_def)

end
