(* ===== verification/Gui.thy ===== *)
theory Gui
  imports Air
begin

text \<open>
  gui/gui.c: the thread of the map program that reads the sentences of the receiver from a socket, takes them apart and keeps the list
  of ships that is drawn. (What is drawn, and the windows, are calls of GTK and of the map widget.)
\<close>

section \<open>Reading the bits\<close>

text \<open>
  \<^verbatim>\<open>r_buffer[pos + i] << (len - 1 - i)\<close> on a signed \<^verbatim>\<open>char\<close> that is promoted to \<^verbatim>\<open>int\<close>.
\<close>

definition shl_char :: "u8 \<Rightarrow> nat \<Rightarrow> u32 option" where
  "shl_char b n = (if 0 \<le> sint b \<and> n < 32 \<and> sint b * 2 ^ n < 2 ^ 31 then Some (push_bit n (ucast b)) else None)"

function pickone_loop :: "u8 list \<Rightarrow> nat \<Rightarrow> nat \<Rightarrow> nat \<Rightarrow> u32 \<Rightarrow> u32 option" where
  "pickone_loop r_buffer pos len i tmp =
     (if i < len then do {
        b \<leftarrow> arr_get r_buffer (pos + i);
        x \<leftarrow> shl_char b (len - 1 - i);
        pickone_loop r_buffer pos len (Suc i) (tmp OR x)
      } else Some tmp)"
  by pat_completeness auto
termination by (relation "measure (\<lambda>(r_buffer, pos, len, i, tmp). len - i)") auto

declare pickone_loop.simps [simp del]

definition pickone :: "u8 list \<Rightarrow> nat \<Rightarrow> nat \<Rightarrow> u32 option" where
  "pickone r_buffer pos len = pickone_loop r_buffer pos len 0 0"

record shipdata =
  sd_type :: int
  sd_mmsi :: int
  latitude :: cfloat
  longitude :: cfloat
  speed :: cfloat
  sd_course :: cfloat
  heading :: cfloat

definition widen :: "nat \<Rightarrow> u32 \<Rightarrow> u32 \<Rightarrow> int" where
  "widen n sign w = (if bit w n then sint (w OR sign) else sint w)"

definition type1 :: "u8 list \<Rightarrow> shipdata \<Rightarrow> shipdata option" where
  "type1 r_buffer d = do {
     mmsi \<leftarrow> pickone r_buffer 8 30;
     lo \<leftarrow> pickone r_buffer 61 28;
     let lo = widen 27 0xF0000000 lo;
     la \<leftarrow> pickone r_buffer 89 27;
     let la = widen 26 0xf8000000 la;
     crs \<leftarrow> pickone r_buffer 116 12;
     hdng \<leftarrow> pickone r_buffer 128 9;
     sg \<leftarrow> pickone r_buffer 50 10;
     rateofturn \<leftarrow> pickone r_buffer 40 8;
     Some (d\<lparr>sd_type := 1, sd_mmsi := sint mmsi,
       latitude := f64 (f32 (of_int la) / 600000), longitude := f64 (f32 (of_int lo) / 600000),
       speed := f32 (f32 (of_int (uint sg)) / 10), heading := f32 (of_int (uint hdng)),
       sd_course := f32 (f32 (of_int (uint crs)) / 10)\<rparr>)
   }"

text \<open>A base station: the latitude is unsigned, both divisions are single precision, and speed, course and heading stay.\<close>

definition type4 :: "u8 list \<Rightarrow> shipdata \<Rightarrow> shipdata option" where
  "type4 r_buffer d = do {
     mmsi \<leftarrow> pickone r_buffer 8 30;
     lo \<leftarrow> pickone r_buffer 79 28;
     let lo = widen 27 0xF0000000 lo;
     la \<leftarrow> pickone r_buffer 107 27;
     Some (d\<lparr>sd_type := 4, sd_mmsi := sint mmsi,
       latitude := f32 (f32 (of_int (uint la)) / 600000), longitude := f32 (f32 (of_int lo) / 600000)\<rparr>)
   }"

text \<open>
  The name and the destination of message 5 are only printed; the second component of the result is what is printed of them.
\<close>

fun gui_letters :: "u8 list \<Rightarrow> nat \<Rightarrow> nat \<Rightarrow> u8 list option" where
  "gui_letters r_buffer 0 start = Some []"
| "gui_letters r_buffer (Suc n) start = do {
     letter \<leftarrow> pickone r_buffer start 6;
     let c = (ucast letter :: u8) + 64;
     let c = (if c = 64 \<or> c = 96 then 32 else c);
     cs \<leftarrow> gui_letters r_buffer n (start + 6);
     Some (c # cs)
   }"

definition type5 :: "u8 list \<Rightarrow> shipdata \<Rightarrow> (shipdata \<times> u8 list \<times> u8 list) option" where
  "type5 r_buffer d = do {
     mmsi \<leftarrow> pickone r_buffer 8 30;
     nam \<leftarrow> gui_letters r_buffer 20 112;
     destination \<leftarrow> gui_letters r_buffer 20 302;
     A \<leftarrow> pickone r_buffer 240 9;
     B \<leftarrow> pickone r_buffer 249 9;
     C \<leftarrow> pickone r_buffer 258 6;
     D \<leftarrow> pickone r_buffer 264 6;
     draught \<leftarrow> pickone r_buffer 294 8;
     Some (d\<lparr>sd_type := 5, sd_mmsi := sint mmsi\<rparr>, nam, destination)
   }"

text \<open>
  The characters of the payload as bits. The array they are written to is static: what an earlier message left behind the end stays.
  A \<^verbatim>\<open>char\<close> is signed; of a shift by at most five places only the lowest bit is used, so the sign does not matter there.
\<close>

function ais_bits :: "u8 list \<Rightarrow> nat \<Rightarrow> u8 list \<Rightarrow> (nat \<times> u8 list) option" where
  "ais_bits str i r_buffer = do {
     s \<leftarrow> cstr_of str;
     if i < length s * 6 then do {
       c \<leftarrow> arr_get str (i div 6);
       if c = 44 then Some (i, r_buffer)
       else do {
         let bokstav = (if sint c \<le> 87 then c - 48 else c - 56);
         r_buffer \<leftarrow> arr_set r_buffer i (drop_bit (5 - i mod 6) bokstav AND 1);
         ais_bits str (i + 1) r_buffer
       }
     } else Some (i, r_buffer)
   }"
  by pat_completeness auto
termination
  by (relation "measure (\<lambda>(str, i, r_buffer). length (c_str str) * 6 - i)") (auto simp: cstr_of_def split: if_splits)

declare ais_bits.simps [simp del]

definition aisdecode :: "u8 list \<Rightarrow> u8 list \<Rightarrow> shipdata \<Rightarrow> (u8 list \<times> shipdata) option" where
  "aisdecode str r_buffer d = do {
     (lengde, r_buffer) \<leftarrow> ais_bits str 0 r_buffer;
     ty \<leftarrow> pickone r_buffer 0 6;
     d \<leftarrow> (if ty = 1 \<or> ty = 2 \<or> ty = 3 then type1 r_buffer d
       else if ty = 4 then type4 r_buffer d
       else if ty = 5 then map_option fst (type5 r_buffer d)
       else Some d);
     Some (r_buffer, d)
   }"

section \<open>The list of ships\<close>

record ship =
  s_mmsi :: int
  s_longitude :: cfloat
  s_latitude :: cfloat
  s_heading :: cfloat
  s_course :: cfloat
  s_type :: int

definition MAXSHIPS :: nat where
  "MAXSHIPS = 1000"

fun update_known :: "ship \<Rightarrow> ship list \<Rightarrow> ship list option" where
  "update_known s [] = None"
| "update_known s (x # xs) = (if s_mmsi x = s_mmsi s then Some (s # xs) else map_option ((#) x) (update_known s xs))"

definition updateship :: "int \<Rightarrow> cfloat \<Rightarrow> cfloat \<Rightarrow> cfloat \<Rightarrow> cfloat \<Rightarrow> int \<Rightarrow> ship list \<Rightarrow> ship list" where
  "updateship mmsi lo la hdng crs ty ships =
     (let s = \<lparr>s_mmsi = mmsi, s_longitude = lo, s_latitude = la, s_heading = hdng, s_course = crs, s_type = ty\<rparr>
      in case update_known s ships of
           Some ships \<Rightarrow> ships
         | None \<Rightarrow> if length ships < MAXSHIPS then ships @ [s] else ships)"

section \<open>Sentences from the socket\<close>

record gui_state =
  nmeabuffer :: "u8 list"
  lettersread :: nat
  previoussentence :: int
  aisline :: "u8 list"
  gui_bits :: "u8 list"
  shipd :: shipdata
  ships :: "ship list"

text \<open>
  The search for the exclamation mark; the result is the index behind it, or behind the last character.
\<close>

function find_mark :: "u8 list \<Rightarrow> nat \<Rightarrow> nat \<Rightarrow> nat option" where
  "find_mark buf r m = do {
     c \<leftarrow> arr_get buf m;
     let m = m + 1;
     if c \<noteq> 33 then if m > r - 1 then Some m else find_mark buf r m
     else Some m
   }"
  by pat_completeness auto
termination by (relation "measure (\<lambda>(buf, r, m). length buf - m)") (auto simp: arr_get_def split: if_splits)

declare find_mark.simps [simp del]

text \<open>The place of the fifth comma within twenty characters.\<close>

function find_kommas :: "u8 list \<Rightarrow> nat \<Rightarrow> nat \<Rightarrow> nat \<Rightarrow> nat option" where
  "find_kommas buf m k kommas =
     (if k < 20 then do {
        c \<leftarrow> arr_get buf (k + m);
        let kommas = (if c = 44 then kommas + 1 else kommas);
        if kommas = 5 then Some k else find_kommas buf m (k + 1) kommas
      } else Some k)"
  by pat_completeness auto
termination by (relation "measure (\<lambda>(buf, m, k, kommas). 20 - k)") auto

declare find_kommas.simps [simp del]

function copy_letters :: "u8 list \<Rightarrow> nat \<Rightarrow> nat \<Rightarrow> nat \<Rightarrow> nat \<Rightarrow> u8 list \<Rightarrow> (nat \<times> u8 list) option" where
  "copy_letters buf from n j cnt line =
     (if j < n then do {
        c \<leftarrow> arr_get buf (from + j);
        if c = 44 then Some (cnt, line)
        else do {
          line \<leftarrow> arr_set line cnt c;
          copy_letters buf from n (j + 1) (cnt + 1) line
        }
      } else Some (cnt, line))"
  by pat_completeness auto
termination by (relation "measure (\<lambda>(buf, from, n, j, cnt, line). n - j)") auto

declare copy_letters.simps [simp del]

definition gui_sentence :: "nat \<Rightarrow> nat \<Rightarrow> gui_state \<Rightarrow> gui_state option" where
  "gui_sentence r m g = do {
     c1 \<leftarrow> arr_get (nmeabuffer g) (m + 1);
     if c1 \<noteq> 65 then Some g
     else do {
       c5 \<leftarrow> arr_get (nmeabuffer g) (m + 5);
       if c5 \<noteq> 77 then Some g
       else do {
         k \<leftarrow> find_kommas (nmeabuffer g) m 0 0;
         let start = k + 1;
         c7 \<leftarrow> arr_get (nmeabuffer g) (m + 7);
         c9 \<leftarrow> arr_get (nmeabuffer g) (m + 9);
         let sentences = sint c7 - 0x30;
         let sentencenumb = sint c9 - 0x30;
         if sentencenumb > 1 \<and> previoussentence g \<noteq> sentencenumb - 1 then Some g
         else do {
           let cnt = (if sentencenumb = 1 then 0 else lettersread g);
           (cnt, line) \<leftarrow> copy_letters (nmeabuffer g) (m + start) (r - start - m) 0 cnt (aisline g);
           let g = g\<lparr>lettersread := cnt, aisline := line\<rparr>;
           g \<leftarrow> (if sentencenumb \<ge> sentences then do {
               line \<leftarrow> arr_set line cnt 0;
               (b, d) \<leftarrow> aisdecode line (gui_bits g) (shipd g);
               Some (g\<lparr>aisline := line, gui_bits := b, shipd := d\<rparr>)
             } else Some g);
           let g = g\<lparr>previoussentence := sentencenumb\<rparr>;
           let d = shipd g;
           if sd_type d \<notin> {1, 2, 3, 4} then Some g
           else Some (g\<lparr>ships := updateship (sd_mmsi d) (longitude d) (latitude d) (heading d) (sd_course d) (sd_type d) (ships g)\<rparr>)
         }
       }
     }
   }"

text \<open>One round of the loop of \<^verbatim>\<open>threaden\<close>: what \<^verbatim>\<open>read\<close> delivered, or nothing when it failed.\<close>

definition gui_read :: "u8 list option \<Rightarrow> gui_state \<Rightarrow> gui_state option" where
  "gui_read input g = (case input of
      None \<Rightarrow> do { buf \<leftarrow> arr_set (nmeabuffer g) 0 0; Some (g\<lparr>nmeabuffer := buf\<rparr>) }
    | Some bytes \<Rightarrow> do {
        let r = length bytes;
        buf \<leftarrow> set_many (nmeabuffer g) 0 bytes;
        buf \<leftarrow> arr_set buf r 0;
        let g = g\<lparr>nmeabuffer := buf\<rparr>;
        if r > 0 then do {
          m \<leftarrow> find_mark buf r 0;
          if m > r - 1 then Some g else gui_sentence r (m - 1) g
        } else Some g
      })"

fun threaden :: "u8 list option list \<Rightarrow> gui_state \<Rightarrow> gui_state option" where
  "threaden [] g = Some g"
| "threaden (x # xs) g = (if x = Some [] then Some g else do { g \<leftarrow> gui_read x g; threaden xs g })"

text \<open>The variables at the start of the thread; the arrays on the stack and \<open>shipd\<close> are not initialised.\<close>

definition gui_start :: "u8 list \<Rightarrow> u8 list \<Rightarrow> shipdata \<Rightarrow> gui_state" where
  "gui_start buf line d = \<lparr>nmeabuffer = buf, lettersread = 0, previoussentence = 0, aisline = line,
     gui_bits = replicate 600 0, shipd = d, ships = []\<rparr>"

section \<open>The bits of a message\<close>

lemma shl_char_bit: "b = 0 \<or> b = 1 \<Longrightarrow> n \<le> 30 \<Longrightarrow> shl_char b n = Some (push_bit n (ucast b))"
  using power_strict_increasing [of n 31 "2 :: int"] by (auto simp: shl_char_def)

text \<open>The map program reads a field as the decoder does, in half as many bits.\<close>

lemma pickone_loop_henten:
  assumes "bits01 rb" "from + sz \<le> length rb" "sz \<le> 31"
  shows "pickone_loop rb from sz i (ucast tmp) = map_option ucast (henten_loop from sz rb i tmp)"
proof (induction "sz - i" arbitrary: i tmp)
  case 0
  then show ?case by (subst pickone_loop.simps, subst henten_loop.simps) simp
next
  case (Suc k)
  then have i: "i < sz" by simp
  let ?b = "rb ! (from + i)"
  have b: "?b = 0 \<or> ?b = 1" using assms i by (intro bits01_nth) simp_all
  have "ucast (tmp OR push_bit (sz - 1 - i) (ucast ?b)) = (ucast tmp OR push_bit (sz - 1 - i) (ucast ?b) :: u32)"
    using b by (intro bit_word_eqI) (auto simp: bit_or_iff bit_ucast_iff bit_push_bit_iff)
  moreover have "pickone_loop rb from sz (Suc i) (ucast (tmp OR push_bit (sz - 1 - i) (ucast ?b)))
      = map_option ucast (henten_loop from sz rb (Suc i) (tmp OR push_bit (sz - 1 - i) (ucast ?b)))"
    using Suc by simp
  ultimately show ?case using i assms b
    by (subst pickone_loop.simps, subst henten_loop.simps) (simp add: shl_int_bit shl_char_bit)
qed

lemma pickone_field:
  assumes "bits01 rb" "from + sz \<le> length rb" "sz \<le> 31"
  shows "pickone rb from sz = Some (ucast (field from sz rb))"
  using pickone_loop_henten [OF assms, of 0 0] henten_field [OF assms]
  by (simp add: pickone_def protodec_henten_def)

lemma widen_eq: "widen n msk (ucast w) = sign_extend n msk (uint (w :: u64))"
  by (simp add: widen_def sign_extend_def Let_def)

text \<open>Undoing the armour of a character.\<close>

lemma unarmour:
  assumes "unat v < 64"
  shows "(if sint (armour v) \<le> 87 then armour v - 48 else armour v - 56) = ucast v"
proof -
  have u: "unat (ucast v :: u8) = unat v"
    using assms by (simp add: unsigned_ucast_eq take_bit_nat_eq_self_iff)
  note a = armour_range [OF assms]
  have s: "sint (armour v) = int (unat (armour v))"
  proof -
    have "unat (armour v) < 128" using a assms by (simp split: if_splits)
    then have "int (unat (armour v)) < 128" by linarith
    then have "uint (armour v) < 128" by simp
    then have "signed_take_bit 7 (uint (armour v)) = uint (armour v)"
      by (intro signed_take_bit_int_eq_self) (simp_all add: order_trans [OF _ uint_ge_0])
    then show ?thesis by (simp add: sint_uint)
  qed
  have le: "sint (armour v) \<le> 87 \<longleftrightarrow> unat v < 40"
  proof -
    have "sint (armour v) \<le> 87 \<longleftrightarrow> unat (armour v) \<le> 87" unfolding s by (metis of_nat_le_iff of_nat_numeral)
    then show ?thesis using a assms by auto
  qed
  show ?thesis
  proof (cases "unat v < 40")
    case True
    then have "48 \<le> armour v" using a by (simp add: word_le_nat_alt)
    then have "unat (armour v - 48) = unat v" using a True by (simp add: unat_sub)
    then show ?thesis using True le u by (simp add: word_unat_eq_iff)
  next
    case False
    then have "56 \<le> armour v" using a by (simp add: word_le_nat_alt)
    then have "unat (armour v - 56) = unat v" using a False by (simp add: unat_sub)
    then show ?thesis using False le u by (simp add: word_unat_eq_iff)
  qed
qed

lemma payload_bit:
  assumes "bits01 rb" "6 * n \<le> length rb" "i < 6 * n" "c = payload rb 0 n ! (i div 6)"
  shows "drop_bit (5 - i mod 6) (if sint c \<le> 87 then c - 48 else c - 56) AND 1 = rb ! i"
proof -
  let ?v = "field (6 * (i div 6)) 6 rb"
  have d: "i div 6 < n" using assms(3) by (simp add: less_mult_imp_div_less)
  then have l: "6 * (i div 6) + 6 \<le> length rb" using assms(2) by linarith
  have c: "c = armour ?v" using assms(4) d by (simp add: payload_def)
  have "6 * (i div 6) + i mod 6 = i" "5 - i mod 6 < 6" by (simp, linarith)
  then have "bit ?v (5 - i mod 6) \<longleftrightarrow> rb ! i = 1" using l by (simp add: bit_field)
  moreover have "drop_bit (5 - i mod 6) (ucast ?v :: u8) AND 1 = of_bool (bit ?v (5 - i mod 6))"
    by (auto simp: and_one_eq mod_2_eq_odd even_drop_bit_iff_not_bit bit_ucast_iff)
  moreover have "unat ?v < 64" using field_bound [of "6 * (i div 6)" 6 rb] l by simp
  moreover have "rb ! i = 0 \<or> rb ! i = 1" using assms by (intro bits01_nth) simp_all
  ultimately show ?thesis unfolding c using unarmour by auto
qed

lemma cstr_of_payload: "6 * n \<le> length rb \<Longrightarrow> cstr_of (payload rb 0 n @ 0 # rest) = Some (payload rb 0 n)"
proof -
  assume "6 * n \<le> length rb"
  then have "0 \<notin> set (payload rb 0 n)" using payload_nonzero [of 0 n rb] by simp
  then have "takeWhile (\<lambda>c. c \<noteq> 0) (payload rb 0 n @ 0 # rest) = payload rb 0 n"
    by (subst takeWhile_append2) auto
  then show ?thesis by (simp add: cstr_of_def c_str_def)
qed

lemma ais_bits_payload:
  assumes "bits01 rb" "6 * n \<le> length rb" "6 * n \<le> length r" "i \<le> 6 * n" "take i r = take i rb"
    and "str = payload rb 0 n @ 0 # rest"
  shows "ais_bits str i r = Some (6 * n, take (6 * n) rb @ drop (6 * n) r)"
  using assms
proof (induction "6 * n - i" arbitrary: i r)
  case 0
  have c: "cstr_of str = Some (payload rb 0 n)"
    unfolding assms(6) by (rule cstr_of_payload [OF assms(2)])
  have "i = 6 * n" using 0 by simp
  moreover have "take (6 * n) rb @ drop (6 * n) r = r"
    using 0 calculation append_take_drop_id [of "6 * n" r] by simp
  ultimately show ?case using c by (subst ais_bits.simps) simp
next
  case (Suc k)
  have c: "cstr_of str = Some (payload rb 0 n)"
    unfolding assms(6) by (rule cstr_of_payload [OF assms(2)])
  have i: "i < 6 * n" using Suc.hyps(2) by simp
  then have d: "i div 6 < n" by (simp add: less_mult_imp_div_less)
  let ?c = "payload rb 0 n ! (i div 6)"
  have g: "arr_get str (i div 6) = Some ?c" using d assms(6) by (simp add: nth_append)
  have ne: "?c \<noteq> 44" using payload_no_comma [of 0 n rb] assms(2) d by (metis add_0 nth_mem payload_length)
  have t: "take (i + 1) (r[i := rb ! i]) = take (i + 1) rb"
    using Suc.prems(2,3,5) i by (simp add: take_Suc_conv_app_nth)
  have "ais_bits str (i + 1) (r[i := rb ! i]) = Some (6 * n, take (6 * n) rb @ drop (6 * n) (r[i := rb ! i]))"
    using Suc.hyps(2) Suc.prems i t by (intro Suc.hyps(1)) auto
  then show ?case using c i g ne payload_bit [OF assms(1,2) i refl] Suc.prems(3)
    by (subst ais_bits.simps) (simp add: mult.commute)
qed

section \<open>Position reports on the map\<close>

definition map_entry :: "pos_report \<Rightarrow> shipdata \<Rightarrow> shipdata" where
  "map_entry r d = d\<lparr>sd_type := 1, sd_mmsi := int (pr_mmsi r),
     latitude := deg600000 (pr_lat r), longitude := deg600000 (pr_lon r),
     speed := f32 (f32 (of_nat (pr_sog r)) / 10), heading := f32 (of_nat (pr_heading r)),
     sd_course := f32 (f32 (of_nat (pr_cog r)) / 10)\<rparr>"

lemma small_field:
  assumes "uint (w :: u64) = int n" "n < 2 ^ 31"
  shows "sint (ucast w :: u32) = int n" "unsigned (ucast w :: u32) = (of_nat n :: rat)"
proof -
  have w: "w = of_nat n" using assms(1) by (metis of_int_of_nat_eq word_of_int_uint)
  have u: "ucast w = (of_nat n :: u32)" unfolding w by (rule bit_word_eqI) (simp add: bit_ucast_iff bit_of_nat_iff)
  have "signed_take_bit 31 (int n) = int n" using assms(2) by (intro signed_take_bit_int_eq_self) simp_all
  then show "sint (ucast w :: u32) = int n" unfolding u by (simp add: signed_of_nat)
  have "take_bit 32 n = n" using assms(2) by (intro take_bit_nat_eq_self) simp
  then show "unsigned (ucast w :: u32) = (of_nat n :: rat)" unfolding u by (simp add: unsigned_of_nat)
qed

lemma type1_report:
  assumes r: "pos_report_ok r" and b: "bits01 post"
  shows "type1 (enc_fields (pos_fields r) @ post) d = Some (map_entry r d)"
proof -
  let ?rb = "enc_fields (pos_fields r) @ post"
  have rb: "bits01 ?rb" "168 \<le> length ?rb" using b by (simp_all add: pos_fields_def)
  have p: "pickone ?rb from sz = Some (ucast (field from sz ?rb))" if "from + sz \<le> 168" "sz \<le> 31" for "from" sz
    using that rb(2) by (intro pickone_field [OF rb(1)]) linarith+
  have u: "uint (field 8 30 ?rb) = int (pr_mmsi r)" "uint (field 116 12 ?rb) = int (pr_cog r)"
      "uint (field 128 9 ?rb) = int (pr_heading r)" "uint (field 50 10 ?rb) = int (pr_sog r)"
    using r by (intro uint_field_enc; auto simp: pos_fields_def pos_report_ok_def)+
  have lo: "sign_extend 27 0xF0000000 (uint (field 61 28 ?rb)) = pr_lon r"
  proof -
    have "get_longitude 61 ?rb = Some (sfield 61 28 ?rb)" using rb by (intro get_position_eq) auto
    moreover have "get_longitude 61 ?rb = Some (sign_extend 27 0xF0000000 (uint (field 61 28 ?rb)))"
      using rb by (simp add: get_longitude_def int_field_def henten_field)
    moreover have "sfield 61 28 ?rb = pr_lon r"
      using r by (intro sfield_enc; auto simp: pos_fields_def pos_report_ok_def)
    ultimately show ?thesis by simp
  qed
  have la: "sign_extend 26 0xf8000000 (uint (field 89 27 ?rb)) = pr_lat r"
  proof -
    have "get_latitude 89 ?rb = Some (sfield 89 27 ?rb)" using rb by (intro get_position_eq) auto
    moreover have "get_latitude 89 ?rb = Some (sign_extend 26 0xf8000000 (uint (field 89 27 ?rb)))"
      using rb by (simp add: get_latitude_def int_field_def henten_field)
    moreover have "sfield 89 27 ?rb = pr_lat r"
      using r by (intro sfield_enc; auto simp: pos_fields_def pos_report_ok_def)
    ultimately show ?thesis by simp
  qed
  have w: "pr_mmsi r < 2 ^ 31" "pr_cog r < 2 ^ 31" "pr_heading r < 2 ^ 31" "pr_sog r < 2 ^ 31"
    using r by (simp_all add: pos_report_ok_def)
  show ?thesis
    unfolding type1_def
    by (simp add: p widen_eq Let_def map_entry_def deg600000_def lo la small_field [OF u(1) w(1)] small_field [OF u(2) w(2)]
        small_field [OF u(3) w(3)] small_field [OF u(4) w(4)])
qed

definition ship_at :: "ship list \<Rightarrow> int \<rightharpoonup> ship" where
  "ship_at xs = map_of (map (\<lambda>s. (s_mmsi s, s)) xs)"

definition gui_ok :: "gui_state \<Rightarrow> bool" where
  "gui_ok g \<longleftrightarrow> length (nmeabuffer g) = 256 \<and> length (aisline g) = 500 \<and> length (gui_bits g) = 600 \<and> bits01 (gui_bits g)
     \<and> distinct (map s_mmsi (ships g)) \<and> length (ships g) \<le> MAXSHIPS"

lemma update_known_ok:
  "case update_known s xs of
      None \<Rightarrow> ship_at xs (s_mmsi s) = None
    | Some ys \<Rightarrow> map s_mmsi ys = map s_mmsi xs \<and> ship_at ys = (ship_at xs)(s_mmsi s \<mapsto> s)"
  by (induction xs) (auto simp: ship_at_def fun_eq_iff split: option.splits)

lemma ship_at_snoc: "ship_at xs (s_mmsi s) = None \<Longrightarrow> ship_at (xs @ [s]) = (ship_at xs)(s_mmsi s \<mapsto> s)"
  by (auto simp: ship_at_def fun_eq_iff map_add_def split: option.splits)

lemma ship_at_none: "ship_at xs m = None \<longleftrightarrow> m \<notin> s_mmsi ` set xs"
  by (auto simp: ship_at_def map_of_eq_None_iff image_image)

text \<open>The list is a map from the MMSI to the ship, and never longer than it may be.\<close>

lemma updateship_ok:
  assumes "distinct (map s_mmsi xs)" "length xs \<le> MAXSHIPS"
  shows "distinct (map s_mmsi (updateship m lo la h c ty xs)) \<and> length (updateship m lo la h c ty xs) \<le> MAXSHIPS
    \<and> ship_at (updateship m lo la h c ty xs) = (if ship_at xs m = None \<and> length xs = MAXSHIPS then ship_at xs
        else (ship_at xs)(m \<mapsto> \<lparr>s_mmsi = m, s_longitude = lo, s_latitude = la, s_heading = h, s_course = c, s_type = ty\<rparr>))"
proof -
  let ?s = "\<lparr>s_mmsi = m, s_longitude = lo, s_latitude = la, s_heading = h, s_course = c, s_type = ty\<rparr>"
  show ?thesis
  proof (cases "update_known ?s xs")
    case None
    then have n: "ship_at xs m = None" using update_known_ok [where s = ?s and xs = xs] by simp
    then show ?thesis using None assms ship_at_snoc [of xs ?s] by (auto simp: updateship_def Let_def ship_at_none)
  next
    case (Some ys)
    then have y: "map s_mmsi ys = map s_mmsi xs" "ship_at ys = (ship_at xs)(m \<mapsto> ?s)" using update_known_ok [where s = ?s and xs = xs] by simp_all
    have "ship_at ys m \<noteq> None" using y(2) by simp
    then have "ship_at xs m \<noteq> None" using arg_cong [OF y(1), of set] by (simp add: ship_at_none)
    moreover have "length ys = length xs" using arg_cong [OF y(1), of length] by simp
    ultimately show ?thesis using Some assms y by (auto simp: updateship_def Let_def)
  qed
qed

text \<open>A sentence with a whole message, as the receiver writes it to the socket.\<close>

definition single :: "u8 list \<Rightarrow> nat \<Rightarrow> u8 list" where
  "single rb n = 33 # aivdm 1 1 0 (payload rb 0 n) 0"

lemma single_eq:
  "single rb n = [33, 65, 73, 86, 68, 77, 44, 49, 44, 49, 44, 44, 65, 44] @ payload rb 0 n @ [44, 48, 42]
     @ hex2 (xor_sum (aivdm_body 1 1 [44, 65, 44] (payload rb 0 n) 48))"
  by (simp add: single_def aivdm_def nmea_mid_def nmea_fillchar_def with_checksum_def aivdm_body_def)

lemma aivdm_single: "33 # aivdm_part seq rb n 0 0 = single rb n" if "n \<le> 61"
  using that by (simp add: aivdm_part_def part_count_def single_def aivdm_def nmea_mid_def nmea_fillchar_def min_def)

lemma copy_letters_ok:
  assumes "44 \<notin> set pl" "buf = pre @ pl @ 44 # post" "length pre = from" "length pl < n" "length line = 500" "cnt + length pl \<le> 500"
  shows "copy_letters buf from n 0 cnt line = Some (cnt + length pl, take cnt line @ pl @ drop (cnt + length pl) line)"
proof -
  have "copy_letters buf from n j (cnt + j) (take cnt line @ take j pl @ drop (cnt + j) line)
      = Some (cnt + length pl, take cnt line @ pl @ drop (cnt + length pl) line)" if "j \<le> length pl" for j
    using that
  proof (induction "length pl - j" arbitrary: j)
    case 0
    then have "j = length pl" by simp
    then show ?case using assms by (subst copy_letters.simps) (simp add: nth_append)
  next
    case (Suc k)
    then have j: "j < length pl" by simp
    let ?line = "take cnt line @ take j pl @ drop (cnt + j) line"
    have c: "buf ! (from + j) = pl ! j" "from + j < length buf" using assms(2,3) j by (auto simp: nth_append)
    have ne: "pl ! j \<noteq> 44" using assms(1) j nth_mem by metis
    have "drop (cnt + j) line = line ! (cnt + j) # drop (cnt + Suc j) line"
      using assms(5,6) j by (simp add: Cons_nth_drop_Suc)
    then have u: "?line[cnt + j := pl ! j] = take cnt line @ take (Suc j) pl @ drop (cnt + Suc j) line"
      using assms(5,6) j by (simp add: list_update_append take_Suc_conv_app_nth)
    have "cnt + j < length ?line" using assms(5,6) j by simp
    moreover have "copy_letters buf from n (Suc j) (cnt + Suc j) (take cnt line @ take (Suc j) pl @ drop (cnt + Suc j) line)
        = Some (cnt + length pl, take cnt line @ pl @ drop (cnt + length pl) line)"
      using Suc by (intro Suc.hyps(1)) simp_all
    ultimately show ?case using j c ne assms(4) u
      by (subst copy_letters.simps) (simp del: append_assoc)
  qed
  from this [of 0] show ?thesis by simp
qed

lemma arr_set_end:
  assumes "length xs = n" "n < length ys"
  shows "arr_set (xs @ drop n ys) n v = Some (xs @ v # drop (n + 1) ys)"
proof -
  have "drop n ys = ys ! n # drop (n + 1) ys" using Cons_nth_drop_Suc [OF assms(2)] by simp
  then show ?thesis using assms(1) by (simp add: list_update_append)
qed

lemma find_kommas_single:
  assumes "buf = [33, 65, 73, 86, 68, 77, 44, 49, 44, 49, 44, 44, 65, 44] @ post"
  shows "find_kommas buf 0 0 0 = Some 13"
  using assms by (simp add: find_kommas.simps arr_get_def)

text \<open>What a sentence that holds a whole message does: its payload is decoded and the ship put on the list.\<close>

definition show_payload :: "u8 list \<Rightarrow> nat \<Rightarrow> gui_state \<Rightarrow> gui_state option" where
  "show_payload rb n g = do {
     (b, d) \<leftarrow> aisdecode (payload rb 0 n @ 0 # drop (n + 1) (aisline g)) (gui_bits g) (shipd g);
     let g = g\<lparr>lettersread := n, aisline := payload rb 0 n @ 0 # drop (n + 1) (aisline g), gui_bits := b, shipd := d, previoussentence := 1\<rparr>;
     if sd_type d \<notin> {1, 2, 3, 4} then Some g
     else Some (g\<lparr>ships := updateship (sd_mmsi d) (longitude d) (latitude d) (heading d) (sd_course d) (sd_type d) (ships g)\<rparr>)
   }"

text \<open>Whatever follows the sentence in the buffer does not matter.\<close>

lemma gui_sentence_single:
  assumes n: "n \<le> 61" "6 * n \<le> length rb" and g: "length (aisline g) = 500"
    and buf: "nmeabuffer g = single rb n @ rest" and r: "length (single rb n) \<le> r"
  shows "gui_sentence r 0 g = show_payload rb n g"
proof -
  let ?pl = "payload rb 0 n" and ?h = "[33, 65, 73, 86, 68, 77, 44, 49, 44, 49, 44, 44, 65, 44] :: u8 list"
  obtain tl where s: "single rb n = ?h @ ?pl @ 44 # 48 # 42 # tl" "length tl = 2"
    by (simp add: single_eq hex2_def)
  have l: "n + 19 \<le> r" using s r by simp
  let ?buf = "nmeabuffer g"
  have b: "?buf = ?h @ ?pl @ 44 # 48 # 42 # tl @ rest" using buf s(1) by simp
  have k: "find_kommas ?buf 0 0 0 = Some 13" using b by (intro find_kommas_single) simp
  have c: "copy_letters ?buf (13 + 1) (r - (13 + 1)) 0 0 (aisline g) = Some (n, ?pl @ drop n (aisline g))"
    using copy_letters_ok [of ?pl ?buf ?h _ 14 "r - 14" "aisline g" 0] b n l g payload_no_comma [of 0 n rb] by simp
  have a: "arr_set (?pl @ drop n (aisline g)) n 0 = Some (?pl @ 0 # drop (n + 1) (aisline g))"
    using arr_set_end [of ?pl n "aisline g" 0] n(1) g by simp
  have h: "arr_get ?buf 1 = Some 65" "arr_get ?buf 5 = Some 77" "arr_get ?buf 7 = Some 49" "arr_get ?buf 9 = Some 49"
    using b by (simp_all add: arr_get_def)
  have s1: "sint (49 :: u8) - 0x30 = 1" by simp
  show ?thesis unfolding gui_sentence_def show_payload_def
    by (simp only: add_0 diff_zero h k c s1 a Let_def Option.bind.simps prod.case simp_thms if_True if_False order.refl less_irrefl)
      (cases "aisdecode (?pl @ 0 # drop (n + 1) (aisline g)) (gui_bits g) (shipd g)"; simp add: split_beta)
qed

lemma gui_read_single:
  assumes n: "n \<le> 61" "6 * n \<le> length rb" and g: "gui_ok g" and l: "length (single rb n @ rest) \<le> 255"
  shows "\<exists>buf. length buf = 256 \<and> gui_read (Some (single rb n @ rest)) g = show_payload rb n (g\<lparr>nmeabuffer := buf\<rparr>)"
proof -
  let ?s = "single rb n @ rest"
  let ?buf = "?s @ 0 # drop (length ?s + 1) (nmeabuffer g)"
  have lb: "length (nmeabuffer g) = 256" "length (aisline g) = 500" using g by (simp_all add: gui_ok_def)
  have w: "set_many (nmeabuffer g) 0 ?s = Some (?s @ drop (length ?s) (nmeabuffer g))"
    using l lb(1) by (simp add: set_many_eq)
  have z: "arr_set (?s @ drop (length ?s) (nmeabuffer g)) (length ?s) 0 = Some ?buf"
    using l lb(1) by (intro arr_set_end) simp_all
  have f: "find_mark ?buf (length ?s) 0 = Some 1"
    by (subst find_mark.simps) (simp add: single_def)
  let ?g = "g\<lparr>nmeabuffer := ?buf\<rparr>"
  have "gui_sentence (length ?s) 0 ?g = show_payload rb n ?g"
    using lb(2) by (intro gui_sentence_single [OF n, where rest = "rest @ 0 # drop (length ?s + 1) (nmeabuffer g)"]) simp_all
  moreover have "0 < length ?s" "\<not> length ?s - 1 < 1" by (simp_all add: single_eq)
  then have "gui_read (Some ?s) g = gui_sentence (length ?s) 0 ?g"
    by (simp only: gui_read_def option.case w z f Let_def Option.bind.simps if_True if_False) simp
  moreover have "length ?buf = 256" using l lb(1) by simp
  ultimately show ?thesis by (intro exI [of _ ?buf]) simp
qed

text \<open>
  The receiver ends its sentences with nothing, and a socket may deliver two of them in one read: then the second one has no effect
  other than on the raw buffer. A read of 256 bytes writes its NUL behind the buffer.
\<close>

lemma second_sentence_lost:
  assumes "n \<le> 61" "6 * n \<le> length rb" "gui_ok g" "length (single rb n @ rest) \<le> 255"
  shows "map_option (\<lambda>g. g\<lparr>nmeabuffer := []\<rparr>) (gui_read (Some (single rb n @ rest)) g)
    = map_option (\<lambda>g. g\<lparr>nmeabuffer := []\<rparr>) (gui_read (Some (single rb n)) g)"
proof -
  have "map_option (\<lambda>g. g\<lparr>nmeabuffer := []\<rparr>) (show_payload rb n (g\<lparr>nmeabuffer := buf\<rparr>))
      = map_option (\<lambda>g. g\<lparr>nmeabuffer := []\<rparr>) (show_payload rb n (g\<lparr>nmeabuffer := buf'\<rparr>))" for buf buf'
    by (cases "aisdecode (payload rb 0 n @ 0 # drop (n + 1) (aisline g)) (gui_bits g) (shipd g)")
      (simp_all add: show_payload_def Let_def split_beta)
  moreover have "length (single rb n @ []) \<le> 255" using assms(4) by simp
  then obtain buf where "gui_read (Some (single rb n)) g = show_payload rb n (g\<lparr>nmeabuffer := buf\<rparr>)"
    using gui_read_single [OF assms(1-3), of "[]"] by auto
  moreover obtain buf' where "gui_read (Some (single rb n @ rest)) g = show_payload rb n (g\<lparr>nmeabuffer := buf'\<rparr>)"
    using gui_read_single [OF assms] by auto
  ultimately show ?thesis by metis
qed

lemma full_read_overruns: "gui_ok g \<Longrightarrow> length bytes = 256 \<Longrightarrow> gui_read (Some bytes) g = None"
  by (simp add: gui_read_def gui_ok_def set_many_eq Let_def)

lemma gui_position:
  assumes r: "pos_report_ok r" and b: "bits01 post" and g: "gui_ok g"
    and room: "ship_at (ships g) (int (pr_mmsi r)) \<noteq> None \<or> length (ships g) < MAXSHIPS"
  shows "\<exists>g'. gui_read (Some (single (enc_fields (pos_fields r) @ post) 28)) g = Some g' \<and> gui_ok g'
    \<and> ship_at (ships g') = (ship_at (ships g))(int (pr_mmsi r) \<mapsto>
        \<lparr>s_mmsi = int (pr_mmsi r), s_longitude = deg600000 (pr_lon r), s_latitude = deg600000 (pr_lat r),
          s_heading = f32 (of_nat (pr_heading r)), s_course = f32 (f32 (of_nat (pr_cog r)) / 10), s_type = 1\<rparr>)"
proof -
  let ?rb = "enc_fields (pos_fields r) @ post" and ?pl = "payload (enc_fields (pos_fields r) @ post) 0 28"
  have w: "width (pos_fields r) = 168" by (simp add: pos_fields_def)
  have rb: "bits01 ?rb" "6 * 28 \<le> length ?rb" using b w by simp_all
  have gb: "length (gui_bits g) = 600" "bits01 (gui_bits g)" using g by (simp_all add: gui_ok_def)
  let ?gb = "enc_fields (pos_fields r) @ drop 168 (gui_bits g)"
  have "take 168 ?rb = enc_fields (pos_fields r)" using w by simp
  then have bits: "ais_bits (?pl @ 0 # rest) 0 (gui_bits g) = Some (168, ?gb)" for rest
    using ais_bits_payload [OF rb, of "gui_bits g" 0 _ rest] gb(1) by simp
  have tl: "bits01 (drop 168 (gui_bits g))" using gb(2) by (auto simp: bits01_def dest: in_set_dropD)
  have gok: "bits01 ?gb" "length ?gb = 600" using tl gb(1) w by simp_all
  have "pickone ?gb 0 6 = Some (ucast (field 0 6 ?gb))" using gok by (intro pickone_field) simp_all
  moreover have "field 0 6 ?gb = of_nat (pr_type r)"
    using r by (intro field_enc_fields) (auto simp: pos_fields_def pos_report_ok_def)
  moreover have "ucast (of_nat (pr_type r) :: u64) = (of_nat (pr_type r) :: u32)"
    by (rule bit_word_eqI) (simp add: bit_ucast_iff bit_of_nat_iff)
  moreover have "pr_type r = 1 \<or> pr_type r = 2 \<or> pr_type r = 3" using r by (auto simp: pos_report_ok_def)
  ultimately have dec: "aisdecode (?pl @ 0 # rest) (gui_bits g) d = Some (?gb, map_entry r d)" for rest d
    using type1_report [OF r tl, of d] by (auto simp: aisdecode_def bits)
  have "length (single ?rb 28 @ []) \<le> 255" by (simp add: single_eq hex2_def)
  then obtain buf where buf: "length buf = 256" "gui_read (Some (single ?rb 28)) g = show_payload ?rb 28 (g\<lparr>nmeabuffer := buf\<rparr>)"
    using gui_read_single [OF _ rb(2) g, of "[]"] by auto
  define d where "d = map_entry r (shipd g)"
  define xs where "xs = updateship (int (pr_mmsi r)) (deg600000 (pr_lon r)) (deg600000 (pr_lat r)) (f32 (of_nat (pr_heading r)))
      (f32 (f32 (of_nat (pr_cog r)) / 10)) 1 (ships g)"
  let ?g = "g\<lparr>nmeabuffer := buf, lettersread := 28, aisline := ?pl @ 0 # drop (28 + 1) (aisline g), gui_bits := ?gb, shipd := d,
      previoussentence := 1, ships := xs\<rparr>"
  have d: "sd_type d = 1" "sd_mmsi d = int (pr_mmsi r)" "longitude d = deg600000 (pr_lon r)" "latitude d = deg600000 (pr_lat r)"
      "heading d = f32 (of_nat (pr_heading r))" "sd_course d = f32 (f32 (of_nat (pr_cog r)) / 10)"
    by (simp_all add: d_def map_entry_def)
  have run: "gui_read (Some (single ?rb 28)) g = Some ?g"
    unfolding buf(2) show_payload_def xs_def using d by (simp add: dec [simplified] d_def [symmetric] Let_def)
  have sh: "distinct (map s_mmsi (ships g))" "length (ships g) \<le> MAXSHIPS" using g by (simp_all add: gui_ok_def)
  note u = updateship_ok [OF sh, of "int (pr_mmsi r)" "deg600000 (pr_lon r)" "deg600000 (pr_lat r)" "f32 (of_nat (pr_heading r))"
      "f32 (f32 (of_nat (pr_cog r)) / 10)" 1, folded xs_def]
  have "gui_ok ?g" using u g gok buf(1) unfolding gui_ok_def by simp
  moreover have "\<not> (ship_at (ships g) (int (pr_mmsi r)) = None \<and> length (ships g) = MAXSHIPS)" using room by auto
  ultimately show ?thesis using run u by (intro exI [of _ ?g]) auto
qed

text \<open>
  C2. From the ship to the map. The frame of a class A report of a position on earth, received by a fresh channel that is connected to a
  map program, makes the receiver write one sentence to the connection, and the map program that reads this sentence has no undefined
  behaviour and then holds, in its list of ships, under the MMSI, the position to within 1/131072 degree of what the ship sent, its
  heading exactly and its course to within 1/65535 degree, while all other ships are as before. The list must have room for the ship.
\<close>

theorem position_on_the_map:
  assumes r: "pos_report_ok r" "pr_repeat r < 4" and w: "env_ok w" and g: "gui_ok g"
    and room: "ship_at (ships g) (int (pr_mmsi r)) \<noteq> None \<or> length (ships g) < MAXSHIPS"
  shows "\<exists>d' w' pre s es g' e. protodec_decode (hdlc_frame (pos_bytes r)) (length (hdlc_frame (pos_bytes r)))
      (protodec_initialize mem ser True ch) w = Some (d', w')
    \<and> w_out w' = w_out w @ pre @ Ipc_write s # es \<and> (\<forall>s'. Ipc_write s' \<notin> set pre)
    \<and> gui_read (Some s) g = Some g' \<and> gui_ok g' \<and> ship_at (ships g') = (ship_at (ships g))(int (pr_mmsi r) \<mapsto> e)
    \<and> \<bar>s_latitude e - of_int (pr_lat r) / 600000\<bar> \<le> 1 / 131072 \<and> \<bar>s_longitude e - of_int (pr_lon r) / 600000\<bar> \<le> 1 / 131072
    \<and> s_heading e = of_nat (pr_heading r) \<and> \<bar>s_course e - of_nat (pr_cog r) / 10\<bar> \<le> 1 / 65535"
proof -
  let ?d = "protodec_initialize mem ser True ch" and ?b = "pos_bytes r"
  let ?rb = "enc_fields (pos_fields r) @ replicate 282 0"
  have ne: "?b \<noteq> []" "length ?b \<le> 53" using pos_message(2) [of r] by auto
  obtain d' w' where run: "decode_bits (hdlc_frame ?b) ?d w = Some (d', w')" and fr: "frame_received ?d ?b w d' w'"
    using decode_hdlc_frame [OF initialize_ready w ne] by blast
  have "frame_effect (?d\<lparr>rbuffer := message_of ?b\<rparr>) 168 w w'"
    using fr pos_message(2) [of r] by (simp add: frame_received_def)
  moreover have "field 0 6 ?rb = of_nat (pr_type r)"
    using r(1) by (intro field_enc_fields) (auto simp: pos_fields_def pos_report_ok_def)
  then have "msg_type ?rb = pr_type r" using r(1) by (auto simp: msg_type_def pos_report_ok_def)
  then have "1 \<le> msg_type ?rb \<and> msg_type ?rb \<le> 24" using r(1) by (auto simp: pos_report_ok_def)
  moreover have "sentences_of (?d\<lparr>rbuffer := message_of ?b\<rparr>) 168 = [aivdm_part (seqnr ?d) ?rb 28 0 0]"
    by (simp add: sentences_of_def aivdm_parts_def part_count_def groups_def fill_bits_def pos_message)
  ultimately obtain es where "w_out w' = w_out (sent (w_clock w (w_tick w)) (aivdm_part (seqnr ?d) ?rb 28 0 0) (?d\<lparr>rbuffer := message_of ?b\<rparr>)
      (w\<lparr>w_tick := Suc (w_tick w)\<rparr>)) @ es"
    by (auto simp: frame_effect_def pos_message reported_def)
  moreover have "serial ?d = ser" "ipc ?d" by (simp_all add: protodec_initialize_def) (simp_all add: protodec_reset_def)
  ultimately have out: "w_out w' = w_out w @ (if ser then [Serial_write ([33] @ aivdm_part (seqnr ?d) ?rb 28 0 0 @ [13, 10])] else [])
      @ Ipc_write (single ?rb 28)
      # (if w_my w then [Myout_nmea (w_clock w (w_tick w)) (aivdm_part (seqnr ?d) ?rb 28 0 0)] else []) @ es"
    using aivdm_single [of 28 "seqnr ?d" ?rb] by (simp add: sent_def)
  have b: "bits01 (replicate 282 0 :: u8 list)" by simp
  obtain g' where g': "gui_read (Some (single ?rb 28)) g = Some g'" "gui_ok g'"
    "ship_at (ships g') = (ship_at (ships g))(int (pr_mmsi r) \<mapsto>
        \<lparr>s_mmsi = int (pr_mmsi r), s_longitude = deg600000 (pr_lon r), s_latitude = deg600000 (pr_lat r),
          s_heading = f32 (of_nat (pr_heading r)), s_course = f32 (f32 (of_nat (pr_cog r)) / 10), s_type = 1\<rparr>)"
    using gui_position [OF r(1) b g room] by blast
  have p: "\<bar>deg600000 (pr_lat r) - of_int (pr_lat r) / 600000\<bar> \<le> 1 / 131072"
      "\<bar>deg600000 (pr_lon r) - of_int (pr_lon r) / 600000\<bar> \<le> 1 / 131072"
    using r(1) by (intro deg64_error; simp add: pos_report_ok_def)+
  have h: "f32 (of_nat (pr_heading r)) = of_nat (pr_heading r)" "f32 (of_nat (pr_cog r)) = of_nat (pr_cog r)"
    using r(1) f32_of_int [of "int (pr_heading r)"] f32_of_int [of "int (pr_cog r)"] by (simp_all add: pos_report_ok_def)
  have c: "\<bar>f32 (of_nat (pr_cog r) / 10) - of_nat (pr_cog r) / 10\<bar> \<le> 1 / 65535"
  proof -
    have "of_nat (pr_cog r) \<le> (4095 :: rat)" using r(1) by (simp add: pos_report_ok_def)
    then have "\<bar>f32 (of_nat (pr_cog r) / 10) - of_nat (pr_cog r) / 10\<bar> \<le> 2 powi (9 - 24) / 2"
      by (intro f32_error) (simp_all add: power_int_def)
    then show ?thesis by (simp add: power_int_def power_divide)
  qed
  show ?thesis unfolding protodec_decode_bits
    using run out g' p h c
    by (intro exI [of _ d'] exI [of _ w'] exI [of _ "if ser then [Serial_write ([33] @ aivdm_part (seqnr ?d) ?rb 28 0 0 @ [13, 10])] else []"]
        exI [of _ "single ?rb 28"] exI [of _ "(if w_my w then [Myout_nmea (w_clock w (w_tick w)) (aivdm_part (seqnr ?d) ?rb 28 0 0)] else []) @ es"] exI [of _ g'] exI [of _ "\<lparr>s_mmsi = int (pr_mmsi r), s_longitude = deg600000 (pr_lon r),
          s_latitude = deg600000 (pr_lat r), s_heading = f32 (of_nat (pr_heading r)), s_course = f32 (f32 (of_nat (pr_cog r)) / 10),
          s_type = 1\<rparr>"]) (simp add: h)
qed

definition gui0 :: gui_state where
  "gui0 = gui_start (replicate 256 0) (replicate 500 0)
     \<lparr>sd_type = 0, sd_mmsi = 0, latitude = 0, longitude = 0, speed = 0, sd_course = 0, heading = 0\<rparr>"

theorem position_on_the_map_witness:
  "\<exists>d' w' pre s es g' e. protodec_decode (hdlc_frame (pos_bytes report0)) (length (hdlc_frame (pos_bytes report0)))
      (protodec_initialize (\<lambda>_ _. 3) True True 65) idle_world = Some (d', w')
    \<and> w_out w' = w_out idle_world @ pre @ Ipc_write s # es
    \<and> gui_read (Some s) gui0 = Some g' \<and> ship_at (ships g') 257123000 = Some e \<and> \<bar>s_latitude e - 599 / 10\<bar> \<le> 1 / 131072 \<and> s_heading e = 268"
proof -
  have r: "pos_report_ok report0" "pr_repeat report0 < 4" by (simp_all add: report0_def pos_report_ok_def)
  have g: "gui_ok gui0" "ship_at (ships gui0) (int (pr_mmsi report0)) \<noteq> None \<or> length (ships gui0) < MAXSHIPS"
    by (simp_all add: gui_ok_def gui0_def gui_start_def MAXSHIPS_def)
  obtain d' w' pre s es g' e where o: "protodec_decode (hdlc_frame (pos_bytes report0)) (length (hdlc_frame (pos_bytes report0)))
      (protodec_initialize (\<lambda>_ _. 3) True True 65) idle_world = Some (d', w')"
      "w_out w' = w_out idle_world @ pre @ Ipc_write s # es" "gui_read (Some s) gui0 = Some g'"
      "ship_at (ships g') = (ship_at (ships gui0))(int (pr_mmsi report0) \<mapsto> e)"
      "\<bar>s_latitude e - of_int (pr_lat report0) / 600000\<bar> \<le> 1 / 131072" "s_heading e = of_nat (pr_heading report0)"
    using position_on_the_map [OF r idle_env_ok g, of "\<lambda>_ _. 3" True 65] by (elim exE conjE) (rule that)
  have "pr_mmsi report0 = 257123000" "pr_heading report0 = 268" "pr_lat report0 = 35940000"
    by (simp_all add: report0_def)
  then have "ship_at (ships g') 257123000 = Some e" "\<bar>s_latitude e - 599 / 10\<bar> \<le> 1 / 131072" "s_heading e = 268"
    using o(4-6) by (simp_all)
  then show ?thesis using o(1-3) by blast
qed

end
