(* ===== verification/Splay_Scan.thy ===== *)
theory Splay_Scan
  imports Splay_Store CFloat
begin

text \<open>
  The rest of splay.c: the scan of a tree, its statistics, and the release of all nodes (\<^verbatim>\<open>sp_null\<close>); and what a client that keeps the
  node returned by a search may do with it.
\<close>

section \<open>Scanning\<close>

text \<open>
  The function that is applied to the nodes may change them, so it works on the nodes and on a state of its own. The successor of a
  node is found before the function is applied.
\<close>

partial_function (option) scan_loop ::
    "(nat \<Rightarrow> 'd cells \<times> 's \<Rightarrow> ('d cells \<times> 's) option) \<Rightarrow> nat \<Rightarrow> 'd cells \<times> 's \<Rightarrow> ('d cells \<times> 's) option" where
  "scan_loop f x s =
     (if x \<noteq> 0 then do {
        nextx \<leftarrow> sp_fnext x (fst s);
        s \<leftarrow> f x s;
        scan_loop f nextx s
      } else Some s)"

definition sp_scan ::
    "(nat \<Rightarrow> 'd cells \<times> 's \<Rightarrow> ('d cells \<times> 's) option) \<Rightarrow> nat \<Rightarrow> sptree \<Rightarrow> 'd cells \<times> 's \<Rightarrow> ('d cells \<times> 's) option" where
  "sp_scan f n q s = do {
     x \<leftarrow> (if n \<noteq> 0 then Some n else sp_fhead q (fst s));
     scan_loop f x s
   }"

text \<open>The statistics: averages in single precision; the formatted printing is a parameter.\<close>

definition average :: "int \<Rightarrow> int \<Rightarrow> cfloat" where
  "average all n = (if n \<noteq> 0 then f32 (f32 (of_int all) / f32 (of_int n)) else 0)"

definition sp_stats ::
    "(int \<Rightarrow> cfloat \<Rightarrow> int \<Rightarrow> cfloat \<Rightarrow> int \<Rightarrow> cfloat \<Rightarrow> string) \<Rightarrow> sptree option \<Rightarrow> string" where
  "sp_stats print_stats q = (case q of None \<Rightarrow> [] | Some q \<Rightarrow>
     let llen = average (lkpcmps q) (lookups q);
         elen = average (enqcmps q) (enqs q);
         sloops = average (splayloops q) (splays q)
     in print_stats (lookups q) llen (enqs q) elen (splays q) sloops)"

text \<open>
  A function that keeps the links of the nodes is applied to every node once, in the order of the keys.
\<close>

fun visit_all :: "(nat \<Rightarrow> 's \<Rightarrow> 's option) \<Rightarrow> nat list \<Rightarrow> 's \<Rightarrow> 's option" where
  "visit_all f [] s = Some s"
| "visit_all f (x # xs) s = do { s \<leftarrow> f x s; visit_all f xs s }"

definition keeps_tree :: "nat \<Rightarrow> nat tree \<Rightarrow> (nat \<Rightarrow> 'd cells \<times> 's \<Rightarrow> ('d cells \<times> 's) option) \<Rightarrow> bool" where
  "keeps_tree p t f \<longleftrightarrow> (\<forall>x s s'. x \<in> set_tree t \<longrightarrow> istree (fst s) 0 p t \<longrightarrow> f x s = Some s' \<longrightarrow> istree (fst s') 0 p t)"

lemma keeps_treeD:
  "keeps_tree p t f \<Longrightarrow> x \<in> set_tree t \<Longrightarrow> istree (fst s) 0 p t \<Longrightarrow> f x s = Some s' \<Longrightarrow> istree (fst s') 0 p t"
  unfolding keeps_tree_def by blast

lemma scan_loop_ok:
  assumes "istree (fst s) 0 p t" "distinct (inorder t)" "inorder t = xs @ ys" "keeps_tree p t f"
  shows "scan_loop f (case ys of [] \<Rightarrow> 0 | y # _ \<Rightarrow> y) s = visit_all f ys s"
  using assms
proof (induction ys arbitrary: xs s)
  case Nil
  show ?case by (subst scan_loop.simps) simp
next
  case (Cons y ys)
  have y: "y \<in> set_tree t" using arg_cong [OF Cons.prems(3), of set] by simp
  have y0: "y \<noteq> 0" using istree_nonzero [OF Cons.prems(1)] y by metis
  have nx: "sp_fnext y (fst s) = Some (case ys of [] \<Rightarrow> 0 | y # _ \<Rightarrow> y)"
    by (rule sp_fnext_ok [OF Cons.prems(1-3)])
  have "scan_loop f (case ys of [] \<Rightarrow> 0 | y # _ \<Rightarrow> y) s' = visit_all f ys s'" if "f y s = Some s'" for s'
    using keeps_treeD [OF Cons.prems(4) y Cons.prems(1) that] Cons.prems(2-4)
    by (intro Cons.IH [of s' "xs @ [y]"]) simp_all
  then have "f y s \<bind> scan_loop f (case ys of [] \<Rightarrow> 0 | y # _ \<Rightarrow> y) = f y s \<bind> visit_all f ys"
    by (cases "f y s") simp_all
  moreover have "scan_loop f y s = f y s \<bind> scan_loop f (case ys of [] \<Rightarrow> 0 | y # _ \<Rightarrow> y)"
    using y0 nx by (subst scan_loop.simps) simp
  ultimately show ?case by simp
qed

lemma sp_scan_ok:
  assumes "istree (fst s) 0 (sp_root q) t" "distinct (inorder t)" "keeps_tree (sp_root q) t f"
  shows "sp_scan f 0 q s = visit_all f (inorder t) s"
  using scan_loop_ok [OF assms(1,2), of "[]"] sp_fhead_ok [OF assms(1)] assms(3) by (simp add: sp_scan_def)

section \<open>Releasing a whole tree\<close>

text \<open>
  The nodes go to the free list from right to left, each after its subtrees, so that nothing that is still needed is behind a link
  that has been overwritten.
\<close>

lemma isfree_upd_uplink:
  "isfree h p fl \<Longrightarrow> n \<notin> set fl \<Longrightarrow> isfree (h(n \<mapsto> b)) p fl"
  by (erule isfree_frame) auto

lemma sp_free_blk_ok:
  assumes "heap_ok m fl" "cells m n = Some b" "n \<noteq> 0" "n \<notin> set fl"
  shows "\<exists>m'. sp_free_blk n m = Some m' \<and> heap_ok m' (n # fl) \<and> (\<forall>x. x \<noteq> n \<longrightarrow> cells m' x = cells m x)"
  using assms by (auto simp: sp_free_blk_def st_simp heap_ok_def intro: isfree_upd_uplink)

lemma sp_chop_ok:
  assumes "heap_ok m fl" "istree (cells m) u p t" "t \<noteq> Leaf" "distinct (inorder t)" "set_tree t \<inter> set fl = {}"
  shows "\<exists>m' fl'. sp_chop p m = Some m' \<and> heap_ok m' fl' \<and> set fl' = set fl \<union> set_tree t
    \<and> (\<forall>x. x \<notin> set_tree t \<longrightarrow> cells m' x = cells m x)"
  using assms
proof (induction t arbitrary: m fl u p)
  case Leaf
  then show ?case by simp
next
  case (Node l a r)
  obtain b where b: "cells m a = Some b" "p = a" "a \<noteq> 0" "istree (cells m) a (leftlink b) l"
      "istree (cells m) a (rightlink b) r" using Node.prems(2) by auto
  have dis: "a \<notin> set_tree l" "a \<notin> set_tree r" "set_tree l \<inter> set_tree r = {}" "distinct (inorder l)"
      "distinct (inorder r)" using Node.prems(4) by auto
  obtain m1 fl1 where r: "(if rightlink b \<noteq> 0 then sp_chop (rightlink b) m else Some m) = Some m1" "heap_ok m1 fl1"
      "set fl1 = set fl \<union> set_tree r" "\<forall>x. x \<notin> set_tree r \<longrightarrow> cells m1 x = cells m x"
  proof (cases "r = Leaf")
    case True
    then show thesis using that [of m fl] b(5) Node.prems(1) by simp
  next
    case False
    then have "rightlink b \<noteq> 0" using b(5) istree_zero by metis
    moreover have "set_tree r \<inter> set fl = {}" using Node.prems(5) by auto
    ultimately show thesis using Node.IH(2) [OF Node.prems(1) b(5) False dis(5)] that by auto
  qed
  have l1: "istree (cells m1) a (leftlink b) l" using r(4) dis(3) by (intro istree_frame [OF b(4)]) auto
  have b1: "cells m1 a = Some b" using r(4) dis(2) b(1) by simp
  obtain m2 fl2 where l: "(if leftlink b \<noteq> 0 then sp_chop (leftlink b) m1 else Some m1) = Some m2" "heap_ok m2 fl2"
      "set fl2 = set fl1 \<union> set_tree l" "\<forall>x. x \<notin> set_tree l \<longrightarrow> cells m2 x = cells m1 x"
  proof (cases "l = Leaf")
    case True
    then show thesis using that [of m1 fl1] l1 r(2) by simp
  next
    case False
    then have "leftlink b \<noteq> 0" using l1 istree_zero by metis
    moreover have "set_tree l \<inter> set fl1 = {}" using Node.prems(5) r(3) dis(3) by auto
    ultimately show thesis using Node.IH(1) [OF r(2) l1 False dis(4)] that by auto
  qed
  have b2: "cells m2 a = Some b" using l(4) dis(1) b1 by simp
  have "a \<notin> set fl2" using Node.prems(5) l(3) r(3) dis by auto
  from sp_free_blk_ok [OF l(2) b2 b(3) this] obtain m3 where f: "sp_free_blk a m2 = Some m3"
      "heap_ok m3 (a # fl2)" "\<forall>x. x \<noteq> a \<longrightarrow> cells m3 x = cells m2 x" by blast
  have "sp_chop p m = Some m3"
    using b r(1) b1 l(1) f(1) by (subst sp_chop.simps) (simp add: ld_simp)
  then show ?case using f l r by (intro exI [of _ m3] exI [of _ "a # fl2"]) auto
qed

lemma sp_null_ok:
  assumes "sp_ok m fl q t"
  shows "\<exists>q' m' fl'. sp_null q m = Some (q', m') \<and> sp_ok m' fl' q' Leaf
    \<and> (\<forall>x. x \<notin> set_tree t \<longrightarrow> cells m' x = cells m x)"
proof (cases "t = Leaf")
  case True
  then have "sp_root q = 0" using assms by (simp add: sp_ok_def)
  then show ?thesis using assms True by (auto simp: sp_null_def)
next
  case False
  have t: "heap_ok m fl" "istree (cells m) 0 (sp_root q) t" "distinct (inorder t)" "set_tree t \<inter> set fl = {}"
    using assms keyed_distinct by (auto simp: sp_ok_def)
  have "sp_root q \<noteq> 0" using t(2) False istree_zero by metis
  then show ?thesis using sp_chop_ok [OF t(1,2) False t(3,4)] by (auto simp: sp_null_def sp_ok_def keyed_def)
qed

lemma sp_null_rep: "sp_rep (q, m) M \<Longrightarrow> \<exists>s'. sp_null q m = Some s' \<and> sp_rep s' Map.empty"
  using sp_null_ok unfolding sp_rep_def by (fastforce simp: content_def fun_eq_iff)

section \<open>Nodes in the hands of a client\<close>

text \<open>The node \<open>n\<close> is the one of the key \<open>k\<close> in the tree.\<close>

definition sp_at :: "sptree \<times> 'd spmem \<Rightarrow> (u32 \<rightharpoonup> 'd) \<Rightarrow> nat \<Rightarrow> u32 \<Rightarrow> bool" where
  "sp_at s M n k \<longleftrightarrow> (\<exists>fl t. sp_ok (snd s) fl (fst s) t \<and> content (cells (snd s)) t = M
     \<and> (\<forall>x \<in> set_tree t. snd (the (kd (cells (snd s)) x)) \<noteq> None)
     \<and> n \<in> set_tree t \<and> nkey (cells (snd s)) n = k)"

lemma sp_at_rep: "sp_at s M n k \<Longrightarrow> sp_rep s M"
  by (auto simp: sp_at_def sp_rep_def)

lemma sp_lookup_at:
  assumes "sp_rep (q, m) M"
  shows "\<exists>n q' h. sp_lookup k q (cells m) = Some (n, q', h) \<and> sp_rep (q', m\<lparr>cells := h\<rparr>) M
    \<and> (case M k of None \<Rightarrow> n = 0 | Some d \<Rightarrow> n \<noteq> 0 \<and> sp_at (q', m\<lparr>cells := h\<rparr>) M n k \<and> ld data h n = Some (Some d))"
proof -
  obtain fl t where s: "sp_ok m fl q t" "content (cells m) t = M" "\<forall>x \<in> set_tree t. snd (the (kd (cells m) x)) \<noteq> None"
    using assms by (auto simp: sp_rep_def)
  have keyed: "keyed (cells m) t" using s(1) by (simp add: sp_ok_def)
  obtain n q1 h1 t1 where l: "sp_lookup k q (cells m) = Some (n, q1, h1)" "sp_ok (m\<lparr>cells := h1\<rparr>) fl q1 t1"
      "inorder t1 = inorder t" "relinks (set_tree t) (cells m) h1"
      "if k \<in> nkey (cells m) ` set_tree t then n \<in> set_tree t \<and> nkey (cells m) n = k else n = 0"
    using sp_lookup_ok [OF s(1), of k] by (elim exE conjE) (rule that)
  have st: "set_tree t1 = set_tree t" by (rule set_tree_inorder [OF l(3)])
  have kd: "kd h1 = kd (cells m)" "nkey h1 = nkey (cells m)"
    using l(4) relinks_nkey by (auto simp: relinks_def)
  have c: "content h1 t1 = M"
    using content_same [OF keyed, of h1 t1] l(2) kd st s(2) by (simp add: sp_ok_def)
  have rep: "sp_rep (q1, m\<lparr>cells := h1\<rparr>) M"
    using l(2) c s(3) st kd unfolding sp_rep_def by (intro exI [of _ fl] exI [of _ t1]) simp
  show ?thesis
  proof (cases "k \<in> nkey (cells m) ` set_tree t")
    case False
    then show ?thesis using l(1,5) s(2) content_none [OF False] rep by auto
  next
    case True
    then have n: "n \<in> set_tree t" "nkey (cells m) n = k" using l(5) by auto
    have it: "istree h1 0 (sp_root q1) t1" using l(2) by (simp add: sp_ok_def)
    have n0: "n \<noteq> 0" "n \<in> set_tree t1" using istree_nonzero [OF it] n(1) st by metis+
    obtain b where b: "h1 n = Some b" using istree_dom [OF it n0(2)] by auto
    have "M k = data b" using content_at [OF keyed n(1)] n(2) s(2) fun_cong [OF kd(1), of n] b
      by (cases "cells m n") (simp_all add: kd_def)
    moreover have "kd (cells m) n = Some (key b, data b)" using fun_cong [OF kd(1), of n] b by (simp add: kd_def)
    then have "data b \<noteq> None" using bspec [OF s(3) n(1)] by simp
    moreover have "sp_at (q1, m\<lparr>cells := h1\<rparr>) M n k"
      using l(2) c s(3) st kd n unfolding sp_at_def by (intro exI [of _ fl] exI [of _ t1]) simp
    ultimately show ?thesis using l(1) n0(1) b rep by (auto simp: ld_simp)
  qed
qed

lemma sp_at_store:
  assumes "sp_at (q, m) M n k"
  shows "\<exists>h. st (data_update (\<lambda>_. Some d)) (cells m) n = Some h \<and> sp_at (q, m\<lparr>cells := h\<rparr>) (M(k \<mapsto> d)) n k"
proof -
  obtain fl t where s: "sp_ok m fl q t" "content (cells m) t = M" "n \<in> set_tree t" "nkey (cells m) n = k"
      "\<forall>x \<in> set_tree t. snd (the (kd (cells m) x)) \<noteq> None" using assms by (auto simp: sp_at_def)
  have it: "istree (cells m) 0 (sp_root q) t" "keyed (cells m) t" using s(1) by (auto simp: sp_ok_def)
  have n0: "n \<noteq> 0" using istree_nonzero [OF it(1)] s(3) by metis
  obtain b where b: "cells m n = Some b" using istree_dom [OF it(1) s(3)] by auto
  define h where "h = (cells m)(n \<mapsto> b\<lparr>data := Some d\<rparr>)"
  have ok: "sp_ok (m\<lparr>cells := h\<rparr>) fl q t" using sp_ok_data [OF s(1) b] by (simp add: h_def)
  have kdh: "kd h x = (if x = n then Some (k, Some d) else kd (cells m) x)" for x
    using s(4) b by (simp add: h_def kd_def nkey_def)
  have nk: "nkey h = nkey (cells m)" using b by (simp add: h_def nkey_data)
  have "content h t = M(k \<mapsto> d)"
    using content_insert [OF it(2), of h t n] ok s(2-4) kdh nk by (auto simp: sp_ok_def insert_absorb)
  then have "sp_at (q, m\<lparr>cells := h\<rparr>) (M(k \<mapsto> d)) n k"
    using ok s(3,4,5) kdh nk unfolding sp_at_def by (intro exI [of _ fl] exI [of _ t]) auto
  then show ?thesis using b n0 by (auto simp: st_simp h_def)
qed

lemma sp_at_delete:
  assumes "sp_at (q, m) M n k"
  shows "\<exists>s'. sp_delete n q m = Some s' \<and> sp_rep s' (M(k := None))"
proof -
  obtain fl t where s: "sp_ok m fl q t" "content (cells m) t = M" "n \<in> set_tree t" "nkey (cells m) n = k"
      "\<forall>x \<in> set_tree t. snd (the (kd (cells m) x)) \<noteq> None" using assms by (auto simp: sp_at_def)
  have keyed: "keyed (cells m) t" using s(1) by (auto simp: sp_ok_def)
  obtain q2 m2 t2 xs ys where r: "sp_delete n q m = Some (q2, m2)" "sp_ok m2 (n # fl) q2 t2"
      "inorder t = xs @ n # ys" "inorder t2 = xs @ ys" "\<forall>x \<in> set_tree t2. kd (cells m2) x = kd (cells m) x"
    using sp_delete_store [OF s(1,3)] by (elim exE conjE) (rule that)
  have s1: "set_tree t = insert n (set_tree t2)" "n \<notin> set_tree t2"
    using set_inorder [of t] set_inorder [of t2] keyed_distinct [OF keyed] unfolding r(3,4) by auto
  have "content (cells m2) t2 = M(k := None)"
    using content_remove [OF keyed _ s1] r(2,5) s(2,4) by (simp add: sp_ok_def)
  then have "sp_rep (q2, m2) (M(k := None))"
    unfolding sp_rep_def using r(2,5) s(5) s1 by (intro exI [of _ "n # fl"] exI [of _ t2]) simp
  then show ?thesis using r(1) by blast
qed

lemma sp_install_at:
  assumes "sp_rep (q, m) M"
  shows "\<exists>n q' m' h. sp_install junk k q m = Some (n, q', m') \<and> st (data_update (\<lambda>_. Some d)) (cells m') n = Some h
    \<and> sp_rep (q', m'\<lparr>cells := h\<rparr>) (M(k \<mapsto> d))"
  using sps.put_law [OF assms, of junk k d] by (auto simp: sp_put_def split: bind_splits)

end
