(* ===== verification/Symbols.thy ===== *)
theory Symbols
  imports Splay_Scan
begin

text \<open>
  spsymbol.c and crc32.c: the symbol table. A string is mapped to the address of the one entry that holds it; the entries with the same
  31-bit hash hang together in a chain, whose first entry is the data of a node of a splay tree.
\<close>

section \<open>The hash\<close>

definition POLY :: u64 where
  "POLY = 0x48000000"

text \<open>The inner loop of \<^verbatim>\<open>crcinit\<close>, from the highest bit down; the table is computed before its first use and never changed.\<close>

fun crc_entry :: "nat \<Rightarrow> nat \<Rightarrow> u64 \<Rightarrow> u64" where
  "crc_entry i 0 c = c"
| "crc_entry i (Suc j) c = crc_entry i j (if bit i j then c XOR drop_bit j POLY else c)"

definition crcinit :: "u64 list" where
  "crcinit = map (\<lambda>i. crc_entry i 7 0) [0..<128]"

definition crc_step :: "u64 \<Rightarrow> u8 \<Rightarrow> u64" where
  "crc_step crc c = drop_bit 7 crc XOR crcinit ! unat ((crc XOR ucast c) AND 0x7f)"

definition crc32n :: "u8 list \<Rightarrow> nat \<Rightarrow> u64 option" where
  "crc32n s slen = (if slen \<le> length s then Some (foldl crc_step 0 (take slen s) AND 0xFFFFFFFF) else None)"

fun crc32_loop :: "u8 list \<Rightarrow> u64 \<Rightarrow> u64 option" where
  "crc32_loop [] crc = None"
| "crc32_loop (c # cs) crc = (if c \<noteq> 0 then crc32_loop cs (crc_step crc c) else Some (crc AND 0xFFFFFFFF))"

definition crc32 :: "u8 list \<Rightarrow> u64 option" where
  "crc32 s = crc32_loop s 0"

section \<open>The table\<close>

record syment =
  se_next :: nat
  namelen :: nat
  se_name :: "u8 list"

record symmem =
  spm :: "nat spmem"
  sents :: "nat \<rightharpoonup> syment"

text \<open>The part of a \<^verbatim>\<open>char *\<close> before its NUL.\<close>

fun c_strlen :: "u8 list \<Rightarrow> nat option" where
  "c_strlen [] = None"
| "c_strlen (c # cs) = (if c \<noteq> 0 then map_option Suc (c_strlen cs) else Some 0)"

text \<open>
  The search along a chain. The result is the entry, or \<^verbatim>\<open>NULL\<close>, and the entry before it; when nothing is found that is the last
  entry of the chain.
\<close>

partial_function (option) find_sym ::
    "(nat \<rightharpoonup> syment) \<Rightarrow> u8 list \<Rightarrow> nat \<Rightarrow> nat \<Rightarrow> nat \<Rightarrow> (nat \<times> nat) option" where
  "find_sym ents s slen pe se = do {
     e \<leftarrow> ents se;
     if namelen e = slen \<and> take slen (se_name e) = take slen s then Some (se, pe)
     else if se_next e \<noteq> 0 then find_sym ents s slen se (se_next e)
     else Some (0, se)
   }"

text \<open>The pointer is returned as a 32-bit key.\<close>

definition spkey_of :: "nat \<Rightarrow> u32" where
  "spkey_of p = word_of_nat p"

definition symbol_lookup_db_mem ::
    "u8 list option \<Rightarrow> nat \<Rightarrow> sptree \<times> symmem \<Rightarrow> (u32 \<times> sptree \<times> symmem) option" where
  "symbol_lookup_db_mem str slen t = (case str of None \<Rightarrow> Some (0, t) | Some s \<Rightarrow> do {
     crc \<leftarrow> crc32n s slen;
     (spl, q, h) \<leftarrow> sp_lookup (ucast crc) (fst t) (cells (spm (snd t)));
     let m = (snd t)\<lparr>spm := (spm (snd t))\<lparr>cells := h\<rparr>\<rparr>;
     if spl \<noteq> 0 then do {
       p \<leftarrow> ld data h spl;
       p \<leftarrow> p;
       (se, pe) \<leftarrow> find_sym (sents m) s slen 0 p;
       Some (if se \<noteq> 0 then spkey_of se else 0, q, m)
     } else Some (0, q, m)
   })"

text \<open>
  \<^verbatim>\<open>hmalloc\<close> is the parameter \<open>alloc\<close>: the address of a block, given the blocks in use. The new entry is hung behind the last
  one of its chain, or becomes the data of a new node.
\<close>

definition symbol_enter ::
    "nat spblk \<Rightarrow> u8 list \<Rightarrow> nat \<Rightarrow> u64 \<Rightarrow> nat \<Rightarrow> nat \<Rightarrow> sptree \<times> symmem \<Rightarrow> (sptree \<times> symmem) option" where
  "symbol_enter junk s slen crc se pe t = do {
     let e = \<lparr>se_next = 0, namelen = slen, se_name = take slen s @ [0]\<rparr>;
     let m = (snd t)\<lparr>sents := (sents (snd t))(se \<mapsto> e)\<rparr>;
     if pe \<noteq> 0 then do {
       p \<leftarrow> sents m pe;
       Some (fst t, m\<lparr>sents := (sents m)(pe \<mapsto> p\<lparr>se_next := se\<rparr>)\<rparr>)
     } else do {
       (spl, q, sm) \<leftarrow> sp_install junk (ucast crc) (fst t) (spm m);
       h \<leftarrow> st (data_update (\<lambda>_. Some se)) (cells sm) spl;
       Some (q, m\<lparr>spm := sm\<lparr>cells := h\<rparr>\<rparr>)
     }
   }"

definition symbol_db_mem ::
    "((nat \<rightharpoonup> syment) \<Rightarrow> nat) \<Rightarrow> nat spblk \<Rightarrow> u8 list option \<Rightarrow> nat \<Rightarrow> sptree \<times> symmem \<Rightarrow> (u32 \<times> sptree \<times> symmem) option" where
  "symbol_db_mem alloc junk str slen t = (case str of None \<Rightarrow> Some (0, t) | Some s \<Rightarrow> do {
     crc \<leftarrow> crc32n s slen;
     (spl, q, h) \<leftarrow> sp_lookup (ucast crc) (fst t) (cells (spm (snd t)));
     let m = (snd t)\<lparr>spm := (spm (snd t))\<lparr>cells := h\<rparr>\<rparr>;
     (se, pe) \<leftarrow> (if spl \<noteq> 0 then do {
         p \<leftarrow> ld data h spl;
         p \<leftarrow> p;
         find_sym (sents m) s slen 0 p
       } else Some (0, 0));
     if se \<noteq> 0 then Some (spkey_of se, q, m)
     else do {
       let se = alloc (sents m);
       t \<leftarrow> symbol_enter junk s slen crc se pe (q, m);
       Some (spkey_of se, t)
     }
   })"

text \<open>Removing a symbol: the entry is unlinked from its chain, and the node goes with its last entry.\<close>

definition symbol_unlink :: "nat \<Rightarrow> nat \<Rightarrow> nat \<Rightarrow> symmem \<Rightarrow> symmem option" where
  "symbol_unlink spl se pe m = do {
     e \<leftarrow> sents m se;
     m \<leftarrow> (if pe \<noteq> 0 then do {
         p \<leftarrow> sents m pe;
         Some (m\<lparr>sents := (sents m)(pe \<mapsto> p\<lparr>se_next := se_next e\<rparr>)\<rparr>)
       } else do {
         h \<leftarrow> st (data_update (\<lambda>_. Some (se_next e))) (cells (spm m)) spl;
         Some (m\<lparr>spm := (spm m)\<lparr>cells := h\<rparr>\<rparr>)
       });
     Some (m\<lparr>sents := (sents m)(se := None)\<rparr>)
   }"

definition symbol_free_db_mem :: "u8 list option \<Rightarrow> nat \<Rightarrow> sptree \<times> symmem \<Rightarrow> (sptree \<times> symmem) option" where
  "symbol_free_db_mem str slen t = (case str of None \<Rightarrow> Some t | Some s \<Rightarrow> do {
     crc \<leftarrow> crc32n s slen;
     (spl, q, h) \<leftarrow> sp_lookup (ucast crc) (fst t) (cells (spm (snd t)));
     let m = (snd t)\<lparr>spm := (spm (snd t))\<lparr>cells := h\<rparr>\<rparr>;
     if spl \<noteq> 0 then do {
       p \<leftarrow> ld data h spl;
       p \<leftarrow> p;
       (se, pe) \<leftarrow> find_sym (sents m) s slen 0 p;
       m \<leftarrow> (if se \<noteq> 0 then symbol_unlink spl se pe m else Some m);
       d \<leftarrow> ld data (cells (spm m)) spl;
       if d = Some 0 then do {
         (q, sm) \<leftarrow> sp_delete spl q (spm m);
         Some (q, m\<lparr>spm := sm\<rparr>)
       } else Some (q, m)
     } else Some (q, m)
   })"

text \<open>Emptying the table: all chains are freed, then all nodes of the tree.\<close>

partial_function (option) free_chain :: "nat \<Rightarrow> (nat \<rightharpoonup> syment) \<Rightarrow> (nat \<rightharpoonup> syment) option" where
  "free_chain se ents =
     (if se \<noteq> 0 then do {
        e \<leftarrow> ents se;
        free_chain (se_next e) (ents(se := None))
      } else Some ents)"

definition symbol_null ::
    "nat \<Rightarrow> nat cells \<times> (nat \<rightharpoonup> syment) \<Rightarrow> (nat cells \<times> (nat \<rightharpoonup> syment)) option" where
  "symbol_null spl s = do {
     se \<leftarrow> ld data (fst s) spl;
     se \<leftarrow> se;
     ents \<leftarrow> free_chain se (snd s);
     Some (fst s, ents)
   }"

definition symbol_null_db :: "sptree \<times> symmem \<Rightarrow> (sptree \<times> symmem) option" where
  "symbol_null_db t = do {
     (h, ents) \<leftarrow> sp_scan symbol_null 0 (fst t) (cells (spm (snd t)), sents (snd t));
     (q, sm) \<leftarrow> sp_null (fst t) ((spm (snd t))\<lparr>cells := h\<rparr>);
     Some (q, (snd t)\<lparr>spm := sm, sents := ents\<rparr>)
   }"

text \<open>The name of a symbol, read behind the 32-bit key.\<close>

definition pname :: "u32 \<Rightarrow> symmem \<Rightarrow> u8 list option" where
  "pname k m = map_option se_name (sents m (unat k))"

text \<open>The variants for strings that end with NUL, and those for the global table, which is made before its first use.\<close>

definition symbol_free_db :: "u8 list option \<Rightarrow> sptree \<times> symmem \<Rightarrow> (sptree \<times> symmem) option" where
  "symbol_free_db str t = (case str of None \<Rightarrow> Some t | Some s \<Rightarrow> do { n \<leftarrow> c_strlen s; symbol_free_db_mem (Some s) n t })"

definition symbol_lookup_db :: "u8 list option \<Rightarrow> sptree \<times> symmem \<Rightarrow> (u32 \<times> sptree \<times> symmem) option" where
  "symbol_lookup_db str t = (case str of None \<Rightarrow> Some (0, t) | Some s \<Rightarrow> do { n \<leftarrow> c_strlen s; symbol_lookup_db_mem (Some s) n t })"

definition symbol_db ::
    "((nat \<rightharpoonup> syment) \<Rightarrow> nat) \<Rightarrow> nat spblk \<Rightarrow> u8 list option \<Rightarrow> sptree \<times> symmem \<Rightarrow> (u32 \<times> sptree \<times> symmem) option" where
  "symbol_db alloc junk str t = (case str of None \<Rightarrow> Some (0, t) | Some s \<Rightarrow> do { n \<leftarrow> c_strlen s; symbol_db_mem alloc junk (Some s) n t })"

definition spt_symtab :: "sptree option \<Rightarrow> sptree" where
  "spt_symtab t = (case t of None \<Rightarrow> sp_init | Some q \<Rightarrow> q)"

definition symbol ::
    "((nat \<rightharpoonup> syment) \<Rightarrow> nat) \<Rightarrow> nat spblk \<Rightarrow> u8 list option \<Rightarrow> sptree option \<times> symmem \<Rightarrow> (u32 \<times> sptree \<times> symmem) option" where
  "symbol alloc junk str t = symbol_db alloc junk str (spt_symtab (fst t), snd t)"

definition symbol_lookup :: "u8 list option \<Rightarrow> sptree option \<times> symmem \<Rightarrow> (u32 \<times> sptree \<times> symmem) option" where
  "symbol_lookup str t = symbol_lookup_db str (spt_symtab (fst t), snd t)"

section \<open>Chains\<close>

text \<open>A chain from \<open>p\<close> with its addresses and names.\<close>

fun ischain :: "(nat \<rightharpoonup> syment) \<Rightarrow> nat \<Rightarrow> (nat \<times> u8 list) list \<Rightarrow> bool" where
  "ischain ents p [] \<longleftrightarrow> p = 0"
| "ischain ents p ((a, s) # xs) \<longleftrightarrow> p = a \<and> a \<noteq> 0 \<and>
     (\<exists>nx. ents a = Some \<lparr>se_next = nx, namelen = length s, se_name = s @ [0]\<rparr> \<and> ischain ents nx xs)"

lemma ischain_frame:
  "ischain ents p xs \<Longrightarrow> (\<And>a. a \<in> fst ` set xs \<Longrightarrow> ents' a = ents a) \<Longrightarrow> ischain ents' p xs"
  by (induction ents p xs rule: ischain.induct) auto

lemma ischain_entry:
  "ischain ents p xs \<Longrightarrow> (a, s) \<in> set xs \<Longrightarrow>
     a \<noteq> 0 \<and> (\<exists>nx. ents a = Some \<lparr>se_next = nx, namelen = length s, se_name = s @ [0]\<rparr>)"
  by (induction ents p xs rule: ischain.induct) auto

text \<open>The name in an entry is unique, so that distinct names have distinct addresses.\<close>

lemma ischain_same_name:
  assumes "ischain ents p xs" "ischain ents p' ys" "(a, s) \<in> set xs" "(a, s') \<in> set ys"
  shows "s = s'"
  using ischain_entry [OF assms(1,3)] ischain_entry [OF assms(2,4)] by auto

lemma ischain_distinct:
  assumes "ischain ents p xs" "distinct (map snd xs)"
  shows "distinct (map fst xs)"
proof -
  have "inj_on fst (set xs)"
    using ischain_same_name [OF assms(1,1)] by (auto simp: inj_on_def)
  moreover have "distinct xs" using assms(2) by (simp add: distinct_map)
  ultimately show ?thesis by (simp add: distinct_map)
qed

lemma ischain_zero: "ischain ents p xs \<Longrightarrow> p = 0 \<longleftrightarrow> xs = []"
  by (cases "(ents, p, xs)" rule: ischain.cases) auto

text \<open>The search finds the address of the name, and the entry before it.\<close>

lemma find_sym_ok:
  assumes "ischain ents p xs" "xs \<noteq> []" "n \<le> length s" "nm = take n s"
  shows "find_sym ents s n pe p =
    Some (case map_of (map prod.swap xs) nm of
        None \<Rightarrow> (0, fst (last xs))
      | Some a \<Rightarrow> (a, last (pe # map fst (takeWhile (\<lambda>x. snd x \<noteq> nm) xs))))"
  using assms
proof (induction ents p xs arbitrary: pe rule: ischain.induct)
  case (2 ents p a s' xs)
  obtain nx where e: "p = a" "a \<noteq> 0" "ents a = Some \<lparr>se_next = nx, namelen = length s', se_name = s' @ [0]\<rparr>"
      "ischain ents nx xs" using 2(2) by auto
  have eq: "length s' = n \<and> take n (s' @ [0]) = take n s \<longleftrightarrow> s' = nm" using 2(4,5) by auto
  show ?case
  proof (cases "s' = nm")
    case True
    then have "length s' = n" "take n (s' @ [0]) = take n s" "map_of (map prod.swap ((a, s') # xs)) nm = Some a"
      using eq by auto
    then show ?thesis using e True by (subst find_sym.simps) (simp del: take_append)
  next
    case False
    note ne = this
    show ?thesis
    proof (cases "xs = []")
      case True
      then show ?thesis using e ne eq by (subst find_sym.simps) auto
    next
      case False
      then have "nx \<noteq> 0" using ischain_zero [OF e(4)] by simp
      then show ?thesis using e ne eq False 2(1) [OF e(4) False 2(4,5), of a]
        by (subst find_sym.simps) (auto split: option.splits)
    qed
  qed
qed simp

lemma ischain_append:
  assumes "ischain ents p (xs @ (a, s) # ys)"
  shows "ischain ents a ((a, s) # ys)"
  using assms by (induction xs arbitrary: p) auto

text \<open>Re-linking: behind the last entry of the first part of a chain another chain may be hung.\<close>

lemma ischain_relink:
  assumes "ischain ents p (xs @ ys)" "xs \<noteq> []" "distinct (map fst xs)" "ents (fst (last xs)) = Some e"
    and "ischain (ents'(fst (last xs) \<mapsto> e\<lparr>se_next := nx\<rparr>)) nx zs"
    and "\<And>a. a \<in> fst ` set xs \<Longrightarrow> ents' a = ents a"
  shows "ischain (ents'(fst (last xs) \<mapsto> e\<lparr>se_next := nx\<rparr>)) p (xs @ zs)"
  using assms
proof (induction xs arbitrary: p)
  case (Cons x xs)
  obtain a s where x: "x = (a, s)" by fastforce
  then obtain n where n: "p = a" "a \<noteq> 0" "ents a = Some \<lparr>se_next = n, namelen = length s, se_name = s @ [0]\<rparr>"
      "ischain ents n (xs @ ys)" using Cons.prems(1) by auto
  show ?case
  proof (cases "xs = []")
    case True
    then show ?thesis using Cons.prems n x by auto
  next
    case False
    moreover have "a \<noteq> fst (last xs)" using Cons.prems(3) False x by (auto simp: last_in_set)
    moreover have "ischain (ents'(fst (last xs) \<mapsto> e\<lparr>se_next := nx\<rparr>)) n (xs @ zs)"
      using Cons.IH [OF n(4) False] Cons.prems False by (simp del: fun_upd_apply)
    ultimately show ?thesis using n x Cons.prems(6) by (simp del: fun_upd_apply add: fun_upd_other)
  qed
qed simp

section \<open>The table as a map\<close>

type_synonym buckets = "u32 \<Rightarrow> (nat \<times> u8 list) list"

definition symkey :: "u8 list \<Rightarrow> u32" where
  "symkey s = ucast (foldl crc_step 0 s AND 0xFFFFFFFF)"

definition chains_ok :: "(nat \<rightharpoonup> syment) \<Rightarrow> (u32 \<rightharpoonup> nat) \<Rightarrow> buckets \<Rightarrow> bool" where
  "chains_ok ents M B \<longleftrightarrow> finite (dom ents)
     \<and> (\<forall>k. if B k = [] then M k = None else \<exists>p. M k = Some p \<and> ischain ents p (B k))
     \<and> (\<forall>k. distinct (map snd (B k))) \<and> (\<forall>k x. x \<in> set (B k) \<longrightarrow> symkey (snd x) = k)"

definition sym_rep :: "sptree \<times> symmem \<Rightarrow> buckets \<Rightarrow> bool" where
  "sym_rep t B \<longleftrightarrow> (\<exists>M. sp_rep (fst t, spm (snd t)) M \<and> chains_ok (sents (snd t)) M B)"

definition sym_addr :: "buckets \<Rightarrow> u8 list \<rightharpoonup> nat" where
  "sym_addr B s = map_of (map prod.swap (B (symkey s))) s"

lemma crc32n_take: "n \<le> length s \<Longrightarrow> crc32n s n = Some (foldl crc_step 0 (take n s) AND 0xFFFFFFFF)"
  by (simp add: crc32n_def)

lemma sym_addr_in: "distinct (map snd (B (symkey s))) \<Longrightarrow> sym_addr B s = Some a \<longleftrightarrow> (a, s) \<in> set (B (symkey s))"
proof -
  assume "distinct (map snd (B (symkey s)))"
  then have "distinct (map fst (map prod.swap (B (symkey s))))" by (simp add: comp_def)
  then show ?thesis by (force simp: sym_addr_def map_of_eq_Some_iff)
qed

lemma sym_addr_none: "sym_addr B s = None \<longleftrightarrow> s \<notin> snd ` set (B (symkey s))"
  by (auto simp: sym_addr_def map_of_eq_None_iff image_image)

lemma chains_okD:
  assumes "chains_ok ents M B"
  shows "finite (dom ents)" "B k = [] \<Longrightarrow> M k = None"
    and "B k \<noteq> [] \<Longrightarrow> \<exists>p. M k = Some p \<and> ischain ents p (B k)"
    and "distinct (map snd (B k))"
  using assms unfolding chains_ok_def by metis+

lemma chains_ok_key: "chains_ok ents M B \<Longrightarrow> (a, s) \<in> set (B k) \<Longrightarrow> symkey s = k"
  unfolding chains_ok_def by force

text \<open>Chains with different keys have no entry in common.\<close>

lemma chains_apart:
  assumes "chains_ok ents M B" "(a, s) \<in> set (B k)" "(a, s') \<in> set (B k')"
  shows "s = s' \<and> k = k'"
proof -
  obtain p p' where p: "ischain ents p (B k)" "ischain ents p' (B k')"
    using chains_okD(3) [OF assms(1), of k] chains_okD(3) [OF assms(1), of k'] assms(2,3) by fastforce
  have "s = s'" using ischain_same_name [OF p assms(2,3)] .
  moreover have "symkey s = k" "symkey s' = k'" using chains_ok_key assms by auto
  ultimately show ?thesis by simp
qed

lemma chain_entry:
  assumes "chains_ok ents M B" "(a, s) \<in> set (B k)"
  shows "a \<noteq> 0 \<and> (\<exists>nx. ents a = Some \<lparr>se_next = nx, namelen = length s, se_name = s @ [0]\<rparr>)"
  using chains_okD(3) [OF assms(1), of k] ischain_entry [OF _ assms(2)] assms(2) by fastforce

text \<open>Changing one chain: the others are not touched.\<close>

lemma chains_ok_upd:
  assumes ok: "chains_ok ents M B" and fin: "finite (dom ents')"
    and new: "if c = [] then M' k = None else \<exists>p. M' k = Some p \<and> ischain ents' p c"
    and names: "distinct (map snd c)" "\<And>x. x \<in> set c \<Longrightarrow> symkey (snd x) = k"
    and kept: "\<And>k'. k' \<noteq> k \<Longrightarrow> M' k' = M k'" "\<And>a s k'. k' \<noteq> k \<Longrightarrow> (a, s) \<in> set (B k') \<Longrightarrow> ents' a = ents a"
  shows "chains_ok ents' M' (B(k := c))"
proof -
  have "if (B(k := c)) k' = [] then M' k' = None else \<exists>p. M' k' = Some p \<and> ischain ents' p ((B(k := c)) k')" for k'
  proof (cases "k' = k")
    case True
    then show ?thesis using new by simp
  next
    case False
    show ?thesis
    proof (cases "B k' = []")
      case True
      then show ?thesis using False kept(1) chains_okD(2) [OF ok] by simp
    next
      case ne: False
      then obtain p where p: "M k' = Some p" "ischain ents p (B k')" using chains_okD(3) [OF ok] by blast
      have "ischain ents' p (B k')" by (rule ischain_frame [OF p(2)]) (use kept(2) [OF False] in auto)
      then show ?thesis using False ne p(1) kept(1) by simp
    qed
  qed
  moreover have "distinct (map snd ((B(k := c)) k'))" for k' using names(1) chains_okD(4) [OF ok] by simp
  moreover have "symkey (snd x) = k'" if "x \<in> set ((B(k := c)) k')" for x k'
    using that names(2) chains_ok_key [OF ok, of "fst x" "snd x"] by (cases "k' = k") simp_all
  ultimately show ?thesis using fin unfolding chains_ok_def by blast
qed

section \<open>Searching\<close>

text \<open>The state all operations are in after the search for the node of a name.\<close>

definition searched :: "sptree \<times> symmem \<Rightarrow> buckets \<Rightarrow> u8 list \<Rightarrow> nat \<Rightarrow> nat \<Rightarrow> sptree \<Rightarrow> nat cells \<Rightarrow> symmem \<Rightarrow> (u32 \<rightharpoonup> nat) \<Rightarrow> bool" where
  "searched t B s n spl q h m M \<longleftrightarrow>
     crc32n s n = Some (foldl crc_step 0 (take n s) AND 0xFFFFFFFF)
   \<and> sp_lookup (symkey (take n s)) (fst t) (cells (spm (snd t))) = Some (spl, q, h)
   \<and> (snd t)\<lparr>spm := (spm (snd t))\<lparr>cells := h\<rparr>\<rparr> = m \<and> sents m = sents (snd t) \<and> cells (spm m) = h
   \<and> sp_rep (q, spm m) M \<and> chains_ok (sents m) M B
   \<and> (if B (symkey (take n s)) = [] then spl = 0 \<and> sym_addr B (take n s) = None
      else spl \<noteq> 0 \<and> sp_at (q, spm m) M spl (symkey (take n s))
        \<and> (\<exists>p. ld data h spl = Some (Some p) \<and> M (symkey (take n s)) = Some p \<and> ischain (sents m) p (B (symkey (take n s)))
            \<and> find_sym (sents m) s n 0 p = Some (case sym_addr B (take n s) of
                  None \<Rightarrow> (0, fst (last (B (symkey (take n s)))))
                | Some a \<Rightarrow> (a, last (0 # map fst (takeWhile (\<lambda>x. snd x \<noteq> take n s) (B (symkey (take n s)))))))))"

lemma sym_search:
  assumes "sym_rep t B" "n \<le> length s"
  shows "\<exists>spl q h m M. searched t B s n spl q h m M"
proof -
  let ?k = "symkey (take n s)"
  obtain M where M: "sp_rep (fst t, spm (snd t)) M" "chains_ok (sents (snd t)) M B"
    using assms(1) by (auto simp: sym_rep_def)
  obtain spl q h where l: "sp_lookup ?k (fst t) (cells (spm (snd t))) = Some (spl, q, h)"
      "sp_rep (q, (spm (snd t))\<lparr>cells := h\<rparr>) M"
      "case M ?k of None \<Rightarrow> spl = 0 | Some d \<Rightarrow> spl \<noteq> 0 \<and> sp_at (q, (spm (snd t))\<lparr>cells := h\<rparr>) M spl ?k \<and> ld data h spl = Some (Some d)"
    using sp_lookup_at [OF M(1), of ?k] by (elim exE conjE) (rule that)
  let ?m = "(snd t)\<lparr>spm := (spm (snd t))\<lparr>cells := h\<rparr>\<rparr>"
  have "searched t B s n spl q h ?m M"
  proof (cases "B ?k = []")
    case True
    then show ?thesis using chains_okD(2) [OF M(2) True] l M(2) assms(2)
      by (simp add: searched_def crc32n_take sym_addr_def)
  next
    case False
    obtain p where p: "M ?k = Some p" "ischain (sents (snd t)) p (B ?k)" using chains_okD(3) [OF M(2) False] by auto
    then show ?thesis using l M(2) assms(2) False find_sym_ok [OF p(2) False assms(2) refl, of 0]
      by (simp add: searched_def crc32n_take sym_addr_def)
  qed
  then show ?thesis by blast
qed

lemma searchedD:
  assumes "searched t B s n spl q h m M"
  shows "crc32n s n = Some (foldl crc_step 0 (take n s) AND 0xFFFFFFFF)"
    and "sp_lookup (ucast (foldl crc_step 0 (take n s) AND 0xFFFFFFFF)) (fst t) (cells (spm (snd t))) = Some (spl, q, h)"
    and "(snd t)\<lparr>spm := (spm (snd t))\<lparr>cells := h\<rparr>\<rparr> = m" "sents m = sents (snd t)" "cells (spm m) = h"
    and "sp_rep (q, spm m) M" "chains_ok (sents m) M B"
    and "B (symkey (take n s)) = [] \<Longrightarrow> spl = 0 \<and> sym_addr B (take n s) = None"
    and "B (symkey (take n s)) \<noteq> [] \<Longrightarrow> spl \<noteq> 0 \<and> sp_at (q, spm m) M spl (symkey (take n s))"
    and "B (symkey (take n s)) \<noteq> [] \<Longrightarrow> \<exists>p. ld data h spl = Some (Some p) \<and> M (symkey (take n s)) = Some p \<and> ischain (sents m) p (B (symkey (take n s)))
            \<and> find_sym (sents m) s n 0 p = Some (case sym_addr B (take n s) of
                  None \<Rightarrow> (0, fst (last (B (symkey (take n s)))))
                | Some a \<Rightarrow> (a, last (0 # map fst (takeWhile (\<lambda>x. snd x \<noteq> take n s) (B (symkey (take n s)))))))"
  using assms unfolding searched_def symkey_def [symmetric] by auto

lemma sym_addr_entry:
  assumes "chains_ok ents M B" "sym_addr B s = Some a"
  shows "(a, s) \<in> set (B (symkey s)) \<and> a \<noteq> 0"
proof -
  have "(a, s) \<in> set (B (symkey s))" using assms(2) chains_okD(4) [OF assms(1)] by (simp add: sym_addr_in)
  then show ?thesis using chain_entry [OF assms(1)] by blast
qed

lemma symbol_lookup_ok:
  assumes "sym_rep t B" "n \<le> length s"
  shows "\<exists>t'. symbol_lookup_db_mem (Some s) n t =
      Some (case sym_addr B (take n s) of None \<Rightarrow> 0 | Some a \<Rightarrow> spkey_of a, t') \<and> sym_rep t' B \<and> sents (snd t') = sents (snd t)"
proof -
  obtain spl q h m M where f: "searched t B s n spl q h m M" using sym_search [OF assms] by blast
  note l = searchedD [OF f]
  have "symbol_lookup_db_mem (Some s) n t = Some (case sym_addr B (take n s) of None \<Rightarrow> 0 | Some a \<Rightarrow> spkey_of a, q, m)"
  proof (cases "B (symkey (take n s)) = []")
    case True
    then show ?thesis using l(1-3) l(8) by (simp add: symbol_lookup_db_mem_def Let_def)
  next
    case False
    then obtain p where p: "ld data h spl = Some (Some p)"
      "find_sym (sents m) s n 0 p = Some (case sym_addr B (take n s) of None \<Rightarrow> (0, fst (last (B (symkey (take n s)))))
                | Some a \<Rightarrow> (a, last (0 # map fst (takeWhile (\<lambda>x. snd x \<noteq> take n s) (B (symkey (take n s)))))))"
      using l(10) by blast
    then show ?thesis using l(1-3) l(9) [OF False] sym_addr_entry [OF l(7)]
      by (auto simp: symbol_lookup_db_mem_def Let_def split: option.splits)
  qed
  then show ?thesis using l(4,6,7) by (auto simp: sym_rep_def)
qed

section \<open>Entering\<close>

definition malloc_ok :: "((nat \<rightharpoonup> syment) \<Rightarrow> nat) \<Rightarrow> bool" where
  "malloc_ok alloc \<longleftrightarrow> (\<forall>m. finite (dom m) \<longrightarrow> alloc m \<noteq> 0 \<and> m (alloc m) = None)"

definition add_name :: "((nat \<rightharpoonup> syment) \<Rightarrow> nat) \<Rightarrow> (nat \<rightharpoonup> syment) \<Rightarrow> u8 list \<Rightarrow> buckets \<Rightarrow> buckets" where
  "add_name alloc ents s B = (if sym_addr B s = None then B(symkey s := B (symkey s) @ [(alloc ents, s)]) else B)"

lemma symbol_db_ok:
  assumes rep: "sym_rep t B" and n: "n \<le> length s" and al: "malloc_ok alloc"
  shows "\<exists>t'. symbol_db_mem alloc junk (Some s) n t =
      Some (spkey_of (the (sym_addr (add_name alloc (sents (snd t)) (take n s) B) (take n s))), t')
    \<and> sym_rep t' (add_name alloc (sents (snd t)) (take n s) B)"
proof -
  let ?nm = "take n s"
  let ?k = "symkey ?nm"
  let ?a = "alloc (sents (snd t))"
  let ?B = "B(?k := B ?k @ [(?a, ?nm)])"
  let ?e = "\<lparr>se_next = 0, namelen = n, se_name = ?nm @ [0]\<rparr>"
  obtain spl q h m M where f: "searched t B s n spl q h m M" using sym_search [OF rep n] by blast
  note l = searchedD [OF f]
  have a: "?a \<noteq> 0" "sents m ?a = None" "finite (dom (sents m))"
    using al chains_okD(1) [OF l(7)] l(4) by (auto simp: malloc_ok_def)
  have ln: "length ?nm = n" using n by simp
  have fresh: "b \<noteq> ?a" if "(b, s') \<in> set (B k')" for b s' k'
    using chain_entry [OF l(7) that] a(2) by auto
  have self: "ischain ents' ?a [(?a, ?nm)]" if "ents' ?a = Some ?e" for ents' using that a(1) ln by simp
  have names: "distinct (map snd (B ?k @ [(?a, ?nm)]))" "\<And>x. x \<in> set (B ?k @ [(?a, ?nm)]) \<Longrightarrow> symkey (snd x) = ?k"
    if "sym_addr B ?nm = None"
    using that chains_okD(4) [OF l(7)] chains_ok_key [OF l(7)] by (auto simp: sym_addr_none)
  have key: "ucast (foldl crc_step 0 ?nm AND 0xFFFFFFFF) = ?k" by (simp add: symkey_def)
  consider (empty) "B ?k = []" | (hit) b where "B ?k \<noteq> []" "sym_addr B ?nm = Some b"
    | (chain) "B ?k \<noteq> []" "sym_addr B ?nm = None" by fastforce
  then show ?thesis
  proof cases
    case empty
    have none: "sym_addr B ?nm = None" using l(8) empty by simp
    obtain spl' q' sm h' where i: "sp_install junk ?k q (spm m) = Some (spl', q', sm)"
        "st (data_update (\<lambda>_. Some ?a)) (cells sm) spl' = Some h'" "sp_rep (q', sm\<lparr>cells := h'\<rparr>) (M(?k \<mapsto> ?a))"
      using sp_install_at [OF l(6), of junk ?k ?a] by blast
    let ?m = "m\<lparr>sents := (sents m)(?a \<mapsto> ?e), spm := sm\<lparr>cells := h'\<rparr>\<rparr>"
    have "chains_ok ((sents m)(?a \<mapsto> ?e)) (M(?k \<mapsto> ?a)) ?B"
      by (rule chains_ok_upd [OF l(7)]) (use a names [OF none] empty self fresh in \<open>auto\<close>)
    then have "sym_rep (q', ?m) ?B" using i(3) by (auto simp: sym_rep_def)
    moreover have "symbol_db_mem alloc junk (Some s) n t = Some (spkey_of ?a, q', ?m)"
      using l(1,2,4,8) l(3) [symmetric] empty i(1,2) key by (simp add: symbol_db_mem_def symbol_enter_def Let_def)
    ultimately show ?thesis using none empty by (simp add: add_name_def sym_addr_def)
  next
    case hit
    then obtain p where p: "ld data h spl = Some (Some p)"
        "find_sym (sents m) s n 0 p = Some (b, last (0 # map fst (takeWhile (\<lambda>x. snd x \<noteq> ?nm) (B ?k))))"
      using l(10) by fastforce
    have "symbol_db_mem alloc junk (Some s) n t = Some (spkey_of b, q, m)"
      using l(1,2,4) l(3) [symmetric] l(9) [OF hit(1)] p sym_addr_entry [OF l(7) hit(2)] by (simp add: symbol_db_mem_def Let_def)
    then show ?thesis using hit(2) l(6,7) by (auto simp: add_name_def sym_rep_def)
  next
    case chain
    then obtain p where p: "ld data h spl = Some (Some p)" "M ?k = Some p" "ischain (sents m) p (B ?k)"
        "find_sym (sents m) s n 0 p = Some (0, fst (last (B ?k)))"
      using l(10) by fastforce
    let ?pe = "fst (last (B ?k))"
    have pe: "(?pe, snd (last (B ?k))) \<in> set (B ?k)" using chain(1) by simp
    obtain e where e: "?pe \<noteq> 0" "sents m ?pe = Some e" using chain_entry [OF l(7) pe] by auto
    have pea: "?pe \<noteq> ?a" using fresh [OF pe] .
    let ?E = "((sents m)(?a \<mapsto> ?e))(?pe \<mapsto> e\<lparr>se_next := ?a\<rparr>)"
    have c: "ischain ?E p (B ?k @ [(?a, ?nm)])"
    proof (rule ischain_relink [where ys = "[]" and ents = "sents m"])
      show "ischain (sents m) p (B ?k @ [])" using p(3) by simp
      show "distinct (map fst (B ?k))" using ischain_distinct [OF p(3) chains_okD(4) [OF l(7)]] .
      show "ischain ?E ?a [(?a, ?nm)]" using pea by (intro self) simp
      show "((sents m)(?a \<mapsto> ?e)) b = sents m b" if "b \<in> fst ` set (B ?k)" for b
        using that fresh by fastforce
    qed (use chain e in auto)
    have "chains_ok ?E M ?B"
    proof (rule chains_ok_upd [OF l(7)])
      show "?E b = sents m b" if "k' \<noteq> ?k" "(b, s') \<in> set (B k')" for b s' k'
        using fresh [OF that(2)] chains_apart [OF l(7) that(2), of "snd (last (B ?k))" ?k] pe that(1) by auto
    qed (use a names [OF chain(2)] c p(2) in \<open>auto\<close>)
    then have "sym_rep (q, m\<lparr>sents := ?E\<rparr>) ?B" using l(6) by (auto simp: sym_rep_def)
    moreover have "symbol_db_mem alloc junk (Some s) n t = Some (spkey_of ?a, q, m\<lparr>sents := ?E\<rparr>)"
      using l(1,2,4) l(3) [symmetric] l(9) [OF chain(1)] p(1,4) e pea by (simp add: symbol_db_mem_def symbol_enter_def Let_def)
    moreover have "sym_addr ?B ?nm = Some ?a" using chain(2) by (simp add: sym_addr_def map_add_def)
    ultimately show ?thesis using chain(2) by (simp add: add_name_def)
  qed
qed

section \<open>Removing\<close>

definition del_name :: "u8 list \<Rightarrow> buckets \<Rightarrow> buckets" where
  "del_name s B = B(symkey s := filter (\<lambda>x. snd x \<noteq> s) (B (symkey s)))"

lemma chain_split:
  "map_of (map prod.swap xs) s = Some a \<Longrightarrow> \<exists>zs. xs = takeWhile (\<lambda>x. snd x \<noteq> s) xs @ (a, s) # zs"
  by (induction xs) (auto split: if_splits)

lemma filter_other: "sym_addr B s = None \<Longrightarrow> del_name s B = B"
proof -
  assume "sym_addr B s = None"
  then have "\<forall>x \<in> set (B (symkey s)). snd x \<noteq> s" by (auto simp: sym_addr_none)
  then show ?thesis by (simp add: del_name_def fun_upd_idem)
qed

lemma ischain_remove: "ischain ents p xs \<Longrightarrow> a \<notin> fst ` set xs \<Longrightarrow> ischain (ents(a := None)) p xs"
  by (erule ischain_frame) auto

lemma ischain_drop:
  assumes "ischain ents p (ys @ (a, s) # zs)" "distinct (map fst (ys @ (a, s) # zs))" "ents a = Some e"
  shows "ischain (ents(a := None)) (se_next e) zs"
  using assms by (induction ys arbitrary: p) (auto intro: ischain_remove simp del: fun_upd_apply)

lemma symbol_free_ok:
  assumes rep: "sym_rep t B" and n: "n \<le> length s"
  shows "\<exists>t'. symbol_free_db_mem (Some s) n t = Some t' \<and> sym_rep t' (del_name (take n s) B)"
proof -
  let ?nm = "take n s"
  let ?k = "symkey ?nm"
  obtain spl q h m M where f: "searched t B s n spl q h m M" using sym_search [OF rep n] by blast
  note l = searchedD [OF f]
  consider (empty) "B ?k = []" | (miss) "B ?k \<noteq> []" "sym_addr B ?nm = None"
    | (hit) a where "B ?k \<noteq> []" "sym_addr B ?nm = Some a" by fastforce
  then show ?thesis
  proof cases
    case empty
    then have "symbol_free_db_mem (Some s) n t = Some (q, m)"
      using l(1,2) l(3) [symmetric] l(8) by (simp add: symbol_free_db_mem_def Let_def)
    then show ?thesis using l(6-8) empty filter_other by (auto simp: sym_rep_def)
  next
    case miss
    then obtain p where p: "ld data h spl = Some (Some p)" "ischain (sents m) p (B ?k)"
        "find_sym (sents m) s n 0 p = Some (0, fst (last (B ?k)))"
      using l(10) by fastforce
    have "p \<noteq> 0" using ischain_zero [OF p(2)] miss(1) by simp
    then have "symbol_free_db_mem (Some s) n t = Some (q, m)"
      using l(1,2) l(3) [symmetric] l(9) [OF miss(1)] p by (simp add: symbol_free_db_mem_def Let_def)
    then show ?thesis using l(6,7) filter_other [OF miss(2)] by (auto simp: sym_rep_def)
  next
    case hit
    let ?ys = "takeWhile (\<lambda>x. snd x \<noteq> ?nm) (B ?k)"
    obtain zs where zs: "B ?k = ?ys @ (a, ?nm) # zs" using chain_split [OF hit(2) [unfolded sym_addr_def]] by blast
    define ys where "ys = ?ys"
    note zs = zs [folded ys_def]
    obtain p where p: "ld data h spl = Some (Some p)" "M ?k = Some p" "ischain (sents m) p (ys @ (a, ?nm) # zs)"
        "find_sym (sents m) s n 0 p = Some (a, last (0 # map fst ys))"
      using l(10) [OF hit(1)] hit(2) zs unfolding ys_def by auto
    have p0: "p \<noteq> 0" using ischain_zero [OF p(3)] by simp
    have at: "spl \<noteq> 0" "sp_at (q, spm m) M spl ?k" using l(9) [OF hit(1)] by auto
    have dn: "distinct (map snd (ys @ (a, ?nm) # zs))" using chains_okD(4) [OF l(7), of ?k] zs by simp
    have df: "distinct (map fst (ys @ (a, ?nm) # zs))" by (rule ischain_distinct [OF p(3) dn])
    have "\<forall>x \<in> set (ys @ zs). snd x \<noteq> ?nm" using dn by (auto simp: image_iff)
    then have flt: "filter (\<lambda>x. snd x \<noteq> ?nm) (B ?k) = ys @ zs" using zs by (simp add: filter_id_conv)
    have aB: "(a, ?nm) \<in> set (B ?k)" using zs by simp
    obtain e where e: "a \<noteq> 0" "sents m a = Some e" using chain_entry [OF l(7) aB] by auto
    have names: "distinct (map snd (ys @ zs))" "\<And>x. x \<in> set (ys @ zs) \<Longrightarrow> symkey (snd x) = ?k"
      using dn chains_ok_key [OF l(7), of "fst x" "snd x" ?k for x] zs by auto
    have fin: "finite (dom (sents m))" by (rule chains_okD(1) [OF l(7)])
    have tail: "ischain ((sents m)(a := None)) (se_next e) zs" by (rule ischain_drop [OF p(3) df e(2)])
    have apart: "b \<noteq> a'" if "k' \<noteq> ?k" "(b, s') \<in> set (B k')" "(a', s'') \<in> set (B ?k)" for b s' k' a' s''
      using chains_apart [OF l(7) that(2), of s'' ?k] that by auto
    show ?thesis
    proof (cases "ys = []")
      case True
      obtain h' where h': "st (data_update (\<lambda>_. Some (se_next e))) (cells (spm m)) spl = Some h'"
          "sp_at (q, (spm m)\<lparr>cells := h'\<rparr>) (M(?k \<mapsto> se_next e)) spl ?k" using sp_at_store [OF at(2)] by blast
      have ld': "ld data h' spl = Some (Some (se_next e))"
        using h'(1) at(1) by (auto simp: st_def ld_def split: if_splits)
      let ?m = "m\<lparr>spm := (spm m)\<lparr>cells := h'\<rparr>, sents := (sents m)(a := None)\<rparr>"
      have un: "symbol_unlink spl a 0 m = Some ?m" using e h'(1) by (simp add: symbol_unlink_def)
      show ?thesis
      proof (cases "se_next e = 0")
        case last: True
        then have "zs = []" using ischain_zero [OF tail] by simp
        obtain q' sm where d: "sp_delete spl q ((spm m)\<lparr>cells := h'\<rparr>) = Some (q', sm)" "sp_rep (q', sm) (M(?k := None))"
          using sp_at_delete [OF h'(2)] by auto
        have "chains_ok ((sents m)(a := None)) (M(?k := None)) (B(?k := []))"
          by (rule chains_ok_upd [OF l(7)]) (use fin apart aB in auto)
        then have "sym_rep (q', ?m\<lparr>spm := sm\<rparr>) (del_name ?nm B)"
          using d(2) flt True \<open>zs = []\<close> by (auto simp: sym_rep_def del_name_def)
        moreover have "symbol_free_db_mem (Some s) n t = Some (q', ?m\<lparr>spm := sm\<rparr>)"
          using l(1,2) l(3) [symmetric] at(1) p(1,4) True e un ld' last d(1) by (simp add: symbol_free_db_mem_def Let_def)
        ultimately show ?thesis by blast
      next
        case False
        have "chains_ok ((sents m)(a := None)) (M(?k \<mapsto> se_next e)) (B(?k := zs))"
          by (rule chains_ok_upd [OF l(7)]) (use fin apart aB tail names True False in auto)
        then have "sym_rep (q, ?m) (del_name ?nm B)"
          using sp_at_rep [OF h'(2)] flt True by (auto simp: sym_rep_def del_name_def)
        moreover have "symbol_free_db_mem (Some s) n t = Some (q, ?m)"
          using l(1,2) l(3) [symmetric] at(1) p(1,4) True e un ld' False by (simp add: symbol_free_db_mem_def Let_def)
        ultimately show ?thesis by blast
      qed
    next
      case False
      let ?pe = "fst (last ys)"
      have lst: "last (0 # map fst ys) = ?pe" using False by (simp add: last_map)
      have pe: "(?pe, snd (last ys)) \<in> set (B ?k)" using False zs by simp
      obtain f where f: "?pe \<noteq> 0" "sents m ?pe = Some f" using chain_entry [OF l(7) pe] by auto
      have pea: "?pe \<noteq> a" using df False by auto
      let ?E = "(sents m)(?pe \<mapsto> f\<lparr>se_next := se_next e\<rparr>, a := None)"
      have E: "?E = ((sents m)(a := None))(?pe \<mapsto> f\<lparr>se_next := se_next e\<rparr>)" using pea by (simp add: fun_upd_twist)
      have "fst ` set ys \<inter> fst ` set zs = {}" "?pe \<in> fst ` set ys" using df False by simp_all
      then have "?pe \<notin> fst ` set zs" by blast
      then have "((sents m)(a := None, ?pe \<mapsto> f\<lparr>se_next := se_next e\<rparr>)) b = ((sents m)(a := None)) b"
        if "b \<in> fst ` set zs" for b using that by (metis fun_upd_other)
      then have "ischain ?E (se_next e) zs" unfolding E by (intro ischain_frame [OF tail])
      then have c: "ischain ?E p (ys @ zs)"
        unfolding E using df f(2) by (intro ischain_relink [OF p(3) False]) auto
      have "chains_ok ?E M (B(?k := ys @ zs))"
      proof (rule chains_ok_upd [OF l(7)])
        show "?E b = sents m b" if "k' \<noteq> ?k" "(b, s') \<in> set (B k')" for b s' k'
          using apart [OF that aB] apart [OF that pe] by simp
      qed (use fin c p(2) names False in auto)
      then have "sym_rep (q, m\<lparr>sents := ?E\<rparr>) (del_name ?nm B)"
        using l(6) flt by (auto simp: sym_rep_def del_name_def)
      moreover have "symbol_unlink spl a ?pe m = Some (m\<lparr>sents := ?E\<rparr>)"
        using e f pea by (simp add: symbol_unlink_def)
      then have "symbol_free_db_mem (Some s) n t = Some (q, m\<lparr>sents := ?E\<rparr>)"
        using l(1,2) l(3) [symmetric] at(1) p(1,4) lst e p0 by (simp add: symbol_free_db_mem_def Let_def)
      ultimately show ?thesis by blast
    qed
  qed
qed

section \<open>Emptying\<close>

lemma free_chain_ok:
  "ischain ents p xs \<Longrightarrow> distinct (map fst xs) \<Longrightarrow>
     \<exists>ents'. free_chain p ents = Some ents' \<and> (\<forall>a. a \<notin> fst ` set xs \<longrightarrow> ents' a = ents a) \<and> dom ents' \<subseteq> dom ents"
proof (induction xs arbitrary: ents p)
  case Nil
  then show ?case by (subst free_chain.simps) simp
next
  case (Cons x xs)
  obtain a s where x: "x = (a, s)" by fastforce
  then obtain nx where e: "p = a" "a \<noteq> 0" "ents a = Some \<lparr>se_next = nx, namelen = length s, se_name = s @ [0]\<rparr>"
      "ischain ents nx xs" using Cons.prems(1) by auto
  have "ischain (ents(a := None)) nx xs" "distinct (map fst xs)"
    using ischain_remove [OF e(4)] Cons.prems(2) x by simp_all
  from Cons.IH [OF this] obtain ents' where r: "free_chain nx (ents(a := None)) = Some ents'"
      "\<forall>b. b \<notin> fst ` set xs \<longrightarrow> ents' b = (ents(a := None)) b" "dom ents' \<subseteq> dom (ents(a := None))"
    by (elim exE conjE) (rule that)
  have "free_chain p ents = Some ents'" using e r(1) by (subst free_chain.simps) simp
  then show ?case using r(2,3) x by auto
qed

lemma symbol_null_all:
  assumes "distinct ns" "\<forall>x \<in> set ns. \<exists>p. ld data h x = Some (Some p) \<and> ischain ents p (C x) \<and> distinct (map fst (C x))"
    and "\<And>x y. x \<in> set ns \<Longrightarrow> y \<in> set ns \<Longrightarrow> x \<noteq> y \<Longrightarrow> fst ` set (C x) \<inter> fst ` set (C y) = {}"
  shows "\<exists>ents'. visit_all symbol_null ns (h, ents) = Some (h, ents') \<and> dom ents' \<subseteq> dom ents"
  using assms
proof (induction ns arbitrary: ents)
  case (Cons x ns)
  obtain p where p: "ld data h x = Some (Some p)" "ischain ents p (C x)" "distinct (map fst (C x))"
    using Cons.prems(2) by auto
  obtain e1 where e1: "free_chain p ents = Some e1" "\<forall>a. a \<notin> fst ` set (C x) \<longrightarrow> e1 a = ents a" "dom e1 \<subseteq> dom ents"
    using free_chain_ok [OF p(2,3)] by blast
  have "\<exists>p. ld data h y = Some (Some p) \<and> ischain e1 p (C y) \<and> distinct (map fst (C y))" if y: "y \<in> set ns" for y
  proof -
    obtain p' where p': "ld data h y = Some (Some p')" "ischain ents p' (C y)" "distinct (map fst (C y))"
      using Cons.prems(2) y by auto
    have "fst ` set (C x) \<inter> fst ` set (C y) = {}" using Cons.prems(1,3) y by auto
    then have "ischain e1 p' (C y)" by (intro ischain_frame [OF p'(2)]) (use e1(2) in blast)
    then show ?thesis using p' by blast
  qed
  then obtain e2 where "visit_all symbol_null ns (h, e1) = Some (h, e2)" "dom e2 \<subseteq> dom e1"
    using Cons.IH [of e1] Cons.prems(1,3) by auto
  moreover have "symbol_null x (h, ents) = Some (h, e1)" using p(1) e1(1) by (simp add: symbol_null_def)
  ultimately show ?case using e1(3) by auto
qed auto

lemma symbol_null_keeps: "keeps_tree p t symbol_null"
  by (auto simp: keeps_tree_def symbol_null_def split: bind_splits)

lemma symbol_null_ok:
  assumes "sym_rep t B"
  shows "\<exists>t'. symbol_null_db t = Some t' \<and> sym_rep t' (\<lambda>_. [])"
proof -
  obtain q m where t: "t = (q, m)" by fastforce
  obtain M where M: "sp_rep (q, spm m) M" "chains_ok (sents m) M B" using assms t by (auto simp: sym_rep_def)
  obtain fl tr where s: "sp_ok (spm m) fl q tr" "content (cells (spm m)) tr = M"
      "\<forall>x \<in> set_tree tr. snd (the (kd (cells (spm m)) x)) \<noteq> None"
    using M(1) by (auto simp: sp_rep_def)
  let ?h = "cells (spm m)"
  let ?C = "\<lambda>x. B (nkey ?h x)"
  have it: "istree ?h 0 (sp_root q) tr" "keyed ?h tr" using s(1) by (auto simp: sp_ok_def)
  have dis: "distinct (inorder tr)" by (rule keyed_distinct [OF it(2)])
  have node: "\<exists>p. ld data ?h x = Some (Some p) \<and> ischain (sents m) p (?C x) \<and> distinct (map fst (?C x))"
    if x: "x \<in> set_tree tr" for x
  proof -
    obtain b where b: "?h x = Some b" "x \<noteq> 0" using istree_dom [OF it(1) x] istree_nonzero [OF it(1)] x by auto
    obtain p where p: "data b = Some p" using bspec [OF s(3) x] b(1) by (auto simp: kd_def)
    have Mk: "M (nkey ?h x) = Some p" using content_at [OF it(2) x] s(2) b(1) p by (simp add: kd_def)
    then have "?C x \<noteq> []" using chains_okD(2) [OF M(2)] by fastforce
    then have "ischain (sents m) p (?C x)" using chains_okD(3) [OF M(2)] Mk by fastforce
    then show ?thesis using b p ischain_distinct chains_okD(4) [OF M(2)] by (auto simp: ld_simp)
  qed
  have apart: "fst ` set (?C x) \<inter> fst ` set (?C y) = {}" if "x \<in> set_tree tr" "y \<in> set_tree tr" "x \<noteq> y" for x y
  proof -
    have "nkey ?h x \<noteq> nkey ?h y" using keyed_inj [OF it(2) that(1,2)] that(3) by blast
    then show ?thesis using chains_apart [OF M(2)] by fastforce
  qed
  obtain ents' where v: "visit_all symbol_null (inorder tr) (?h, sents m) = Some (?h, ents')" "dom ents' \<subseteq> dom (sents m)"
    using symbol_null_all [OF dis, of ?h "sents m" ?C] node apart by auto
  have "sp_scan symbol_null 0 q (?h, sents m) = Some (?h, ents')"
    using sp_scan_ok [of "(?h, sents m)" q tr symbol_null] it(1) dis symbol_null_keeps v(1) by simp
  moreover obtain q' sm where n: "sp_null q (spm m) = Some (q', sm)" "sp_rep (q', sm) Map.empty"
    using sp_null_rep [OF M(1)] by auto
  ultimately have "symbol_null_db t = Some (q', m\<lparr>spm := sm, sents := ents'\<rparr>)"
    using t by (simp add: symbol_null_db_def)
  moreover have "finite (dom ents')" using v(2) chains_okD(1) [OF M(2)] finite_subset by blast
  then have "chains_ok ents' Map.empty (\<lambda>_. [])" by (simp add: chains_ok_def)
  ultimately show ?thesis using n(2) by (auto simp: sym_rep_def)
qed

section \<open>Runs of operations\<close>

datatype sym_op = Intern "u8 list" | Remove "u8 list" | Clear

fun sym_run ::
    "((nat \<rightharpoonup> syment) \<Rightarrow> nat) \<Rightarrow> nat spblk \<Rightarrow> sym_op list \<Rightarrow> sptree \<times> symmem \<Rightarrow> (sptree \<times> symmem) option" where
  "sym_run alloc junk [] t = Some t"
| "sym_run alloc junk (Intern s # ops) t = do {
     (id, t) \<leftarrow> symbol_db_mem alloc junk (Some s) (length s) t;
     sym_run alloc junk ops t
   }"
| "sym_run alloc junk (Remove s # ops) t = do {
     t \<leftarrow> symbol_free_db_mem (Some s) (length s) t;
     sym_run alloc junk ops t
   }"
| "sym_run alloc junk (Clear # ops) t = do {
     t \<leftarrow> symbol_null_db t;
     sym_run alloc junk ops t
   }"

text \<open>The names in the table after a run.\<close>

definition after :: "sym_op \<Rightarrow> u8 list set \<Rightarrow> u8 list set" where
  "after x N = (case x of Intern s \<Rightarrow> insert s N | Remove s \<Rightarrow> N - {s} | Clear \<Rightarrow> {})"

definition names :: "buckets \<Rightarrow> u8 list set" where
  "names B = dom (sym_addr B)"

lemma names_add: "names (add_name alloc ents s B) = insert s (names B)"
proof (cases "sym_addr B s = None")
  case True
  have "sym_addr (add_name alloc ents s B) s' = None \<longleftrightarrow> sym_addr B s' = None \<and> s' \<noteq> s" for s'
    using True by (auto simp: sym_addr_none add_name_def)
  then show ?thesis by (auto simp: names_def dom_def)
next
  case False
  then show ?thesis by (auto simp: names_def add_name_def)
qed

lemma names_del: "names (del_name s B) = names B - {s}"
proof -
  have "sym_addr (del_name s B) s' = None \<longleftrightarrow> sym_addr B s' = None \<or> s' = s" for s'
    by (auto simp: sym_addr_none del_name_def)
  then show ?thesis by (auto simp: names_def dom_def)
qed

lemma sym_run_ok:
  assumes "malloc_ok alloc" "sym_rep t B"
  shows "\<exists>t' B'. sym_run alloc junk ops t = Some t' \<and> sym_rep t' B' \<and> names B' = fold after ops (names B)"
  using assms(2)
proof (induction ops arbitrary: t B)
  case (Cons x ops)
  have "\<exists>t1 B1. sym_run alloc junk [x] t = Some t1 \<and> sym_rep t1 B1 \<and> names B1 = after x (names B)"
  proof (cases x)
    case (Intern s)
    then show ?thesis using symbol_db_ok [OF Cons.prems _ assms(1), of "length s" s junk]
      by (fastforce simp: after_def names_add)
  next
    case (Remove s)
    then show ?thesis using symbol_free_ok [OF Cons.prems, of "length s" s] by (fastforce simp: after_def names_del)
  next
    case Clear
    have "names (\<lambda>_. []) = {}" by (simp add: names_def sym_addr_def dom_def)
    then show ?thesis using Clear symbol_null_ok [OF Cons.prems] by (fastforce simp: after_def)
  qed
  then obtain t1 B1 where t1: "sym_run alloc junk [x] t = Some t1" "sym_rep t1 B1" "names B1 = after x (names B)"
    by blast
  have "sym_run alloc junk (x # ops) t = sym_run alloc junk ops t1"
    using t1(1) by (cases x) (auto split: bind_splits)
  then show ?case using Cons.IH [OF t1(2)] t1(3) by simp
qed auto

lemma sym_addr_apart:
  assumes "chains_ok ents M B" "sym_addr B s = Some a" "sym_addr B s' = Some a"
  shows "s = s'"
  using chains_apart [OF assms(1)] sym_addr_entry [OF assms(1)] assms(2,3) by blast

definition no_nodes :: "nat spmem" where
  "no_nodes = \<lparr>cells = Map.empty, brk = 1, sp_free_list = 0, sp_allocated = 0, sp_entries = 0\<rparr>"

definition empty_table :: "sptree \<times> symmem" where
  "empty_table = (sp_init, \<lparr>spm = no_nodes, sents = Map.empty\<rparr>)"

lemma empty_table_rep: "sym_rep empty_table (\<lambda>_. [])"
proof -
  have "heap_ok no_nodes []" by (simp add: heap_ok_def no_nodes_def)
  then have "sp_rep (sp_init, no_nodes) Map.empty" by (rule sp_rep_empty) (simp add: sp_init_def)
  then show ?thesis by (auto simp: sym_rep_def empty_table_def chains_ok_def)
qed

lemma names_empty: "names (\<lambda>_. []) = {}"
  by (simp add: names_def sym_addr_def dom_def)

lemma spkey_of_small: "a < 2 ^ 32 \<Longrightarrow> unat (spkey_of a) = a"
  by (simp add: spkey_of_def unat_of_nat)

text \<open>
  C17. The symbol table. Whatever is entered, removed and cleared, in any order and with any collisions of the hash, the run is defined,
  and afterwards exactly the strings \<open>N\<close> that were entered last are found, each at an address of its own, where its name stands. As
  long as the addresses fit into the 32-bit keys, the keys are different from each other and from 0, and the name can be read back.
\<close>

theorem symbol_table:
  assumes "malloc_ok alloc" and "N = fold after ops {}"
  shows "\<exists>t addr. sym_run alloc junk ops empty_table = Some t
    \<and> inj_on addr N \<and> (\<forall>s \<in> N. addr s \<noteq> 0 \<and> map_option se_name (sents (snd t) (addr s)) = Some (s @ [0]))
    \<and> (\<forall>s. \<exists>t'. symbol_lookup_db_mem (Some s) (length s) t = Some (if s \<in> N then spkey_of (addr s) else 0, t'))
    \<and> (dom (sents (snd t)) \<subseteq> {..<2 ^ 32} \<longrightarrow> inj_on (spkey_of \<circ> addr) N
        \<and> (\<forall>s \<in> N. spkey_of (addr s) \<noteq> 0 \<and> pname (spkey_of (addr s)) (snd t) = Some (s @ [0])))"
proof -
  obtain t B where t: "sym_run alloc junk ops empty_table = Some t" "sym_rep t B" "names B = N"
    using sym_run_ok [OF assms(1) empty_table_rep] assms(2) names_empty by metis
  obtain M where M: "chains_ok (sents (snd t)) M B" using t(2) by (auto simp: sym_rep_def)
  let ?addr = "\<lambda>s. the (sym_addr B s)"
  have at: "sym_addr B s = Some (?addr s)" if "s \<in> N" for s using that t(3) by (auto simp: names_def)
  have ent: "?addr s \<noteq> 0 \<and> map_option se_name (sents (snd t) (?addr s)) = Some (s @ [0])" if "s \<in> N" for s
    using chain_entry [OF M, of "?addr s" s "symkey s"] sym_addr_entry [OF M at [OF that]] by auto
  have inj: "inj_on ?addr N"
  proof (rule inj_onI)
    fix x y assume "x \<in> N" "y \<in> N" "?addr x = ?addr y"
    then show "x = y" using sym_addr_apart [OF M at, of x y] at [of y] by simp
  qed
  have look: "\<exists>t'. symbol_lookup_db_mem (Some s) (length s) t = Some (if s \<in> N then spkey_of (?addr s) else 0, t')" for s
    using symbol_lookup_ok [OF t(2), of "length s" s] t(3) by (auto simp: names_def split: option.splits)
  have small: "inj_on (spkey_of \<circ> ?addr) N \<and> (\<forall>s \<in> N. spkey_of (?addr s) \<noteq> 0 \<and> pname (spkey_of (?addr s)) (snd t) = Some (s @ [0]))"
    if d: "dom (sents (snd t)) \<subseteq> {..<2 ^ 32}"
  proof -
    have u: "unat (spkey_of (?addr s)) = ?addr s" if "s \<in> N" for s
    proof -
      have "?addr s \<in> dom (sents (snd t))" using ent [OF that] by auto
      then show ?thesis using d by (intro spkey_of_small) auto
    qed
    have "inj_on (spkey_of \<circ> ?addr) N" using inj u by (metis (mono_tags, lifting) comp_def inj_on_def)
    moreover have "spkey_of (?addr s) \<noteq> 0" if "s \<in> N" for s using u [OF that] ent [OF that] by auto
    ultimately show ?thesis using u ent by (auto simp: pname_def)
  qed
  show ?thesis using t(1) inj ent look small by (intro exI [of _ t] exI [of _ ?addr]) blast
qed

definition next_block :: "nat \<Rightarrow> (nat \<rightharpoonup> syment) \<Rightarrow> nat" where
  "next_block align m = align * Suc (Max (insert 0 (dom m)))"

lemma next_block_ok: "0 < align \<Longrightarrow> malloc_ok (next_block align)"
proof -
  assume a: "0 < align"
  have "m (next_block align m) = None" if "finite (dom m)" for m
  proof (rule ccontr)
    assume "m (next_block align m) \<noteq> None"
    then have "next_block align m \<le> Max (insert 0 (dom m))" using that by (intro Max_ge) auto
    moreover have "Suc (Max (insert 0 (dom m))) \<le> next_block align m" unfolding next_block_def
      using mult_le_mono1 [of 1 align "Suc (Max (insert 0 (dom m)))"] a by (metis One_nat_def Suc_leI nat_mult_1)
    ultimately show False by simp
  qed
  then show ?thesis using a by (simp add: malloc_ok_def next_block_def)
qed

theorem symbol_table_witness:
  "\<exists>t (addr :: u8 list \<Rightarrow> nat). sym_run (next_block 16) undefined [Intern [97], Intern [98], Remove [97], Intern [99]] empty_table = Some t
    \<and> addr [98] \<noteq> addr [99] \<and> map_option se_name (sents (snd t) (addr [98])) = Some [98, 0]
    \<and> (\<exists>t'. symbol_lookup_db_mem (Some [97]) 1 t = Some (0, t'))"
proof -
  have N: "{[99], [98]} = fold after [Intern [97], Intern [98], Remove [97], Intern [99]] {}"
    by (auto simp: after_def)
  have m: "malloc_ok (next_block 16)" by (rule next_block_ok) simp
  obtain t addr where t: "sym_run (next_block 16) undefined [Intern [97], Intern [98], Remove [97], Intern [99]] empty_table = Some t"
      "inj_on addr {[99 :: u8], [98]}"
      "\<forall>s \<in> {[99], [98]}. addr s \<noteq> 0 \<and> map_option se_name (sents (snd t) (addr s)) = Some (s @ [0])"
      "\<forall>s. \<exists>t'. symbol_lookup_db_mem (Some s) (length s) t = Some (if s \<in> {[99], [98]} then spkey_of (addr s) else 0, t')"
    using symbol_table [OF m N, of undefined] by (elim exE conjE) (rule that)
  have "addr [98] \<noteq> addr [99]" using t(2) by (auto simp: inj_on_def)
  moreover have "\<exists>t'. symbol_lookup_db_mem (Some [97]) 1 t = Some (0, t')" using t(4) [rule_format, of "[97]"] by simp
  ultimately show ?thesis using t(1,3) by (intro exI [of _ t] exI [of _ addr]) auto
qed

text \<open>
  On a machine with 64-bit addresses the key is cut: an entry at a multiple of \<open>2 ^ 32\<close> has the key 0, which means not found, and two
  strings may get the same key.
\<close>

lemma symbol_key_cut:
  "malloc_ok (next_block (2 ^ 32)) \<and> (\<exists>t. symbol_db_mem (next_block (2 ^ 32)) junk (Some s) (length s) empty_table = Some (0, t))"
proof
  show m: "malloc_ok (next_block (2 ^ 32))" by (rule next_block_ok) simp
  have a: "the (sym_addr (add_name (next_block (2 ^ 32)) Map.empty s (\<lambda>_. [])) s) = 2 ^ 32"
    by (simp add: add_name_def sym_addr_def next_block_def)
  have "spkey_of (2 ^ 32) = 0" by (simp add: spkey_of_def)
  then show "\<exists>t. symbol_db_mem (next_block (2 ^ 32)) junk (Some s) (length s) empty_table = Some (0, t)"
    using symbol_db_ok [OF empty_table_rep _ m, of "length s" s junk] a by (auto simp: empty_table_def)
qed

text \<open>The variants for strings with NUL use the part before it.\<close>

lemma c_strlen_nul: "0 \<notin> set s \<Longrightarrow> c_strlen (s @ 0 # r) = Some (length s)"
  by (induction s) auto

lemma symbol_db_nul: "0 \<notin> set s \<Longrightarrow> symbol_db alloc junk (Some (s @ 0 # r)) t = symbol_db_mem alloc junk (Some (s @ 0 # r)) (length s) t"
  by (simp add: symbol_db_def c_strlen_nul)

text \<open>Both entry points of the hash agree.\<close>

lemma crc32_crc32n:
  assumes "0 \<notin> set s"
  shows "crc32 (s @ 0 # r) = crc32n s (length s)"
proof -
  have "crc32_loop (s @ 0 # r) c = Some (foldl crc_step c s AND 0xFFFFFFFF)" for c
    using assms by (induction s arbitrary: c) auto
  then show ?thesis by (simp add: crc32_def crc32n_def)
qed

end
