(* ===== verification/Hlog.thy ===== *)
theory Hlog
  imports Jsonout Config Rwlock
begin

text \<open>
  hlog.c: the log and the access log, each under a lock of rwlock.c. The functions are those of one thread: a call that would have to
  wait for a lock that the thread itself holds never returns, which is \<open>None\<close>, as is a read behind an array or through a null
  pointer. The system calls, the clock and the process and thread numbers are parameters.
\<close>

section \<open>State\<close>

datatype log_event =
    Wrote int string int
  | Stderr_text string
  | Syslog_text int string
  | Openlog string
  | Closelog
  | Opened string int
  | Closed int int

record log_state =
  lg_dest :: int
  lg_level :: int
  lg_name :: "string option"
  lg_dir :: "string option"
  lg_fname :: "string option"
  lg_file :: int
  log_file_lock :: rwlock
  accesslog_dir :: "string option"
  accesslog_fname :: "string option"
  accesslog_file :: int
  accesslog_lock :: rwlock
  lg_calls :: nat
  lg_out :: "log_event list"

text \<open>
  The answers to the calls; the clock's are printed, as the year to the microsecond and as the year to the second, and so are the numbers
  of the process and the thread (as unsigned number to standard error, as signed one to the file: the same below \<open>2 ^ 63\<close>).
\<close>

record log_env =
  le_open :: "nat \<Rightarrow> string \<Rightarrow> int"
  le_close :: "nat \<Rightarrow> int \<Rightarrow> int"
  le_write :: "nat \<Rightarrow> int \<Rightarrow> string \<Rightarrow> int"
  le_stamp :: "nat \<Rightarrow> string"
  le_date :: "nat \<Rightarrow> string"
  le_ids :: string
  le_num :: "int \<Rightarrow> string"
  le_strerror :: "nat \<Rightarrow> string"

definition note_ev :: "log_event \<Rightarrow> log_state \<Rightarrow> log_state" where
  "note_ev e s = s\<lparr>lg_calls := lg_calls s + 1, lg_out := lg_out s @ [e]\<rparr>"

section \<open>Locks\<close>

definition lock_result :: "outcome \<times> rwlock \<Rightarrow> rwlock option" where
  "lock_result r = (case fst r of Wait \<Rightarrow> None | Done _ \<Rightarrow> Some (snd r))"

definition wrlock_log :: "log_state \<Rightarrow> log_state option" where
  "wrlock_log s = map_option (\<lambda>l. s\<lparr>log_file_lock := l\<rparr>) (lock_result (rwl_wrlock 0 (log_file_lock s)))"

definition rdlock_log :: "log_state \<Rightarrow> log_state option" where
  "rdlock_log s = map_option (\<lambda>l. s\<lparr>log_file_lock := l\<rparr>) (lock_result (rwl_rdlock 0 (log_file_lock s)))"

definition wrunlock_log :: "log_state \<Rightarrow> log_state" where
  "wrunlock_log s = s\<lparr>log_file_lock := snd (snd (rwl_wrunlock 0 0 0 (log_file_lock s)))\<rparr>"

definition rdunlock_log :: "log_state \<Rightarrow> log_state" where
  "rdunlock_log s = s\<lparr>log_file_lock := snd (snd (rwl_rdunlock 0 0 0 (log_file_lock s)))\<rparr>"

definition wrlock_access :: "log_state \<Rightarrow> log_state option" where
  "wrlock_access s = map_option (\<lambda>l. s\<lparr>accesslog_lock := l\<rparr>) (lock_result (rwl_wrlock 0 (accesslog_lock s)))"

definition rdlock_access :: "log_state \<Rightarrow> log_state option" where
  "rdlock_access s = map_option (\<lambda>l. s\<lparr>accesslog_lock := l\<rparr>) (lock_result (rwl_rdlock 0 (accesslog_lock s)))"

definition wrunlock_access :: "log_state \<Rightarrow> log_state" where
  "wrunlock_access s = s\<lparr>accesslog_lock := snd (snd (rwl_wrunlock 0 0 0 (accesslog_lock s)))\<rparr>"

definition rdunlock_access :: "log_state \<Rightarrow> log_state" where
  "rdunlock_access s = s\<lparr>accesslog_lock := snd (snd (rwl_rdunlock 0 0 0 (accesslog_lock s)))\<rparr>"

section \<open>Messages\<close>

text \<open>
  \<^verbatim>\<open>write(fd, wb, len)\<close> after \<^verbatim>\<open>len = snprintf(wb, LOG_LEN, ...)\<close> of the text \<open>line\<close> and
  \<^verbatim>\<open>wb[LOG_LEN-1] = 0\<close>: the length is that of the whole text, which may be more than the array holds.
\<close>

definition write_line :: "log_env \<Rightarrow> int \<Rightarrow> string \<Rightarrow> log_state \<Rightarrow> (int \<times> log_state) option" where
  "write_line env fd line s =
     (let len = length line; wb = take (LOG_LEN - 1) line @ [CHR 0x00] in
      if len \<le> LOG_LEN then
        let bytes = take len wb; w = le_write env (lg_calls s) fd bytes
        in Some (w, note_ev (Wrote fd bytes w) s)
      else None)"

definition hlog_line :: "log_env \<Rightarrow> int \<Rightarrow> string \<Rightarrow> log_state \<Rightarrow> string" where
  "hlog_line env priority str s = le_stamp env (lg_calls s) @ '' '' @ (case lg_name s of None \<Rightarrow> ''gnuais'' | Some n \<Rightarrow> n)
     @ le_ids env @ '' '' @ log_levelnames ! nat priority @ '': '' @ str @ [CHR 0x0A]"

text \<open>\<open>msg\<close> is the message as formatted; the array it is formatted into holds \<open>LOG_LEN\<close> characters.\<close>

definition hlog :: "log_env \<Rightarrow> int \<Rightarrow> string \<Rightarrow> log_state \<Rightarrow> (int \<times> log_state) option" where
  "hlog env priority msg s =
     (let priority = (if priority > 7 then 7 else if priority < 0 then 0 else priority) in
      if priority > lg_level s then Some (0, s)
      else do {
        let str = take (LOG_LEN - 1) msg;
        let line = hlog_line env priority str s;
        if lg_dest s = L_STDERR then do {
          s \<leftarrow> rdlock_log s;
          let s = note_ev (Stderr_text line) s;
          Some (1, rdunlock_log s)
        } else if lg_dest s = L_FILE \<and> lg_file s \<ge> 0 then do {
          s \<leftarrow> rdlock_log s;
          (w, s) \<leftarrow> write_line env (lg_file s) line s;
          s \<leftarrow> (if w \<noteq> int (length line) then do {
              fname \<leftarrow> lg_fname s;
              Some (note_ev (Stderr_text (''logger: Could not write to '' @ fname @ '' (fd '' @ le_num env (lg_file s) @ ''): ''
                @ le_strerror env (lg_calls s) @ [CHR 0x0A])) s)
            } else Some s);
          Some (1, rdunlock_log s)
        } else if lg_dest s = L_SYSLOG then do {
          s \<leftarrow> rdlock_log s;
          let s = note_ev (Syslog_text priority (log_levelnames ! nat priority @ '': '' @ str)) s;
          Some (1, rdunlock_log s)
        } else Some (1, s)
      })"

section \<open>Opening and closing the log\<close>

text \<open>The result on the left: the process has ended with \<^verbatim>\<open>exit(1)\<close>.\<close>

definition open_log_held :: "log_env \<Rightarrow> string \<Rightarrow> bool \<Rightarrow> log_state \<Rightarrow> (log_state + log_state) option" where
  "open_log_held env nm reopen s = do {
     let s = s\<lparr>lg_name := Some nm\<rparr>;
     let s = (if lg_dest s = L_SYSLOG then note_ev (Openlog nm) s else s);
     if lg_dest s = L_FILE then do {
       dir \<leftarrow> lg_dir s;
       let fname = dir @ ''/gnuais.log'';
       let fd = le_open env (lg_calls s) fname;
       let s = note_ev (Opened fname fd) (s\<lparr>lg_fname := Some fname, lg_file := fd\<rparr>);
       if fd < 0 then Some (Inl (note_ev (Stderr_text (''logger: Could not open '' @ fname @ '': '' @ le_strerror env (lg_calls s) @ [CHR 0x0A])) s))
       else do {
         let s = wrunlock_log s;
         (r, s) \<leftarrow> hlog env 7 (''Log file '' @ fname @ '' '' @ (if reopen then ''re'' else '''') @ ''opened on fd '' @ le_num env (lg_file s)) s;
         Some (Inr s)
       }
     } else Some (Inr (wrunlock_log s))
   }"

definition open_log :: "log_env \<Rightarrow> string \<Rightarrow> bool \<Rightarrow> log_state \<Rightarrow> (log_state + log_state) option" where
  "open_log env nm reopen s = do {
     s \<leftarrow> (if \<not> reopen then wrlock_log s else Some s);
     open_log_held env nm reopen s
   }"

definition close_log :: "log_env \<Rightarrow> bool \<Rightarrow> log_state \<Rightarrow> (log_state + log_state) option" where
  "close_log env reopen s = do {
     nm \<leftarrow> lg_name s;
     s \<leftarrow> wrlock_log s;
     let s = s\<lparr>lg_name := None\<rparr>;
     s \<leftarrow> (if lg_dest s = L_SYSLOG then Some (note_ev Closelog s)
       else if lg_dest s = L_FILE then do {
         let r = le_close env (lg_calls s) (lg_file s);
         let s = note_ev (Closed (lg_file s) r) s;
         s \<leftarrow> (if r \<noteq> 0 then do {
             fname \<leftarrow> lg_fname s;
             Some (note_ev (Stderr_text (''hemserv logger: Could not close log file '' @ fname @ '': '' @ le_strerror env (lg_calls s) @ [CHR 0x0A])) s)
           } else Some s);
         Some (s\<lparr>lg_file := -1, lg_fname := None\<rparr>)
       } else Some s);
     if reopen then open_log env nm True s else Some (Inr (wrunlock_log s))
   }"

section \<open>The access log\<close>

definition accesslog_open_held :: "log_env \<Rightarrow> string \<Rightarrow> log_state \<Rightarrow> (int \<times> log_state) option" where
  "accesslog_open_held env logd s = do {
     let fname = logd @ ''/gnuais.access.log'';
     let fd = le_open env (lg_calls s) fname;
     let s = note_ev (Opened fname fd) (s\<lparr>accesslog_dir := Some logd, accesslog_fname := Some fname, accesslog_file := fd\<rparr>);
     s \<leftarrow> (if fd < 0 then map_option snd (hlog env 2 (''Could not open '' @ fname @ '': '' @ le_strerror env (lg_calls s)) s) else Some s);
     let s = wrunlock_access s;
     Some (accesslog_file s, s)
   }"

definition accesslog_open :: "log_env \<Rightarrow> string \<Rightarrow> bool \<Rightarrow> log_state \<Rightarrow> (int \<times> log_state) option" where
  "accesslog_open env logd reopen s = do {
     s \<leftarrow> (if \<not> reopen then wrlock_access s else Some s);
     accesslog_open_held env logd s
   }"

definition accesslog_close :: "log_env \<Rightarrow> string option \<Rightarrow> log_state \<Rightarrow> (int \<times> log_state) option" where
  "accesslog_close env reopenpath s = do {
     (r, s) \<leftarrow> hlog env 7 ''Closing access log...'' s;
     s \<leftarrow> wrlock_access s;
     (r, s) \<leftarrow> hlog env 7 ''Closing access log, got lock'' s;
     let r = le_close env (lg_calls s) (accesslog_file s);
     let s = note_ev (Closed (accesslog_file s) r) s;
     s \<leftarrow> (if r \<noteq> 0 then do {
         fname \<leftarrow> accesslog_fname s;
         map_option snd (hlog env 2 (''Could not close '' @ fname @ '': '' @ le_strerror env (lg_calls s)) s)
       } else Some s);
     let s = s\<lparr>accesslog_fname := None, accesslog_dir := None, accesslog_file := -1\<rparr>;
     case reopenpath of
       Some path \<Rightarrow> accesslog_open env path True s
     | None \<Rightarrow> Some (0, wrunlock_access s)
   }"

definition accesslog :: "log_env \<Rightarrow> string \<Rightarrow> log_state \<Rightarrow> (int \<times> log_state) option" where
  "accesslog env msg s = do {
     let str = take (LOG_LEN - 1) msg;
     let line = ''['' @ le_date env (lg_calls s) @ ''] '' @ str @ [CHR 0x0A];
     s \<leftarrow> rdlock_access s;
     s \<leftarrow> (if accesslog_file s \<ge> 0 then do {
         (w, s) \<leftarrow> write_line env (accesslog_file s) line s;
         if w \<noteq> int (length line) then do {
           fname \<leftarrow> accesslog_fname s;
           map_option snd (hlog env 2 (''Could not write to '' @ fname @ '' (fd '' @ le_num env (accesslog_file s) @ ''): ''
             @ le_strerror env (lg_calls s)) s)
         } else Some s
       } else if accesslog_file s \<noteq> -666 then do {
         (r, s) \<leftarrow> hlog env 3 ''Access log not open, log lines are lost!'' s;
         Some (s\<lparr>accesslog_file := -666\<rparr>)
       } else Some s);
     Some (1, rdunlock_access s)
   }"

text \<open>The file with the process number; the results of the three calls on it are arguments.\<close>

definition writepid :: "log_env \<Rightarrow> string \<Rightarrow> bool \<Rightarrow> bool \<Rightarrow> bool \<Rightarrow> log_state \<Rightarrow> (int \<times> log_state) option" where
  "writepid env nm opened printed closed_ok s =
     (let complain = (\<lambda>what. map_option (\<lambda>r. (0, snd r)) (hlog env 2 (''Could not '' @ what @ le_strerror env (lg_calls s)) s)) in
      if \<not> opened then complain (''open '' @ nm @ '' for writing: '')
      else if \<not> printed then complain (''write to '' @ nm @ '': '')
      else if \<not> closed_ok then complain (''close '' @ nm @ '': '')
      else Some (1, s))"

section \<open>Messages are written under the lock\<close>

definition lock_free :: "rwlock \<Rightarrow> bool" where
  "lock_free l \<longleftrightarrow> valid l = RWLOCK_VALID \<and> r_active l = 0 \<and> w_active l = 0 \<and> r_wait l = 0 \<and> w_wait l = 0"

definition clamp :: "int \<Rightarrow> int" where
  "clamp p = (if p > 7 then 7 else if p < 0 then 0 else p)"

text \<open>\<open>s'\<close> is \<open>s\<close> after more calls of the system.\<close>

definition only_out :: "log_state \<Rightarrow> log_state \<Rightarrow> bool" where
  "only_out s s' \<longleftrightarrow> (\<exists>c es. s' = s\<lparr>lg_calls := c, lg_out := lg_out s @ es\<rparr>)"

lemma only_out_refl: "only_out s s"
  unfolding only_out_def by (rule exI [of _ "lg_calls s"], rule exI [of _ "[]"]) simp

lemma only_out_note: "only_out s (note_ev e s)"
  unfolding only_out_def note_ev_def by (rule exI, rule exI, rule refl)

lemma only_out_trans: "only_out s s' \<Longrightarrow> only_out s' s'' \<Longrightarrow> only_out s s''"
  unfolding only_out_def by (elim exE) (simp, metis append_assoc)

lemma only_out_simps:
  assumes "only_out s s'"
  shows "lg_dest s' = lg_dest s" "lg_level s' = lg_level s" "lg_name s' = lg_name s" "lg_dir s' = lg_dir s" "lg_file s' = lg_file s"
    "lg_fname s' = lg_fname s" "log_file_lock s' = log_file_lock s" "accesslog_fname s' = accesslog_fname s" "accesslog_file s' = accesslog_file s"
    "accesslog_lock s' = accesslog_lock s"
  using assms by (auto simp: only_out_def)

lemma read_cycle:
  assumes "lock_free (log_file_lock s)"
  shows "\<exists>h. rdlock_log s = Some h \<and> lg_calls h = lg_calls s \<and> lg_file h = lg_file s \<and> lg_fname h = lg_fname s
    \<and> (\<forall>e. rdunlock_log (note_ev e h) = note_ev e s) \<and> (\<forall>e e'. rdunlock_log (note_ev e (note_ev e' h)) = note_ev e (note_ev e' s))"
  using assms
  by (cases s, cases "log_file_lock s")
    (simp add: lock_free_def rdlock_log_def lock_result_def rwl_rdlock_def rdunlock_log_def rwl_rdunlock_def note_ev_def)

text \<open>
  A message is lost, written, or undefined, and the last exactly when it goes to a file and the whole line is longer than the array.
\<close>

definition overlong :: "log_env \<Rightarrow> int \<Rightarrow> string \<Rightarrow> log_state \<Rightarrow> bool" where
  "overlong env p msg s \<longleftrightarrow> clamp p \<le> lg_level s \<and> lg_dest s = L_FILE \<and> lg_file s \<ge> 0
     \<and> LOG_LEN < length (hlog_line env (clamp p) (take (LOG_LEN - 1) msg) s)"

lemma write_line_short: "length line \<le> LOG_LEN \<Longrightarrow> \<exists>w e. write_line env fd line s = Some (w, note_ev e s)"
  by (simp add: write_line_def Let_def) blast

definition named :: "log_state \<Rightarrow> bool" where
  "named s \<longleftrightarrow> (lg_file s \<ge> 0 \<longrightarrow> lg_fname s \<noteq> None)"

lemma hlog_cases:
  assumes "lock_free (log_file_lock s)" and "named s"
  shows "if overlong env p msg s then hlog env p msg s = None
    else \<exists>r s'. hlog env p msg s = Some (r, s') \<and> only_out s s'"
proof (cases "clamp p > lg_level s")
  case True
  then show ?thesis using only_out_refl by (auto simp: hlog_def overlong_def Let_def clamp_def)
next
  case False
  let ?line = "hlog_line env (clamp p) (take (LOG_LEN - 1) msg) s"
  obtain h where h: "rdlock_log s = Some h" "lg_calls h = lg_calls s" "\<And>e. rdunlock_log (note_ev e h) = note_ev e s"
      "\<And>e e'. rdunlock_log (note_ev e (note_ev e' h)) = note_ev e (note_ev e' s)"
      "lg_file h = lg_file s" "lg_fname h = lg_fname s"
    using read_cycle [OF assms(1)] by blast
  have c: "(if p > 7 then 7 else if p < 0 then 0 else p) = clamp p" by (simp add: clamp_def)
  have o2: "only_out s (note_ev e (note_ev e' s))" for e e' using only_out_trans only_out_note by blast
  have d: "L_STDERR \<noteq> L_FILE" "L_SYSLOG \<noteq> L_FILE" "L_SYSLOG \<noteq> L_STDERR" by (simp_all add: L_STDERR_def L_FILE_def L_SYSLOG_def)
  then consider (err) "lg_dest s = L_STDERR" "lg_dest s \<noteq> L_FILE" | (to_file) "lg_dest s = L_FILE" "lg_file s \<ge> 0" "lg_dest s \<noteq> L_STDERR"
    | (other) "lg_dest s \<noteq> L_STDERR" "\<not> (lg_dest s = L_FILE \<and> lg_file s \<ge> 0)"
    by fastforce
  then show ?thesis
  proof cases
    case err
    then show ?thesis using False h only_out_note [of s] by (simp add: hlog_def c overlong_def Let_def)
  next
    case to_file
    show ?thesis
    proof (cases "length ?line \<le> LOG_LEN")
      case True
      obtain w e where w: "write_line env (lg_file s) ?line h = Some (w, note_ev e h)" using write_line_short [OF True] by blast
      obtain f where f: "lg_fname s = Some f" using assms(2) to_file by (auto simp: named_def)
      have fn: "lg_fname (note_ev e h) = Some f" for e using h(6) f by (simp add: note_ev_def)
      have "\<exists>e'. hlog env p msg s = Some (1, if w \<noteq> int (length ?line) then note_ev e' (note_ev e s) else note_ev e s)"
        unfolding hlog_def c Let_def using to_file False
        by (simp only: h(1,5) w fn Option.bind.simps prod.case if_True if_False simp_thms not_less)
          (cases "w = int (length ?line)"; simp add: h(3,4) fn; blast)
      then obtain e' where "hlog env p msg s = Some (1, if w \<noteq> int (length ?line) then note_ev e' (note_ev e s) else note_ev e s)" ..
      moreover have "\<not> overlong env p msg s" using True by (simp add: overlong_def)
      ultimately show ?thesis using only_out_note [of s e] o2 [of e' e] by simp
    next
      case len: False
      have "overlong env p msg s" using len to_file False by (simp add: overlong_def)
      moreover have "hlog env p msg s = None" unfolding hlog_def c Let_def using to_file False len
        by (simp only: h(1,5) write_line_def Let_def Option.bind.simps if_True if_False simp_thms not_less) simp
      ultimately show ?thesis by simp
    qed
  next
    case other
    have no: "\<not> overlong env p msg s" using other(2) by (auto simp: overlong_def)
    show ?thesis
    proof (cases "lg_dest s = L_SYSLOG")
      case True
      have "\<exists>e. hlog env p msg s = Some (1, note_ev e s)"
        unfolding hlog_def c Let_def
        by (simp only: False True d h(1,3) Option.bind.simps if_True if_False simp_thms) blast
      then show ?thesis using no only_out_note by auto
    next
      case neither: False
      have "hlog env p msg s = Some (1, s)"
        unfolding hlog_def c Let_def by (simp only: False other neither if_False)
      then show ?thesis using no only_out_refl by auto
    qed
  qed
qed

section \<open>Every operation returns\<close>

text \<open>Bounds under which no line is too long: they hold for any sensible clock, process number, name and directory.\<close>

definition short_env :: "log_env \<Rightarrow> bool" where
  "short_env env \<longleftrightarrow> (\<forall>n. length (le_stamp env n) \<le> 32) \<and> (\<forall>n. length (le_date env n) \<le> 32) \<and> length (le_ids env) \<le> 64
     \<and> (\<forall>i. length (le_num env i) \<le> 16) \<and> (\<forall>n. length (le_strerror env n) \<le> 256)"

definition well_named :: "int \<Rightarrow> string option \<Rightarrow> string option \<Rightarrow> int \<Rightarrow> bool" where
  "well_named dest nm fn fd \<longleftrightarrow> (fd \<ge> 0 \<longrightarrow> fn \<noteq> None) \<and> (dest = L_FILE \<and> nm \<noteq> None \<longrightarrow> fn \<noteq> None)"

definition log_inv :: "log_state \<Rightarrow> bool" where
  "log_inv s \<longleftrightarrow> lock_free (log_file_lock s) \<and> lock_free (accesslog_lock s)
     \<and> (\<forall>nm. lg_name s = Some nm \<longrightarrow> length nm \<le> 256) \<and> (lg_dest s = L_FILE \<longrightarrow> lg_dir s \<noteq> None)
     \<and> (\<forall>d. lg_dir s = Some d \<longrightarrow> length d \<le> 1024)
     \<and> (accesslog_file s \<ge> 0 \<longrightarrow> accesslog_fname s \<noteq> None) \<and> (\<forall>f. accesslog_fname s = Some f \<longrightarrow> length f \<le> 1100)
     \<and> well_named (lg_dest s) (lg_name s) (lg_fname s) (lg_file s)"

lemma log_invD:
  assumes "log_inv s"
  shows "lock_free (log_file_lock s)" "lock_free (accesslog_lock s)" "lg_name s = Some nm \<Longrightarrow> length nm \<le> 256"
    "lg_dest s = L_FILE \<Longrightarrow> lg_dir s \<noteq> None" "lg_dir s = Some d \<Longrightarrow> length d \<le> 1024"
    "accesslog_file s \<ge> 0 \<Longrightarrow> accesslog_fname s \<noteq> None" "accesslog_fname s = Some f \<Longrightarrow> length f \<le> 1100"
    "lg_file s \<ge> 0 \<Longrightarrow> lg_fname s \<noteq> None" "lg_dest s = L_FILE \<Longrightarrow> lg_name s \<noteq> None \<Longrightarrow> lg_fname s \<noteq> None"
  using assms by (auto simp: log_inv_def well_named_def)

lemma log_inv_only_out: "log_inv s \<Longrightarrow> only_out s s' \<Longrightarrow> log_inv s'"
  by (simp add: log_inv_def only_out_simps)

lemma level_name: "0 \<le> p \<Longrightarrow> p \<le> 7 \<Longrightarrow> length (log_levelnames ! nat p) \<le> 7"
proof -
  assume "0 \<le> p" "p \<le> 7"
  then have "nat p < length log_levelnames" by (simp add: log_levelnames_def)
  then have "log_levelnames ! nat p \<in> set log_levelnames" by (rule nth_mem)
  then show ?thesis by (auto simp: log_levelnames_def)
qed

lemma hlog_line_length:
  assumes "short_env env" "\<forall>nm. lg_name s = Some nm \<longrightarrow> length nm \<le> 256" "0 \<le> p" "p \<le> 7"
  shows "length (hlog_line env p str s) \<le> 370 + length str"
proof -
  define nm where "nm = (case lg_name s of None \<Rightarrow> ''gnuais'' | Some n \<Rightarrow> n)"
  have "length nm \<le> 256" unfolding nm_def using assms(2) by (cases "lg_name s") auto
  moreover have "length (log_levelnames ! nat p) \<le> 7" by (rule level_name [OF assms(3,4)])
  moreover have "length (le_stamp env (lg_calls s)) \<le> 32" "length (le_ids env) \<le> 64" using assms(1) by (simp_all add: short_env_def)
  ultimately show ?thesis unfolding hlog_line_def nm_def [symmetric] by simp
qed

lemma not_overlong:
  assumes "short_env env" "\<forall>nm. lg_name s = Some nm \<longrightarrow> length nm \<le> 256" "length msg \<le> 7000"
  shows "\<not> overlong env p msg s"
proof -
  have "0 \<le> clamp p" "clamp p \<le> 7" by (simp_all add: clamp_def)
  then have "length (hlog_line env (clamp p) (take (LOG_LEN - 1) msg) s) \<le> 370 + length (take (LOG_LEN - 1) msg)"
    by (rule hlog_line_length [OF assms(1,2)])
  also have "\<dots> \<le> LOG_LEN" using assms(3) unfolding length_take by (simp add: LOG_LEN_def)
  finally show ?thesis by (simp add: overlong_def)
qed

abbreviation nice_log :: "log_state \<Rightarrow> bool" where
  "nice_log s \<equiv> (\<forall>nm. lg_name s = Some nm \<longrightarrow> length nm \<le> 256) \<and> (lg_file s \<ge> 0 \<longrightarrow> lg_fname s \<noteq> None)"

lemma hlog_ok:
  assumes "short_env env" "lock_free (log_file_lock s)" "nice_log s" "length msg \<le> 7000"
  shows "\<exists>r s'. hlog env p msg s = Some (r, s') \<and> only_out s s'"
  using hlog_cases [OF assms(2), of env p msg] not_overlong [OF assms(1) _ assms(4)] assms(3) by (simp add: named_def)

text \<open>Locking for writing and unlocking.\<close>

lemma write_lock:
  assumes "lock_free (log_file_lock s)"
  shows "\<exists>l. wrlock_log s = Some (s\<lparr>log_file_lock := l\<rparr>) \<and> snd (snd (rwl_wrunlock 0 0 0 l)) = log_file_lock s"
  using assms
  by (cases s, cases "log_file_lock s")
    (auto simp: lock_free_def wrlock_log_def lock_result_def rwl_wrlock_def rwl_wrunlock_def Let_def)

lemma write_lock_access:
  assumes "lock_free (accesslog_lock s)"
  shows "\<exists>l. wrlock_access s = Some (s\<lparr>accesslog_lock := l\<rparr>) \<and> snd (snd (rwl_wrunlock 0 0 0 l)) = accesslog_lock s"
  using assms
  by (cases s, cases "accesslog_lock s")
    (auto simp: lock_free_def wrlock_access_def lock_result_def rwl_wrlock_def rwl_wrunlock_def Let_def)

lemma read_lock_access:
  assumes "lock_free (accesslog_lock s)"
  shows "\<exists>l. rdlock_access s = Some (s\<lparr>accesslog_lock := l\<rparr>) \<and> snd (snd (rwl_rdunlock 0 0 0 l)) = accesslog_lock s"
  using assms
  by (cases s, cases "accesslog_lock s")
    (auto simp: lock_free_def rdlock_access_def lock_result_def rwl_rdlock_def rwl_rdunlock_def)

lemma unlock_restores:
  "snd (snd (rwl_wrunlock 0 0 0 l)) = log_file_lock s \<Longrightarrow> wrunlock_log (s'\<lparr>log_file_lock := l\<rparr>) = s'\<lparr>log_file_lock := log_file_lock s\<rparr>"
  by (cases s') (simp add: wrunlock_log_def)

text \<open>
  \<open>s'\<close> is the end of a program in state \<open>s\<close> whose log file could not be opened: the last two calls are the one that failed and the
  line about it on standard error.
\<close>

definition log_unopened :: "log_env \<Rightarrow> log_state \<Rightarrow> log_state \<Rightarrow> bool" where
  "log_unopened env s s' \<longleftrightarrow> lg_dest s = L_FILE \<and> (\<exists>d n es. lg_dir s = Some d \<and> le_open env n (d @ ''/gnuais.log'') < 0
     \<and> lg_out s' = es @ [Opened (d @ ''/gnuais.log'') (le_open env n (d @ ''/gnuais.log'')),
         Stderr_text (''logger: Could not open '' @ d @ ''/gnuais.log'' @ '': '' @ le_strerror env (n + 1) @ [CHR 0x0A])])"

abbreviation same_dest :: "log_state \<Rightarrow> log_state \<Rightarrow> bool" where
  "same_dest s s' \<equiv> lg_dest s' = lg_dest s \<and> lg_dir s' = lg_dir s"

lemma log_unopened_same: "same_dest s t \<Longrightarrow> log_unopened env t s' = log_unopened env s s'"
  by (simp add: log_unopened_def)

text \<open>The log is opened with its lock held, and left with the lock free.\<close>

lemma open_log_held_ok:
  assumes "short_env env" "length nm \<le> 256" "lg_dest s = L_FILE \<Longrightarrow> \<exists>d. lg_dir s = Some d \<and> length d \<le> 1024"
    and "lock_free (snd (snd (rwl_wrunlock 0 0 0 (log_file_lock s))))" "lg_file s \<ge> 0 \<longrightarrow> lg_fname s \<noteq> None"
  shows "\<exists>r. open_log_held env nm reopen s = Some r \<and> (case r of
      Inl s' \<Rightarrow> log_unopened env s s'
    | Inr s' \<Rightarrow> \<exists>fn fd c es. s' = s\<lparr>lg_name := Some nm, log_file_lock := snd (snd (rwl_wrunlock 0 0 0 (log_file_lock s))),
        lg_fname := fn, lg_file := fd, lg_calls := c, lg_out := es\<rparr> \<and> well_named (lg_dest s) (Some nm) fn fd)"
proof (cases "lg_dest s = L_FILE")
  case False
  then show ?thesis using assms(5)
    by (cases s, cases "lg_dest s = L_SYSLOG") (simp_all add: open_log_held_def note_ev_def wrunlock_log_def Let_def well_named_def)
next
  case True
  obtain d where d: "lg_dir s = Some d" "length d \<le> 1024" using assms(3) True by blast
  let ?fname = "d @ ''/gnuais.log''"
  let ?fd = "le_open env (lg_calls s) ?fname"
  have ns: "L_FILE \<noteq> L_SYSLOG" by (simp add: L_FILE_def L_SYSLOG_def)
  define u where "u = note_ev (Opened ?fname ?fd) (s\<lparr>lg_name := Some nm, lg_fname := Some ?fname, lg_file := ?fd\<rparr>)"
  have u: "open_log_held env nm reopen s = (if ?fd < 0
      then Some (Inl (note_ev (Stderr_text (''logger: Could not open '' @ ?fname @ '': '' @ le_strerror env (lg_calls u) @ [CHR 0x0A])) u))
      else Option.bind (hlog env 7 (''Log file '' @ ?fname @ '' '' @ (if reopen then ''re'' else '''') @ ''opened on fd '' @ le_num env (lg_file (wrunlock_log u))) (wrunlock_log u))
        (\<lambda>(r, s). Some (Inr s)))"
    unfolding open_log_held_def u_def Let_def using True d(1) ns by simp
  show ?thesis
  proof (cases "?fd < 0")
    case True
    let ?fin = "note_ev (Stderr_text (''logger: Could not open '' @ ?fname @ '': '' @ le_strerror env (lg_calls u) @ [CHR 0x0A])) u"
    have "lg_out ?fin = lg_out s @ [Opened ?fname ?fd,
        Stderr_text (''logger: Could not open '' @ d @ ''/gnuais.log'' @ '': '' @ le_strerror env (lg_calls s + 1) @ [CHR 0x0A])]"
      by (simp add: u_def note_ev_def)
    then have "log_unopened env s ?fin" unfolding log_unopened_def using True d(1) \<open>lg_dest s = L_FILE\<close> by blast
    then show ?thesis using u True by (simp only: if_True) simp
  next
    case False
    have n: "length (le_num env i) \<le> 16" for i using assms(1) by (simp add: short_env_def)
    have "\<exists>r s'. hlog env 7 (''Log file '' @ ?fname @ '' '' @ (if reopen then ''re'' else '''') @ ''opened on fd '' @ le_num env (lg_file (wrunlock_log u))) (wrunlock_log u)
        = Some (r, s') \<and> only_out (wrunlock_log u) s'"
      by (rule hlog_ok [OF assms(1)])
        (use assms(2,4) d(2) n [of "lg_file (wrunlock_log u)"] in \<open>simp_all add: wrunlock_log_def u_def note_ev_def\<close>)
    then obtain r s' where s': "open_log_held env nm reopen s = Some (Inr s')" "only_out (wrunlock_log u) s'"
      using u False by auto
    then show ?thesis by (cases s) (auto simp: only_out_def wrunlock_log_def u_def note_ev_def well_named_def)
  qed
qed

lemma log_inv_set:
  "log_inv s \<Longrightarrow> \<forall>n. nm = Some n \<longrightarrow> length n \<le> 256 \<Longrightarrow> well_named (lg_dest s) nm fn fd \<Longrightarrow>
    log_inv (s\<lparr>lg_name := nm, log_file_lock := log_file_lock s, lg_fname := fn, lg_file := fd, lg_calls := c, lg_out := es\<rparr>)"
  by (simp add: log_inv_def)

lemma open_log_ok:
  assumes "short_env env" "log_inv s" "length nm \<le> 256"
  shows "\<exists>r. open_log env nm False s = Some r \<and> (case r of
      Inl s' \<Rightarrow> log_unopened env s s' | Inr s' \<Rightarrow> log_inv s' \<and> same_dest s s' \<and> lg_name s' = Some nm \<and> accesslog_fname s' = accesslog_fname s)"
proof -
  obtain l where l: "wrlock_log s = Some (s\<lparr>log_file_lock := l\<rparr>)" "snd (snd (rwl_wrunlock 0 0 0 l)) = log_file_lock s"
    using write_lock [OF log_invD(1) [OF assms(2)]] by blast
  have d: "\<exists>d. lg_dir s = Some d \<and> length d \<le> 1024" if "lg_dest s = L_FILE" using assms(2) that by (auto simp: log_inv_def)
  obtain r where r: "open_log_held env nm False (s\<lparr>log_file_lock := l\<rparr>) = Some r" "case r of
      Inl s' \<Rightarrow> log_unopened env (s\<lparr>log_file_lock := l\<rparr>) s'
    | Inr s' \<Rightarrow> \<exists>fn fd c es. s' = s\<lparr>log_file_lock := l\<rparr>\<lparr>lg_name := Some nm, log_file_lock := snd (snd (rwl_wrunlock 0 0 0 (log_file_lock (s\<lparr>log_file_lock := l\<rparr>)))),
        lg_fname := fn, lg_file := fd, lg_calls := c, lg_out := es\<rparr> \<and> well_named (lg_dest (s\<lparr>log_file_lock := l\<rparr>)) (Some nm) fn fd"
    using open_log_held_ok [OF assms(1,3), of "s\<lparr>log_file_lock := l\<rparr>" False] d l(2) log_invD(1,8) [OF assms(2)] by auto
  have "open_log env nm False s = Some r" using l(1) r(1) by (simp add: open_log_def)
  moreover have "case r of Inl s' \<Rightarrow> log_unopened env s s' | Inr s' \<Rightarrow> log_inv s' \<and> same_dest s s' \<and> lg_name s' = Some nm \<and> accesslog_fname s' = accesslog_fname s"
    using r(2) l(2) log_inv_set [OF assms(2), of "Some nm"] assms(3) log_unopened_same [of s "s\<lparr>log_file_lock := l\<rparr>"] by (cases r) auto
  ultimately show ?thesis by blast
qed

lemma close_log_ok:
  assumes "short_env env" "log_inv s" "lg_name s \<noteq> None"
  shows "\<exists>r. close_log env reopen s = Some r \<and> (case r of
      Inl s' \<Rightarrow> reopen \<and> log_unopened env s s'
    | Inr s' \<Rightarrow> log_inv s' \<and> same_dest s s' \<and> lg_name s' = (if reopen then lg_name s else None) \<and> accesslog_fname s' = accesslog_fname s)"
proof -
  obtain nm where nm: "lg_name s = Some nm" "length nm \<le> 256" using assms(2,3) by (auto simp: log_inv_def)
  obtain l where l: "wrlock_log s = Some (s\<lparr>log_file_lock := l\<rparr>)" "snd (snd (rwl_wrunlock 0 0 0 l)) = log_file_lock s"
    using write_lock [OF log_invD(1) [OF assms(2)]] by blast
  have fn: "\<exists>f. lg_fname s = Some f" if "lg_dest s = L_FILE" using log_invD(9) [OF assms(2) that assms(3)] by simp
  obtain t where c: "close_log env reopen s = (if reopen then open_log_held env nm True t else Some (Inr (wrunlock_log t)))"
    and t: "\<exists>fn fd c es. t = s\<lparr>log_file_lock := l, lg_name := None, lg_fname := fn, lg_file := fd, lg_calls := c, lg_out := es\<rparr>
      \<and> well_named (lg_dest s) None fn fd"
  proof (cases "lg_dest s = L_FILE")
    case False
    let ?u = "s\<lparr>log_file_lock := l, lg_name := None\<rparr>"
    let ?t = "if lg_dest s = L_SYSLOG then note_ev Closelog ?u else ?u"
    show ?thesis
    proof (rule that)
      show "close_log env reopen s = (if reopen then open_log_held env nm True ?t else Some (Inr (wrunlock_log ?t)))"
        using False by (simp add: close_log_def open_log_def nm(1) l(1) Let_def)
      show "\<exists>fn fd c es. ?t = s\<lparr>log_file_lock := l, lg_name := None, lg_fname := fn, lg_file := fd, lg_calls := c, lg_out := es\<rparr>
          \<and> well_named (lg_dest s) None fn fd"
        using False log_invD(8) [OF assms(2)] by (cases s) (auto simp: note_ev_def well_named_def)
    qed
  next
    case True
    obtain f where f: "lg_fname s = Some f" using fn True by blast
    have ns: "L_FILE \<noteq> L_SYSLOG" by (simp add: L_FILE_def L_SYSLOG_def)
    let ?u = "s\<lparr>log_file_lock := l, lg_name := None\<rparr>"
    define r where "r = le_close env (lg_calls ?u) (lg_file ?u)"
    define v where "v = note_ev (Closed (lg_file ?u) r) ?u"
    let ?w = "if r \<noteq> 0 then note_ev (Stderr_text (''hemserv logger: Could not close log file '' @ f @ '': '' @ le_strerror env (lg_calls v) @ [CHR 0x0A])) v else v"
    let ?t = "?w\<lparr>lg_file := -1, lg_fname := None\<rparr>"
    have vf: "lg_fname v = Some f" using f by (simp add: v_def note_ev_def)
    show ?thesis
    proof (rule that)
      show "close_log env reopen s = (if reopen then open_log_held env nm True ?t else Some (Inr (wrunlock_log ?t)))"
        unfolding close_log_def nm(1) l(1) Option.bind.simps Let_def
        using True ns vf by (simp add: r_def v_def open_log_def)
      show "\<exists>fn fd c es. ?t = s\<lparr>log_file_lock := l, lg_name := None, lg_fname := fn, lg_file := fd, lg_calls := c, lg_out := es\<rparr>
          \<and> well_named (lg_dest s) None fn fd"
        by (cases s) (auto simp: note_ev_def well_named_def v_def)
    qed
  qed
  have d: "\<exists>d. lg_dir t = Some d \<and> length d \<le> 1024" if "lg_dest t = L_FILE" using assms(2) that t by (auto simp: log_inv_def)
  show ?thesis
  proof (cases reopen)
    case False
    have "log_inv (wrunlock_log t)" "same_dest s (wrunlock_log t)" "lg_name (wrunlock_log t) = None" "accesslog_fname (wrunlock_log t) = accesslog_fname s"
      using t l(2) log_inv_set [OF assms(2), of None] by (auto simp: wrunlock_log_def)
    then show ?thesis using c False by simp
  next
    case True
    have lt: "log_file_lock t = l" "lg_dest t = lg_dest s" using t by auto
    have lf: "lg_file t \<ge> 0 \<longrightarrow> lg_fname t \<noteq> None" using t by (auto simp: well_named_def)
    have un: "log_unopened env t s' = log_unopened env s s'" for s' by (rule log_unopened_same) (use t in auto)
    obtain r where r: "open_log_held env nm True t = Some r" "case r of
        Inl s' \<Rightarrow> log_unopened env s s'
      | Inr s' \<Rightarrow> \<exists>fn fd c es. s' = t\<lparr>lg_name := Some nm, log_file_lock := log_file_lock s,
          lg_fname := fn, lg_file := fd, lg_calls := c, lg_out := es\<rparr> \<and> well_named (lg_dest s) (Some nm) fn fd"
      using open_log_held_ok [OF assms(1) nm(2), of t True] d log_invD(1) [OF assms(2)] lf unfolding lt l(2) un by blast
    have "case r of Inl s' \<Rightarrow> reopen \<and> log_unopened env s s'
      | Inr s' \<Rightarrow> log_inv s' \<and> same_dest s s' \<and> lg_name s' = (if reopen then lg_name s else None) \<and> accesslog_fname s' = accesslog_fname s"
      using r(2) t True nm log_inv_set [OF assms(2), of "Some nm"] by (cases r) auto
    then show ?thesis using c True r(1) by auto
  qed
qed

text \<open>The access log, which writes its own troubles to the log: the two locks are different ones.\<close>

lemma only_outE:
  assumes "only_out s s'"
  obtains c es where "s' = s\<lparr>lg_calls := c, lg_out := es\<rparr>"
  using assms by (auto simp: only_out_def)

lemma accesslog_open_held_ok:
  assumes "short_env env" "length logd \<le> 1000" "lock_free (log_file_lock s)" "nice_log s"
  shows "\<exists>r fd c es. accesslog_open_held env logd s = Some (r, s\<lparr>accesslog_dir := Some logd,
      accesslog_fname := Some (logd @ ''/gnuais.access.log''), accesslog_file := fd,
      accesslog_lock := snd (snd (rwl_wrunlock 0 0 0 (accesslog_lock s))), lg_calls := c, lg_out := es\<rparr>)"
proof -
  let ?fname = "logd @ ''/gnuais.access.log''"
  let ?fd = "le_open env (lg_calls s) ?fname"
  let ?msg = "\<lambda>s. ''Could not open '' @ ?fname @ '': '' @ le_strerror env (lg_calls s)"
  define u where "u = note_ev (Opened ?fname ?fd) (s\<lparr>accesslog_dir := Some logd, accesslog_fname := Some ?fname, accesslog_file := ?fd\<rparr>)"
  have "length (le_strerror env (lg_calls u)) \<le> 256" using assms(1) by (simp add: short_env_def)
  then have "length (?msg u) \<le> 7000" using assms(2) by simp
  then obtain r s' where h: "hlog env 2 (?msg u) u = Some (r, s')" "only_out u s'"
    using hlog_ok [OF assms(1), of u "?msg u" 2] assms(3,4) by (auto simp: u_def note_ev_def)
  obtain c es where s': "s' = u\<lparr>lg_calls := c, lg_out := es\<rparr>" using h(2) by (rule only_outE)
  have "accesslog_open_held env logd s = (let t = (if ?fd < 0 then s' else u) in Some (accesslog_file (wrunlock_access t), wrunlock_access t))"
    using h(1) by (simp add: accesslog_open_held_def Let_def u_def)
  then show ?thesis unfolding s' by (cases s) (simp add: Let_def u_def note_ev_def wrunlock_access_def)
qed

lemma log_inv_access_set:
  "log_inv s \<Longrightarrow> fd \<ge> 0 \<longrightarrow> fn \<noteq> None \<Longrightarrow> \<forall>f. fn = Some f \<longrightarrow> length f \<le> 1100 \<Longrightarrow>
    log_inv (s\<lparr>accesslog_dir := dr, accesslog_fname := fn, accesslog_file := fd, accesslog_lock := accesslog_lock s, lg_calls := c, lg_out := es\<rparr>)"
  by (simp add: log_inv_def)

lemma accesslog_open_ok:
  assumes "short_env env" "log_inv s" "length logd \<le> 1000"
  shows "\<exists>r s'. accesslog_open env logd False s = Some (r, s') \<and> log_inv s' \<and> same_dest s s' \<and> lg_name s' = lg_name s \<and> accesslog_fname s' \<noteq> None"
proof -
  obtain l where l: "wrlock_access s = Some (s\<lparr>accesslog_lock := l\<rparr>)" "snd (snd (rwl_wrunlock 0 0 0 l)) = accesslog_lock s"
    using write_lock_access [OF log_invD(2) [OF assms(2)]] by blast
  let ?s = "s\<lparr>accesslog_lock := l\<rparr>"
  have "lock_free (log_file_lock ?s)" "nice_log ?s" using assms(2) by (simp_all add: log_inv_def well_named_def)
  then obtain r fd c es where r: "accesslog_open_held env logd ?s = Some (r, ?s\<lparr>accesslog_dir := Some logd,
      accesslog_fname := Some (logd @ ''/gnuais.access.log''), accesslog_file := fd,
      accesslog_lock := snd (snd (rwl_wrunlock 0 0 0 (accesslog_lock ?s))), lg_calls := c, lg_out := es\<rparr>)"
    using accesslog_open_held_ok [OF assms(1,3), of ?s] by blast
  have "accesslog_open env logd False s = accesslog_open_held env logd ?s" using l(1) by (simp add: accesslog_open_def)
  then show ?thesis using r l(2) log_inv_access_set [OF assms(2), of fd "Some (logd @ ''/gnuais.access.log'')"] assms(3) by simp
qed

lemma hlog_ok_out:
  assumes "short_env env" "lock_free (log_file_lock s)" "nice_log s" "length msg \<le> 7000"
  obtains r c es where "hlog env p msg s = Some (r, s\<lparr>lg_calls := c, lg_out := es\<rparr>)"
  using hlog_ok [OF assms, of p] by (auto elim: only_outE)

lemma accesslog_close_ok:
  assumes e: "short_env env" and i: "log_inv s" and f: "accesslog_fname s = Some f" and p: "\<forall>q. path = Some q \<longrightarrow> length q \<le> 1000"
  shows "\<exists>r s'. accesslog_close env path s = Some (r, s') \<and> log_inv s' \<and> same_dest s s' \<and> lg_name s' = lg_name s
    \<and> (accesslog_fname s' = None \<longleftrightarrow> path = None)"
proof -
  have fr: "lock_free (log_file_lock s)" "nice_log s" "length f \<le> 1100"
    using i f by (auto simp: log_inv_def well_named_def)
  obtain r1 c1 o1 where h1: "hlog env 7 ''Closing access log...'' s = Some (r1, s\<lparr>lg_calls := c1, lg_out := o1\<rparr>)"
    by (rule hlog_ok_out [OF e fr(1,2), of "''Closing access log...''" 7]) simp_all
  let ?s1 = "s\<lparr>lg_calls := c1, lg_out := o1\<rparr>"
  have "lock_free (accesslog_lock ?s1)" using i by (simp add: log_inv_def)
  then obtain l where l: "wrlock_access ?s1 = Some (?s1\<lparr>accesslog_lock := l\<rparr>)" "snd (snd (rwl_wrunlock 0 0 0 l)) = accesslog_lock s"
    using write_lock_access [of ?s1] by auto
  let ?s2 = "?s1\<lparr>accesslog_lock := l\<rparr>"
  obtain r2 c2 o2 where h2: "hlog env 7 ''Closing access log, got lock'' ?s2 = Some (r2, ?s2\<lparr>lg_calls := c2, lg_out := o2\<rparr>)"
    by (rule hlog_ok_out [OF e, of ?s2 "''Closing access log, got lock''" 7]) (use fr in simp_all)
  let ?s3 = "?s2\<lparr>lg_calls := c2, lg_out := o2\<rparr>"
  define r where "r = le_close env (lg_calls ?s3) (accesslog_file ?s3)"
  define s4 where "s4 = note_ev (Closed (accesslog_file ?s3) r) ?s3"
  have s4: "s4 = s\<lparr>accesslog_lock := l, lg_calls := c2 + 1, lg_out := o2 @ [Closed (accesslog_file s) r]\<rparr>"
    by (simp add: s4_def note_ev_def)
  let ?msg = "''Could not close '' @ f @ '': '' @ le_strerror env (lg_calls s4)"
  have "length (le_strerror env (lg_calls s4)) \<le> 256" using e by (simp add: short_env_def)
  then have "length ?msg \<le> 7000" using fr(3) by simp
  then obtain r5 c5 o5 where h5: "hlog env 2 ?msg s4 = Some (r5, s4\<lparr>lg_calls := c5, lg_out := o5\<rparr>)"
    by (rule hlog_ok_out [OF e, of s4 ?msg 2, rotated 2]) (use fr s4 in simp_all)
  have f4: "accesslog_fname s4 = Some f" using f s4 by simp
  obtain c6 o6 where s6: "(if r \<noteq> 0 then do { fname \<leftarrow> accesslog_fname s4;
        map_option snd (hlog env 2 (''Could not close '' @ fname @ '': '' @ le_strerror env (lg_calls s4)) s4) } else Some s4)
      = Some (s\<lparr>accesslog_lock := l, lg_calls := c6, lg_out := o6\<rparr>)"
  proof (cases "r = 0")
    case True
    then show ?thesis using that [of "o2 @ [Closed (accesslog_file s) r]" "c2 + 1"] s4 by simp
  next
    case False
    then show ?thesis using that [of o5 c5] h5 s4 f4 by simp
  qed
  let ?s7 = "s\<lparr>accesslog_lock := l, lg_calls := c6, lg_out := o6, accesslog_fname := None, accesslog_dir := None, accesslog_file := -1\<rparr>"
  have c: "accesslog_close env path s = (case path of Some q \<Rightarrow> accesslog_open_held env q ?s7 | None \<Rightarrow> Some (0, wrunlock_access ?s7))"
    unfolding accesslog_close_def h1 Option.bind.simps prod.case l(1) h2 Let_def r_def [symmetric] s4_def [symmetric] s6 accesslog_open_def
    by (simp split: option.split)
  show ?thesis
  proof (cases path)
    case None
    have "log_inv (wrunlock_access ?s7)"
      using i l(2) by (simp add: log_inv_def wrunlock_access_def)
    then show ?thesis using c None by (simp add: wrunlock_access_def)
  next
    case (Some q)
    have "length q \<le> 1000" "lock_free (log_file_lock ?s7)" "nice_log ?s7"
      using p Some fr by simp_all
    then obtain r fd c es where r: "accesslog_open_held env q ?s7 = Some (r, ?s7\<lparr>accesslog_dir := Some q,
        accesslog_fname := Some (q @ ''/gnuais.access.log''), accesslog_file := fd,
        accesslog_lock := snd (snd (rwl_wrunlock 0 0 0 (accesslog_lock ?s7))), lg_calls := c, lg_out := es\<rparr>)"
      using accesslog_open_held_ok [OF e, of q ?s7] by blast
    moreover have "log_inv (?s7\<lparr>accesslog_dir := Some q, accesslog_fname := Some (q @ ''/gnuais.access.log''), accesslog_file := fd,
        accesslog_lock := snd (snd (rwl_wrunlock 0 0 0 (accesslog_lock ?s7))), lg_calls := c, lg_out := es\<rparr>)"
      using i l(2) p Some by (simp add: log_inv_def)
    ultimately show ?thesis using c Some by simp
  qed
qed

lemma accesslog_ok:
  assumes e: "short_env env" and i: "log_inv s" and m: "length msg \<le> 7000"
  shows "\<exists>s'. accesslog env msg s = Some (1, s') \<and> log_inv s' \<and> same_dest s s' \<and> lg_name s' = lg_name s \<and> accesslog_fname s' = accesslog_fname s"
proof -
  have fr: "lock_free (log_file_lock s)" "nice_log s" using i by (auto simp: log_inv_def well_named_def)
  obtain l where l: "rdlock_access s = Some (s\<lparr>accesslog_lock := l\<rparr>)" "snd (snd (rwl_rdunlock 0 0 0 l)) = accesslog_lock s"
    using read_lock_access [OF log_invD(2) [OF i]] by blast
  let ?s1 = "s\<lparr>accesslog_lock := l\<rparr>"
  define line where "line = ''['' @ le_date env (lg_calls s) @ ''] '' @ take (LOG_LEN - 1) msg @ [CHR 0x0A]"
  have "length (le_date env (lg_calls s)) \<le> 32" using e by (simp add: short_env_def)
  moreover have "length (take (LOG_LEN - 1) msg) \<le> 7000" using m unfolding length_take by simp
  ultimately have len: "length line \<le> LOG_LEN" unfolding line_def by (simp add: LOG_LEN_def del: length_take)
  obtain w ev where w: "write_line env (accesslog_file s) line ?s1 = Some (w, note_ev ev ?s1)" using write_line_short [OF len] by blast
  define body where "body = (if accesslog_file ?s1 \<ge> 0 then do {
         (w, s) \<leftarrow> write_line env (accesslog_file ?s1) line ?s1;
         if w \<noteq> int (length line) then do {
           fname \<leftarrow> accesslog_fname s;
           map_option snd (hlog env 2 (''Could not write to '' @ fname @ '' (fd '' @ le_num env (accesslog_file s) @ ''): ''
             @ le_strerror env (lg_calls s)) s)
         } else Some s
       } else if accesslog_file ?s1 \<noteq> -666 then do {
         (r, s) \<leftarrow> hlog env 3 ''Access log not open, log lines are lost!'' ?s1;
         Some (s\<lparr>accesslog_file := -666\<rparr>)
       } else Some ?s1)"
  have "\<exists>fd c es. body = Some (?s1\<lparr>accesslog_file := fd, lg_calls := c, lg_out := es\<rparr>) \<and> (fd \<ge> 0 \<longrightarrow> accesslog_file s = fd)"
  proof (cases "accesslog_file s \<ge> 0")
    case True
    obtain f where f: "accesslog_fname s = Some f" "length f \<le> 1100" using i True by (auto simp: log_inv_def)
    let ?s2 = "note_ev ev ?s1"
    let ?msg = "''Could not write to '' @ f @ '' (fd '' @ le_num env (accesslog_file ?s2) @ ''): '' @ le_strerror env (lg_calls ?s2)"
    have "length (le_strerror env (lg_calls ?s2)) \<le> 256" "length (le_num env (accesslog_file ?s2)) \<le> 16" using e by (simp_all add: short_env_def)
    then have "length ?msg \<le> 7000" using f(2) by simp
    then obtain r c es where h: "hlog env 2 ?msg ?s2 = Some (r, ?s2\<lparr>lg_calls := c, lg_out := es\<rparr>)"
      by (rule hlog_ok_out [OF e, of ?s2 ?msg 2, rotated 2]) (use fr in \<open>simp_all add: note_ev_def\<close>)
    have "accesslog_fname ?s2 = Some f" using f by (simp add: note_ev_def)
    then have "body = Some (if w \<noteq> int (length line) then ?s2\<lparr>lg_calls := c, lg_out := es\<rparr> else ?s2)"
      using True w h by (simp add: body_def)
    then show ?thesis by (cases s) (simp add: note_ev_def)
  next
    case False
    obtain r c es where h: "hlog env 3 ''Access log not open, log lines are lost!'' ?s1 = Some (r, ?s1\<lparr>lg_calls := c, lg_out := es\<rparr>)"
      by (rule hlog_ok_out [OF e, of ?s1 "''Access log not open, log lines are lost!''" 3]) (use fr in simp_all)
    have "body = Some (if accesslog_file s \<noteq> -666 then ?s1\<lparr>accesslog_file := -666, lg_calls := c, lg_out := es\<rparr> else ?s1)"
      using False h by (simp add: body_def)
    then show ?thesis using False by (cases s) simp
  qed
  then obtain fd c es where b: "body = Some (?s1\<lparr>accesslog_file := fd, lg_calls := c, lg_out := es\<rparr>)" "fd \<ge> 0 \<longrightarrow> accesslog_file s = fd"
    by blast
  have "accesslog env msg s = Some (1, rdunlock_access (?s1\<lparr>accesslog_file := fd, lg_calls := c, lg_out := es\<rparr>))"
    unfolding accesslog_def Let_def line_def [symmetric] l(1) Option.bind.simps body_def [symmetric] b(1) by simp
  moreover have "log_inv (rdunlock_access (?s1\<lparr>accesslog_file := fd, lg_calls := c, lg_out := es\<rparr>))"
    using i b(2) l(2) by (auto simp: log_inv_def rdunlock_access_def)
  ultimately show ?thesis by (auto simp: rdunlock_access_def)
qed

lemma writepid_ok:
  assumes e: "short_env env" and i: "log_inv s" and m: "length nm \<le> 1000"
  shows "\<exists>s'. writepid env nm a b c s = Some (of_bool (a \<and> b \<and> c), s') \<and> only_out s s'"
proof -
  have "\<exists>s'. map_option (\<lambda>r. (0 :: int, snd r)) (hlog env 2 (''Could not '' @ what @ le_strerror env (lg_calls s)) s) = Some (0, s') \<and> only_out s s'"
    if "length what \<le> 2000" for what
  proof -
    have "length (le_strerror env (lg_calls s)) \<le> 256" using e by (simp add: short_env_def)
    then have "length (''Could not '' @ what @ le_strerror env (lg_calls s)) \<le> 7000" using that by simp
    moreover have "lock_free (log_file_lock s)" "nice_log s" using i by (auto simp: log_inv_def well_named_def)
    ultimately obtain r s' where "hlog env 2 (''Could not '' @ what @ le_strerror env (lg_calls s)) s = Some (r, s')" "only_out s s'"
      using hlog_ok [OF e, of s _ 2] by blast
    then show ?thesis by simp
  qed
  note c = this [of "''open '' @ nm @ '' for writing: ''"] this [of "''write to '' @ nm @ '': ''"] this [of "''close '' @ nm @ '': ''"]
  show ?thesis using c m only_out_refl [of s] unfolding writepid_def Let_def by (cases a; cases b; cases c) simp_all
qed

section \<open>Sequences of calls\<close>

datatype log_op =
    Open_log string
  | Close_log bool
  | Log_message int string
  | Open_access string
  | Close_access "string option"
  | Access_message string
  | Write_pid string bool bool bool

fun log_step :: "log_env \<Rightarrow> log_op \<Rightarrow> log_state \<Rightarrow> (log_state + log_state) option" where
  "log_step env (Open_log nm) s = open_log env nm False s"
| "log_step env (Close_log reopen) s = close_log env reopen s"
| "log_step env (Log_message p msg) s = map_option (Inr \<circ> snd) (hlog env p msg s)"
| "log_step env (Open_access d) s = map_option (Inr \<circ> snd) (accesslog_open env d False s)"
| "log_step env (Close_access path) s = map_option (Inr \<circ> snd) (accesslog_close env path s)"
| "log_step env (Access_message msg) s = map_option (Inr \<circ> snd) (accesslog env msg s)"
| "log_step env (Write_pid nm a b c) s = map_option (Inr \<circ> snd) (writepid env nm a b c s)"

fun log_run :: "log_env \<Rightarrow> log_op list \<Rightarrow> log_state \<Rightarrow> (log_state + log_state) option" where
  "log_run env [] s = Some (Inr s)"
| "log_run env (x # xs) s = do {
     r \<leftarrow> log_step env x s;
     case r of Inl s \<Rightarrow> Some (Inl s) | Inr s \<Rightarrow> log_run env xs s
   }"

text \<open>A log is closed only when it is open; \<open>lo\<close> and \<open>ao\<close> say whether the log and the access log are. Texts are not too long.\<close>

fun in_order :: "bool \<Rightarrow> bool \<Rightarrow> log_op list \<Rightarrow> bool" where
  "in_order lo ao [] = True"
| "in_order lo ao (Open_log nm # xs) = (length nm \<le> 256 \<and> in_order True ao xs)"
| "in_order lo ao (Close_log reopen # xs) = (lo \<and> in_order reopen ao xs)"
| "in_order lo ao (Log_message p msg # xs) = (length msg \<le> 7000 \<and> in_order lo ao xs)"
| "in_order lo ao (Open_access d # xs) = (length d \<le> 1000 \<and> in_order lo True xs)"
| "in_order lo ao (Close_access path # xs) = (ao \<and> length (case path of None \<Rightarrow> [] | Some q \<Rightarrow> q) \<le> 1000 \<and> in_order lo (path \<noteq> None) xs)"
| "in_order lo ao (Access_message msg # xs) = (length msg \<le> 7000 \<and> in_order lo ao xs)"
| "in_order lo ao (Write_pid nm a b c # xs) = (length nm \<le> 1000 \<and> in_order lo ao xs)"

lemma log_step_ok:
  assumes "short_env env" "log_inv s" "in_order (lg_name s \<noteq> None) (accesslog_fname s \<noteq> None) (x # xs)"
  shows "\<exists>r. log_step env x s = Some r \<and> (case r of Inl s' \<Rightarrow> log_unopened env s s'
    | Inr s' \<Rightarrow> log_inv s' \<and> same_dest s s' \<and> in_order (lg_name s' \<noteq> None) (accesslog_fname s' \<noteq> None) xs)"
proof (cases x)
  case (Open_log nm)
  then obtain r where r: "open_log env nm False s = Some r" "case r of Inl s' \<Rightarrow> log_unopened env s s'
      | Inr s' \<Rightarrow> log_inv s' \<and> same_dest s s' \<and> lg_name s' = Some nm \<and> accesslog_fname s' = accesslog_fname s"
    using open_log_ok [OF assms(1,2), of nm] assms(3) by auto
  then show ?thesis using Open_log assms(3) by (cases r) auto
next
  case (Close_log reopen)
  then have n: "lg_name s \<noteq> None" using assms(3) by simp
  obtain r where r: "close_log env reopen s = Some r" "case r of
      Inl s' \<Rightarrow> reopen \<and> log_unopened env s s'
    | Inr s' \<Rightarrow> log_inv s' \<and> same_dest s s' \<and> lg_name s' = (if reopen then lg_name s else None) \<and> accesslog_fname s' = accesslog_fname s"
    using close_log_ok [OF assms(1,2) n, of reopen] by auto
  then show ?thesis using Close_log assms(3) by (cases r) auto
next
  case (Log_message p msg)
  have "lock_free (log_file_lock s)" "nice_log s" using assms(2) by (simp_all add: log_inv_def well_named_def)
  then obtain r s' where s': "hlog env p msg s = Some (r, s')" "only_out s s'" using hlog_ok [OF assms(1), of s msg p] Log_message assms(3) by auto
  then show ?thesis using Log_message assms(3) log_inv_only_out [OF assms(2) s'(2)] only_out_simps [OF s'(2)] by simp
next
  case (Open_access d)
  then show ?thesis using accesslog_open_ok [OF assms(1,2), of d] assms(3) by auto
next
  case (Close_access path)
  obtain f where f: "accesslog_fname s = Some f" using Close_access assms(3) by auto
  have "\<forall>q. path = Some q \<longrightarrow> length q \<le> 1000" using Close_access assms(3) by auto
  then obtain r s' where s': "accesslog_close env path s = Some (r, s')" "log_inv s'" "lg_dest s' = lg_dest s" "lg_dir s' = lg_dir s" "lg_name s' = lg_name s"
      "accesslog_fname s' = None \<longleftrightarrow> path = None"
    by (elim exE conjE accesslog_close_ok [OF assms(1,2) f, of path, THEN exE]) (rule that)
  have "in_order (lg_name s \<noteq> None) (path \<noteq> None) xs" using assms(3) unfolding Close_access in_order.simps by blast
  then have "in_order (lg_name s' \<noteq> None) (accesslog_fname s' \<noteq> None) xs" unfolding s'(5,6) .
  moreover have "log_step env x s = Some (Inr s')" unfolding Close_access using s'(1) by simp
  ultimately show ?thesis using s'(2,3,4) by (intro exI [of _ "Inr s'"]) (simp only: sum.case simp_thms)
next
  case (Access_message msg)
  then show ?thesis using accesslog_ok [OF assms(1,2), of msg] assms(3) by auto
next
  case (Write_pid nm a b c)
  obtain s' where s': "writepid env nm a b c s = Some (of_bool (a \<and> b \<and> c), s')" "only_out s s'"
    using writepid_ok [OF assms(1,2), of nm a b c] Write_pid assms(3) by auto
  then show ?thesis using Write_pid assms(3) log_inv_only_out [OF assms(2) s'(2)] only_out_simps [OF s'(2)] by simp
qed

lemma log_run_ok:
  assumes "short_env env" "log_inv s" "in_order (lg_name s \<noteq> None) (accesslog_fname s \<noteq> None) xs"
  shows "\<exists>r. log_run env xs s = Some r \<and> (case r of Inl s' \<Rightarrow> log_unopened env s s' | Inr s' \<Rightarrow> log_inv s')"
  using assms(2,3)
proof (induction xs arbitrary: s)
  case Nil
  then show ?case by simp
next
  case (Cons x xs)
  obtain r where r: "log_step env x s = Some r" "case r of Inl s' \<Rightarrow> log_unopened env s s'
    | Inr s' \<Rightarrow> log_inv s' \<and> same_dest s s' \<and> in_order (lg_name s' \<noteq> None) (accesslog_fname s' \<noteq> None) xs"
    using log_step_ok [OF assms(1) Cons.prems] by blast
  show ?case
  proof (cases r)
    case (Inl s')
    then show ?thesis using r by simp
  next
    case (Inr s')
    have "log_unopened env s' t = log_unopened env s t" for t by (rule log_unopened_same) (use r Inr in simp)
    then show ?thesis using r Inr Cons.IH [of s'] by (simp cong: sum.case_cong)
  qed
qed

text \<open>The state at the start of the program, with what the configuration has set.\<close>

definition log_start :: "int \<Rightarrow> int \<Rightarrow> string option \<Rightarrow> log_state" where
  "log_start dest level dir = \<lparr>lg_dest = dest, lg_level = level, lg_name = None, lg_dir = dir, lg_fname = None, lg_file = -1,
     log_file_lock = RWL_INITIALIZER, accesslog_dir = None, accesslog_fname = None, accesslog_file = -1,
     accesslog_lock = RWL_INITIALIZER, lg_calls = 0, lg_out = []\<rparr>"

text \<open>
  C37. The log never blocks and never fails by itself. Any sequence of the operations on the log and the access log that closes only what
  is open, with texts of sensible length, is defined: no call waits for a lock that its thread holds, writes read only from the array, no
  null pointer is printed. The process ends only when the log goes to a file and this file, \<^verbatim>\<open>gnuais.log\<close> in the log
  directory, cannot be opened: its \<^verbatim>\<open>open\<close> has failed, and the line that says so on standard error is the last thing the
  process does. A failure of the access log, of a write or of a close never ends it. Otherwise both locks are free at the end and no reader
  or writer is counted.
\<close>

theorem log_never_blocks:
  assumes "short_env env" and "in_order False False ops"
    and "dest = L_FILE \<longrightarrow> dir \<noteq> None" and "\<forall>d. dir = Some d \<longrightarrow> length d \<le> 1024"
  shows "\<exists>r. log_run env ops (log_start dest level dir) = Some r
    \<and> (case r of Inl s' \<Rightarrow> dest = L_FILE \<and> (\<exists>d n es. dir = Some d \<and> le_open env n (d @ ''/gnuais.log'') < 0
            \<and> lg_out s' = es @ [Opened (d @ ''/gnuais.log'') (le_open env n (d @ ''/gnuais.log'')),
                Stderr_text (''logger: Could not open '' @ d @ ''/gnuais.log'' @ '': '' @ le_strerror env (n + 1) @ [CHR 0x0A])])
       | Inr s' \<Rightarrow> lock_free (log_file_lock s') \<and> lock_free (accesslog_lock s'))"
proof -
  let ?s = "log_start dest level dir"
  have "log_inv ?s"
    using assms(3,4) by (auto simp: log_inv_def log_start_def lock_free_def RWL_INITIALIZER_def well_named_def)
  moreover have "in_order (lg_name ?s \<noteq> None) (accesslog_fname ?s \<noteq> None) ops"
    using assms(2) by (simp add: log_start_def)
  ultimately obtain r where r: "log_run env ops ?s = Some r" "case r of Inl s' \<Rightarrow> log_unopened env ?s s' | Inr s' \<Rightarrow> log_inv s'"
    using log_run_ok [OF assms(1)] by blast
  show ?thesis
  proof (rule exI [of _ r], rule conjI [OF r(1)], cases r)
    case (Inl s')
    then show "case r of Inl s' \<Rightarrow> dest = L_FILE \<and> (\<exists>d n es. dir = Some d \<and> le_open env n (d @ ''/gnuais.log'') < 0
            \<and> lg_out s' = es @ [Opened (d @ ''/gnuais.log'') (le_open env n (d @ ''/gnuais.log'')),
                Stderr_text (''logger: Could not open '' @ d @ ''/gnuais.log'' @ '': '' @ le_strerror env (n + 1) @ [CHR 0x0A])])
       | Inr s' \<Rightarrow> lock_free (log_file_lock s') \<and> lock_free (accesslog_lock s')"
      using r(2) unfolding log_unopened_def by (simp add: log_start_def)
  qed (use r(2) in \<open>simp add: log_inv_def\<close>)
qed

definition log_env0 :: log_env where
  "log_env0 = \<lparr>le_open = \<lambda>n f. 5, le_close = \<lambda>n fd. 0, le_write = \<lambda>n fd bytes. int (length bytes), le_stamp = \<lambda>n. ''2024/05/01 12:00:00.000000'',
     le_date = \<lambda>n. ''2024/05/01 12:00:00'', le_ids = ''[17:4242]'', le_num = \<lambda>i. ''5'', le_strerror = \<lambda>n. ''No such file''\<rparr>"

lemma log_env0_short: "short_env log_env0"
  by (simp add: short_env_def log_env0_def)

definition log_ops0 :: "log_op list" where
  "log_ops0 = [Open_log ''gnuais'', Open_access ''/tmp'', Log_message 6 ''Starting'', Access_message ''hello'', Close_access None, Close_log True]"

theorem log_never_blocks_witness:
  "\<exists>s'. log_run log_env0 log_ops0 (log_start L_FILE 6 (Some ''/tmp'')) = Some (Inr s') \<and> lock_free (log_file_lock s')"
proof -
  have o: "in_order False False log_ops0" by (simp add: log_ops0_def)
  have d: "L_FILE = L_FILE \<longrightarrow> Some ''/tmp'' \<noteq> None" "\<forall>d. Some ''/tmp'' = Some d \<longrightarrow> length d \<le> 1024" by simp_all
  have "\<not> le_open log_env0 n f < 0" for n f by (simp add: log_env0_def)
  then show ?thesis using log_never_blocks [OF log_env0_short o d, of 6] by (simp split: sum.splits) (metis sum.exhaust)
qed

text \<open>
  C38. A line that is too long. With the lock free and the name of an open log file known, a message makes the program read behind its
  buffer exactly when its priority is logged, the log is an open file, and the whole line (with date, name and level before it) is longer
  than the buffer; that the message itself is cut to the length of the buffer does not prevent it.
\<close>

theorem hlog_overrun:
  assumes "lock_free (log_file_lock s)" and "lg_file s \<ge> 0 \<longrightarrow> lg_fname s \<noteq> None"
  shows "hlog env p msg s = None \<longleftrightarrow> clamp p \<le> lg_level s \<and> lg_dest s = L_FILE \<and> lg_file s \<ge> 0
    \<and> LOG_LEN < length (hlog_line env (clamp p) (take (LOG_LEN - 1) msg) s)"
proof -
  have "hlog env p msg s = None \<longleftrightarrow> overlong env p msg s" using hlog_cases [OF assms(1), of env p msg] assms(2) by (auto simp: named_def split: if_splits)
  then show ?thesis by (simp only: overlong_def)
qed

theorem hlog_overrun_witness:
  "hlog log_env0 6 (replicate 8190 CHR 0x78) ((log_start L_FILE 6 (Some ''/tmp''))\<lparr>lg_file := 5, lg_fname := Some ''/tmp/gnuais.log''\<rparr>) = None"
proof -
  let ?s = "(log_start L_FILE 6 (Some ''/tmp''))\<lparr>lg_file := 5, lg_fname := Some ''/tmp/gnuais.log''\<rparr>"
  have f: "lock_free (log_file_lock ?s)" by (simp add: log_start_def lock_free_def RWL_INITIALIZER_def)
  have n: "lg_file ?s \<ge> 0 \<longrightarrow> lg_fname ?s \<noteq> None" by simp
  have "LOG_LEN < length (hlog_line log_env0 (clamp 6) (take (LOG_LEN - 1) (replicate 8190 CHR 0x78)) ?s)"
    unfolding hlog_line_def length_append length_take length_replicate by (simp add: LOG_LEN_def log_env0_def log_start_def)
  then show ?thesis unfolding hlog_overrun [OF f n] by (simp add: log_start_def clamp_def)
qed

end
