(* ===== verification/Mysql.thy ===== *)
theory Mysql
  imports Ais_World Config
begin

text \<open>
  out_mysql.c: the reports as statements for a database. The MySQL library and the server behind it are a parameter, with a state of any
  type; so is the formatted printing. The values of the configuration are read from its record.
\<close>

section \<open>The library\<close>

text \<open>
  \<open>db_query\<close> is \<^verbatim>\<open>mysql_query\<close>, with 0 for success, \<open>db_rows\<close> the number of \<^verbatim>\<open>mysql_affected_rows\<close> as an \<^verbatim>\<open>int\<close>, \<open>db_connect\<close>
  \<^verbatim>\<open>mysql_real_connect\<close> with the host, the user, the password and the database.
\<close>

record 'db mysql_lib =
  db_init :: "'db option"
  db_connect :: "string option \<Rightarrow> string option \<Rightarrow> string option \<Rightarrow> string option \<Rightarrow> 'db \<Rightarrow> bool \<times> 'db"
  db_close :: "'db \<Rightarrow> 'db"
  db_query :: "string \<Rightarrow> 'db \<Rightarrow> int \<times> 'db"
  db_rows :: "'db \<Rightarrow> int"
  db_errno :: "'db \<Rightarrow> int"
  db_error :: "'db \<Rightarrow> string"
  db_print :: "string \<Rightarrow> parg list \<Rightarrow> string"

definition CR_SERVER_GONE_ERROR :: int where
  "CR_SERVER_GONE_ERROR = 2006"

definition MAX_SQL_LEN :: nat where
  "MAX_SQL_LEN = 2000"

text \<open>The state, and with it what has been written to the log.\<close>

record 'db mysql_state =
  conn :: 'db
  connected :: int
  inserts :: int
  my_log :: "(string \<times> parg list) list"

definition my_note :: "string \<Rightarrow> parg list \<Rightarrow> 'db mysql_state \<Rightarrow> 'db mysql_state" where
  "my_note fmt args my = my\<lparr>my_log := my_log my @ [(fmt, args)]\<rparr>"

definition sql :: "'db mysql_lib \<Rightarrow> string \<Rightarrow> parg list \<Rightarrow> string" where
  "sql lib fmt args = take (MAX_SQL_LEN - 1) (db_print lib fmt args)"

definition run_query :: "'db mysql_lib \<Rightarrow> string \<Rightarrow> 'db mysql_state \<Rightarrow> int \<times> 'db mysql_state" where
  "run_query lib q my = (let (r, c) = db_query lib q (conn my) in (r, my\<lparr>conn := c\<rparr>))"

section \<open>Connecting\<close>

definition myout_connect :: "'db mysql_lib \<Rightarrow> config \<Rightarrow> 'db mysql_state \<Rightarrow> int \<times> 'db mysql_state" where
  "myout_connect lib cfg my =
     (let (fine, c) = db_connect lib (g_mysql_host cfg) (g_mysql_user cfg) (g_mysql_password cfg) (g_mysql_db cfg) (conn my);
          my = my\<lparr>conn := c\<rparr>
      in if \<not> fine then
           let my = my_note ''Could not connect to MySQL!'' [] my in (0, my\<lparr>connected := 0\<rparr>)
         else
           let my = my_note ''Reconnected to MySQL server successfully'' [] my in (1, my\<lparr>connected := 1\<rparr>))"

definition myout_init :: "'db mysql_lib \<Rightarrow> config \<Rightarrow> 'db mysql_state option" where
  "myout_init lib cfg = do {
     c \<leftarrow> db_init lib;
     let my = \<lparr>conn = c, connected = 0, inserts = 0, my_log = []\<rparr>;
     let (r, my) = myout_connect lib cfg my;
     if r = 0 then None else Some (my\<lparr>connected := 1\<rparr>)
   }"

definition myout_reconnect :: "'db mysql_lib \<Rightarrow> config \<Rightarrow> 'db mysql_state \<Rightarrow> int \<times> 'db mysql_state" where
  "myout_reconnect lib cfg my =
     (let my = my_note ''MySQL: Reconnecting...'' [] my;
          my = my\<lparr>conn := db_close lib (conn my), connected := 0\<rparr>
      in myout_connect lib cfg my)"

section \<open>Deleting old rows\<close>

definition delete_sql :: "'db mysql_lib \<Rightarrow> config \<Rightarrow> int \<Rightarrow> string \<Rightarrow> string" where
  "delete_sql lib cfg now table = sql lib ''DELETE FROM %s WHERE time < %ld'' [PLit table, PInt (now - g_mysql_oldlimit cfg)]"

definition myout_delete_from :: "'db mysql_lib \<Rightarrow> config \<Rightarrow> int \<Rightarrow> string \<Rightarrow> 'db mysql_state \<Rightarrow> int \<times> 'db mysql_state" where
  "myout_delete_from lib cfg now table my =
     (let (r, my) = run_query lib (delete_sql lib cfg now table) my
      in if r \<noteq> 0 then
           (0, my_note ''MySQL: Could not delete old data from %s: %s'' [PLit table, PLit (db_error lib (conn my))] my)
         else
           let qrows = db_rows lib (conn my);
               my = (if qrows > 0 then my_note ''MySQL: Deleted %d rows from %s.'' [PInt qrows, PLit table] my else my)
           in (qrows, my))"

definition myout_delete_old :: "'db mysql_lib \<Rightarrow> config \<Rightarrow> int \<Rightarrow> 'db mysql_state \<Rightarrow> 'db mysql_state" where
  "myout_delete_old lib cfg now my =
     (if g_mysql_oldlimit cfg > 0 then
        let (rows, my) = myout_delete_from lib cfg now ''ais_position'' my;
            (r, my) = myout_delete_from lib cfg now ''ais_vesseldata'' my;
            (r, my) = myout_delete_from lib cfg now ''ais_basestation'' my;
            (r, my) = myout_delete_from lib cfg now ''ais_nmea'' my
        in my
      else my)"

section \<open>Updating or inserting\<close>

text \<open>What is done about a failure of the statement that was to \<open>what\<close>.\<close>

definition query_failed :: "'db mysql_lib \<Rightarrow> config \<Rightarrow> string \<Rightarrow> 'db mysql_state \<Rightarrow> 'db mysql_state" where
  "query_failed lib cfg what my =
     (let en = db_errno lib (conn my);
          e = db_error lib (conn my);
          my = my_note what [PLit e, PInt en] my
      in if en = CR_SERVER_GONE_ERROR then snd (myout_reconnect lib cfg my) else my)"

definition myout_insert :: "'db mysql_lib \<Rightarrow> config \<Rightarrow> string \<Rightarrow> 'db mysql_state \<Rightarrow> int \<times> 'db mysql_state" where
  "myout_insert lib cfg ins my =
     (let (r, my) = run_query lib ins my
      in if r \<noteq> 0 then (-1, query_failed lib cfg ''MySQL: Could not insert data in MySQL database: %s (%u)'' my) else (0, my))"

definition myout_update_or_insert :: "'db mysql_lib \<Rightarrow> config \<Rightarrow> string \<Rightarrow> string \<Rightarrow> 'db mysql_state \<Rightarrow> int \<times> 'db mysql_state" where
  "myout_update_or_insert lib cfg upd ins my =
     (if g_mysql_keepsmall cfg \<noteq> 0 then
        let (r, my) = run_query lib upd my
        in if r \<noteq> 0 then (-1, query_failed lib cfg ''MySQL: Could not update data in MySQL database: %s (%u)'' my)
           else if db_rows lib (conn my) > 0 then (0, my)
           else myout_insert lib cfg ins my
      else myout_insert lib cfg ins my)"

section \<open>Reports\<close>

definition insert_position :: "'db mysql_lib \<Rightarrow> int \<Rightarrow> int \<Rightarrow> cfloat \<Rightarrow> cfloat \<Rightarrow> cfloat \<Rightarrow> cfloat \<Rightarrow> cfloat \<Rightarrow> string" where
  "insert_position lib tid mmsi la lo hdng crs sg = sql lib
     ''INSERT INTO ais_position (time,mmsi,latitude,longitude,heading,course,speed) VALUES (%ld,%d,%.7f,%.7f,%.5f,%f,%f)''
     [PInt tid, PInt mmsi, PDouble la, PDouble lo, PDouble hdng, PDouble crs, PDouble sg]"

definition update_position :: "'db mysql_lib \<Rightarrow> int \<Rightarrow> int \<Rightarrow> cfloat \<Rightarrow> cfloat \<Rightarrow> cfloat \<Rightarrow> cfloat \<Rightarrow> cfloat \<Rightarrow> string" where
  "update_position lib tid mmsi la lo hdng crs sg = sql lib
     ''UPDATE ais_position SET time=%ld, latitude=%.7f, longitude=%.7f, heading=%f, course=%.5f, speed=%f WHERE mmsi=%d''
     [PInt tid, PDouble la, PDouble lo, PDouble hdng, PDouble crs, PDouble sg, PInt mmsi]"

definition myout_ais_position :: "'db mysql_lib \<Rightarrow> config \<Rightarrow> int \<Rightarrow> int \<Rightarrow> cfloat \<Rightarrow> cfloat \<Rightarrow> cfloat \<Rightarrow> cfloat \<Rightarrow> cfloat
    \<Rightarrow> 'db mysql_state \<Rightarrow> int \<times> 'db mysql_state" where
  "myout_ais_position lib cfg tid mmsi la lo hdng crs sg my =
     (let my = my\<lparr>inserts := inserts my + 1\<rparr>;
          my = (if inserts my mod 10 = 0 then (myout_delete_old lib cfg tid my)\<lparr>inserts := 0\<rparr> else my)
      in myout_update_or_insert lib cfg (update_position lib tid mmsi la lo hdng crs sg) (insert_position lib tid mmsi la lo hdng crs sg) my)"

definition myout_ais_basestation :: "'db mysql_lib \<Rightarrow> config \<Rightarrow> int \<Rightarrow> int \<Rightarrow> cfloat \<Rightarrow> cfloat \<Rightarrow> 'db mysql_state \<Rightarrow> int \<times> 'db mysql_state" where
  "myout_ais_basestation lib cfg tid mmsi la lo my =
     myout_update_or_insert lib cfg
       (sql lib ''UPDATE ais_basestation SET time=%ld, latitude=%.7f, longitude=%.7f WHERE mmsi=%d'' [PInt tid, PDouble la, PDouble lo, PInt mmsi])
       (sql lib ''INSERT INTO ais_basestation (time,mmsi,latitude,longitude) VALUES (%ld,%d,%.7f,%.7f)'' [PInt tid, PInt mmsi, PDouble la, PDouble lo])
       my"

definition myout_ais_vesseldata :: "'db mysql_lib \<Rightarrow> config \<Rightarrow> int \<Rightarrow> int \<Rightarrow> u8 list \<Rightarrow> u8 list \<Rightarrow> cfloat \<Rightarrow> int \<Rightarrow> int \<Rightarrow> int \<Rightarrow> int
    \<Rightarrow> 'db mysql_state \<Rightarrow> int \<times> 'db mysql_state" where
  \<open>myout_ais_vesseldata lib cfg tid mmsi nam dest dr A B C D my =
     myout_update_or_insert lib cfg
       (sql lib ''UPDATE ais_vesseldata SET time=%ld, name="%s", destination="%s", A=%d, B=%d, C=%d, D=%d, draught=%f WHERE mmsi=%d''
         [PInt tid, PStr nam, PStr dest, PInt A, PInt B, PInt C, PInt D, PDouble dr, PInt mmsi])
       (sql lib ''INSERT INTO ais_vesseldata (time,mmsi,name,destination,draught,A,B,C,D) VALUES (%ld,%d,"%s","%s",%f,%d,%d,%d,%d)''
         [PInt tid, PInt mmsi, PStr nam, PStr dest, PDouble dr, PInt A, PInt B, PInt C, PInt D])
       my\<close>

definition myout_ais_vesseldatab :: "'db mysql_lib \<Rightarrow> config \<Rightarrow> int \<Rightarrow> int \<Rightarrow> int \<Rightarrow> int \<Rightarrow> int \<Rightarrow> int \<Rightarrow> 'db mysql_state
    \<Rightarrow> int \<times> 'db mysql_state" where
  "myout_ais_vesseldatab lib cfg tid mmsi A B C D my =
     myout_update_or_insert lib cfg
       (sql lib ''UPDATE ais_vesseldata SET time=%ld, A=%d, B=%d, C=%d, D=%d WHERE mmsi=%d''
         [PInt tid, PInt A, PInt B, PInt C, PInt D, PInt mmsi])
       (sql lib ''INSERT INTO ais_vesseldata (time,mmsi,A,B,C,D) VALUES (%ld,%d,%d,%d,%d,%d)''
         [PInt tid, PInt mmsi, PInt A, PInt B, PInt C, PInt D])
       my"

definition myout_ais_vesselname :: "'db mysql_lib \<Rightarrow> config \<Rightarrow> int \<Rightarrow> int \<Rightarrow> u8 list \<Rightarrow> u8 list \<Rightarrow> 'db mysql_state \<Rightarrow> int \<times> 'db mysql_state" where
  \<open>myout_ais_vesselname lib cfg tid mmsi nam dest my =
     myout_update_or_insert lib cfg
       (sql lib ''UPDATE ais_vesseldata SET time=%ld, name="%s", destination="%s" WHERE mmsi=%d'' [PInt tid, PStr nam, PStr dest, PInt mmsi])
       (sql lib ''INSERT INTO ais_vesseldata (time,mmsi,name,destination) VALUES (%ld,%d,"%s","%s")'' [PInt tid, PInt mmsi, PStr nam, PStr dest])
       my\<close>

definition myout_nmea :: "'db mysql_lib \<Rightarrow> config \<Rightarrow> int \<Rightarrow> u8 list \<Rightarrow> 'db mysql_state \<Rightarrow> int \<times> 'db mysql_state" where
  \<open>myout_nmea lib cfg tid message my =
     (let (r, my) = run_query lib (sql lib ''INSERT INTO ais_nmea (time, message) VALUES (%ld,"!%s")'' [PInt tid, PStr message]) my
      in if r \<noteq> 0 then (-1, query_failed lib cfg ''MySQL: Could not insert into ais_nmea: %s (%u)'' my) else (0, my))\<close>

section \<open>One row per ship\<close>

record report =
  rp_time :: int
  rp_mmsi :: int
  rp_lat :: cfloat
  rp_lon :: cfloat
  rp_heading :: cfloat
  rp_course :: cfloat
  rp_speed :: cfloat

definition store_position :: "'db mysql_lib \<Rightarrow> config \<Rightarrow> report \<Rightarrow> 'db mysql_state \<Rightarrow> int \<times> 'db mysql_state" where
  "store_position lib cfg r my =
     myout_ais_position lib cfg (rp_time r) (rp_mmsi r) (rp_lat r) (rp_lon r) (rp_heading r) (rp_course r) (rp_speed r) my"

fun store_positions :: "'db mysql_lib \<Rightarrow> config \<Rightarrow> report list \<Rightarrow> 'db mysql_state \<Rightarrow> int list \<times> 'db mysql_state" where
  "store_positions lib cfg [] my = ([], my)"
| "store_positions lib cfg (r # rs) my =
     (let (x, my) = store_position lib cfg r my; (xs, my) = store_positions lib cfg rs my in (x # xs, my))"

text \<open>
  A row of the table of positions: MMSI, time, and the other columns, whose values are what the server makes of a number printed with so
  many digits (\<open>col\<close>). A new row and an updated one round heading and course differently.
\<close>

type_synonym 'v row = "int \<times> int \<times> 'v list"

definition inserted_row :: "(nat \<Rightarrow> cfloat \<Rightarrow> 'v) \<Rightarrow> report \<Rightarrow> 'v row" where
  "inserted_row col r = (rp_mmsi r, rp_time r, [col 7 (rp_lat r), col 7 (rp_lon r), col 5 (rp_heading r), col 6 (rp_course r), col 6 (rp_speed r)])"

definition updated_row :: "(nat \<Rightarrow> cfloat \<Rightarrow> 'v) \<Rightarrow> report \<Rightarrow> 'v row" where
  "updated_row col r = (rp_mmsi r, rp_time r, [col 7 (rp_lat r), col 7 (rp_lon r), col 6 (rp_heading r), col 5 (rp_course r), col 6 (rp_speed r)])"

definition insert_of :: "'db mysql_lib \<Rightarrow> report \<Rightarrow> string" where
  "insert_of lib r = insert_position lib (rp_time r) (rp_mmsi r) (rp_lat r) (rp_lon r) (rp_heading r) (rp_course r) (rp_speed r)"

definition update_of :: "'db mysql_lib \<Rightarrow> report \<Rightarrow> string" where
  "update_of lib r = update_position lib (rp_time r) (rp_mmsi r) (rp_lat r) (rp_lon r) (rp_heading r) (rp_course r) (rp_speed r)"

text \<open>
  What the documentation of the server says of the three kinds of statement, for the reports of \<open>A\<close>: they succeed, have their effect on
  the rows of the table, and the number of affected rows of an update is that of the rows which it has changed.
\<close>

definition executes :: "'db mysql_lib \<Rightarrow> config \<Rightarrow> ('db \<Rightarrow> 'v row list) \<Rightarrow> (nat \<Rightarrow> cfloat \<Rightarrow> 'v) \<Rightarrow> report set \<Rightarrow> bool" where
  "executes lib cfg rows col A \<longleftrightarrow> (\<forall>r \<in> A. \<forall>db.
     fst (db_query lib (insert_of lib r) db) = 0 \<and> rows (snd (db_query lib (insert_of lib r) db)) = rows db @ [inserted_row col r]
   \<and> fst (db_query lib (update_of lib r) db) = 0
   \<and> rows (snd (db_query lib (update_of lib r) db)) = map (\<lambda>x. if fst x = rp_mmsi r then updated_row col r else x) (rows db)
   \<and> db_rows lib (snd (db_query lib (update_of lib r) db)) =
       int (length (filter (\<lambda>x. fst x = rp_mmsi r \<and> x \<noteq> updated_row col r) (rows db)))
   \<and> rows (snd (db_query lib (delete_sql lib cfg (rp_time r) ''ais_position'') db)) =
       filter (\<lambda>x. fst (snd x) \<ge> rp_time r - g_mysql_oldlimit cfg) (rows db)
   \<and> (\<forall>t \<in> {''ais_vesseldata'', ''ais_basestation'', ''ais_nmea''}. rows (snd (db_query lib (delete_sql lib cfg (rp_time r) t) db)) = rows db))"

definition rows_of :: "int \<Rightarrow> 'v row list \<Rightarrow> 'v row list" where
  "rows_of m xs = filter (\<lambda>x. fst x = m) xs"

lemma rows_of_append: "rows_of m (xs @ ys) = rows_of m xs @ rows_of m ys"
  by (simp add: rows_of_def)

lemma rows_of_update:
  "fst y = m \<Longrightarrow> rows_of k (map (\<lambda>x. if fst x = m then y else x) xs) = (if k = m then map (\<lambda>_. y) (rows_of m xs) else rows_of k xs)"
  by (induction xs) (auto simp: rows_of_def)

lemma rows_of_filter: "rows_of m (filter P xs) = filter P (rows_of m xs)"
  by (simp add: rows_of_def conj_commute)

lemma delete_from_rows:
  "rows (conn (snd (myout_delete_from lib cfg now table my))) = rows (snd (db_query lib (delete_sql lib cfg now table) (conn my)))"
  by (simp add: myout_delete_from_def run_query_def my_note_def split_beta Let_def)

lemma delete_old_rows:
  assumes "executes lib cfg rows col A" "r \<in> A"
  shows "rows (conn (myout_delete_old lib cfg (rp_time r) my)) =
    (if g_mysql_oldlimit cfg > 0 then filter (\<lambda>x. fst (snd x) \<ge> rp_time r - g_mysql_oldlimit cfg) (rows (conn my)) else rows (conn my))"
proof -
  have "rows (snd (db_query lib (delete_sql lib cfg (rp_time r) t) db)) = rows db"
    if "t \<in> {''ais_vesseldata'', ''ais_basestation'', ''ais_nmea''}" for t db using assms that unfolding executes_def by blast
  moreover have "rows (snd (db_query lib (delete_sql lib cfg (rp_time r) ''ais_position'') db)) =
       filter (\<lambda>x. fst (snd x) \<ge> rp_time r - g_mysql_oldlimit cfg) (rows db)" for db using assms unfolding executes_def by blast
  ultimately show ?thesis unfolding myout_delete_old_def by (simp add: split_beta Let_def delete_from_rows)
qed

text \<open>The effect of one report on the rows, after the deletion.\<close>

lemma update_or_insert_rows:
  assumes e: "executes lib cfg rows col A" "r \<in> A" and k: "g_mysql_keepsmall cfg \<noteq> 0"
    and new: "\<forall>x \<in> set (rows_of (rp_mmsi r) (rows (conn my))). fst (snd x) < rp_time r"
  shows "fst (myout_update_or_insert lib cfg (update_of lib r) (insert_of lib r) my) = 0"
    "rows_of m (rows (conn (snd (myout_update_or_insert lib cfg (update_of lib r) (insert_of lib r) my)))) =
      (if m = rp_mmsi r then
         if rows_of m (rows (conn my)) = [] then [inserted_row col r] else map (\<lambda>_. updated_row col r) (rows_of m (rows (conn my)))
       else rows_of m (rows (conn my)))"
proof -
  let ?c = "conn my" and ?m = "rp_mmsi r"
  have u: "fst (db_query lib (update_of lib r) ?c) = 0"
      "rows (snd (db_query lib (update_of lib r) ?c)) = map (\<lambda>x. if fst x = ?m then updated_row col r else x) (rows ?c)"
      "db_rows lib (snd (db_query lib (update_of lib r) ?c)) = int (length (filter (\<lambda>x. fst x = ?m \<and> x \<noteq> updated_row col r) (rows ?c)))"
    and i: "fst (db_query lib (insert_of lib r) db) = 0" "rows (snd (db_query lib (insert_of lib r) db)) = rows db @ [inserted_row col r]" for db
    using e unfolding executes_def by blast+
  have "filter (\<lambda>x. fst x = ?m \<and> x \<noteq> updated_row col r) (rows ?c) = rows_of ?m (rows ?c)"
    unfolding rows_of_def using new by (intro filter_cong refl) (auto simp: rows_of_def updated_row_def)
  then have n: "db_rows lib (snd (db_query lib (update_of lib r) ?c)) > 0 \<longleftrightarrow> rows_of ?m (rows ?c) \<noteq> []" using u(3) by simp
  have r: "fst (inserted_row col r) = ?m" "fst (updated_row col r) = ?m" by (simp_all add: inserted_row_def updated_row_def)
  show "fst (myout_update_or_insert lib cfg (update_of lib r) (insert_of lib r) my) = 0"
    using k u(1) i(1) by (simp add: myout_update_or_insert_def myout_insert_def run_query_def split_beta Let_def)
  show "rows_of m (rows (conn (snd (myout_update_or_insert lib cfg (update_of lib r) (insert_of lib r) my)))) =
      (if m = ?m then if rows_of m (rows ?c) = [] then [inserted_row col r] else map (\<lambda>_. updated_row col r) (rows_of m (rows ?c))
       else rows_of m (rows ?c))"
  proof (cases "rows_of ?m (rows ?c) = []")
    case True
    have "rows (conn (snd (myout_update_or_insert lib cfg (update_of lib r) (insert_of lib r) my)))
        = map (\<lambda>x. if fst x = ?m then updated_row col r else x) (rows ?c) @ [inserted_row col r]"
      using k u i n True by (simp add: myout_update_or_insert_def myout_insert_def run_query_def split_beta Let_def)
    then show ?thesis using True r by (simp add: rows_of_append rows_of_update) (simp add: rows_of_def)
  next
    case False
    have "rows (conn (snd (myout_update_or_insert lib cfg (update_of lib r) (insert_of lib r) my)))
        = map (\<lambda>x. if fst x = ?m then updated_row col r else x) (rows ?c)"
      using k u n False by (simp add: myout_update_or_insert_def run_query_def split_beta Let_def)
    then show ?thesis using False r by (simp add: rows_of_update)
  qed
qed

definition last_report :: "int \<Rightarrow> report list \<Rightarrow> report option" where
  "last_report m rs = (let xs = filter (\<lambda>r. rp_mmsi r = m) rs in if xs = [] then None else Some (last xs))"

lemma last_report_snoc: "last_report m (rs @ [r]) = (if rp_mmsi r = m then Some r else last_report m rs)"
  by (simp add: last_report_def Let_def)

lemma last_report_in: "last_report m rs = Some r \<Longrightarrow> r \<in> set rs \<and> rp_mmsi r = m"
proof -
  assume "last_report m rs = Some r"
  then have "filter (\<lambda>r. rp_mmsi r = m) rs \<noteq> []" "r = last (filter (\<lambda>r. rp_mmsi r = m) rs)"
    by (simp_all add: last_report_def Let_def split: if_splits)
  then have "r \<in> set (filter (\<lambda>r. rp_mmsi r = m) rs)" using last_in_set by blast
  then show ?thesis by simp
qed

text \<open>Of every ship there is the row of its last report and no other, or none when this one has become too old.\<close>

definition latest_only :: "config \<Rightarrow> (nat \<Rightarrow> cfloat \<Rightarrow> 'v) \<Rightarrow> int \<Rightarrow> report list \<Rightarrow> 'v row list \<Rightarrow> bool" where
  "latest_only cfg col now rs xs \<longleftrightarrow> (\<forall>m. case last_report m rs of
      None \<Rightarrow> rows_of m xs = []
    | Some r \<Rightarrow> rows_of m xs = [inserted_row col r] \<or> rows_of m xs = [updated_row col r]
        \<or> rows_of m xs = [] \<and> g_mysql_oldlimit cfg > 0 \<and> rp_time r < now - g_mysql_oldlimit cfg)"

lemma latest_only_filter:
  assumes l: "latest_only cfg col now rs xs" and t: "t \<le> now" and g: "g_mysql_oldlimit cfg > 0"
  shows "latest_only cfg col now rs (filter (\<lambda>x. fst (snd x) \<ge> t - g_mysql_oldlimit cfg) xs)"
  unfolding latest_only_def
proof
  fix m
  note m = l [unfolded latest_only_def, rule_format, of m]
  show "case last_report m rs of None \<Rightarrow> rows_of m (filter (\<lambda>x. fst (snd x) \<ge> t - g_mysql_oldlimit cfg) xs) = []
    | Some r \<Rightarrow> rows_of m (filter (\<lambda>x. fst (snd x) \<ge> t - g_mysql_oldlimit cfg) xs) = [inserted_row col r]
        \<or> rows_of m (filter (\<lambda>x. fst (snd x) \<ge> t - g_mysql_oldlimit cfg) xs) = [updated_row col r]
        \<or> rows_of m (filter (\<lambda>x. fst (snd x) \<ge> t - g_mysql_oldlimit cfg) xs) = [] \<and> g_mysql_oldlimit cfg > 0 \<and> rp_time r < now - g_mysql_oldlimit cfg"
  proof (cases "last_report m rs")
    case None
    then show ?thesis using m by (simp add: rows_of_filter)
  next
    case (Some r)
    have "fst (snd (inserted_row col r)) = rp_time r" "fst (snd (updated_row col r)) = rp_time r"
      by (simp_all add: inserted_row_def updated_row_def)
    then show ?thesis using m Some t g by (cases "rp_time r \<ge> t - g_mysql_oldlimit cfg") (auto simp: rows_of_filter)
  qed
qed

lemma store_position_latest:
  assumes e: "executes lib cfg rows col A" "r \<in> A" and k: "g_mysql_keepsmall cfg \<noteq> 0" and t: "rp_time r \<le> now"
    and l: "latest_only cfg col now rs (rows (conn my))" and new: "\<forall>a \<in> set rs. rp_mmsi a = rp_mmsi r \<longrightarrow> rp_time a < rp_time r"
  shows "fst (store_position lib cfg r my) = 0 \<and> latest_only cfg col now (rs @ [r]) (rows (conn (snd (store_position lib cfg r my))))"
proof -
  define my' where "my' = (if (inserts my + 1) mod 10 = 0
      then (myout_delete_old lib cfg (rp_time r) (my\<lparr>inserts := inserts my + 1\<rparr>))\<lparr>inserts := 0\<rparr> else my\<lparr>inserts := inserts my + 1\<rparr>)"
  have s: "store_position lib cfg r my = myout_update_or_insert lib cfg (update_of lib r) (insert_of lib r) my'"
    by (simp add: store_position_def myout_ais_position_def update_of_def insert_of_def my'_def Let_def)
  have l': "latest_only cfg col now rs (rows (conn my'))"
  proof (cases "(inserts my + 1) mod 10 = 0 \<and> g_mysql_oldlimit cfg > 0")
    case True
    then show ?thesis using latest_only_filter [OF l t] delete_old_rows [OF e, of "my\<lparr>inserts := inserts my + 1\<rparr>"] by (simp add: my'_def)
  next
    case False
    then have "rows (conn my') = rows (conn my)"
      using delete_old_rows [OF e, of "my\<lparr>inserts := inserts my + 1\<rparr>"] by (simp add: my'_def)
    then show ?thesis using l by simp
  qed
  let ?m = "rp_mmsi r"
  have old: "\<forall>x \<in> set (rows_of ?m (rows (conn my'))). fst (snd x) < rp_time r"
  proof (cases "last_report ?m rs")
    case None
    then show ?thesis using l' [unfolded latest_only_def, rule_format, of ?m] by simp
  next
    case (Some a)
    then have "rp_time a < rp_time r" using new last_report_in [OF Some] by blast
    then show ?thesis using l' [unfolded latest_only_def, rule_format, of ?m] Some by (auto simp: inserted_row_def updated_row_def)
  qed
  note eff = update_or_insert_rows [OF e k old]
  have one: "length (rows_of ?m (rows (conn my'))) \<le> 1"
    using l' [unfolded latest_only_def, rule_format, of ?m] by (auto split: option.splits)
  have "latest_only cfg col now (rs @ [r]) (rows (conn (snd (store_position lib cfg r my))))"
    unfolding latest_only_def
  proof
    fix m
    show "case last_report m (rs @ [r]) of None \<Rightarrow> rows_of m (rows (conn (snd (store_position lib cfg r my)))) = []
      | Some r' \<Rightarrow> rows_of m (rows (conn (snd (store_position lib cfg r my)))) = [inserted_row col r']
          \<or> rows_of m (rows (conn (snd (store_position lib cfg r my)))) = [updated_row col r']
          \<or> rows_of m (rows (conn (snd (store_position lib cfg r my)))) = [] \<and> g_mysql_oldlimit cfg > 0 \<and> rp_time r' < now - g_mysql_oldlimit cfg"
    proof (cases "m = ?m")
      case True
      then show ?thesis using one unfolding s eff(2) last_report_snoc by (cases "rows_of ?m (rows (conn my'))") simp_all
    next
      case False
      then show ?thesis using l' [unfolded latest_only_def, rule_format, of m] unfolding s eff(2) last_report_snoc by simp
    qed
  qed
  then show ?thesis using eff(1) s by simp
qed

lemma store_positions_latest:
  assumes e: "executes lib cfg rows col A" "set rs \<subseteq> A" and k: "g_mysql_keepsmall cfg \<noteq> 0" and t: "\<forall>r \<in> set rs. rp_time r \<le> now"
    and l: "latest_only cfg col now before (rows (conn my))"
    and o: "sorted_wrt (\<lambda>a b. rp_mmsi a = rp_mmsi b \<longrightarrow> rp_time a < rp_time b) (before @ rs)"
  shows "set (fst (store_positions lib cfg rs my)) \<subseteq> {0} \<and> latest_only cfg col now (before @ rs) (rows (conn (snd (store_positions lib cfg rs my))))"
  using e(2) t l o
proof (induction rs arbitrary: before my)
  case Nil
  then show ?case by simp
next
  case (Cons r rs)
  have r: "r \<in> A" "rp_time r \<le> now" using Cons.prems by simp_all
  have n: "\<forall>a \<in> set before. rp_mmsi a = rp_mmsi r \<longrightarrow> rp_time a < rp_time r" using Cons.prems(4) by (simp add: sorted_wrt_append)
  let ?my = "snd (store_position lib cfg r my)"
  have s: "fst (store_position lib cfg r my) = 0" "latest_only cfg col now (before @ [r]) (rows (conn ?my))"
    using store_position_latest [OF e(1) r(1) k r(2) Cons.prems(3) n] by simp_all
  have "set (fst (store_positions lib cfg rs ?my)) \<subseteq> {0} \<and> latest_only cfg col now ((before @ [r]) @ rs) (rows (conn (snd (store_positions lib cfg rs ?my))))"
    by (rule Cons.IH) (use Cons.prems s in simp_all)
  then show ?case using s(1) by (simp add: split_beta Let_def)
qed

text \<open>
  C35. One row per ship. With mysql_keepsmall set, a server that executes the statements as documented, and a table that is empty before
  the first report, any sequence of position reports in which the reports of each ship have increasing times is stored without error, and
  afterwards the table has, for every ship, exactly the row of its last report (whether it was inserted or updated), and none for others;
  only a ship whose last report is older than mysql_oldlimit seconds at the end may have no row.
\<close>

theorem one_row_per_ship:
  assumes "executes lib cfg rows col (set rs)" and "g_mysql_keepsmall cfg \<noteq> 0" and "rows (conn my) = []"
    and "\<forall>r \<in> set rs. rp_time r \<le> now" and "sorted_wrt (\<lambda>a b. rp_mmsi a = rp_mmsi b \<longrightarrow> rp_time a < rp_time b) rs"
    and "store_positions lib cfg rs my = (results, my')"
  shows "set results \<subseteq> {0} \<and> (\<forall>m. case last_report m rs of
      None \<Rightarrow> rows_of m (rows (conn my')) = []
    | Some r \<Rightarrow> rows_of m (rows (conn my')) = [inserted_row col r] \<or> rows_of m (rows (conn my')) = [updated_row col r]
        \<or> rows_of m (rows (conn my')) = [] \<and> g_mysql_oldlimit cfg > 0 \<and> rp_time r < now - g_mysql_oldlimit cfg)"
proof -
  have "latest_only cfg col now [] (rows (conn my))" using assms(3) by (simp add: latest_only_def last_report_def rows_of_def)
  then have "set (fst (store_positions lib cfg rs my)) \<subseteq> {0} \<and> latest_only cfg col now ([] @ rs) (rows (conn (snd (store_positions lib cfg rs my))))"
    using assms(5) by (intro store_positions_latest [OF assms(1) subset_refl assms(2,4)]) simp_all
  then show ?thesis using assms(6) by (simp add: latest_only_def)
qed

text \<open>A small server that knows the statements of given reports, and a printing that is short.\<close>

definition print0 :: "string \<Rightarrow> parg list \<Rightarrow> string" where
  "print0 fmt args = take 1 fmt @ concat (map (\<lambda>a. case a of PInt i \<Rightarrow> replicate (nat i) CHR ''1'' @ '','' | PLit s \<Rightarrow> s @ '','' | _ \<Rightarrow> []) args)"

definition lib0 :: "(rat row list \<times> int) mysql_lib" where
  "lib0 = \<lparr>db_init = Some ([], 0), db_connect = \<lambda>h u p d c. (True, c), db_close = id, db_query = \<lambda>q c. (1, c), db_rows = snd,
     db_errno = \<lambda>c. 0, db_error = \<lambda>c. [], db_print = print0\<rparr>"

definition query0 :: "config \<Rightarrow> report list \<Rightarrow> string \<Rightarrow> rat row list \<times> int \<Rightarrow> int \<times> (rat row list \<times> int)" where
  "query0 cfg rs q c = (let col = (\<lambda>n x. x); xs = fst c in
     case find (\<lambda>r. insert_of lib0 r = q) rs of Some r \<Rightarrow> (0, xs @ [inserted_row col r], 1)
     | None \<Rightarrow> (case find (\<lambda>r. update_of lib0 r = q) rs of
         Some r \<Rightarrow> (0, map (\<lambda>x. if fst x = rp_mmsi r then updated_row col r else x) xs,
           int (length (filter (\<lambda>x. fst x = rp_mmsi r \<and> x \<noteq> updated_row col r) xs)))
       | None \<Rightarrow> (case find (\<lambda>r. delete_sql lib0 cfg (rp_time r) ''ais_position'' = q) rs of
           Some r \<Rightarrow> (0, filter (\<lambda>x. fst (snd x) \<ge> rp_time r - g_mysql_oldlimit cfg) xs, 0)
         | None \<Rightarrow> (0, xs, 0))))"

definition server0 :: "config \<Rightarrow> report list \<Rightarrow> (rat row list \<times> int) mysql_lib" where
  "server0 cfg rs = lib0\<lparr>db_query := query0 cfg rs\<rparr>"

lemma server0_texts:
  "insert_of (server0 cfg rs) = insert_of lib0" "update_of (server0 cfg rs) = update_of lib0" "delete_sql (server0 cfg rs) = delete_sql lib0"
  by (simp_all add: fun_eq_iff insert_of_def update_of_def delete_sql_def insert_position_def update_position_def sql_def server0_def)

definition reports0 :: "report list" where
  "reports0 = map (\<lambda>(t, m). \<lparr>rp_time = t, rp_mmsi = m, rp_lat = 59, rp_lon = 10, rp_heading = 90, rp_course = 91, rp_speed = 12\<rparr>) [(4, 2), (4, 3), (5, 2)]"

definition db_config :: config where
  "db_config = (config0 fresh_disk (\<lambda>_. 0))\<lparr>g_mysql_keepsmall := 1, g_mysql_oldlimit := 2\<rparr>"

lemma replicate_numeral: "replicate (numeral n) x = x # replicate (pred_numeral n) x"
  by (simp add: numeral_eq_Suc)

lemma server0_executes: "executes (server0 db_config reports0) db_config fst (\<lambda>n x. x) (set reports0)"
  unfolding executes_def server0_texts
  by (auto simp: reports0_def server0_def lib0_def query0_def insert_of_def update_of_def insert_position_def update_position_def delete_sql_def
      sql_def print0_def MAX_SQL_LEN_def db_config_def replicate_numeral Let_def)

theorem one_row_per_ship_witness:
  "\<exists>my'. store_positions (server0 db_config reports0) db_config reports0 \<lparr>conn = ([], 0), connected = 1, inserts = 8, my_log = []\<rparr> = ([0, 0, 0], my')
    \<and> (\<exists>x. rows_of 2 (fst (conn my')) = [(2, 5, x)])"
proof -
  let ?s = "server0 db_config reports0" and ?my = "\<lparr>conn = ([], 0), connected = 1, inserts = 8, my_log = []\<rparr>"
  obtain results my' where run: "store_positions ?s db_config reports0 ?my = (results, my')" by fastforce
  have k: "g_mysql_keepsmall db_config \<noteq> 0" "g_mysql_oldlimit db_config = 2" by (simp_all add: db_config_def)
  have "set results \<subseteq> {0}" and m: "\<forall>m. case last_report m reports0 of
      None \<Rightarrow> rows_of m (fst (conn my')) = []
    | Some r \<Rightarrow> rows_of m (fst (conn my')) = [inserted_row (\<lambda>n x. x) r] \<or> rows_of m (fst (conn my')) = [updated_row (\<lambda>n x. x) r]
        \<or> rows_of m (fst (conn my')) = [] \<and> g_mysql_oldlimit db_config > 0 \<and> rp_time r < 5 - g_mysql_oldlimit db_config"
    using one_row_per_ship [OF server0_executes k(1) _ _ _ run, of 5] by (simp_all add: reports0_def)
  moreover have "length results = 3" using run by (auto simp: reports0_def split_beta Let_def)
  ultimately have r: "results = [0, 0, 0]" by (auto simp: numeral_eq_Suc length_Suc_conv)
  have "last_report 2 reports0 = Some \<lparr>rp_time = 5, rp_mmsi = 2, rp_lat = 59, rp_lon = 10, rp_heading = 90, rp_course = 91, rp_speed = 12\<rparr>"
    by (simp add: last_report_def reports0_def)
  then have "\<exists>x. rows_of 2 (fst (conn my')) = [(2, 5, x)]"
    using m [rule_format, of 2] k(2) by (auto simp: inserted_row_def updated_row_def)
  then show ?thesis using run r by blast
qed

text \<open>
  The times must increase. Of two equal reports in one second the second one changes no row, so that it is inserted: the ship has two rows.
\<close>

lemma same_report_twice:
  assumes "executes lib cfg rows col {r}" and "g_mysql_keepsmall cfg \<noteq> 0" and "rows (conn my) = [updated_row col r]" and "inserts my = 0"
  shows "rows (conn (snd (store_position lib cfg r my))) = [updated_row col r, inserted_row col r]"
proof -
  have u: "fst (db_query lib (update_of lib r) db) = 0"
      "rows (snd (db_query lib (update_of lib r) db)) = map (\<lambda>x. if fst x = rp_mmsi r then updated_row col r else x) (rows db)"
      "db_rows lib (snd (db_query lib (update_of lib r) db)) = int (length (filter (\<lambda>x. fst x = rp_mmsi r \<and> x \<noteq> updated_row col r) (rows db)))"
      "fst (db_query lib (insert_of lib r) db) = 0" "rows (snd (db_query lib (insert_of lib r) db)) = rows db @ [inserted_row col r]" for db
    using assms(1) unfolding executes_def by blast+
  show ?thesis unfolding store_position_def myout_ais_position_def insert_of_def [symmetric] update_of_def [symmetric]
    using u assms(2-4) by (simp add: myout_update_or_insert_def myout_insert_def run_query_def split_beta Let_def)
qed

end
