(* ===== verification/Ipc.thy ===== *)
theory Ipc
  imports Nmea
begin

text \<open>
  ipc.c: the socket to which the map programs connect. A thread accepts connections into an array, and the decoder writes to all of them;
  each of the two holds the mutex of the array for its step, so that a run is a sequence of accepted connections and writes in any order.
\<close>

section \<open>State\<close>

definition MAX_CLIENT_SOCKETS :: nat where
  "MAX_CLIENT_SOCKETS = 20"

text \<open>With the array, whether the thread still listens, and what has been written to which connection.\<close>

record ipc_state =
  numclientsockets :: nat
  clientsocket :: "int list"
  listening :: bool
  written :: "(int \<times> u8 list) list"

text \<open>The answers to the calls at the start; the array is not initialised. None is the null pointer.\<close>

record ipc_calls =
  c_socket :: int
  c_bind :: int
  c_listen :: int
  c_thread :: int

definition gnuais_ipc_startthread :: "ipc_calls \<Rightarrow> ipc_state \<Rightarrow> int \<times> ipc_state" where
  "gnuais_ipc_startthread c pc = (if c_thread c \<noteq> 0 then (-1, pc) else (0, pc\<lparr>listening := True\<rparr>))"

definition gnuais_ipc_init :: "ipc_calls \<Rightarrow> int list \<Rightarrow> ipc_state option" where
  "gnuais_ipc_init c fresh =
     (let s = \<lparr>numclientsockets = 0, clientsocket = fresh, listening = False, written = []\<rparr> in
      if c_socket c < 0 then None
      else if c_bind c \<noteq> 0 then None
      else if c_listen c \<noteq> 0 then None
      else let (r, s) = gnuais_ipc_startthread c s in if r \<noteq> 0 then None else Some s)"

section \<open>Connections and writes\<close>

text \<open>One round of the loop: what \<^verbatim>\<open>accept\<close> returned, also the number of the connection for which the loop ends.\<close>

definition gnuais_ipc_socketlistener :: "int \<Rightarrow> ipc_state \<Rightarrow> ipc_state option" where
  "gnuais_ipc_socketlistener connection_fd pc =
     (if \<not> listening pc then Some pc
      else if connection_fd > -1 \<and> numclientsockets pc < MAX_CLIENT_SOCKETS - 2 then do {
        sockets \<leftarrow> arr_set (clientsocket pc) (numclientsockets pc) connection_fd;
        Some (pc\<lparr>clientsocket := sockets, numclientsockets := numclientsockets pc + 1\<rparr>)
      } else Some (pc\<lparr>listening := False\<rparr>))"

text \<open>Whether a client has gone is only logged: the connection stays in the array.\<close>

function write_clients :: "u8 list \<Rightarrow> nat \<Rightarrow> ipc_state \<Rightarrow> ipc_state option" where
  "write_clients bytes i pc =
     (if i < numclientsockets pc then do {
        fd \<leftarrow> arr_get (clientsocket pc) i;
        write_clients bytes (i + 1) (pc\<lparr>written := written pc @ [(fd, bytes)]\<rparr>)
      } else Some pc)"
  by pat_completeness auto
termination by (relation "measure (\<lambda>(bytes, i, pc). numclientsockets pc - i)") auto

declare write_clients.simps [simp del]

definition ipc_write :: "u8 list \<Rightarrow> nat \<Rightarrow> ipc_state \<Rightarrow> (int \<times> ipc_state) option" where
  "ipc_write buf buflength pc = do {
     s \<leftarrow> cstr_of buf;
     if buflength \<le> length buf then do {
       pc \<leftarrow> write_clients (take buflength buf) 0 pc;
       Some (0, pc)
     } else None
   }"

text \<open>The end: the thread's \<^verbatim>\<open>accept\<close> fails, and the state is freed (none is left) unless waiting for the thread fails.\<close>

definition gnuais_ipc_deinit :: "int \<Rightarrow> ipc_state \<Rightarrow> ipc_state option" where
  "gnuais_ipc_deinit join pc = (let pc = pc\<lparr>listening := False\<rparr> in if join \<noteq> 0 then Some pc else None)"

section \<open>Everybody who has connected hears what is written then\<close>

datatype ipc_step = Connect int | Write "u8 list" nat

fun ipc_run :: "ipc_step list \<Rightarrow> ipc_state \<Rightarrow> ipc_state option" where
  "ipc_run [] pc = Some pc"
| "ipc_run (Connect fd # xs) pc = do { pc \<leftarrow> gnuais_ipc_socketlistener fd pc; ipc_run xs pc }"
| "ipc_run (Write b n # xs) pc = do { (r, pc) \<leftarrow> ipc_write b n pc; ipc_run xs pc }"

text \<open>The specification: the clients are the first 18 connections before a failure of \<^verbatim>\<open>accept\<close>.\<close>

fun clients_after :: "ipc_step list \<Rightarrow> int list \<Rightarrow> bool \<Rightarrow> int list \<times> bool" where
  "clients_after [] cs l = (cs, l)"
| "clients_after (Connect fd # xs) cs l =
     (if l \<and> fd \<ge> 0 \<and> length cs < 18 then clients_after xs (cs @ [fd]) l else clients_after xs cs False)"
| "clients_after (Write b n # xs) cs l = clients_after xs cs l"

fun deliveries :: "ipc_step list \<Rightarrow> int list \<Rightarrow> bool \<Rightarrow> (int \<times> u8 list) list" where
  "deliveries [] cs l = []"
| "deliveries (Connect fd # xs) cs l = (let (cs, l) = clients_after [Connect fd] cs l in deliveries xs cs l)"
| "deliveries (Write b n # xs) cs l = map (\<lambda>fd. (fd, take n b)) cs @ deliveries xs cs l"

definition ipc_rep :: "ipc_state \<Rightarrow> int list \<Rightarrow> bool \<Rightarrow> bool" where
  "ipc_rep pc cs l \<longleftrightarrow> length (clientsocket pc) = MAX_CLIENT_SOCKETS \<and> numclientsockets pc = length cs \<and> length cs \<le> 18
     \<and> take (length cs) (clientsocket pc) = cs \<and> listening pc = l"

lemma write_clients_all:
  assumes "ipc_rep pc cs l" "i \<le> length cs"
  shows "write_clients bytes i pc = Some (pc\<lparr>written := written pc @ map (\<lambda>fd. (fd, bytes)) (drop i cs)\<rparr>)"
  using assms
proof (induction "length cs - i" arbitrary: i pc)
  case 0
  then show ?case by (subst write_clients.simps) (simp add: ipc_rep_def)
next
  case (Suc k)
  then have i: "i < length cs" by simp
  have g: "arr_get (clientsocket pc) i = Some (cs ! i)"
    using Suc.prems(1) i unfolding ipc_rep_def MAX_CLIENT_SOCKETS_def by (metis arr_get_Some le_trans length_take min.cobounded1 nth_take order_less_le_trans)
  have "write_clients bytes (i + 1) (pc\<lparr>written := written pc @ [(cs ! i, bytes)]\<rparr>) =
      Some (pc\<lparr>written := written pc @ [(cs ! i, bytes)]\<rparr>\<lparr>written := written (pc\<lparr>written := written pc @ [(cs ! i, bytes)]\<rparr>)
        @ map (\<lambda>fd. (fd, bytes)) (drop (i + 1) cs)\<rparr>)"
    using Suc.hyps(2) Suc.prems i by (intro Suc.hyps(1)) (simp_all add: ipc_rep_def)
  moreover have "numclientsockets pc = length cs" using Suc.prems(1) by (simp add: ipc_rep_def)
  ultimately show ?case using i g by (subst write_clients.simps) (simp add: Cons_nth_drop_Suc [of i cs, symmetric])
qed

lemma ipc_run_deliveries:
  assumes "ipc_rep pc cs l" "\<forall>b n. Write b n \<in> set xs \<longrightarrow> 0 \<in> set b \<and> n \<le> length b"
  shows "\<exists>pc'. ipc_run xs pc = Some pc' \<and> written pc' = written pc @ deliveries xs cs l
    \<and> ipc_rep pc' (fst (clients_after xs cs l)) (snd (clients_after xs cs l))"
  using assms
proof (induction xs arbitrary: pc cs l)
  case Nil
  then show ?case by simp
next
  case (Cons x xs)
  have w: "\<forall>b n. Write b n \<in> set xs \<longrightarrow> 0 \<in> set b \<and> n \<le> length b" using Cons.prems(2) by simp
  note rep = Cons.prems(1)
  show ?case
  proof (cases x)
    case (Connect fd)
    show ?thesis
    proof (cases "l \<and> fd \<ge> 0 \<and> length cs < 18")
      case True
      let ?pc = "pc\<lparr>clientsocket := (clientsocket pc)[length cs := fd], numclientsockets := length cs + 1\<rparr>"
      have "gnuais_ipc_socketlistener fd pc = Some ?pc"
        using rep True by (simp add: gnuais_ipc_socketlistener_def ipc_rep_def MAX_CLIENT_SOCKETS_def)
      moreover have "ipc_rep ?pc (cs @ [fd]) l"
        using rep True by (simp add: ipc_rep_def MAX_CLIENT_SOCKETS_def take_Suc_conv_app_nth)
      ultimately show ?thesis using Cons.IH [of ?pc "cs @ [fd]" l] w Connect True by simp
    next
      case False
      let ?pc = "pc\<lparr>listening := False\<rparr>"
      have "gnuais_ipc_socketlistener fd pc = Some ?pc"
        using rep False by (auto simp: gnuais_ipc_socketlistener_def ipc_rep_def MAX_CLIENT_SOCKETS_def)
      moreover have "ipc_rep ?pc cs False" using rep by (simp add: ipc_rep_def)
      moreover have "clients_after (x # xs) cs l = clients_after xs cs False" "deliveries (x # xs) cs l = deliveries xs cs False"
        unfolding Connect by (simp_all only: clients_after.simps deliveries.simps False if_False Let_def prod.case)
      ultimately show ?thesis using Cons.IH [of ?pc cs False] w Connect by simp
    qed
  next
    case (Write b n)
    then have b: "0 \<in> set b" "n \<le> length b" using Cons.prems(2) by simp_all
    let ?pc = "pc\<lparr>written := written pc @ map (\<lambda>fd. (fd, take n b)) cs\<rparr>"
    have "ipc_write b n pc = Some (0, ?pc)"
      using write_clients_all [OF rep, of 0 "take n b"] b by (simp add: ipc_write_def cstr_of_def)
    moreover have "ipc_rep ?pc cs l" using rep by (simp add: ipc_rep_def)
    ultimately show ?thesis using Cons.IH [of ?pc cs l] w Write by simp
  qed
qed

text \<open>
  C36. The map programs. From a successful start on, whatever the order of connections and sentences, the array of connections is never
  overrun, and each sentence is written, whole and in order, to exactly the connections accepted before it, of which there are at most 18;
  a connection beyond these is not served, nor is any after it.
\<close>

theorem ipc_broadcast:
  assumes "gnuais_ipc_init c fresh = Some pc" and "length fresh = MAX_CLIENT_SOCKETS"
    and "\<forall>b n. Write b n \<in> set xs \<longrightarrow> 0 \<in> set b \<and> n \<le> length b"
  shows "\<exists>pc'. ipc_run xs pc = Some pc' \<and> written pc' = deliveries xs [] True \<and> numclientsockets pc' \<le> 18
    \<and> take (numclientsockets pc') (clientsocket pc') = fst (clients_after xs [] True)"
proof -
  have "pc = \<lparr>numclientsockets = 0, clientsocket = fresh, listening = True, written = []\<rparr>"
    using assms(1) by (auto simp: gnuais_ipc_init_def gnuais_ipc_startthread_def Let_def split: if_splits)
  then have "ipc_rep pc [] True" "written pc = []" using assms(2) by (simp_all add: ipc_rep_def)
  then show ?thesis using ipc_run_deliveries [of pc "[]" True xs] assms(3) by (auto simp: ipc_rep_def)
qed

theorem ipc_broadcast_witness:
  "\<exists>pc pc'. gnuais_ipc_init \<lparr>c_socket = 3, c_bind = 0, c_listen = 0, c_thread = 0\<rparr> (replicate 20 (-7)) = Some pc
    \<and> ipc_run [Connect 5, Write [33, 65, 0] 2, Connect 6, Write [66, 0] 1] pc = Some pc'
    \<and> written pc' = [(5, [33, 65]), (5, [66]), (6, [66])]"
proof -
  let ?c = "\<lparr>c_socket = 3, c_bind = 0, c_listen = 0, c_thread = 0\<rparr>" and ?xs = "[Connect 5, Write [33, 65, 0] 2, Connect 6, Write [66, 0] 1]"
  obtain pc where i: "gnuais_ipc_init ?c (replicate 20 (-7)) = Some pc"
    by (simp add: gnuais_ipc_init_def gnuais_ipc_startthread_def Let_def)
  have w: "\<forall>b n. Write b n \<in> set ?xs \<longrightarrow> 0 \<in> set b \<and> n \<le> length b" by auto
  have l: "length (replicate 20 (-7 :: int)) = MAX_CLIENT_SOCKETS" by (simp add: MAX_CLIENT_SOCKETS_def)
  obtain pc' where "ipc_run ?xs pc = Some pc'" "written pc' = deliveries ?xs [] True"
    using ipc_broadcast [OF i l w] by blast
  then show ?thesis using i by (intro exI [of _ pc] exI [of _ pc']) simp
qed

text \<open>A connection beyond the limit ends the listening for good and is neither stored nor closed.\<close>

lemma connection_beyond_limit:
  assumes "ipc_rep pc cs True" "length cs = 18" "fd \<ge> 0"
  shows "gnuais_ipc_socketlistener fd pc = Some (pc\<lparr>listening := False\<rparr>)"
  using assms by (simp add: gnuais_ipc_socketlistener_def ipc_rep_def MAX_CLIENT_SOCKETS_def)

end
