(* ===== verification/Spec2Isabelle.thy ===== *)
theory Spec2Isabelle
  imports Air Station Jsonout Rwlock Gui Symbols Splay_Scan Hlog Mysql Ipc
begin

text \<open>
  Verification of gnuais, a receiver for the Automatic Identification System of ships. The program reads samples of a radio
  receiver's sound output, demodulates them (GMSK, 9600 bits per second, five samples per bit), takes the HDLC frames apart,
  decodes the messages of ITU-R M.1371 in them, and hands on what it has learnt: as NMEA sentences to a serial port and to a map
  program, as statements to a database, and once a minute as JSON text to web services.

  The parts and how they interact. The main program (ais.c) reads the configuration (cfg.c, cfgfile.c), opens the source of sound
  (input.c, pulseaudio.c or a file) and gives every buffer to one or two receivers (receiver.c), each with its filter (filter.c) and
  its decoder (protodec.c). A decoder puts the updates of a good message into the cache (cache.c), which is a splay tree with a node
  per ship (splay.c), writes the sentences and calls the statistics of the range (range.c). A second thread (out_json.c) exchanges
  the cache for an empty one, empties the old one and posts the text. Logging (hlog.c) uses the lock of rwlock.c.

  Conventions. A function of the source is a definition of the same name. State is passed explicitly: a struct is a record, a
  global variable a component of the record of the part that owns it. \<open>None\<close> as a result stands for undefined behaviour of the C
  source (access outside an array, a null pointer, signed overflow where it is not written out), so that a theorem which gives
  \<open>Some\<close> is a safety theorem. Error codes are results, as they are in the source. Unsigned machine integers are words; an
  \<^verbatim>\<open>int\<close> is an integer whose wrap-around is written out where it can occur (\<open>Prelude.wrap32\<close>). Loops over arrays are structural
  recursion; loops that need an argument are functions with a measure; loops whose end depends on the outside (the copy of a file,
  the main loop, the export thread) are partial functions into \<^typ>\<open>'a option\<close>, where \<open>None\<close> also means that the loop never
  ends, and that they return is part of the theorems about them. So are the loops along the links of a tree or a chain, which end on
  the heaps that represent one. There is no fuel anywhere.
\<close>

section \<open>The theories\<close>

text \<open>
  \<^item> \<open>Prelude\<close>: integer types, checked array access, C strings, the collections of facts. \<open>CFloat\<close>: the float and double values of the
    sources as rational numbers that are rounded after every operation (IEEE 754, round to nearest even), with the error bound.
  \<^item> \<open>Sdlc_Crc\<close> (protodec.c: \<^verbatim>\<open>protodec_sdlc_crc\<close>): equality with the shift register of the reflected CRC-16, that exactly the
    check sequence of a message is accepted behind it, and the detection of every corruption within 16 bits.
  \<^item> \<open>Bitfield\<close> (protodec.c: \<^verbatim>\<open>protodec_henten\<close>, the six-bit text fields): numbers and texts that were written into a frame are read
    back; reading behind the frame is undefined.
  \<^item> \<open>Ais_World\<close>, \<open>Messages\<close>, \<open>Reports\<close> (protodec.c: the handlers \<^verbatim>\<open>protodec_1\<close> to \<^verbatim>\<open>protodec_24\<close>; range.c): the handlers are
    translated with all their calls; \<open>Reports\<close> describes what they do by a list of cache operations and shows that they are
    defined on every frame. \<open>Ais_Encode\<close> is the transmitter's side: the reports as lists of fields, and what arrives of them.
  \<^item> \<open>Nmea\<close> (\<^verbatim>\<open>protodec_generate_nmea\<close>): the sentences are well formed, of legal length, and carry the message.
  \<^item> \<open>Protodec\<close> (\<^verbatim>\<open>protodec_decode\<close>, \<^verbatim>\<open>protodec_getdata\<close>, \<^verbatim>\<open>protodec_calculate_crc\<close>): the state machine bit by bit; its invariant
    and safety on every input. \<open>Hdlc\<close>: a transmitter with stuffing, flags and frame check; frames and streams of frames are received,
    of frames with any bits between the flags exactly those with a right check sequence, and the case in which a good one is missed. \<open>Decoder_Core\<close>: the result of a
    decoder does not depend on the clock, the cache or the other channel.
  \<^item> \<open>Fir\<close> (filter.c): the filter is a convolution. \<open>Receiver\<close> (receiver.c): safety of a channel, the rate of its bit clock, and
    reception of any number of frames keyed in NRZI code, with idle times of any length between them and cut into buffers anywhere. \<open>Air\<close>: from a ship's report to the cache.
  \<^item> \<open>Splay\<close>, \<open>Splay_Correct\<close>, \<open>Splay_Insert\<close>, \<open>Splay_Store\<close> (splay.c): the linked nodes are a heap of records; a heap represents an
    abstract tree, every operation is shown on this representation, and the result is the contract of a keyed store
    (locale \<open>keyed_store\<close>, which by a sublocale gives the contract \<open>record_store\<close> of a store with one record per key). \<open>sps\<close> is its
    interpretation on the splay trees. \<open>Splay_Scan\<close>: the scan in ascending order and the statistics.
  \<^item> \<open>Symbols\<close> (spsymbol.c, crc32.c): the symbol table, a splay tree of chains of strings; every run of its operations is the run on
    a set of strings, whatever collides. Shown as well: the 32-bit key cuts an address that is longer.
  \<^item> \<open>Cache\<close> (cache.c): the operations over the store; interpretations \<open>cachemap\<close> and \<open>rotated\<close> of \<open>record_store\<close>, on which the property about
    the export rests.
  \<^item> \<open>Cfgfile\<close>, \<open>Cfgread\<close> (cfgfile.c): the in-place splitting of a line against a specification of the arguments it denotes, the
    value handlers, the directive search, the copying of a file over a small model of the file system calls. \<open>Config\<close> (cfg.c and
    the tables of hlog.c): the directives, the defaults, the command line; what the lines of a file say about skipped types, channels and uplinks
    (\<open>line_skips\<close>, \<open>line_channels\<close>, \<open>line_uplinks\<close>) is what is in force after it was read, and the configuration stays well formed.
  \<^item> \<open>Jsonout\<close> (out_json.c): the pass over the cache, the text, the posts, the thread.
  \<^item> \<open>Rwlock\<close> (rwlock.c): the operations as atomic steps of any number of threads; exclusion and no lost wake-up as invariants of
    all interleavings. \<open>Hlog\<close> (hlog.c): the log and the access log on two such locks, as one thread uses them: no sequence of calls waits
    for itself or is undefined, except that a line longer than the buffer is read behind its end, and only the failure to open the log
    file ends the process.
  \<^item> \<open>Station\<close> (ais.c after the configuration, input.c, pulseaudio.c): the main loop with all its sources of sound; what is
    reported for each channel is what its decoder makes of its signal.
  \<^item> \<open>Gui\<close> (gui/gui.c: \<^verbatim>\<open>threaden\<close>, \<^verbatim>\<open>aisdecode\<close>, \<^verbatim>\<open>updateship\<close>): the map program's side of the connection: the sentence is found in what
    was read, its payload decoded, the list of ships updated; with \<open>Hdlc\<close> and \<open>Nmea\<close>, from the ship to the map. Shown as well: a read
    that fills the buffer writes behind it, and a second sentence in one read is lost.
\<close>

text \<open>
  \<^item> \<open>Mysql\<close> (out_mysql.c): the statements and what is done about their failures, over a library and a server that are parameters; of a
    server that executes the statements as documented (\<open>executes\<close>), the table keeps one row per ship. Shown as well: of two equal reports
    in a second the second one is inserted again.
  \<^item> \<open>Ipc\<close> (ipc.c): accepted connections and writes in any order; every sentence reaches the connections accepted before it.
\<close>

section \<open>Not modelled\<close>

text \<open>
  \<^item> The windows and the drawing of the map program (gui/gui.c outside the functions above, gui/osm-gps-map-ais.c, gui/private.h,
    gui/osd-utils.h): calls of GTK, cairo and the map widget, whose sources are not part of the program.
  \<^item> The serial port (serial.c): terminal settings and one write. What the decoder passes to it is part of the model's output
    (\<open>Ais_World\<close>).
  \<^item> Logging where the other modelled code logs: a message changes nothing that is read again.
  \<^item> hmalloc.c: memory is never short in the model, as the wrappers end the process when it is.
  \<^item> filter-i386.h: inline assembler for one machine; the model is the C loop that is used everywhere else.
  \<^item> Starting and joining threads, signals, \<^verbatim>\<open>getopt\<close>, the calendar, the formatted printing of floating point numbers, libcurl, the
    sound libraries: calls of libraries, whose answers are parameters where the code depends on them.
\<close>

end
